(* ===== verification/Prelude.thy ===== *)
theory Prelude
  imports Main "HOL-Library.Word" "HOL-Library.AList_Mapping"
begin

text \<open>
  Generic material the component theories share: Go's \<open>int64\<close> arithmetic, Go maps
  (with the nil map a write panics on), the binary search of \<open>sort.Search\<close>, and lemmas on
  lists that are updated or cut by index.
\<close>

section \<open>Byte strings and machine integers\<close>

text \<open>
  A Go \<open>string\<close> and a \<open>[]byte\<close> are byte sequences; an Isabelle \<open>char\<close> is one
  byte. A slice that may be nil (a payload, the rendered bytes) is an option: None is nil.
\<close>

type_synonym bytestr = string
type_synonym raw = "string option"
type_synonym u64 = "64 word"

definition rawlen :: "raw \<Rightarrow> int" where
  "rawlen p = (case p of None \<Rightarrow> 0 | Some s \<Rightarrow> int (length s))"

definition raw_bytes :: "raw \<Rightarrow> bytestr" where
  "raw_bytes p = (case p of None \<Rightarrow> [] | Some s \<Rightarrow> s)"

lemma rawlen_simps [simp]: "rawlen None = 0" "rawlen (Some s) = int (length s)"
  by (simp_all add: rawlen_def)

lemma raw_bytes_simps [simp]: "raw_bytes None = []" "raw_bytes (Some s) = s"
  by (simp_all add: raw_bytes_def)

lemma rawlen_nonneg [simp]: "0 \<le> rawlen p"
  by (cases p) simp_all

text \<open>
  \<open>int64\<close> values are integers; an addition the code performs on them is wrapped into
  the two's-complement range by \<open>wrap64\<close>.
\<close>

definition wrap64 :: "int \<Rightarrow> int" where
  "wrap64 x = signed_take_bit 63 x"

definition MaxInt64 :: int where "MaxInt64 = 9223372036854775807"
definition MinInt64 :: int where "MinInt64 = - 9223372036854775808"

lemma wrap64_id: "MinInt64 \<le> x \<Longrightarrow> x \<le> MaxInt64 \<Longrightarrow> wrap64 x = x"
  unfolding wrap64_def MinInt64_def MaxInt64_def
  by (rule signed_take_bit_int_eq_self) simp_all

lemma wrap64_nonneg_id: "0 \<le> x \<Longrightarrow> x \<le> MaxInt64 \<Longrightarrow> wrap64 x = x"
  by (rule wrap64_id) (simp_all add: MinInt64_def)

lemma wrap64_over: "MaxInt64 < x \<Longrightarrow> x \<le> 2 * MaxInt64 + 1 \<Longrightarrow> wrap64 x = x - 2 ^ 64"
proof -
  assume x: "MaxInt64 < x" "x \<le> 2 * MaxInt64 + 1"
  have "take_bit 64 (x - 2 ^ 64) = take_bit 64 x" by (simp add: take_bit_eq_mod)
  then have "wrap64 x = wrap64 (x - 2 ^ 64)"
    unfolding wrap64_def by (simp add: signed_take_bit_eq_iff_take_bit_eq)
  also have "\<dots> = x - 2 ^ 64" using x by (intro wrap64_id) (auto simp: MinInt64_def MaxInt64_def)
  finally show ?thesis .
qed

lemma wrap64_sum:
  "0 \<le> x \<Longrightarrow> x \<le> 2 * MaxInt64 + 1 \<Longrightarrow> wrap64 x = (if x \<le> MaxInt64 then x else x - 2 ^ 64)"
  by (simp add: wrap64_nonneg_id wrap64_over)

lemma wrap64_range: "MinInt64 \<le> wrap64 x \<and> wrap64 x \<le> MaxInt64"
proof -
  have "wrap64 x < 2 ^ 63" and "- (2 ^ 63) \<le> wrap64 x"
    unfolding wrap64_def
    by (rule signed_take_bit_int_less_exp, rule signed_take_bit_int_greater_eq_minus_exp)
  then show ?thesis by (simp add: MinInt64_def MaxInt64_def)
qed

lemma word_less_Suc: "w \<noteq> - 1 \<Longrightarrow> w < w + (1::u64)"
  using inc_less_eq_iff [of w "w + 1"] by simp

section \<open>Go maps\<close>

text \<open>
  A Go map is nil or a table. Reading, deleting and measuring a nil map is defined; assigning to
  one of its entries panics, which \<open>gm_set\<close> reports as None.
\<close>

type_synonym ('k, 'v) gomap = "('k, 'v) mapping option"

definition gm_get :: "('k, 'v) gomap \<Rightarrow> 'k \<Rightarrow> 'v option" where
  "gm_get m k = (case m of None \<Rightarrow> None | Some f \<Rightarrow> Mapping.lookup f k)"

definition gm_set :: "('k, 'v) gomap \<Rightarrow> 'k \<Rightarrow> 'v \<Rightarrow> ('k, 'v) gomap option" where
  "gm_set m k v = (case m of None \<Rightarrow> None | Some f \<Rightarrow> Some (Some (Mapping.update k v f)))"

definition gm_put :: "('k, 'v) gomap \<Rightarrow> 'k \<Rightarrow> 'v \<Rightarrow> ('k, 'v) gomap" where
  \<comment> \<open>make the map first when it is nil, then assign: the lazy-init write\<close>
  "gm_put m k v = Some (Mapping.update k v (case m of None \<Rightarrow> Mapping.empty | Some f \<Rightarrow> f))"

definition gm_del :: "('k, 'v) gomap \<Rightarrow> 'k \<Rightarrow> ('k, 'v) gomap" where
  "gm_del m k = map_option (Mapping.delete k) m"

definition gm_len :: "('k, 'v) gomap \<Rightarrow> int" where
  "gm_len m = (case m of None \<Rightarrow> 0 | Some f \<Rightarrow> int (Mapping.size f))"

lemma lookup_update_fun: "Mapping.lookup (Mapping.update k v m) = (Mapping.lookup m)(k \<mapsto> v)"
  by transfer simp

lemma lookup_delete_fun: "Mapping.lookup (Mapping.delete k m) = (Mapping.lookup m)(k := None)"
  by transfer simp

lemma lookup_empty_fun: "Mapping.lookup Mapping.empty = Map.empty"
  by transfer simp

lemma gm_get_None [simp]: "gm_get None = (\<lambda>_. None)"
  by (simp add: gm_get_def fun_eq_iff)

lemma gm_get_Some [simp]: "gm_get (Some f) = Mapping.lookup f"
  by (simp add: gm_get_def fun_eq_iff)

lemma gm_get_put [simp]: "gm_get (gm_put m k v) = (gm_get m)(k \<mapsto> v)"
  by (cases m) (simp_all add: gm_put_def lookup_update_fun lookup_empty_fun fun_eq_iff)

lemma gm_get_del [simp]: "gm_get (gm_del m k) = (gm_get m)(k := None)"
  by (cases m) (simp_all add: gm_del_def lookup_delete_fun fun_eq_iff)

lemma gm_set_get: "gm_get m k = Some v \<Longrightarrow> gm_set m j w = Some (gm_put m j w)"
  by (cases m) (simp_all add: gm_set_def gm_put_def)

lemma gm_len_dom: "gm_len m = int (card (dom (gm_get m)))"
  by (cases m) (simp_all add: gm_len_def Mapping.size_def keys_dom_lookup)

text \<open>Assigning a list of entries, one after the other.\<close>

definition put_all :: "('k \<times> 'v) list \<Rightarrow> ('k, 'v) mapping \<Rightarrow> ('k, 'v) mapping" where
  "put_all xs m = fold (\<lambda>(k, v). Mapping.update k v) xs m"

lemma put_all_simps [simp]: "put_all [] m = m" "put_all ((k, v) # xs) m = put_all xs (Mapping.update k v m)"
  by (simp_all add: put_all_def)

lemma lookup_put_all: "Mapping.lookup (put_all xs m) = Mapping.lookup m ++ map_of (rev xs)"
proof (induction xs arbitrary: m)
  case (Cons p xs)
  obtain k v where p: "p = (k, v)" by (metis surj_pair)
  have "Mapping.lookup m ++ ([k \<mapsto> v] ++ map_of (rev xs)) = (Mapping.lookup m ++ [k \<mapsto> v]) ++ map_of (rev xs)"
    by (rule map_add_assoc)
  moreover have "Mapping.lookup (put_all (p # xs) m) = (Mapping.lookup m)(k \<mapsto> v) ++ map_of (rev xs)"
    by (simp only: p put_all_simps Cons.IH lookup_update_fun)
  ultimately show ?case by (simp add: p)
qed simp

section \<open>Binary search\<close>

text \<open>The loop of \<open>sort.Search\<close>: the least index in [i, j) the monotone test holds at, or j.\<close>

function search_loop :: "(nat \<Rightarrow> bool) \<Rightarrow> nat \<Rightarrow> nat \<Rightarrow> nat" where
  "search_loop f i j =
     (if i < j then
        (let h = (i + j) div 2 in
         if \<not> f h then search_loop f (h + 1) j else search_loop f i h)
      else i)"
  by pat_completeness auto
termination
  by (relation "measure (\<lambda>(f, i, j). j - i)") auto

declare search_loop.simps [simp del]

definition sort_Search :: "nat \<Rightarrow> (nat \<Rightarrow> bool) \<Rightarrow> nat" where
  "sort_Search n f = search_loop f 0 n"

lemma search_loop_least:
  assumes "i \<le> j" "j \<le> n"
    and "\<And>a b. a \<le> b \<Longrightarrow> b < n \<Longrightarrow> f a \<Longrightarrow> f b"
    and "\<forall>k < i. \<not> f k" "\<forall>k. j \<le> k \<and> k < n \<longrightarrow> f k"
  shows "search_loop f i j \<le> n \<and> (\<forall>k < search_loop f i j. \<not> f k) \<and>
         (\<forall>k. search_loop f i j \<le> k \<and> k < n \<longrightarrow> f k)"
  using assms
proof (induction f i j rule: search_loop.induct)
  case (1 f i j)
  let ?h = "(i + j) div 2"
  show ?case
  proof (cases "i < j")
    case False
    with "1.prems"(1) have "i = j" by simp
    moreover have "search_loop f j j = j" by (simp add: search_loop.simps [of f j j])
    ultimately show ?thesis using "1.prems" by auto
  next
    case True
    then have h: "i \<le> ?h" "?h < j" by auto
    show ?thesis
    proof (cases "f ?h")
      case True
      have up: "\<forall>k. ?h \<le> k \<and> k < n \<longrightarrow> f k" using "1.prems"(3) True by blast
      have le: "?h \<le> n" using h "1.prems"(2) by simp
      have "search_loop f i j = search_loop f i ?h"
        using True \<open>i < j\<close> by (simp add: search_loop.simps [of f i j] Let_def)
      with "1.IH"(2) [OF \<open>i < j\<close> refl _ h(1) le "1.prems"(3) "1.prems"(4) up] True
      show ?thesis by simp
    next
      case False
      have below: "\<forall>k < ?h + 1. \<not> f k"
      proof (intro allI impI notI)
        fix k assume "k < ?h + 1" "f k"
        then have "k \<le> ?h" "?h < n" using h "1.prems"(2) by simp_all
        with "1.prems"(3) \<open>f k\<close> have "f ?h" by blast
        with False show False ..
      qed
      have le: "?h + 1 \<le> j" using h by simp
      have "search_loop f i j = search_loop f (?h + 1) j"
        using False \<open>i < j\<close> by (simp add: search_loop.simps [of f i j] Let_def)
      with "1.IH"(1) [OF \<open>i < j\<close> refl False le "1.prems"(2) "1.prems"(3) below "1.prems"(5)]
      show ?thesis by simp
    qed
  qed
qed

lemma sort_Search_least:
  assumes "\<And>a b. a \<le> b \<Longrightarrow> b < n \<Longrightarrow> f a \<Longrightarrow> f b"
  shows "sort_Search n f \<le> n"
    and "k < sort_Search n f \<Longrightarrow> \<not> f k"
    and "sort_Search n f \<le> k \<Longrightarrow> k < n \<Longrightarrow> f k"
proof -
  have "search_loop f 0 n \<le> n \<and> (\<forall>k < search_loop f 0 n. \<not> f k) \<and>
        (\<forall>k. search_loop f 0 n \<le> k \<and> k < n \<longrightarrow> f k)"
    by (rule search_loop_least [of 0 n n f]) (simp, simp, erule (2) assms, simp, fastforce)
  then show "sort_Search n f \<le> n"
    and "k < sort_Search n f \<Longrightarrow> \<not> f k"
    and "sort_Search n f \<le> k \<Longrightarrow> k < n \<Longrightarrow> f k"
    by (simp_all add: sort_Search_def)
qed

end
