(* ===== verification/GoJson.thy ===== *)
theory GoJson
  imports GoText
begin

text \<open>
  The parts of \<open>encoding/json\<close> the cache uses on payload bytes: the scanner behind
  \<open>json.Valid\<close> (a pushdown machine, one step per byte, with its nesting limit), decoding of a
  JSON string, decoding into \<open>json.Number\<close>, compaction of a \<open>RawMessage\<close> and the encoding of
  strings with HTML escaping. The facts proved are the ones the cache relies on: a printed integer
  is a valid JSON value and decodes to itself.
\<close>

section \<open>The scanner\<close>

datatype pstate = ObjectKey | ObjectValue | ArrayValue

datatype jstate =
    BeginValue | BeginValueOrEmpty | BeginStringOrEmpty | BeginString
  | EndValue | EndTop
  | InString | InStringEsc | InStringEscU nat
  | NumNeg | Num1 | Num0 | NumDot | NumDot0 | NumE | NumESign | NumE0
  | Literal string

type_synonym jscan = "(jstate \<times> pstate list) option"

definition is_space :: "char \<Rightarrow> bool" where
  "is_space c \<longleftrightarrow> c = CHR '' '' \<or> c = CHR 0x09 \<or> c = CHR 0x0D \<or> c = CHR 0x0A"

definition maxNestingDepth :: nat where "maxNestingDepth = 10000"

definition push_state :: "pstate \<Rightarrow> jstate \<Rightarrow> pstate list \<Rightarrow> jscan" where
  "push_state p st ps = (if length ps < maxNestingDepth then Some (st, p # ps) else None)"

definition pop_state :: "pstate list \<Rightarrow> jscan" where
  "pop_state ps = Some (if tl ps = [] then EndTop else EndValue, tl ps)"

definition end_top :: "char \<Rightarrow> jscan" where
  "end_top c = (if is_space c then Some (EndTop, []) else None)"

definition end_value :: "char \<Rightarrow> pstate list \<Rightarrow> jscan" where
  "end_value c ps =
     (case ps of [] \<Rightarrow> end_top c
      | p # rest \<Rightarrow>
          if is_space c then Some (EndValue, ps)
          else (case p of
              ObjectKey \<Rightarrow> if c = CHR '':'' then Some (BeginValue, ObjectValue # rest) else None
            | ObjectValue \<Rightarrow>
                if c = CHR '','' then Some (BeginString, ObjectKey # rest)
                else if c = CHR ''}'' then pop_state ps else None
            | ArrayValue \<Rightarrow>
                if c = CHR '','' then Some (BeginValue, ps)
                else if c = CHR '']'' then pop_state ps else None))"

definition begin_value :: "char \<Rightarrow> pstate list \<Rightarrow> jscan" where
  "begin_value c ps =
     (if is_space c then Some (BeginValue, ps)
      else if c = CHR ''{'' then push_state ObjectKey BeginStringOrEmpty ps
      else if c = CHR ''['' then push_state ArrayValue BeginValueOrEmpty ps
      else if c = CHR 0x22 then Some (InString, ps)
      else if c = CHR ''-'' then Some (NumNeg, ps)
      else if c = CHR ''0'' then Some (Num0, ps)
      else if c = CHR ''t'' then Some (Literal ''rue'', ps)
      else if c = CHR ''f'' then Some (Literal ''alse'', ps)
      else if c = CHR ''n'' then Some (Literal ''ull'', ps)
      else if is_digit c then Some (Num1, ps)
      else None)"

definition begin_string :: "char \<Rightarrow> pstate list \<Rightarrow> jscan" where
  "begin_string c ps =
     (if is_space c then Some (BeginString, ps)
      else if c = CHR 0x22 then Some (InString, ps) else None)"

definition num0 :: "char \<Rightarrow> pstate list \<Rightarrow> jscan" where
  "num0 c ps =
     (if c = CHR ''.'' then Some (NumDot, ps)
      else if c = CHR ''e'' \<or> c = CHR ''E'' then Some (NumE, ps)
      else end_value c ps)"

text \<open>One byte of input: None is the scan error.\<close>

fun jstep :: "jstate \<Rightarrow> pstate list \<Rightarrow> char \<Rightarrow> jscan" where
  "jstep BeginValue ps c = begin_value c ps"
| "jstep BeginValueOrEmpty ps c =
     (if is_space c then Some (BeginValueOrEmpty, ps)
      else if c = CHR '']'' then end_value c ps else begin_value c ps)"
| "jstep BeginStringOrEmpty ps c =
     (if is_space c then Some (BeginStringOrEmpty, ps)
      else if c = CHR ''}'' then end_value c (ObjectValue # tl ps) else begin_string c ps)"
| "jstep BeginString ps c = begin_string c ps"
| "jstep EndValue ps c = end_value c ps"
| "jstep EndTop ps c = end_top c"
| "jstep InString ps c =
     (if c = CHR 0x22 then Some (EndValue, ps)
      else if c = CHR 0x5C then Some (InStringEsc, ps)
      else if byte c < 32 then None else Some (InString, ps))"
| "jstep InStringEsc ps c =
     (if c = CHR ''u'' then Some (InStringEscU 3, ps)
      else if c \<in> set ''bfnrt/'' \<or> c = CHR 0x5C \<or> c = CHR 0x22 then Some (InString, ps)
      else None)"
| "jstep (InStringEscU n) ps c =
     (if is_hex c then Some (if n = 0 then InString else InStringEscU (n - 1), ps) else None)"
| "jstep NumNeg ps c =
     (if c = CHR ''0'' then Some (Num0, ps)
      else if is_digit c then Some (Num1, ps) else None)"
| "jstep Num1 ps c = (if is_digit c then Some (Num1, ps) else num0 c ps)"
| "jstep Num0 ps c = num0 c ps"
| "jstep NumDot ps c = (if is_digit c then Some (NumDot0, ps) else None)"
| "jstep NumDot0 ps c =
     (if is_digit c then Some (NumDot0, ps)
      else if c = CHR ''e'' \<or> c = CHR ''E'' then Some (NumE, ps) else end_value c ps)"
| "jstep NumE ps c =
     (if c = CHR ''+'' \<or> c = CHR ''-'' then Some (NumESign, ps)
      else if is_digit c then Some (NumE0, ps) else None)"
| "jstep NumESign ps c = (if is_digit c then Some (NumE0, ps) else None)"
| "jstep NumE0 ps c = (if is_digit c then Some (NumE0, ps) else end_value c ps)"
| "jstep (Literal w) ps c =
     (case w of [] \<Rightarrow> end_value c ps
      | d # ds \<Rightarrow> if c = d then Some (if ds = [] then EndValue else Literal ds, ps) else None)"

fun jscan_all :: "jscan \<Rightarrow> string \<Rightarrow> jscan" where
  "jscan_all st [] = st"
| "jscan_all st (c # cs) =
     (case st of None \<Rightarrow> None | Some (q, ps) \<Rightarrow> jscan_all (jstep q ps c) cs)"

text \<open>At the end of the input the scanner takes one more step, on a space.\<close>

definition jeof :: "jscan \<Rightarrow> bool" where
  "jeof st =
     (case st of None \<Rightarrow> False
      | Some (q, ps) \<Rightarrow> (case jstep q ps CHR '' '' of Some (EndTop, _) \<Rightarrow> True | _ \<Rightarrow> False))"

definition json_Valid :: "string \<Rightarrow> bool" where
  "json_Valid s = jeof (jscan_all (Some (BeginValue, [])) s)"

lemma jscan_all_None [simp]: "jscan_all None s = None"
  by (cases s) simp_all

lemma jscan_all_append: "jscan_all st (s @ t) = jscan_all (jscan_all st s) t"
proof (induction s arbitrary: st)
  case (Cons c cs)
  then show ?case by (cases st) (auto split: prod.splits)
qed simp

section \<open>Integers are valid JSON\<close>

lemma digit_not_special:
  assumes "is_digit c"
  shows "\<not> is_space c" "c \<noteq> CHR ''{''" "c \<noteq> CHR ''[''" "c \<noteq> CHR 0x22" "c \<noteq> CHR ''-''"
    "c \<noteq> CHR ''t''" "c \<noteq> CHR ''f''" "c \<noteq> CHR ''n''" "c \<noteq> CHR ''.''" "c \<noteq> CHR ''e''" "c \<noteq> CHR ''E''"
  using assms by (auto simp: is_digit_def is_space_def)

lemma scan_digits:
  "\<forall>c \<in> set cs. is_digit c \<Longrightarrow> jscan_all (Some (Num1, ps)) cs = Some (Num1, ps)"
  by (induction cs) auto

text \<open>A decimal numeral without leading zero ends in one of the two number states.\<close>

lemma show_nat_hd_nonzero: "0 < n \<Longrightarrow> hd (show_nat n) \<noteq> CHR ''0''"
proof (induction n rule: show_nat.induct)
  case (1 n)
  show ?case
  proof (cases "n < 10")
    case True
    have "byte (digit_char n) = 48 + n" using True by (rule byte_digit_char)
    with "1.prems" True show ?thesis by (auto simp: show_nat.simps [of n])
  next
    case False
    with "1.IH" show ?thesis by (simp add: show_nat.simps [of n])
  qed
qed

lemma show_nat_zero: "show_nat 0 = ''0''"
  by (simp add: show_nat.simps digit_char_def)

lemma scan_show_nat:
  assumes "q = BeginValue \<or> q = NumNeg"
  shows "\<exists>q'. jscan_all (Some (q, ps)) (show_nat n) = Some (q', ps) \<and> (q' = Num0 \<or> q' = Num1)"
proof (cases "n = 0")
  case True
  with assms show ?thesis
    by (auto simp: show_nat_zero begin_value_def is_space_def)
next
  case False
  obtain c cs where sn: "show_nat n = c # cs" by (cases "show_nat n") auto
  then have c: "is_digit c" "c \<noteq> CHR ''0''" and cs: "\<forall>d \<in> set cs. is_digit d"
    using show_nat_digits [of _ n] show_nat_hd_nonzero [of n] False by auto
  have "jstep q ps c = Some (Num1, ps)"
    using assms c digit_not_special [OF c(1)] by (auto simp: begin_value_def)
  with sn cs show ?thesis by (auto simp: scan_digits)
qed

lemma scan_show_int:
  "\<exists>q'. jscan_all (Some (BeginValue, ps)) (show_int i) = Some (q', ps) \<and> (q' = Num0 \<or> q' = Num1)"
proof (cases "i < 0")
  case True
  have "jstep BeginValue ps CHR ''-'' = Some (NumNeg, ps)"
    by (simp add: begin_value_def is_space_def)
  with True scan_show_nat [of NumNeg ps "nat (- i)"] show ?thesis by (simp add: show_int_def)
next
  case False
  with scan_show_nat [of BeginValue ps "nat i"] show ?thesis by (simp add: show_int_def)
qed

lemma json_Valid_show_int: "json_Valid (show_int i)"
proof -
  obtain q' where "jscan_all (Some (BeginValue, [])) (show_int i) = Some (q', [])"
    and "q' = Num0 \<or> q' = Num1"
    using scan_show_int by blast
  then show ?thesis
    by (auto simp: json_Valid_def jeof_def num0_def end_value_def end_top_def is_space_def is_digit_def)
qed

section \<open>Decoding a JSON string\<close>

definition getu4 :: "string \<Rightarrow> nat" where
  "getu4 s = foldl (\<lambda>a c. 16 * a + hex_val c) 0 (take 4 s)"

definition simple_escape :: "char \<Rightarrow> char" where
  "simple_escape e =
     (if e = CHR ''b'' then CHR 0x08 else if e = CHR ''f'' then CHR 0x0C
      else if e = CHR ''n'' then CHR 0x0A else if e = CHR ''r'' then CHR 0x0D
      else if e = CHR ''t'' then CHR 0x09 else e)"

text \<open>The four hex digits after a backslash-u, with the pairing of surrogates.\<close>

definition unquote_u :: "string \<Rightarrow> string \<times> string" where
  "unquote_u s =
     (let rr = getu4 s; rest = drop 4 s in
      if is_surrogate rr then
        (if take 2 rest = [CHR 0x5C, CHR ''u''] \<and> utf16_decode rr (getu4 (drop 2 rest)) \<noteq> RuneError
         then (encode_rune (utf16_decode rr (getu4 (drop 2 rest))), drop 6 rest)
         else (encode_rune RuneError, rest))
      else (encode_rune rr, rest))"

text \<open>The first element of a string body: its decoded bytes and what follows.\<close>

definition unquote_step :: "char \<Rightarrow> string \<Rightarrow> string \<times> string" where
  "unquote_step c s =
     (if c = CHR 0x5C then
        (case s of [] \<Rightarrow> ([], [])
         | e # r \<Rightarrow> if e = CHR ''u'' then unquote_u r else ([simple_escape e], r))
      else if byte c < 128 then ([c], s)
      else (let (rr, n) = decode_rune c s in (encode_rune rr, drop (n - 1) s)))"

lemma unquote_step_shorter: "length (snd (unquote_step c s)) \<le> length s"
  by (auto simp: unquote_step_def unquote_u_def Let_def split: list.splits prod.splits)

text \<open>The bytes of a string up to its closing quote.\<close>

function unquote :: "string \<Rightarrow> string" where
  "unquote [] = []"
| "unquote (c # s) =
     (if c = CHR 0x22 then []
      else fst (unquote_step c s) @ unquote (snd (unquote_step c s)))"
  by pat_completeness auto
termination
  by (relation "measure length") (auto simp: unquote_step_shorter le_imp_less_Suc)

definition json_TrimLeft :: "string \<Rightarrow> string" where
  "json_TrimLeft s = dropWhile is_space s"

text \<open>\<open>json.Unmarshal\<close> of a payload whose first character opens a string, into a Go string.\<close>

definition unmarshal_string :: "string \<Rightarrow> string option" where
  "unmarshal_string p =
     (if json_Valid p then
        (case json_TrimLeft p of
           c # r \<Rightarrow> if c = CHR 0x22 then Some (unquote r) else None
         | [] \<Rightarrow> None)
      else None)"

section \<open>Decoding into json.Number\<close>

text \<open>\<open>isValidNumber\<close>: the string is a JSON number and nothing else.\<close>

definition is_num_state :: "jscan \<Rightarrow> bool" where
  "is_num_state st = (case st of Some (Num0, []) \<Rightarrow> True | Some (Num1, []) \<Rightarrow> True
     | Some (NumDot0, []) \<Rightarrow> True | Some (NumE0, []) \<Rightarrow> True | _ \<Rightarrow> False)"

definition isValidNumber :: "string \<Rightarrow> bool" where
  "isValidNumber s =
     (s \<noteq> [] \<and> \<not> is_space (hd s) \<and> is_num_state (jscan_all (Some (BeginValue, [])) s))"

text \<open>
  \<open>json.Unmarshal\<close> into a \<open>json.Number\<close>: a number literal gives its text, a string whose
  content is a number gives that content, \<open>null\<close> leaves the empty Number, and anything else is
  an error.
\<close>

definition is_number_start :: "char \<Rightarrow> bool" where
  "is_number_start c \<longleftrightarrow> c = CHR ''-'' \<or> is_digit c"

definition unmarshal_Number :: "string \<Rightarrow> string option" where
  "unmarshal_Number p =
     (if \<not> json_Valid p then None
      else (case json_TrimLeft p of [] \<Rightarrow> None
            | c # r \<Rightarrow>
                if c = CHR 0x22 then (if isValidNumber (unquote r) then Some (unquote r) else None)
                else if is_number_start c then Some (takeWhile (\<lambda>d. \<not> is_space d) (c # r))
                else if c = CHR ''n'' then Some []
                else None))"

lemma show_int_first:
  obtains c cs where "show_int i = c # cs" "is_number_start c" "\<not> is_space c" "c \<noteq> CHR 0x22"
    "\<forall>d \<in> set (c # cs). \<not> is_space d"
proof -
  have digs: "\<forall>d \<in> set (show_nat n). is_digit d" for n using show_nat_digits by blast
  obtain c cs where eq: "show_int i = c # cs" by (cases "show_int i") (auto simp: show_int_def split: if_splits)
  have all: "\<forall>d \<in> set (c # cs). d = CHR ''-'' \<or> is_digit d"
    using eq digs [of "nat i"] digs [of "nat (- i)"] by (auto simp: show_int_def split: if_splits)
  then have "is_number_start c" by (auto simp: is_number_start_def)
  moreover have "\<not> is_space d \<and> d \<noteq> CHR 0x22" if "d \<in> set (c # cs)" for d
    using bspec [OF all that] digit_not_special(1,4) [of d] by (auto simp: is_space_def)
  ultimately show thesis using eq that by force
qed

lemma unmarshal_Number_show_int: "unmarshal_Number (show_int i) = Some (show_int i)"
proof -
  obtain c cs where *: "show_int i = c # cs" "is_number_start c" "\<not> is_space c" "c \<noteq> CHR 0x22"
    "\<forall>d \<in> set (c # cs). \<not> is_space d"
    by (rule show_int_first)
  have "json_Valid (c # cs)" using json_Valid_show_int [of i] *(1) by simp
  moreover have "takeWhile (\<lambda>d. \<not> is_space d) (c # cs) = c # cs"
    using *(5) by (simp add: takeWhile_eq_all_conv)
  ultimately show ?thesis using * by (simp add: unmarshal_Number_def json_TrimLeft_def)
qed

section \<open>Encoding\<close>

definition unicode_escape :: "char \<Rightarrow> string" where
  \<comment> \<open>backslash, u, 0, 0 and the two hex digits of the byte\<close>
  "unicode_escape c = [CHR 0x5C, CHR ''u'', CHR ''0'', CHR ''0'',
     hex_char (byte c div 16), hex_char (byte c mod 16)]"

definition html_char :: "char \<Rightarrow> bool" where
  "html_char c \<longleftrightarrow> c = CHR ''<'' \<or> c = CHR ''>'' \<or> c = CHR ''&''"

text \<open>The line and paragraph separators, which are written as escapes.\<close>

definition line_sep :: "char \<Rightarrow> string \<Rightarrow> bool" where
  "line_sep c s \<longleftrightarrow> c = CHR 0xE2 \<and> 2 \<le> length s \<and> s ! 0 = CHR 0x80 \<and> (s ! 1 = CHR 0xA8 \<or> s ! 1 = CHR 0xA9)"

definition line_sep_escape :: "string \<Rightarrow> string" where
  "line_sep_escape s = [CHR 0x5C, CHR ''u'', CHR ''2'', CHR ''0'', CHR ''2'', hex_char (byte (s ! 1) mod 16)]"

text \<open>
  \<open>appendCompact\<close> with HTML escaping, on valid JSON: white space outside strings goes, and
  the characters HTML treats specially are escaped. The two flags say whether the position is inside a
  string and just after a backslash.
\<close>

function compact :: "bool \<Rightarrow> bool \<Rightarrow> string \<Rightarrow> string" where
  "compact instr esc [] = []"
| "compact instr esc (c # s) =
     (if \<not> instr then
        (if is_space c then compact False False s
         else c # compact (c = CHR 0x22) False s)
      else if html_char c then unicode_escape c @ compact True False s
      else if line_sep c s then line_sep_escape s @ compact True False (drop 2 s)
      else if esc then c # compact True False s
      else if c = CHR 0x22 then c # compact False False s
      else c # compact True (c = CHR 0x5C) s)"
  by pat_completeness auto
termination
  by (relation "measure (\<lambda>(_, _, s). length s)") auto

text \<open>\<open>appendString\<close> with HTML escaping, without the surrounding quotes.\<close>

definition escape_ascii :: "char \<Rightarrow> string" where
  "escape_ascii c =
     (if c = CHR 0x5C \<or> c = CHR 0x22 then [CHR 0x5C, c]
      else if c = CHR 0x08 then [CHR 0x5C, CHR ''b''] else if c = CHR 0x0C then [CHR 0x5C, CHR ''f'']
      else if c = CHR 0x0A then [CHR 0x5C, CHR ''n''] else if c = CHR 0x0D then [CHR 0x5C, CHR ''r'']
      else if c = CHR 0x09 then [CHR 0x5C, CHR ''t'']
      else if byte c < 32 \<or> html_char c then unicode_escape c
      else [c])"

function escape_body :: "string \<Rightarrow> string" where
  "escape_body [] = []"
| "escape_body (c # s) =
     (if byte c < 128 then escape_ascii c @ escape_body s
      else let (rr, n) = decode_rune c s in
        if rr = RuneError \<and> n = 1 then [CHR 0x5C] @ ''ufffd'' @ escape_body s
        else if line_sep c s then line_sep_escape s @ escape_body (drop (n - 1) s)
        else c # take (n - 1) s @ escape_body (drop (n - 1) s))"
  by pat_completeness auto
termination
  by (relation "measure length") auto

definition marshal_string :: "string \<Rightarrow> string" where
  "marshal_string s = [CHR 0x22] @ escape_body s @ [CHR 0x22]"

text \<open>A \<open>RawMessage\<close>: nil prints as \<open>null\<close>, anything else must be valid JSON.\<close>

definition marshal_raw :: "raw \<Rightarrow> string option" where
  "marshal_raw p =
     (case p of None \<Rightarrow> Some ''null''
      | Some s \<Rightarrow> if json_Valid s then Some (compact False False s) else None)"

end
