(* ===== verification/Types.thy ===== *)
theory Types
  imports GoJson "HOL-Library.Signed_Division"
begin

text \<open>
  \<open>types.go\<close>: the capacity constants, \<open>EventsMode\<close>, \<open>Config\<close> with its defaults, the \<open>Item\<close>
  and its counter cell, the error values the cache returns, the byte cost \<open>approxItemSize\<close> charges
  for an item, and the request and response size formulas. A pointer to a counter cell is the cell's
  index in a list of cells; the lengths of in-memory byte strings are taken without wrap-around.
\<close>

section \<open>Constants\<close>

definition DefaultLimit :: int where "DefaultLimit = 1000"
definition MaxLimit :: int where "MaxLimit = 10000"
definition ScopeMaxItems :: int where "ScopeMaxItems = 100000"
definition MaxStoreMiB :: int where "MaxStoreMiB = 100"
definition MaxItemBytes :: int where "MaxItemBytes = 1048576"
definition MaxScopeBytes :: int where "MaxScopeBytes = 256"
definition MaxIDBytes :: int where "MaxIDBytes = 256"
definition InboxMaxItemBytes :: int where "InboxMaxItemBytes = 65536"
definition eventsItemEnvelopeOverhead :: int where "eventsItemEnvelopeOverhead = 1024"
definition EventsScopeName :: bytestr where "EventsScopeName = ''_events''"
definition InboxScopeName :: bytestr where "InboxScopeName = ''_inbox''"
definition singleRequestBytesOverhead :: int where "singleRequestBytesOverhead = 4096"
definition bulkRequestBytesOverhead :: int where "bulkRequestBytesOverhead = 16777216"
definition MaxCounterValue :: int where "MaxCounterValue = 9007199254740991"
definition scopeBufferOverhead :: int where "scopeBufferOverhead = 1024"
definition counterCellOverhead :: int where "counterCellOverhead = 24 + 32"

definition reservedScopeNames :: "bytestr list" where
  "reservedScopeNames = [EventsScopeName, InboxScopeName]"

definition reservedScopesOverhead :: int where
  "reservedScopesOverhead = int (length reservedScopeNames) * scopeBufferOverhead"

definition isReservedScope :: "bytestr \<Rightarrow> bool" where
  "isReservedScope scope \<longleftrightarrow> (\<exists>name \<in> set reservedScopeNames. scope = name)"

lemma isReservedScope_iff: "isReservedScope k \<longleftrightarrow> k = EventsScopeName \<or> k = InboxScopeName"
  by (auto simp: isReservedScope_def reservedScopeNames_def)

lemma reserved_distinct [simp]: "EventsScopeName \<noteq> InboxScopeName" "InboxScopeName \<noteq> EventsScopeName"
  by (simp_all add: EventsScopeName_def InboxScopeName_def)

lemma reserved_nonempty [simp]: "EventsScopeName \<noteq> []" "InboxScopeName \<noteq> []"
  by (simp_all add: EventsScopeName_def InboxScopeName_def)

lemma reservedScopesOverhead_eq: "reservedScopesOverhead = 2048"
  by (simp add: reservedScopesOverhead_def reservedScopeNames_def scopeBufferOverhead_def)

section \<open>Events mode\<close>

text \<open>The Go type is an int with three named values; \<open>EventsModeOther\<close> is any other int.\<close>

datatype EventsMode = EventsModeOff | EventsModeNotify | EventsModeFull | EventsModeOther int

fun EventsMode_String :: "EventsMode \<Rightarrow> string" where
  "EventsMode_String EventsModeOff = ''off''"
| "EventsMode_String EventsModeNotify = ''notify''"
| "EventsMode_String EventsModeFull = ''full''"
| "EventsMode_String (EventsModeOther _) = ''unknown''"

text \<open>None is the error return, whose mode is \<open>EventsModeOff\<close>.\<close>

definition ParseEventsMode :: "string \<Rightarrow> EventsMode option" where
  "ParseEventsMode s =
     (if s = [] \<or> s = ''off'' then Some EventsModeOff
      else if s = ''notify'' then Some EventsModeNotify
      else if s = ''full'' then Some EventsModeFull
      else None)"

lemma ParseEventsMode_String:
  "\<forall>k. m \<noteq> EventsModeOther k \<Longrightarrow> ParseEventsMode (EventsMode_String m) = Some m"
  by (cases m) (simp_all add: ParseEventsMode_def)

section \<open>Configuration\<close>

record Config =
  cScopeMaxItems :: int
  cMaxStoreBytes :: int
  cMaxItemBytes :: int
  cEventsMode :: EventsMode
  cInboxMaxItems :: int
  cInboxMaxItemBytes :: int

definition Config_zero :: Config where
  "Config_zero = \<lparr>cScopeMaxItems = 0, cMaxStoreBytes = 0, cMaxItemBytes = 0,
     cEventsMode = EventsModeOff, cInboxMaxItems = 0, cInboxMaxItemBytes = 0\<rparr>"

definition WithDefaults :: "Config \<Rightarrow> Config" where
  "WithDefaults c0 =
     (let c1 = (if cScopeMaxItems c0 \<le> 0 then c0\<lparr>cScopeMaxItems := ScopeMaxItems\<rparr> else c0);
          c2 = (if cMaxStoreBytes c1 \<le> 0 then c1\<lparr>cMaxStoreBytes := MaxStoreMiB * 1048576\<rparr> else c1);
          c3 = (if cMaxStoreBytes c2 < reservedScopesOverhead
                then c2\<lparr>cMaxStoreBytes := reservedScopesOverhead\<rparr> else c2);
          c4 = (if cMaxItemBytes c3 \<le> 0 then c3\<lparr>cMaxItemBytes := MaxItemBytes\<rparr> else c3);
          c5 = (if cInboxMaxItems c4 \<le> 0 then c4\<lparr>cInboxMaxItems := cScopeMaxItems c4\<rparr> else c4);
          c6 = (if cInboxMaxItemBytes c5 \<le> 0 then c5\<lparr>cInboxMaxItemBytes := InboxMaxItemBytes\<rparr> else c5)
      in c6)"

text \<open>Every field of a Go \<open>Config\<close> is a 64-bit integer.\<close>

definition config_i64 :: "Config \<Rightarrow> bool" where
  "config_i64 c \<longleftrightarrow> (\<forall>x \<in> {cScopeMaxItems c, cMaxStoreBytes c, cMaxItemBytes c, cInboxMaxItems c,
     cInboxMaxItemBytes c}. MinInt64 \<le> x \<and> x \<le> MaxInt64)"

lemmas config_consts = ScopeMaxItems_def MaxStoreMiB_def MaxItemBytes_def InboxMaxItemBytes_def
  reservedScopesOverhead_eq

lemma WithDefaults_positive:
  "0 < cScopeMaxItems (WithDefaults c)" "reservedScopesOverhead \<le> cMaxStoreBytes (WithDefaults c)"
  "0 < cMaxItemBytes (WithDefaults c)" "0 < cInboxMaxItems (WithDefaults c)"
  "0 < cInboxMaxItemBytes (WithDefaults c)"
  by (simp_all add: WithDefaults_def Let_def config_consts)

lemma WithDefaults_mode: "cEventsMode (WithDefaults c) = cEventsMode c"
  by (simp add: WithDefaults_def Let_def)

lemma WithDefaults_i64: "config_i64 c \<Longrightarrow> config_i64 (WithDefaults c)"
  by (simp add: WithDefaults_def Let_def config_i64_def config_consts MinInt64_def MaxInt64_def)

lemma WithDefaults_id:
  assumes "0 < cScopeMaxItems c" "reservedScopesOverhead \<le> cMaxStoreBytes c" "0 < cMaxItemBytes c"
    "0 < cInboxMaxItems c" "0 < cInboxMaxItemBytes c"
  shows "WithDefaults c = c"
  using assms by (simp add: WithDefaults_def Let_def reservedScopesOverhead_eq)

lemma WithDefaults_idem: "WithDefaults (WithDefaults c) = WithDefaults c"
  by (rule WithDefaults_id) (rule WithDefaults_positive)+

section \<open>Items\<close>

text \<open>A counter pointer is None for nil, or the index of its cell.\<close>

record Item =
  Scope :: bytestr
  ID :: bytestr
  Seq :: u64
  Ts :: int
  Payload :: raw
  renderBytes :: raw
  counter :: "nat option"

record counterCell =
  cell_value :: int
  cell_ts :: int

definition Item_zero :: Item where
  "Item_zero = \<lparr>Scope = [], ID = [], Seq = 0, Ts = 0, Payload = None, renderBytes = None, counter = None\<rparr>"

definition client_item :: "Item \<Rightarrow> bool" where
  \<comment> \<open>an item as it reaches the store: the unexported fields are not set (JSON decoding, Gateway cloning)\<close>
  "client_item it \<longleftrightarrow> renderBytes it = None \<and> counter it = None"

definition approxItemSize :: "Item \<Rightarrow> int" where
  "approxItemSize item =
     (let n = 32 + int (length (Scope item)) + int (length (ID item)) + 8 + 8 in
      if counter item \<noteq> None then n + counterCellOverhead
      else n + rawlen (Payload item) + rawlen (renderBytes item))"

lemma approxItemSize_ge: "48 \<le> approxItemSize it"
  by (simp add: approxItemSize_def Let_def counterCellOverhead_def)

lemma approxItemSize_pos [simp]: "0 < approxItemSize it" "0 \<le> approxItemSize it"
  using approxItemSize_ge [of it] by simp_all

section \<open>Errors\<close>

text \<open>
  Why a validator rejects its input. The first component of the reasons that have one is the name of
  the field or endpoint the message quotes; \<open>InBatch\<close> is the prefix a bulk endpoint adds.
\<close>

datatype reason =
    FieldRequired string string
  | FieldTooLong string int
  | FieldWhitespace string
  | FieldControlChar string
  | IDXorSeq string
  | PayloadRequired
  | PayloadNotJSON
  | ItemTooLarge int int
  | ManagedField string string
  | ReservedScope bytestr string
  | ByZero
  | ByOutOfRange
  | CounterItemTooLarge int int
  | MaxSeqRequired
  | ScopeKeyMismatch bytestr nat bytestr
  | DuplicateInBatch bytestr bytestr
  | InBatch bytestr nat reason
  | BadLimit
  | BadOffset
  | BadHours
  | HoursTooLarge

datatype counter_reason = NotJSONNumber | NotInteger | OutOfCounterRange

datatype panic = NilMapWrite | SendOnClosedChannel | CloseOfClosedChannel

datatype gerr =
    InvalidInput reason
  | DuplicateID
  | ScopeNameRequired
  | ScopeFullError int int
  | ScopeCapacityError "(bytestr \<times> int \<times> int) list"
  | StoreFullError int int int
  | CounterPayloadError counter_reason
  | CounterOverflowError int int
  | ScopeDetachedError
  | ErrInvalidSubscribeScope
  | ErrAlreadySubscribed
  | GoPanic panic

type_synonym 'a res = "gerr + 'a"

section \<open>Request and response sizes\<close>

definition multiItemEnvelopeMinBytes :: int where "multiItemEnvelopeMinBytes = 80"
definition multiItemPerItemMinBytes :: int where "multiItemPerItemMinBytes = 25"

definition estimateMultiItemResponseBytes :: "Item list \<Rightarrow> int" where
  "estimateMultiItemResponseBytes items =
     foldl (\<lambda>n it. n + int (length (Scope it)) + int (length (ID it)) + rawlen (Payload it))
       (multiItemEnvelopeMinBytes + int (length items) * multiItemPerItemMinBytes) items"

definition bulkRequestBytesFor :: "int \<Rightarrow> int" where
  "bulkRequestBytesFor maxStoreBytes =
     wrap64 (wrap64 (maxStoreBytes + maxStoreBytes sdiv 10) + bulkRequestBytesOverhead)"

definition singleRequestBytesFor :: "int \<Rightarrow> int" where
  "singleRequestBytesFor maxItemBytes = wrap64 (maxItemBytes + singleRequestBytesOverhead)"

text \<open>
  \<open>addClampedInt64\<close> of \<open>store.go\<close>: addition that saturates instead of wrapping.
\<close>

definition addClampedInt64 :: "int \<Rightarrow> int \<Rightarrow> int" where
  "addClampedInt64 a b =
     (if 0 < b \<and> wrap64 (MaxInt64 - b) < a then MaxInt64
      else if b < 0 \<and> a < wrap64 (MinInt64 - b) then MinInt64
      else wrap64 (a + b))"

lemma addClampedInt64_saturates:
  assumes "MinInt64 \<le> a" "a \<le> MaxInt64" "MinInt64 \<le> b" "b \<le> MaxInt64"
  shows "addClampedInt64 a b = max MinInt64 (min MaxInt64 (a + b))"
proof -
  consider "0 < b" | "b < 0" | "b = 0" by linarith
  then show ?thesis
  proof cases
    case 1
    then have "wrap64 (MaxInt64 - b) = MaxInt64 - b"
      using assms by (intro wrap64_id) (auto simp: MinInt64_def MaxInt64_def)
    with 1 assms show ?thesis
      by (auto simp: addClampedInt64_def wrap64_id MinInt64_def MaxInt64_def)
  next
    case 2
    then have "wrap64 (MinInt64 - b) = MinInt64 - b"
      using assms by (intro wrap64_id) (auto simp: MinInt64_def MaxInt64_def)
    with 2 assms show ?thesis
      by (auto simp: addClampedInt64_def wrap64_id MinInt64_def MaxInt64_def)
  next
    case 3
    with assms show ?thesis by (auto simp: addClampedInt64_def wrap64_id)
  qed
qed

end
