(* ===== verification/Admission.thy ===== *)
theory Admission
  imports Types
begin

text \<open>
  The part of \<open>store.go\<close> a scope buffer reaches through its \<open>b.store\<close> pointer: the configured
  caps and the atomic counters (\<open>totalBytes\<close>, \<open>totalItems\<close>, \<open>scopeCount\<close>, \<open>lastWriteTS\<close>), with
  the counter cells. The record \<open>core\<close> holds them; the shards and subscribers, which buffer methods
  must not touch, are added by the store. The byte budget is stated as a locale and interpreted on
  \<open>reserveBytes\<close>.
\<close>

record core =
  defaultMaxItems :: int
  maxStoreBytes :: int
  maxItemBytes :: int
  eventsMaxItemBytes :: int
  inboxMaxItems :: int
  inboxMaxItemBytes :: int
  eventsMode :: EventsMode
  eventsDropsTotal :: int
  totalBytes :: int
  totalItems :: int
  scopeCount :: int
  lastWriteTS :: int
  cells :: "counterCell list"

section \<open>Operations on the atomics\<close>

definition bumpLastWriteTS :: "int \<Rightarrow> core \<Rightarrow> core" where
  "bumpLastWriteTS nowUs c = (if nowUs \<le> lastWriteTS c then c else c\<lparr>lastWriteTS := nowUs\<rparr>)"

definition add_totalBytes :: "int \<Rightarrow> core \<Rightarrow> core" where
  "add_totalBytes d c = c\<lparr>totalBytes := wrap64 (totalBytes c + d)\<rparr>"

definition add_totalItems :: "int \<Rightarrow> core \<Rightarrow> core" where
  "add_totalItems d c = c\<lparr>totalItems := totalItems c + d\<rparr>"

definition add_scopeCount :: "int \<Rightarrow> core \<Rightarrow> core" where
  "add_scopeCount d c = c\<lparr>scopeCount := scopeCount c + d\<rparr>"

text \<open>
  \<open>reserveBytes\<close>: the result is (ok, total after the attempt, cap). Between its load and its
  compare-and-swap nothing else runs here; \<open>CasBudget\<close> treats the interleaved loop.
\<close>

definition reserveBytes :: "int \<Rightarrow> core \<Rightarrow> (bool \<times> int \<times> int) \<times> core" where
  "reserveBytes delta c =
     (if delta \<le> 0 then
        (let n = wrap64 (totalBytes c + delta) in ((True, n, maxStoreBytes c), c\<lparr>totalBytes := n\<rparr>))
      else
        (let current = totalBytes c in
         if wrap64 (maxStoreBytes c - current) < delta then ((False, current, maxStoreBytes c), c)
         else (let nxt = wrap64 (current + delta)
               in ((True, nxt, maxStoreBytes c), c\<lparr>totalBytes := nxt\<rparr>))))"

definition maxItemBytesFor :: "core \<Rightarrow> bytestr \<Rightarrow> int" where
  "maxItemBytesFor c scope =
     (if scope = EventsScopeName then eventsMaxItemBytes c
      else if scope = InboxScopeName then inboxMaxItemBytes c
      else maxItemBytes c)"

definition maxItemBytesAnyScope :: "core \<Rightarrow> int" where
  "maxItemBytesAnyScope c =
     (let biggest = maxItemBytes c;
          b2 = (if biggest < eventsMaxItemBytes c then eventsMaxItemBytes c else biggest)
      in if b2 < inboxMaxItemBytes c then inboxMaxItemBytes c else b2)"

definition unboundedScopeMaxItems :: int where "unboundedScopeMaxItems = 0"

definition maxItemsFor :: "core \<Rightarrow> bytestr \<Rightarrow> int" where
  "maxItemsFor c scope =
     (if scope = EventsScopeName then unboundedScopeMaxItems
      else if scope = InboxScopeName then inboxMaxItems c
      else defaultMaxItems c)"

lemma maxItemBytesFor_le_any: "maxItemBytesFor c scope \<le> maxItemBytesAnyScope c"
  by (simp add: maxItemBytesFor_def maxItemBytesAnyScope_def Let_def)

section \<open>What the operations leave alone\<close>

text \<open>The configured fields, which no operation writes.\<close>

definition core_config :: "core \<Rightarrow> int \<times> int \<times> int \<times> int \<times> int \<times> int \<times> EventsMode" where
  "core_config c = (defaultMaxItems c, maxStoreBytes c, maxItemBytes c, eventsMaxItemBytes c,
     inboxMaxItems c, inboxMaxItemBytes c, eventsMode c)"

lemma core_config_simps [simp]:
  "core_config (bumpLastWriteTS t c) = core_config c"
  "core_config (add_totalBytes d c) = core_config c"
  "core_config (add_totalItems d c) = core_config c"
  "core_config (add_scopeCount d c) = core_config c"
  "core_config (c\<lparr>cells := cs\<rparr>) = core_config c"
  "core_config (c\<lparr>totalBytes := n\<rparr>) = core_config c"
  "core_config (c\<lparr>eventsDropsTotal := n\<rparr>) = core_config c"
  "core_config (snd (reserveBytes d c)) = core_config c"
  by (simp_all add: core_config_def bumpLastWriteTS_def add_totalBytes_def add_totalItems_def
      add_scopeCount_def reserveBytes_def Let_def)

lemma core_config_eqD:
  assumes "core_config c' = core_config c"
  shows "defaultMaxItems c' = defaultMaxItems c" "maxStoreBytes c' = maxStoreBytes c"
    "maxItemBytes c' = maxItemBytes c" "eventsMaxItemBytes c' = eventsMaxItemBytes c"
    "inboxMaxItems c' = inboxMaxItems c" "inboxMaxItemBytes c' = inboxMaxItemBytes c"
    "eventsMode c' = eventsMode c"
  using assms by (simp_all add: core_config_def)

lemma bump_fields [simp]:
  "totalBytes (bumpLastWriteTS t c) = totalBytes c" "totalItems (bumpLastWriteTS t c) = totalItems c"
  "scopeCount (bumpLastWriteTS t c) = scopeCount c" "cells (bumpLastWriteTS t c) = cells c"
  "maxStoreBytes (bumpLastWriteTS t c) = maxStoreBytes c" "eventsMode (bumpLastWriteTS t c) = eventsMode c"
  "lastWriteTS (bumpLastWriteTS t c) = max (lastWriteTS c) t"
  "eventsDropsTotal (bumpLastWriteTS t c) = eventsDropsTotal c"
  by (simp_all add: bumpLastWriteTS_def)

lemma add_totalBytes_fields [simp]:
  "totalBytes (add_totalBytes d c) = wrap64 (totalBytes c + d)" "totalItems (add_totalBytes d c) = totalItems c"
  "scopeCount (add_totalBytes d c) = scopeCount c" "cells (add_totalBytes d c) = cells c"
  "maxStoreBytes (add_totalBytes d c) = maxStoreBytes c" "lastWriteTS (add_totalBytes d c) = lastWriteTS c"
  "eventsDropsTotal (add_totalBytes d c) = eventsDropsTotal c"
  by (simp_all add: add_totalBytes_def)

lemma add_totalItems_fields [simp]:
  "totalBytes (add_totalItems d c) = totalBytes c" "totalItems (add_totalItems d c) = totalItems c + d"
  "scopeCount (add_totalItems d c) = scopeCount c" "cells (add_totalItems d c) = cells c"
  "maxStoreBytes (add_totalItems d c) = maxStoreBytes c" "lastWriteTS (add_totalItems d c) = lastWriteTS c"
  "eventsDropsTotal (add_totalItems d c) = eventsDropsTotal c"
  by (simp_all add: add_totalItems_def)

lemma add_scopeCount_fields [simp]:
  "totalBytes (add_scopeCount d c) = totalBytes c" "totalItems (add_scopeCount d c) = totalItems c"
  "scopeCount (add_scopeCount d c) = scopeCount c + d" "cells (add_scopeCount d c) = cells c"
  "maxStoreBytes (add_scopeCount d c) = maxStoreBytes c" "lastWriteTS (add_scopeCount d c) = lastWriteTS c"
  "eventsDropsTotal (add_scopeCount d c) = eventsDropsTotal c"
  by (simp_all add: add_scopeCount_def)

section \<open>The byte budget\<close>

text \<open>
  The contract between the write paths and admission control: a budget in good order grants a request
  exactly when it fits, adds what it grants, and leaves no trace of what it refuses. A release that
  gives back at most what is in use is always granted.
\<close>

locale byte_budget =
  fixes reserve :: "int \<Rightarrow> 's \<Rightarrow> (bool \<times> int \<times> int) \<times> 's"
    and used :: "'s \<Rightarrow> int"
    and cap :: "'s \<Rightarrow> int"
    and sound :: "'s \<Rightarrow> bool"
  assumes sound_bounds: "sound s \<Longrightarrow> 0 \<le> used s \<and> used s \<le> cap s"
    and granted_iff: "sound s \<Longrightarrow> - used s \<le> d \<Longrightarrow> fst (fst (reserve d s)) \<longleftrightarrow> used s + d \<le> cap s"
    and granted_used: "sound s \<Longrightarrow> - used s \<le> d \<Longrightarrow> fst (fst (reserve d s)) \<Longrightarrow> used (snd (reserve d s)) = used s + d"
    and refused_same: "\<not> fst (fst (reserve d s)) \<Longrightarrow> snd (reserve d s) = s"
    and cap_same: "cap (snd (reserve d s)) = cap s"
    and sound_reserve: "sound s \<Longrightarrow> - used s \<le> d \<Longrightarrow> sound (snd (reserve d s))"
begin

lemma release_granted: "sound s \<Longrightarrow> - used s \<le> d \<Longrightarrow> d \<le> 0 \<Longrightarrow> fst (fst (reserve d s))"
  using granted_iff [of s d] sound_bounds [of s] by simp

lemma reserve_release:
  assumes "sound s" "0 \<le> d" "fst (fst (reserve d s))"
  shows "used (snd (reserve (- d) (snd (reserve d s)))) = used s"
proof -
  have d: "- used s \<le> d" using sound_bounds [OF assms(1)] assms(2) by simp
  let ?s = "snd (reserve d s)"
  have u: "used ?s = used s + d" using granted_used [OF assms(1) d assms(3)] .
  have s: "sound ?s" using sound_reserve [OF assms(1) d] .
  have "- used ?s \<le> - d" using u sound_bounds [OF assms(1)] by simp
  moreover from this have "fst (fst (reserve (- d) ?s))"
    using release_granted [OF s] assms(2) by simp
  ultimately show ?thesis using granted_used [OF s] u by simp
qed

text \<open>No sequence of requests takes the budget past its cap.\<close>

fun reserve_all :: "int list \<Rightarrow> 's \<Rightarrow> 's" where
  "reserve_all [] s = s"
| "reserve_all (d # ds) s = reserve_all ds (snd (reserve d s))"

lemma reserve_all_sound: "sound s \<Longrightarrow> \<forall>d \<in> set ds. 0 \<le> d \<Longrightarrow> sound (reserve_all ds s)"
proof (induction ds arbitrary: s)
  case (Cons d ds)
  have "- used s \<le> d" using sound_bounds [OF Cons.prems(1)] Cons.prems(2) by simp
  with Cons.prems Cons.IH [OF sound_reserve [OF Cons.prems(1)]] show ?case by simp
qed simp

lemma reserve_all_within:
  assumes "sound s" "\<forall>d \<in> set ds. 0 \<le> d"
  shows "used (reserve_all ds s) \<le> cap s"
proof -
  have "cap (reserve_all ds s) = cap s" for s by (induction ds arbitrary: s) (simp_all add: cap_same)
  then show ?thesis using sound_bounds [OF reserve_all_sound [OF assms]] by simp
qed

end

text \<open>The store's budget is in good order when its total lies between 0 and a 64-bit cap.\<close>

definition within_cap :: "core \<Rightarrow> bool" where
  "within_cap c \<longleftrightarrow> 0 \<le> totalBytes c \<and> totalBytes c \<le> maxStoreBytes c \<and> maxStoreBytes c \<le> MaxInt64"

lemma within_cap_wrap:
  assumes "within_cap c" "0 \<le> totalBytes c + d" "totalBytes c + d \<le> maxStoreBytes c"
  shows "wrap64 (totalBytes c + d) = totalBytes c + d"
  using assms by (intro wrap64_nonneg_id) (auto simp: within_cap_def)

lemma reserveBytes_release:
  assumes "within_cap c" "- totalBytes c \<le> d" "d \<le> 0"
  shows "reserveBytes d c = ((True, totalBytes c + d, maxStoreBytes c), c\<lparr>totalBytes := totalBytes c + d\<rparr>)"
proof -
  have "wrap64 (totalBytes c + d) = totalBytes c + d"
    using assms by (intro within_cap_wrap) (auto simp: within_cap_def)
  then show ?thesis using assms(3) by (simp add: reserveBytes_def Let_def)
qed

lemma reserveBytes_grow:
  assumes "within_cap c" "0 < d"
  shows "reserveBytes d c =
     (if totalBytes c + d \<le> maxStoreBytes c
      then ((True, totalBytes c + d, maxStoreBytes c), c\<lparr>totalBytes := totalBytes c + d\<rparr>)
      else ((False, totalBytes c, maxStoreBytes c), c))"
proof -
  have room: "wrap64 (maxStoreBytes c - totalBytes c) = maxStoreBytes c - totalBytes c"
    using assms(1) by (intro wrap64_nonneg_id) (auto simp: within_cap_def)
  have "wrap64 (totalBytes c + d) = totalBytes c + d" if "totalBytes c + d \<le> maxStoreBytes c"
    using assms that by (intro within_cap_wrap) (auto simp: within_cap_def)
  then show ?thesis using assms(2) room by (auto simp: reserveBytes_def Let_def)
qed

lemma reserveBytes_eq:
  assumes "within_cap c" "- totalBytes c \<le> d"
  shows "reserveBytes d c =
     (if totalBytes c + d \<le> maxStoreBytes c
      then ((True, totalBytes c + d, maxStoreBytes c), c\<lparr>totalBytes := totalBytes c + d\<rparr>)
      else ((False, totalBytes c, maxStoreBytes c), c))"
proof (cases "0 < d")
  case True
  with assms(1) show ?thesis by (rule reserveBytes_grow)
next
  case False
  with assms show ?thesis
    by (simp add: reserveBytes_release within_cap_def)
qed

interpretation store_budget: byte_budget reserveBytes totalBytes maxStoreBytes within_cap
proof (unfold_locales, goal_cases)
  case (1 s) then show ?case by (simp add: within_cap_def)
next
  case (2 s d) then show ?case by (simp add: reserveBytes_eq)
next
  case (3 s d) then show ?case by (simp add: reserveBytes_eq split: if_splits)
next
  case (4 d s) then show ?case by (auto simp: reserveBytes_def Let_def split: if_splits)
next
  case (5 d s) then show ?case by (auto simp: reserveBytes_def Let_def)
next
  case (6 s d) then show ?case by (auto simp: reserveBytes_eq within_cap_def)
qed

text \<open>
  The form of the cap check the comment on \<open>reserveBytes\<close> warns about: with a cap near the top of
  the range the sum wraps, and a request past the cap is admitted.
\<close>

definition naive_fits :: "int \<Rightarrow> core \<Rightarrow> bool" where
  "naive_fits delta c \<longleftrightarrow> \<not> maxStoreBytes c < wrap64 (totalBytes c + delta)"

lemma naive_check_fails_open:
  assumes "within_cap c" "MaxInt64 < totalBytes c + d" "d \<le> MaxInt64"
  shows "naive_fits d c \<and> maxStoreBytes c < totalBytes c + d"
proof -
  let ?x = "totalBytes c + d"
  have "?x \<le> 2 * MaxInt64" using assms by (simp add: within_cap_def)
  then have "wrap64 ?x = ?x - 2 ^ 64" using assms(2) by (intro wrap64_over) simp_all
  then have "wrap64 ?x < 0" using \<open>?x \<le> 2 * MaxInt64\<close> by (simp add: MaxInt64_def)
  then show ?thesis using assms by (auto simp: naive_fits_def within_cap_def)
qed

end
