(* ===== verification/Validation.thy ===== *)
theory Validation
  imports Types
begin

text \<open>
  \<open>validation.go\<close>: the shape checks at the entry of every write, delete and bulk operation, with
  \<open>precomputeRenderBytes\<close> of \<open>buffer_locked.go\<close>, which \<open>checkItemSize\<close> runs. A helper check returns
  the reason it fails for, None when it passes; a top-level validator wraps that reason as
  \<open>InvalidInput\<close> and returns the item with its rendered bytes filled in, as the Go code leaves it
  behind the item pointer.
\<close>

section \<open>Rendered bytes\<close>

definition precomputeRenderBytes :: "raw \<Rightarrow> raw" where
  "precomputeRenderBytes payload =
     (let trimmed = json_TrimLeft (raw_bytes payload) in
      if trimmed = [] \<or> hd trimmed \<noteq> CHR 0x22 then None
      else unmarshal_string (raw_bytes payload))"

definition fillRender :: "Item \<Rightarrow> Item" where
  \<comment> \<open>\<open>if item.renderBytes == nil\<close>, recompute\<close>
  "fillRender it = (if renderBytes it = None then it\<lparr>renderBytes := precomputeRenderBytes (Payload it)\<rparr> else it)"

lemma fillRender_fields [simp]:
  "Scope (fillRender it) = Scope it" "ID (fillRender it) = ID it" "Seq (fillRender it) = Seq it"
  "Ts (fillRender it) = Ts it" "Payload (fillRender it) = Payload it" "counter (fillRender it) = counter it"
  by (simp_all add: fillRender_def)

section \<open>Field checks\<close>

fun first_err :: "reason option list \<Rightarrow> reason option" where
  "first_err [] = None"
| "first_err (None # es) = first_err es"
| "first_err (Some r # es) = Some r"

lemma first_err_None: "first_err es = None \<longleftrightarrow> (\<forall>e \<in> set es. e = None)"
  by (induction es rule: first_err.induct) auto

definition is_control :: "char \<Rightarrow> bool" where
  "is_control c \<longleftrightarrow> byte c < 32 \<or> byte c = 127"

definition checkKeyField :: "string \<Rightarrow> bytestr \<Rightarrow> int \<Rightarrow> reason option" where
  "checkKeyField fieldName value maxLen =
     (if maxLen < int (length value) then Some (FieldTooLong fieldName maxLen)
      else if value \<noteq> TrimSpace value then Some (FieldWhitespace fieldName)
      else if list_ex is_control value then Some (FieldControlChar fieldName)
      else None)"

definition validateScope :: "bytestr \<Rightarrow> string \<Rightarrow> reason option" where
  "validateScope scope endpoint =
     (if scope = [] then Some (FieldRequired ''scope'' endpoint)
      else checkKeyField ''scope'' scope MaxScopeBytes)"

definition validateID :: "bytestr \<Rightarrow> reason option" where
  "validateID i = (if i = [] then None else checkKeyField ''id'' i MaxIDBytes)"

definition requireID :: "bytestr \<Rightarrow> string \<Rightarrow> reason option" where
  "requireID i endpoint =
     (if i = [] then Some (FieldRequired ''id'' endpoint) else checkKeyField ''id'' i MaxIDBytes)"

definition validateIDOrSeq :: "string \<Rightarrow> bytestr \<Rightarrow> u64 \<Rightarrow> reason option" where
  "validateIDOrSeq endpoint i sq =
     (let hasID = i \<noteq> []; hasSeq = sq \<noteq> 0 in
      if hasID = hasSeq then Some (IDXorSeq endpoint)
      else if hasID then checkKeyField ''id'' i MaxIDBytes
      else None)"

definition validatePayload :: "raw \<Rightarrow> reason option" where
  "validatePayload p =
     (if raw_bytes p = [] \<or> TrimSpace (raw_bytes p) = ''null'' then Some PayloadRequired
      else if \<not> json_Valid (raw_bytes p) then Some PayloadNotJSON
      else None)"

definition itemSizeError :: "Item \<Rightarrow> int \<Rightarrow> reason option" where
  "itemSizeError it cap =
     (if cap < approxItemSize it then Some (ItemTooLarge (approxItemSize it) cap) else None)"

definition checkItemSize :: "Item \<Rightarrow> int \<Rightarrow> Item \<times> reason option" where
  "checkItemSize it cap = (fillRender it, itemSizeError (fillRender it) cap)"

definition rejectClientSeq :: "Item \<Rightarrow> string \<Rightarrow> reason option" where
  "rejectClientSeq it endpoint = (if Seq it \<noteq> 0 then Some (ManagedField ''seq'' endpoint) else None)"

definition rejectClientTs :: "Item \<Rightarrow> string \<Rightarrow> reason option" where
  "rejectClientTs it endpoint = (if Ts it \<noteq> 0 then Some (ManagedField ''ts'' endpoint) else None)"

definition rejectReserved :: "bytestr \<Rightarrow> string \<Rightarrow> reason option" where
  "rejectReserved scope endpoint = (if isReservedScope scope then Some (ReservedScope scope endpoint) else None)"

definition wrapValidation :: "reason option \<Rightarrow> 'a \<Rightarrow> 'a res" where
  "wrapValidation e x = (case e of None \<Rightarrow> Inr x | Some r \<Rightarrow> Inl (InvalidInput r))"

lemma wrapValidation_Inr [simp]: "wrapValidation e x = Inr y \<longleftrightarrow> e = None \<and> x = y"
  by (auto simp: wrapValidation_def split: option.splits)

section \<open>Query parameters\<close>

definition normalizeLimit :: "string \<Rightarrow> reason + int" where
  "normalizeLimit s =
     (if s = [] then Inr DefaultLimit
      else case parse_int64 s of
        None \<Rightarrow> Inl BadLimit
      | Some n \<Rightarrow> if n \<le> 0 then Inl BadLimit else if MaxLimit < n then Inr MaxLimit else Inr n)"

definition normalizeOffset :: "string \<Rightarrow> reason + int" where
  "normalizeOffset s =
     (if s = [] then Inr 0
      else case parse_int64 s of
        None \<Rightarrow> Inl BadOffset
      | Some n \<Rightarrow> if n < 0 then Inl BadOffset else Inr n)"

definition usPerHour :: int where "usPerHour = 3600000000"

definition normalizeHours :: "string \<Rightarrow> reason + int" where
  "normalizeHours s =
     (if s = [] then Inr 0
      else case parse_int64 s of
        None \<Rightarrow> Inl BadHours
      | Some n \<Rightarrow> if n < 0 then Inl BadHours
                 else if MaxInt64 sdiv usPerHour < n then Inl HoursTooLarge else Inr n)"

lemma normalizeLimit_bounds: "normalizeLimit s = Inr n \<Longrightarrow> 1 \<le> n \<and> n \<le> MaxLimit"
  by (auto simp: normalizeLimit_def DefaultLimit_def MaxLimit_def split: option.splits if_splits)

lemma normalizeOffset_bounds: "normalizeOffset s = Inr n \<Longrightarrow> 0 \<le> n"
  by (auto simp: normalizeOffset_def split: option.splits if_splits)

lemma normalizeHours_no_overflow: "normalizeHours s = Inr n \<Longrightarrow> 0 \<le> n \<and> n * usPerHour \<le> MaxInt64"
  by (auto simp: normalizeHours_def usPerHour_def MaxInt64_def split: option.splits if_splits)

section \<open>Top-level validators\<close>

definition validateWriteItem :: "Item \<Rightarrow> string \<Rightarrow> int \<Rightarrow> Item res" where
  "validateWriteItem it endpoint cap =
     (let (it', sizeErr) = checkItemSize it cap in
      wrapValidation (first_err
        [validateScope (Scope it) endpoint, validateID (ID it), validatePayload (Payload it),
         rejectClientSeq it endpoint, rejectClientTs it endpoint, sizeErr]) it')"

definition validateUpsertItem :: "Item \<Rightarrow> int \<Rightarrow> Item res" where
  "validateUpsertItem it cap =
     (let (it', sizeErr) = checkItemSize it cap in
      wrapValidation (first_err
        [validateScope (Scope it) ''/upsert'', rejectReserved (Scope it) ''/upsert'',
         requireID (ID it) ''/upsert'', validatePayload (Payload it),
         rejectClientSeq it ''/upsert'', rejectClientTs it ''/upsert'', sizeErr]) it')"

definition validateUpdateItem :: "Item \<Rightarrow> int \<Rightarrow> Item res" where
  "validateUpdateItem it cap =
     (let (it', sizeErr) = checkItemSize it cap in
      wrapValidation (first_err
        [validateScope (Scope it) ''/update'', rejectReserved (Scope it) ''/update'',
         validateIDOrSeq ''/update'' (ID it) (Seq it), validatePayload (Payload it),
         rejectClientTs it ''/update'', sizeErr]) it')"

record counterAddRequest =
  car_Scope :: bytestr
  car_ID :: bytestr
  car_By :: "int option"

definition checkBy :: "int option \<Rightarrow> reason option" where
  "checkBy b =
     (case b of None \<Rightarrow> Some (FieldRequired ''by'' ''/counter_add'')
      | Some n \<Rightarrow> if n = 0 then Some ByZero
                 else if MaxCounterValue < n \<or> n < - MaxCounterValue then Some ByOutOfRange
                 else None)"

definition checkCounterSize :: "counterAddRequest \<Rightarrow> int \<Rightarrow> reason option" where
  \<comment> \<open>the candidate has some non-nil counter; which cell does not matter\<close>
  "checkCounterSize req cap =
     (let candidate = Item_zero\<lparr>Scope := car_Scope req, ID := car_ID req, counter := Some 0\<rparr> in
      if 0 < cap \<and> cap < approxItemSize candidate
      then Some (CounterItemTooLarge (approxItemSize candidate) cap) else None)"

definition validateCounterAddRequest :: "counterAddRequest \<Rightarrow> int \<Rightarrow> int res" where
  "validateCounterAddRequest req cap =
     wrapValidation (first_err
       [validateScope (car_Scope req) ''/counter_add'', rejectReserved (car_Scope req) ''/counter_add'',
        requireID (car_ID req) ''/counter_add'', checkBy (car_By req), checkCounterSize req cap])
       (case car_By req of Some n \<Rightarrow> n | None \<Rightarrow> 0)"

record deleteRequest =
  dr_Scope :: bytestr
  dr_ID :: bytestr
  dr_Seq :: u64

definition validateDeleteRequest :: "deleteRequest \<Rightarrow> unit res" where
  "validateDeleteRequest req =
     wrapValidation (first_err
       [validateScope (dr_Scope req) ''/delete'', validateIDOrSeq ''/delete'' (dr_ID req) (dr_Seq req)]) ()"

record deleteScopeRequest =
  dsr_Scope :: bytestr

definition validateDeleteScopeRequest :: "deleteScopeRequest \<Rightarrow> unit res" where
  "validateDeleteScopeRequest req =
     wrapValidation (first_err
       [validateScope (dsr_Scope req) ''/delete_scope'', rejectReserved (dsr_Scope req) ''/delete_scope'']) ()"

record deleteUpToRequest =
  dur_Scope :: bytestr
  dur_MaxSeq :: u64

definition validateDeleteUpToRequest :: "deleteUpToRequest \<Rightarrow> unit res" where
  "validateDeleteUpToRequest req =
     wrapValidation (first_err
       [validateScope (dur_Scope req) ''/delete_up_to'',
        if dur_MaxSeq req = 0 then Some MaxSeqRequired else None]) ()"

section \<open>What a passed check gives\<close>

definition payload_ok :: "raw \<Rightarrow> bool" where
  "payload_ok p \<longleftrightarrow> raw_bytes p \<noteq> [] \<and> TrimSpace (raw_bytes p) \<noteq> ''null'' \<and> json_Valid (raw_bytes p)"

lemma validatePayload_None [simp]: "validatePayload p = None \<longleftrightarrow> payload_ok p"
  by (simp add: validatePayload_def payload_ok_def)

lemma payload_ok_Some: "payload_ok p \<Longrightarrow> \<exists>s. p = Some s"
  by (cases p) (simp_all add: payload_ok_def)

definition key_ok :: "bytestr \<Rightarrow> int \<Rightarrow> bool" where
  "key_ok k n \<longleftrightarrow> int (length k) \<le> n \<and> TrimSpace k = k \<and> \<not> list_ex is_control k"

lemma checkKeyField_None [simp]: "checkKeyField f k n = None \<longleftrightarrow> key_ok k n"
  by (auto simp: checkKeyField_def key_ok_def)

definition scope_ok :: "bytestr \<Rightarrow> bool" where
  "scope_ok k \<longleftrightarrow> k \<noteq> [] \<and> key_ok k MaxScopeBytes"

lemma validateScope_None [simp]: "validateScope k ep = None \<longleftrightarrow> scope_ok k"
  by (simp add: validateScope_def scope_ok_def)

lemma scope_ok_nonempty: "scope_ok k \<Longrightarrow> k \<noteq> []"
  by (simp add: scope_ok_def)

lemmas field_check_defs = validateID_def requireID_def rejectClientSeq_def rejectClientTs_def
  rejectReserved_def itemSizeError_def

lemma validateWriteItem_Inr:
  "validateWriteItem it ep cap = Inr it' \<longleftrightarrow>
     it' = fillRender it \<and> scope_ok (Scope it) \<and> (ID it = [] \<or> key_ok (ID it) MaxIDBytes) \<and>
     payload_ok (Payload it) \<and> Seq it = 0 \<and> Ts it = 0 \<and> approxItemSize (fillRender it) \<le> cap"
  by (auto simp: validateWriteItem_def checkItemSize_def first_err_None field_check_defs not_less
      split: if_splits)

lemma validateUpsertItem_Inr:
  "validateUpsertItem it cap = Inr it' \<longleftrightarrow>
     it' = fillRender it \<and> scope_ok (Scope it) \<and> \<not> isReservedScope (Scope it) \<and> ID it \<noteq> [] \<and>
     key_ok (ID it) MaxIDBytes \<and> payload_ok (Payload it) \<and> Seq it = 0 \<and> Ts it = 0 \<and>
     approxItemSize (fillRender it) \<le> cap"
  by (auto simp: validateUpsertItem_def checkItemSize_def first_err_None field_check_defs not_less
      split: if_splits)

lemma validateIDOrSeq_None:
  "validateIDOrSeq ep i sq = None \<longleftrightarrow> (i \<noteq> [] \<and> sq = 0 \<and> key_ok i MaxIDBytes) \<or> (i = [] \<and> sq \<noteq> 0)"
  by (auto simp: validateIDOrSeq_def)

lemma validateUpdateItem_Inr:
  "validateUpdateItem it cap = Inr it' \<longleftrightarrow>
     it' = fillRender it \<and> scope_ok (Scope it) \<and> \<not> isReservedScope (Scope it) \<and>
     ((ID it \<noteq> [] \<and> Seq it = 0 \<and> key_ok (ID it) MaxIDBytes) \<or> (ID it = [] \<and> Seq it \<noteq> 0)) \<and>
     payload_ok (Payload it) \<and> Ts it = 0 \<and> approxItemSize (fillRender it) \<le> cap"
  by (auto simp: validateUpdateItem_def checkItemSize_def first_err_None field_check_defs not_less
      validateIDOrSeq_None split: if_splits)

lemma validateCounterAddRequest_Inr:
  "validateCounterAddRequest req cap = Inr n \<longleftrightarrow>
     car_By req = Some n \<and> scope_ok (car_Scope req) \<and> \<not> isReservedScope (car_Scope req) \<and>
     car_ID req \<noteq> [] \<and> key_ok (car_ID req) MaxIDBytes \<and> n \<noteq> 0 \<and> \<bar>n\<bar> \<le> MaxCounterValue \<and>
     (0 < cap \<longrightarrow> 48 + int (length (car_Scope req)) + int (length (car_ID req)) + counterCellOverhead \<le> cap)"
  by (auto simp: validateCounterAddRequest_def first_err_None field_check_defs checkBy_def
      checkCounterSize_def approxItemSize_def Item_zero_def Let_def not_less not_le
      split: if_splits option.splits)

section \<open>Grouping a bulk request\<close>

text \<open>
  A Go \<open>map[string][]Item\<close> is an association list with distinct keys. Its order stands for the order
  a \<open>range\<close> over the map happens to take, so what is proved about an operation that ranges over one
  holds for every order.
\<close>

type_synonym grouped = "(bytestr \<times> Item list) list"

fun group_add :: "bytestr \<Rightarrow> Item \<Rightarrow> grouped \<Rightarrow> grouped" where
  "group_add k it [] = [(k, [it])]"
| "group_add k it ((k', its) # g) = (if k = k' then (k', its @ [it]) # g else (k', its) # group_add k it g)"

definition groupItemsByScope :: "Item list \<Rightarrow> grouped" where
  "groupItemsByScope items = foldl (\<lambda>g it. group_add (Scope it) it g) [] items"

lemma group_add_keys: "fst ` set (group_add k it g) = insert k (fst ` set g)"
  by (induction k it g rule: group_add.induct) (simp_all add: insert_commute)

lemma group_add_distinct: "distinct (map fst g) \<Longrightarrow> distinct (map fst (group_add k it g))"
  by (induction k it g rule: group_add.induct) (simp_all add: group_add_keys)

definition group_of :: "grouped \<Rightarrow> bytestr \<Rightarrow> Item list" where
  "group_of g k = (case map_of g k of None \<Rightarrow> [] | Some its \<Rightarrow> its)"

lemma group_of_add: "group_of (group_add k it g) j = (if j = k then group_of g k @ [it] else group_of g j)"
  by (induction g) (auto simp: group_of_def split: if_splits)

lemma groupItemsByScope_snoc:
  "groupItemsByScope (items @ [it]) = group_add (Scope it) it (groupItemsByScope items)"
  by (simp add: groupItemsByScope_def)

lemma groupItemsByScope_spec:
  "distinct (map fst (groupItemsByScope items)) \<and>
   fst ` set (groupItemsByScope items) = Scope ` set items \<and>
   group_of (groupItemsByScope items) k = filter (\<lambda>it. Scope it = k) items"
proof (induction items rule: rev_induct)
  case Nil
  show ?case by (simp add: groupItemsByScope_def group_of_def)
next
  case (snoc it items)
  then show ?case
    by (cases "k = Scope it") (simp_all add: groupItemsByScope_snoc group_add_distinct group_add_keys group_of_add)
qed

end
