(* ===== verification/Buffer.thy ===== *)
theory Buffer
  imports Admission Validation
begin

text \<open>
  The scope buffer of \<open>buffer.go\<close>, the locked helpers of \<open>buffer_locked.go\<close> and
  \<open>deleteIndexLocked\<close>/\<open>resetIfEmptyLocked\<close> of \<open>buffer_delete.go\<close>. Every operation runs under the
  buffer's mutex, so it is a function from the counters it shares with its store (\<open>core\<close>) and the
  buffer to a result and both states. \<open>attached\<close> is \<open>b.store != nil\<close>. The structural invariant
  \<open>buf_inv\<close> and the three transitions all operations are made of (push, overwrite in place, remove)
  follow, each with its preservation lemma.
\<close>

record scopeBuffer =
  attached :: bool
  detached :: bool
  items :: "Item list"
  byID :: "(bytestr, Item) gomap"
  bySeq :: "(u64, Item) gomap"
  lastSeq :: u64
  maxItems :: int
  bytes :: int
  idKeyBytes :: int
  createdTS :: int
  bLastWriteTS :: int
  lastAccessTS :: int
  readCountTotal :: u64

type_synonym 'a bufop = "core \<Rightarrow> scopeBuffer \<Rightarrow> 'a res \<times> core \<times> scopeBuffer"

definition newscopeBuffer :: "int \<Rightarrow> int \<Rightarrow> scopeBuffer" where
  "newscopeBuffer cap now =
     \<lparr>attached = False, detached = False, items = [], byID = None, bySeq = None, lastSeq = 0,
      maxItems = cap, bytes = 0, idKeyBytes = 0, createdTS = now, bLastWriteTS = now,
      lastAccessTS = 0, readCountTotal = 0\<rparr>"

section \<open>Locked helpers\<close>

definition reserveFor :: "int \<Rightarrow> core \<Rightarrow> scopeBuffer \<Rightarrow> gerr option \<times> core" where
  \<comment> \<open>\<open>if b.store != nil\<close>, reserve or fail with the store's numbers\<close>
  "reserveFor delta c b =
     (if attached b then
        (case reserveBytes delta c of ((ok, current, mx), c') \<Rightarrow>
           if ok then (None, c') else (Some (StoreFullError current delta mx), c'))
      else (None, c))"

definition reservePayloadDeltaLocked :: "int \<Rightarrow> int \<Rightarrow> core \<Rightarrow> scopeBuffer \<Rightarrow> gerr option \<times> int \<times> core" where
  "reservePayloadDeltaLocked oldSize newSize c b =
     (let delta = newSize - oldSize in
      if attached b \<and> delta \<noteq> 0 then
        (case reserveFor delta c b of
           (Some e, c') \<Rightarrow> (Some e, 0, c')
         | (None, c') \<Rightarrow> (None, delta, c'))
      else (None, delta, c))"

definition itemCapExceeded :: "scopeBuffer \<Rightarrow> int \<Rightarrow> bool" where
  "itemCapExceeded b proposed \<longleftrightarrow> 0 < maxItems b \<and> maxItems b < proposed"

definition payloadAndRenderBytes :: "Item \<Rightarrow> int" where
  "payloadAndRenderBytes it =
     (if counter it \<noteq> None then counterCellOverhead else rawlen (Payload it) + rawlen (renderBytes it))"

definition indexBySeqLocked :: "scopeBuffer \<Rightarrow> u64 \<Rightarrow> nat option" where
  "indexBySeqLocked b sq =
     (let i = sort_Search (length (items b)) (\<lambda>i. sq \<le> Seq (items b ! i)) in
      if i = length (items b) \<or> Seq (items b ! i) \<noteq> sq then None else Some i)"

definition stampLocked :: "int \<Rightarrow> core \<Rightarrow> scopeBuffer \<Rightarrow> core \<times> scopeBuffer" where
  \<comment> \<open>\<open>b.lastWriteTS = ts\<close>, and the store's clock when there is a store\<close>
  "stampLocked ts c b = (if attached b then bumpLastWriteTS ts c else c, b\<lparr>bLastWriteTS := ts\<rparr>)"

definition overwriteLocked :: "nat \<Rightarrow> Item \<Rightarrow> bytestr option \<Rightarrow> int \<Rightarrow> scopeBuffer \<Rightarrow> panic option \<times> scopeBuffer" where
  \<comment> \<open>\<open>items[i] = updated; bySeq[updated.Seq] = updated; byID[key] = updated; bytes += delta\<close>, the
     map assignments without a nil check\<close>
  "overwriteLocked i updated key delta b =
     (let b1 = b\<lparr>items := (items b)[i := updated]\<rparr> in
      case gm_set (bySeq b1) (Seq updated) updated of
        None \<Rightarrow> (Some NilMapWrite, b1)
      | Some m \<Rightarrow>
          (let b2 = b1\<lparr>bySeq := m\<rparr> in
           case key of
             None \<Rightarrow> (None, b2\<lparr>bytes := bytes b2 + delta\<rparr>)
           | Some k \<Rightarrow>
               (case gm_set (byID b2) k updated of
                  None \<Rightarrow> (Some NilMapWrite, b2)
                | Some m' \<Rightarrow> (None, b2\<lparr>byID := m', bytes := bytes b2 + delta\<rparr>))))"

definition replaceItemAtIndexLocked :: "nat \<Rightarrow> raw \<Rightarrow> int \<Rightarrow> raw \<Rightarrow> int \<Rightarrow> unit bufop" where
  "replaceItemAtIndexLocked i payload ts render delta c b =
     (let updated = (items b ! i)\<lparr>Payload := payload, Ts := ts, renderBytes := render, counter := None\<rparr> in
      case overwriteLocked i updated (if ID updated \<noteq> [] then Some (ID updated) else None) delta b of
        (Some p, b') \<Rightarrow> (Inl (GoPanic p), c, b')
      | (None, b') \<Rightarrow> (Inr (), stampLocked ts c b'))"

definition pushLocked :: "Item \<Rightarrow> bool \<Rightarrow> int \<Rightarrow> scopeBuffer \<Rightarrow> Item \<times> scopeBuffer" where
  \<comment> \<open>the next seq, the append, and the lazily initialised index writes; \<open>byid\<close> says whether byID is written\<close>
  "pushLocked it byid sz b =
     (let sq = lastSeq b + 1;
          it' = it\<lparr>Seq := sq\<rparr>;
          b1 = b\<lparr>lastSeq := sq, items := items b @ [it'], bySeq := gm_put (bySeq b) sq it'\<rparr>;
          b2 = (if byid then b1\<lparr>byID := gm_put (byID b1) (ID it') it',
                               idKeyBytes := idKeyBytes b1 + int (length (ID it'))\<rparr> else b1)
      in (it', b2\<lparr>bytes := bytes b2 + sz\<rparr>))"

definition insertNewItemLocked :: "Item \<Rightarrow> int \<Rightarrow> Item bufop" where
  "insertNewItemLocked it nowUs c b =
     (let it1 = fillRender (it\<lparr>counter := None, Ts := nowUs\<rparr>);
          sz = approxItemSize it1
      in case reserveFor sz c b of
           (Some e, c') \<Rightarrow> (Inl e, c', b)
         | (None, c') \<Rightarrow>
             (let (it2, b') = pushLocked it1 (ID it1 \<noteq> []) sz b;
                  c'' = (if attached b then bumpLastWriteTS nowUs (add_totalItems 1 c') else c')
              in (Inr it2, c'', b'\<lparr>bLastWriteTS := nowUs\<rparr>)))"

definition resetIfEmptyLocked :: "scopeBuffer \<Rightarrow> scopeBuffer" where
  "resetIfEmptyLocked b =
     (if items b \<noteq> [] then b else b\<lparr>items := [], bySeq := None, byID := None, idKeyBytes := 0\<rparr>)"

definition releaseLocked :: "int \<Rightarrow> int \<Rightarrow> int \<Rightarrow> core \<Rightarrow> scopeBuffer \<Rightarrow> core \<times> scopeBuffer" where
  \<comment> \<open>the tail both delete paths end with: give back bytes and items, stamp, reset when empty\<close>
  "releaseLocked freed n now c b =
     (let b1 = b\<lparr>bytes := bytes b - freed\<rparr>;
          c1 = (if attached b then bumpLastWriteTS now (add_totalItems (- n) (add_totalBytes (- freed) c)) else c)
      in (c1, resetIfEmptyLocked (b1\<lparr>bLastWriteTS := now\<rparr>)))"

definition deleteIndexLocked :: "nat \<Rightarrow> int \<Rightarrow> core \<Rightarrow> scopeBuffer \<Rightarrow> core \<times> scopeBuffer" where
  "deleteIndexLocked i now c b =
     (let removed = items b ! i;
          b1 = b\<lparr>items := take i (items b) @ drop (i + 1) (items b), bySeq := gm_del (bySeq b) (Seq removed)\<rparr>;
          b2 = (if ID removed \<noteq> []
                then b1\<lparr>byID := gm_del (byID b1) (ID removed),
                        idKeyBytes := idKeyBytes b1 - int (length (ID removed))\<rparr> else b1)
      in releaseLocked (approxItemSize removed) 1 now c b2)"

section \<open>The invariant\<close>

definition id_key :: "Item \<Rightarrow> bytestr option" where
  "id_key it = (if ID it = [] then None else Some (ID it))"

definition seq_key :: "Item \<Rightarrow> u64 option" where
  "seq_key it = Some (Seq it)"

text \<open>A map indexes a set of items by a partial key when it holds exactly the items that have a key.\<close>

definition indexes :: "(Item \<Rightarrow> 'k option) \<Rightarrow> Item set \<Rightarrow> ('k, Item) gomap \<Rightarrow> bool" where
  "indexes key S m \<longleftrightarrow> (\<forall>k it. gm_get m k = Some it \<longleftrightarrow> it \<in> S \<and> key it = Some k)"

lemma indexesD: "indexes key S m \<Longrightarrow> gm_get m k = Some it \<longleftrightarrow> it \<in> S \<and> key it = Some k"
  by (simp add: indexes_def)

lemma indexes_None: "indexes key S m \<Longrightarrow> gm_get m k = None \<longleftrightarrow> (\<forall>it \<in> S. key it \<noteq> Some k)"
  by (auto simp: indexesD simp flip: not_Some_eq)

lemma indexes_unique:
  assumes "indexes key S m" "x \<in> S" "y \<in> S" "key x = Some k" "key y = Some k"
  shows "x = y"
proof -
  have "gm_get m k = Some x" "gm_get m k = Some y" using assms by (simp_all add: indexesD)
  then show ?thesis by simp
qed

lemma indexesI:
  "(\<And>k it. gm_get m k = Some it \<longleftrightarrow> it \<in> S \<and> key it = Some k) \<Longrightarrow> indexes key S m"
  by (simp add: indexes_def)

lemma indexes_empty [simp]: "indexes key {} None"
  by (simp add: indexes_def)

lemma indexes_put:
  assumes "indexes key S m" "key it = Some k" "gm_get m k = None"
  shows "indexes key (insert it S) (gm_put m k it)"
proof (rule indexesI)
  fix j x
  have "\<forall>y \<in> S. key y \<noteq> Some k" using assms by (simp add: indexes_None)
  then show "gm_get (gm_put m k it) j = Some x \<longleftrightarrow> x \<in> insert it S \<and> key x = Some j"
    using assms(2) by (cases "j = k") (auto simp: indexesD [OF assms(1)])
qed

lemma indexes_keyless: "indexes key S m \<Longrightarrow> key it = None \<Longrightarrow> indexes key (insert it S) m"
  by (rule indexesI) (auto simp: indexesD)

lemma indexes_swap:
  assumes "indexes key S m" "old \<in> S" "key old = Some k" "key new = Some k"
  shows "indexes key (insert new (S - {old})) (gm_put m k new)"
proof (rule indexesI)
  fix j x
  have "x \<in> S \<Longrightarrow> key x = Some k \<Longrightarrow> x = old"
    using indexes_unique [OF assms(1) _ assms(2) _ assms(3)] by blast
  then have "\<not> (x \<in> S \<and> x \<noteq> old \<and> key x = Some k)" by blast
  then show "gm_get (gm_put m k new) j = Some x \<longleftrightarrow> x \<in> insert new (S - {old}) \<and> key x = Some j"
    using assms(3,4) by (cases "j = k") (auto simp: indexesD [OF assms(1)])
qed

lemma indexes_swap_keyless:
  "indexes key S m \<Longrightarrow> key old = None \<Longrightarrow> key new = None \<Longrightarrow> indexes key (insert new (S - {old})) m"
  by (rule indexesI) (auto simp: indexesD)

lemma indexes_del:
  assumes "indexes key S m" "it \<in> S" "key it = Some k"
  shows "indexes key (S - {it}) (gm_del m k)"
proof (rule indexesI)
  fix j x
  have "x \<in> S \<Longrightarrow> key x = Some k \<Longrightarrow> x = it"
    using indexes_unique [OF assms(1) _ assms(2) _ assms(3)] by blast
  then have "\<not> (x \<in> S \<and> x \<noteq> it \<and> key x = Some k)" by blast
  then show "gm_get (gm_del m k) j = Some x \<longleftrightarrow> x \<in> S - {it} \<and> key x = Some j"
    using assms(3) by (cases "j = k") (auto simp: indexesD [OF assms(1)])
qed

lemma indexes_del_keyless: "indexes key S m \<Longrightarrow> key it = None \<Longrightarrow> indexes key (S - {it}) m"
  by (rule indexesI) (auto simp: indexesD)

definition total_size :: "Item list \<Rightarrow> int" where
  "total_size xs = sum_list (map approxItemSize xs)"

definition id_bytes :: "Item list \<Rightarrow> int" where
  "id_bytes xs = sum_list (map (\<lambda>it. int (length (ID it))) xs)"

text \<open>The counter cells a list of items points to.\<close>

definition cell_refs :: "Item list \<Rightarrow> nat list" where
  "cell_refs xs = concat (map (\<lambda>it. case counter it of None \<Rightarrow> [] | Some a \<Rightarrow> [a]) xs)"

lemma cell_refs_simps [simp]:
  "cell_refs [] = []" "cell_refs (xs @ ys) = cell_refs xs @ cell_refs ys"
  "counter it = None \<Longrightarrow> cell_refs (it # xs) = cell_refs xs"
  "counter it = Some a \<Longrightarrow> cell_refs (it # xs) = a # cell_refs xs"
  by (simp_all add: cell_refs_def)

lemma cell_refs_set: "a \<in> set (cell_refs xs) \<longleftrightarrow> (\<exists>it \<in> set xs. counter it = Some a)"
  by (induction xs) (auto simp: cell_refs_def split: option.splits)

lemma cell_refs_mono: "set xs \<subseteq> set ys \<Longrightarrow> set (cell_refs xs) \<subseteq> set (cell_refs ys)"
  unfolding subset_iff cell_refs_set by blast

definition buf_inv :: "scopeBuffer \<Rightarrow> bool" where
  "buf_inv b \<longleftrightarrow>
     sorted_wrt (<) (map Seq (items b)) \<and>
     (\<forall>it \<in> set (items b). 0 < Seq it \<and> Seq it \<le> lastSeq b) \<and>
     indexes seq_key (set (items b)) (bySeq b) \<and>
     indexes id_key (set (items b)) (byID b) \<and>
     bytes b = total_size (items b) \<and>
     0 \<le> maxItems b \<and> (0 < maxItems b \<longrightarrow> int (length (items b)) \<le> maxItems b) \<and>
     distinct (cell_refs (items b))"

lemma buf_invD:
  assumes "buf_inv b"
  shows "sorted_wrt (<) (map Seq (items b))"
    and "it \<in> set (items b) \<Longrightarrow> 0 < Seq it" and "it \<in> set (items b) \<Longrightarrow> Seq it \<le> lastSeq b"
    and "indexes seq_key (set (items b)) (bySeq b)" and "indexes id_key (set (items b)) (byID b)"
    and "bytes b = total_size (items b)" and "distinct (cell_refs (items b))"
    and "0 \<le> maxItems b" and "0 < maxItems b \<Longrightarrow> int (length (items b)) \<le> maxItems b"
  using assms by (simp_all add: buf_inv_def)

text \<open>
  The running sum of the id lengths, which only \<open>approxSizeBytesLocked\<close> reads, is kept apart from
  \<open>buf_inv\<close>: every operation on a linked buffer keeps it, and \<open>rebuildAll\<close> does not set it up.
\<close>

definition id_acct :: "scopeBuffer \<Rightarrow> bool" where
  "id_acct b \<longleftrightarrow> idKeyBytes b = id_bytes (items b)"

lemma newscopeBuffer_inv: "0 \<le> cap \<Longrightarrow> buf_inv (newscopeBuffer cap now)"
  by (simp add: buf_inv_def newscopeBuffer_def total_size_def id_bytes_def)

lemma total_size_simps [simp]:
  "total_size [] = 0" "total_size (it # xs) = approxItemSize it + total_size xs"
  "total_size (xs @ ys) = total_size xs + total_size ys"
  by (simp_all add: total_size_def)

lemma id_bytes_simps [simp]:
  "id_bytes [] = 0" "id_bytes (it # xs) = int (length (ID it)) + id_bytes xs"
  "id_bytes (xs @ ys) = id_bytes xs + id_bytes ys"
  by (simp_all add: id_bytes_def)

lemma total_size_nonneg [simp]: "0 \<le> total_size xs"
  by (induction xs) simp_all

lemma total_size_mem: "it \<in> set xs \<Longrightarrow> approxItemSize it \<le> total_size xs"
  by (induction xs) (auto intro: add_increasing add_increasing2)

lemma total_size_remove:
  "i < length xs \<Longrightarrow> total_size (take i xs @ drop (Suc i) xs) = total_size xs - approxItemSize (xs ! i)"
  by (subst (3) id_take_nth_drop [of i xs]) simp_all

lemma id_bytes_remove:
  "i < length xs \<Longrightarrow> id_bytes (take i xs @ drop (Suc i) xs) = id_bytes xs - int (length (ID (xs ! i)))"
  by (subst (3) id_take_nth_drop [of i xs]) simp_all

lemma total_size_update:
  "i < length xs \<Longrightarrow> total_size (xs[i := x]) = total_size xs + (approxItemSize x - approxItemSize (xs ! i))"
  by (induction xs arbitrary: i) (auto split: nat.splits)

lemma id_bytes_update: "i < length xs \<Longrightarrow> ID x = ID (xs ! i) \<Longrightarrow> id_bytes (xs[i := x]) = id_bytes xs"
  by (induction xs arbitrary: i) (auto split: nat.splits)

end
