(* ===== verification/BufferContract.thy ===== *)
theory BufferContract
  imports Buffer
begin

text \<open>
  What every operation on a linked buffer promises its store: the contract \<open>buffer_op\<close>. The first
  part proves the transitions of \<open>Buffer\<close> keep \<open>buf_inv\<close>; the second states when a buffer is fit to
  be operated on (\<open>ready\<close>) and how the store's counters must move with it (\<open>moved\<close>).
\<close>

section \<open>Consequences of the invariant\<close>

lemma buf_inv_distinct_seq: "buf_inv b \<Longrightarrow> distinct (map Seq (items b))"
  using buf_invD(1) strict_sorted_iff by blast

lemma buf_inv_distinct: "buf_inv b \<Longrightarrow> distinct (items b)"
  using buf_inv_distinct_seq distinct_map by blast

lemma buf_inv_nth_less:
  "buf_inv b \<Longrightarrow> i < j \<Longrightarrow> j < length (items b) \<Longrightarrow> Seq (items b ! i) < Seq (items b ! j)"
  using sorted_wrt_nth_less [OF buf_invD(1), of b i j] by simp

lemma buf_inv_nth_le:
  "buf_inv b \<Longrightarrow> i \<le> j \<Longrightarrow> j < length (items b) \<Longrightarrow> Seq (items b ! i) \<le> Seq (items b ! j)"
  using buf_inv_nth_less [of b i j] by (cases "i = j") auto

lemma buf_inv_seq_inj:
  "buf_inv b \<Longrightarrow> x \<in> set (items b) \<Longrightarrow> y \<in> set (items b) \<Longrightarrow> Seq x = Seq y \<Longrightarrow> x = y"
  using buf_inv_distinct_seq [of b] by (simp add: distinct_map inj_on_def)

text \<open>The binary search finds the position of a seq exactly when the buffer holds it.\<close>

lemma indexBySeqLocked_Some:
  assumes "buf_inv b"
  shows "indexBySeqLocked b sq = Some i \<longleftrightarrow> i < length (items b) \<and> Seq (items b ! i) = sq"
proof -
  let ?f = "\<lambda>i. sq \<le> Seq (items b ! i)"
  let ?s = "sort_Search (length (items b)) ?f"
  have mono: "\<And>i j. i \<le> j \<Longrightarrow> j < length (items b) \<Longrightarrow> ?f i \<Longrightarrow> ?f j"
    using buf_inv_nth_le [OF assms] order_trans by blast
  have s: "?s \<le> length (items b)" by (rule sort_Search_least(1) [of _ ?f]) (rule mono)
  have below: "\<not> ?f k" if "k < ?s" for k by (rule sort_Search_least(2) [OF mono that])
  have above: "?f k" if "?s \<le> k" "k < length (items b)" for k
    by (rule sort_Search_least(3) [OF mono that])
  have eq: "?s = i" if i: "i < length (items b)" "Seq (items b ! i) = sq"
  proof (rule antisym)
    show "?s \<le> i" using below [of i] i by (meson linorder_not_le order_refl)
    show "i \<le> ?s"
    proof (rule ccontr)
      assume "\<not> i \<le> ?s"
      then have lt: "?s < i" by simp
      with i(1) have "?s < length (items b)" by simp
      with above [of ?s] have "?f ?s" by blast
      moreover have "Seq (items b ! ?s) < sq" using buf_inv_nth_less [OF assms lt i(1)] i(2) by simp
      ultimately show False by simp
    qed
  qed
  show ?thesis
  proof
    assume "indexBySeqLocked b sq = Some i"
    with s show "i < length (items b) \<and> Seq (items b ! i) = sq"
      by (auto simp: indexBySeqLocked_def Let_def split: if_splits)
  next
    assume i: "i < length (items b) \<and> Seq (items b ! i) = sq"
    with eq show "indexBySeqLocked b sq = Some i"
      by (simp add: indexBySeqLocked_def)
  qed
qed

lemma index_of_member:
  assumes "buf_inv b" "it \<in> set (items b)"
  obtains i where "indexBySeqLocked b (Seq it) = Some i" "i < length (items b)" "items b ! i = it"
proof -
  obtain i where "i < length (items b)" "items b ! i = it" using assms(2) by (meson in_set_conv_nth)
  with that indexBySeqLocked_Some [OF assms(1)] show thesis by blast
qed

text \<open>The cut \<open>deleteUpToSeq\<close> and \<open>sinceSeq\<close> search for splits the list by seq.\<close>

lemma seq_cut:
  fixes m :: u64
  assumes "buf_inv b"
  defines "idx \<equiv> sort_Search (length (items b)) (\<lambda>i. m < Seq (items b ! i))"
  shows "idx \<le> length (items b)" and "take idx (items b) = filter (\<lambda>y. Seq y \<le> m) (items b)"
    and "drop idx (items b) = filter (\<lambda>y. m < Seq y) (items b)"
proof -
  let ?f = "\<lambda>i. m < Seq (items b ! i)"
  have mono: "\<And>i j. i \<le> j \<Longrightarrow> j < length (items b) \<Longrightarrow> ?f i \<Longrightarrow> ?f j"
    using buf_inv_nth_le [OF assms(1)] less_le_trans by blast
  show le: "idx \<le> length (items b)" unfolding idx_def by (rule sort_Search_least(1)) (rule mono)
  have below: "\<not> ?f k" if "k < idx" for k
    by (rule sort_Search_least(2) [OF mono that [unfolded idx_def]])
  have above: "?f k" if "idx \<le> k" "k < length (items b)" for k
    by (rule sort_Search_least(3) [OF mono that [unfolded idx_def]])
  have t: "\<not> m < Seq y" if "y \<in> set (take idx (items b))" for y
    using that below le by (fastforce simp: in_set_conv_nth)
  have d: "m < Seq y" if y: "y \<in> set (drop idx (items b))" for y
  proof -
    obtain j where "j < length (items b) - idx" "y = items b ! (idx + j)"
      using y le by (auto simp: in_set_conv_nth)
    with above [of "idx + j"] show ?thesis by simp
  qed
  have split: "filter P (items b) = filter P (take idx (items b)) @ filter P (drop idx (items b))" for P
    by (metis append_take_drop_id filter_append)
  have "\<forall>y \<in> set (take idx (items b)). Seq y \<le> m" using t by (meson not_less)
  moreover have "\<forall>y \<in> set (drop idx (items b)). \<not> Seq y \<le> m" using d by (meson not_less)
  ultimately show "take idx (items b) = filter (\<lambda>y. Seq y \<le> m) (items b)"
    unfolding split by (simp add: filter_id_conv filter_empty_conv)
  have "\<forall>y \<in> set (take idx (items b)). \<not> m < Seq y" using t by blast
  moreover have "\<forall>y \<in> set (drop idx (items b)). m < Seq y" using d by blast
  ultimately show "drop idx (items b) = filter (\<lambda>y. m < Seq y) (items b)"
    unfolding split by (simp add: filter_id_conv filter_empty_conv)
qed

section \<open>The transitions keep the invariant\<close>

lemma pushLocked_fields:
  "attached (snd (pushLocked it byid sz b)) = attached b" "detached (snd (pushLocked it byid sz b)) = detached b"
  "maxItems (snd (pushLocked it byid sz b)) = maxItems b" "createdTS (snd (pushLocked it byid sz b)) = createdTS b"
  "lastSeq (snd (pushLocked it byid sz b)) = lastSeq b + 1" "bytes (snd (pushLocked it byid sz b)) = bytes b + sz"
  "items (snd (pushLocked it byid sz b)) = items b @ [it\<lparr>Seq := lastSeq b + 1\<rparr>]"
  "fst (pushLocked it byid sz b) = it\<lparr>Seq := lastSeq b + 1\<rparr>"
  by (simp_all add: pushLocked_def Let_def)

lemma approxItemSize_Seq [simp]: "approxItemSize (it\<lparr>Seq := sq\<rparr>) = approxItemSize it"
  by (simp add: approxItemSize_def Let_def)

lemma pushLocked_inv:
  assumes inv: "buf_inv b" and room: "lastSeq b \<noteq> - 1" and cap: "\<not> itemCapExceeded b (int (length (items b)) + 1)"
    and byid: "byid \<longleftrightarrow> ID it \<noteq> []" and fresh: "ID it \<noteq> [] \<Longrightarrow> gm_get (byID b) (ID it) = None"
    and sz: "sz = approxItemSize it" and ref: "\<And>a. counter it = Some a \<Longrightarrow> a \<notin> set (cell_refs (items b))"
  shows "buf_inv (snd (pushLocked it byid sz b))"
proof -
  let ?sq = "lastSeq b + 1" let ?it = "it\<lparr>Seq := lastSeq b + 1\<rparr>"
  have lt: "Seq x < ?sq" if "x \<in> set (items b)" for x
    using buf_invD(3) [OF inv that] word_less_Suc [OF room] by simp
  have pos: "0 < ?sq" using word_less_Suc [OF room] word_gt_0 by (metis word_not_simps(1))
  have "gm_get (bySeq b) ?sq = None"
    unfolding indexes_None [OF buf_invD(4) [OF inv]] using lt by (fastforce simp: seq_key_def)
  then have sidx: "indexes seq_key (insert ?it (set (items b))) (gm_put (bySeq b) ?sq ?it)"
    by (intro indexes_put buf_invD(4) [OF inv]) (simp_all add: seq_key_def)
  have iidx: "indexes id_key (insert ?it (set (items b)))
      (if byid then gm_put (byID b) (ID it) ?it else byID b)"
  proof (cases byid)
    case True
    then have "indexes id_key (insert ?it (set (items b))) (gm_put (byID b) (ID it) ?it)"
      using byid fresh by (intro indexes_put buf_invD(5) [OF inv]) (simp_all add: id_key_def)
    with True show ?thesis by simp
  next
    case False
    then have "indexes id_key (insert ?it (set (items b))) (byID b)"
      using byid by (intro indexes_keyless buf_invD(5) [OF inv]) (simp add: id_key_def)
    with False show ?thesis by simp
  qed
  have refs: "distinct (cell_refs (items b @ [?it]))"
    using buf_invD(7) [OF inv] ref by (cases "counter it") auto
  show ?thesis
    unfolding buf_inv_def pushLocked_fields
    using sidx iidx lt pos cap refs buf_invD(1,6,7,8) [OF inv] buf_invD(2) [OF inv] byid sz
    by (auto simp: pushLocked_def Let_def sorted_wrt_append itemCapExceeded_def intro: less_imp_le)
qed

lemma pushLocked_id_acct:
  "id_acct b \<Longrightarrow> byid \<longleftrightarrow> ID it \<noteq> [] \<Longrightarrow> id_acct (snd (pushLocked it byid sz b))"
  by (simp add: id_acct_def pushLocked_def Let_def)

lemma overwriteLocked_ok:
  assumes inv: "buf_inv b" and i: "i < length (items b)" and sq: "Seq new = Seq (items b ! i)"
    and id: "ID new = ID (items b ! i)" and key: "key = id_key new"
    and delta: "delta = approxItemSize new - approxItemSize (items b ! i)"
    and ref: "\<And>a. counter new = Some a \<Longrightarrow> a \<notin> set (cell_refs (items b))"
  shows "\<exists>b'. overwriteLocked i new key delta b = (None, b') \<and> buf_inv b' \<and>
     b' = b\<lparr>items := (items b)[i := new], bySeq := bySeq b', byID := byID b', bytes := bytes b + delta\<rparr>"
proof -
  let ?old = "items b ! i"
  have mem: "?old \<in> set (items b)" using i by simp
  have set: "set ((items b)[i := new]) = insert new (set (items b) - {?old})"
    using set_update_distinct [OF buf_inv_distinct [OF inv] i] .
  have get: "gm_get (bySeq b) (Seq ?old) = Some ?old"
    using indexesD [OF buf_invD(4) [OF inv]] mem by (simp add: seq_key_def)
  have sidx: "indexes seq_key (set ((items b)[i := new])) (gm_put (bySeq b) (Seq new) new)"
    unfolding set using sq by (intro indexes_swap buf_invD(4) [OF inv] mem) (simp_all add: seq_key_def)
  have seqs: "map Seq ((items b)[i := new]) = map Seq (items b)"
    using i sq by (simp add: map_update list_update_same_conv)
  have bnd: "\<forall>x \<in> set ((items b)[i := new]). 0 < Seq x \<and> Seq x \<le> lastSeq b"
    using set_update_subset_insert [of "items b" i new] buf_invD(2,3) [OF inv] mem sq by fastforce
  have refs: "distinct (cell_refs ((items b)[i := new]))"
  proof -
    let ?ts = "take i (items b)" let ?ds = "drop (Suc i) (items b)"
    have spl: "?ts @ items b ! i # ?ds = items b" using id_take_nth_drop [OF i] by simp
    have up: "(items b)[i := new] = ?ts @ new # ?ds" using upd_conv_take_nth_drop [OF i] .
    have "distinct (cell_refs (?ts @ items b ! i # ?ds))" using buf_invD(7) [OF inv] by (simp only: spl)
    then have d: "distinct (cell_refs ?ts @ cell_refs ?ds)" by (cases "counter (items b ! i)") auto
    have "set (cell_refs ?ts @ cell_refs ?ds) \<subseteq> set (cell_refs (items b))"
      using cell_refs_mono [OF set_take_subset, of i "items b"] cell_refs_mono [OF set_drop_subset, of "Suc i" "items b"]
      by simp
    with d ref show ?thesis unfolding up by (cases "counter new") auto
  qed
  show ?thesis
  proof (cases "ID new = []")
    case True
    have "indexes id_key (set ((items b)[i := new])) (byID b)"
      unfolding set using True id by (intro indexes_swap_keyless buf_invD(5) [OF inv]) (simp_all add: id_key_def)
    with True sidx seqs bnd show ?thesis
      using buf_invD(1,6,7,8,9) [OF inv] refs gm_set_get [OF get] i id delta key
      by (simp add: overwriteLocked_def sq id_key_def buf_inv_def total_size_update)
  next
    case False
    have iget: "gm_get (byID b) (ID ?old) = Some ?old"
      using indexesD [OF buf_invD(5) [OF inv]] mem False id by (simp add: id_key_def)
    have "indexes id_key (set ((items b)[i := new])) (gm_put (byID b) (ID new) new)"
      unfolding set using False id by (intro indexes_swap buf_invD(5) [OF inv] mem) (simp_all add: id_key_def)
    with False sidx seqs bnd show ?thesis
      using buf_invD(1,6,7,8,9) [OF inv] refs gm_set_get [OF get] gm_set_get [OF iget] i id delta key
      by (simp add: overwriteLocked_def sq id_key_def buf_inv_def total_size_update)
  qed
qed

text \<open>Removing a set of items from the list and both indices, with the bytes they held.\<close>

lemma resetIfEmptyLocked_inv: "buf_inv b \<Longrightarrow> buf_inv (resetIfEmptyLocked b)"
  by (simp add: resetIfEmptyLocked_def buf_inv_def)

lemma resetIfEmptyLocked_fields [simp]:
  "items (resetIfEmptyLocked b) = items b" "attached (resetIfEmptyLocked b) = attached b"
  "detached (resetIfEmptyLocked b) = detached b" "maxItems (resetIfEmptyLocked b) = maxItems b"
  "createdTS (resetIfEmptyLocked b) = createdTS b" "lastSeq (resetIfEmptyLocked b) = lastSeq b"
  "bytes (resetIfEmptyLocked b) = bytes b" "bLastWriteTS (resetIfEmptyLocked b) = bLastWriteTS b"
  by (simp_all add: resetIfEmptyLocked_def)

lemma removed_set:
  assumes "distinct xs" "i < length xs"
  shows "set (take i xs @ drop (Suc i) xs) = set xs - {xs ! i}"
proof -
  have "xs ! i \<notin> set (take i xs)" "xs ! i \<notin> set (drop (Suc i) xs)"
    using assms id_take_nth_drop [OF assms(2)] by (metis distinct.simps(2) distinct_append disjoint_iff list.set_intros(1) not_distinct_conv_prefix)+
  moreover have "set xs = set (take i xs) \<union> {xs ! i} \<union> set (drop (Suc i) xs)"
    by (subst id_take_nth_drop [OF assms(2)]) auto
  ultimately show ?thesis by auto
qed

lemma sorted_wrt_remove:
  assumes "sorted_wrt R xs" "i < length xs"
  shows "sorted_wrt R (take i xs @ drop (Suc i) xs)"
proof -
  have "sorted_wrt R (take i xs @ xs ! i # drop (Suc i) xs)"
    using assms id_take_nth_drop [OF assms(2)] by simp
  then show ?thesis by (simp add: sorted_wrt_append)
qed


lemma sorted_wrt_suffix: "sorted_wrt R xs \<Longrightarrow> sorted_wrt R (drop n xs)"
  by (simp add: sorted_wrt_drop)

lemma releaseLocked_inv:
  assumes "buf_inv b0" and ys: "items b = ys" "set ys \<subseteq> set (items b0)" "length ys \<le> length (items b0)"
    and srt: "sorted_wrt (<) (map Seq ys)" and idx: "indexes seq_key (set ys) (bySeq b)" "indexes id_key (set ys) (byID b)"
    and eqs: "bytes b - freed = total_size ys"
      "lastSeq b = lastSeq b0" "maxItems b = maxItems b0" and refs: "distinct (cell_refs ys)"
  shows "buf_inv (snd (releaseLocked freed n now c b))"
proof -
  have "buf_inv (b\<lparr>bytes := bytes b - freed, bLastWriteTS := now\<rparr>)"
    unfolding buf_inv_def using assms buf_invD [OF assms(1)] by auto
  then show ?thesis by (simp add: releaseLocked_def resetIfEmptyLocked_inv)
qed

lemma releaseLocked_fields:
  "items (snd (releaseLocked freed n now c b)) = items b"
  "attached (snd (releaseLocked freed n now c b)) = attached b"
  "detached (snd (releaseLocked freed n now c b)) = detached b"
  "maxItems (snd (releaseLocked freed n now c b)) = maxItems b"
  "createdTS (snd (releaseLocked freed n now c b)) = createdTS b"
  "lastSeq (snd (releaseLocked freed n now c b)) = lastSeq b"
  "bytes (snd (releaseLocked freed n now c b)) = bytes b - freed"
  "bLastWriteTS (snd (releaseLocked freed n now c b)) = now"
  by (simp_all add: releaseLocked_def)

lemma deleteIndexLocked_fields:
  "items (snd (deleteIndexLocked i now c b)) = take i (items b) @ drop (i + 1) (items b)"
  "attached (snd (deleteIndexLocked i now c b)) = attached b"
  "detached (snd (deleteIndexLocked i now c b)) = detached b"
  "maxItems (snd (deleteIndexLocked i now c b)) = maxItems b"
  "createdTS (snd (deleteIndexLocked i now c b)) = createdTS b"
  "lastSeq (snd (deleteIndexLocked i now c b)) = lastSeq b"
  "bytes (snd (deleteIndexLocked i now c b)) = bytes b - approxItemSize (items b ! i)"
  "bLastWriteTS (snd (deleteIndexLocked i now c b)) = now"
  by (simp_all add: deleteIndexLocked_def releaseLocked_fields Let_def)

lemma deleteIndexLocked_core:
  "fst (deleteIndexLocked i now c b) = (if attached b
     then bumpLastWriteTS now (add_totalItems (- 1) (add_totalBytes (- approxItemSize (items b ! i)) c)) else c)"
  by (simp add: deleteIndexLocked_def releaseLocked_def Let_def)

lemma releaseLocked_id_acct:
  "idKeyBytes b = id_bytes (items b) \<Longrightarrow> id_acct (snd (releaseLocked freed n now c b))"
  by (simp add: releaseLocked_def resetIfEmptyLocked_def id_acct_def Let_def)

lemma deleteIndexLocked_id_acct:
  assumes "id_acct b" "i < length (items b)"
  shows "id_acct (snd (deleteIndexLocked i now c b))"
  unfolding deleteIndexLocked_def Let_def
  by (rule releaseLocked_id_acct) (use assms id_bytes_remove [OF assms(2)] in \<open>simp add: id_acct_def\<close>)

lemma deleteIndexLocked_inv:
  assumes inv: "buf_inv b" and i: "i < length (items b)"
  shows "buf_inv (snd (deleteIndexLocked i now c b))"
proof -
  let ?x = "items b ! i" let ?ys = "take i (items b) @ drop (Suc i) (items b)"
  have set: "set ?ys = set (items b) - {?x}" using removed_set [OF buf_inv_distinct [OF inv] i] .
  have srt: "sorted_wrt (<) (map Seq ?ys)"
    using sorted_wrt_remove [OF buf_invD(1) [OF inv], of i] i by (simp add: take_map drop_map)
  have sidx: "indexes seq_key (set ?ys) (gm_del (bySeq b) (Seq ?x))"
    unfolding set using i by (intro indexes_del buf_invD(4) [OF inv]) (simp_all add: seq_key_def)
  have iidx: "indexes id_key (set ?ys) (if ID ?x \<noteq> [] then gm_del (byID b) (ID ?x) else byID b)"
  proof (cases "ID ?x = []")
    case True
    then show ?thesis unfolding set
      using indexes_del_keyless [OF buf_invD(5) [OF inv], of ?x] by (simp add: id_key_def)
  next
    case False
    then show ?thesis unfolding set
      using indexes_del [OF buf_invD(5) [OF inv], of ?x "ID ?x"] i by (simp add: id_key_def)
  qed
  have sub: "set ?ys \<subseteq> set (items b)" "length ?ys \<le> length (items b)" using set i by auto
  have refs: "distinct (cell_refs ?ys)"
  proof -
    have "take i (items b) @ ?x # drop (Suc i) (items b) = items b" using id_take_nth_drop [OF i] by simp
    then have "distinct (cell_refs (take i (items b) @ ?x # drop (Suc i) (items b)))"
      using buf_invD(7) [OF inv] by (simp only:)
    then show ?thesis by (cases "counter ?x") auto
  qed
  note sums = total_size_remove [OF i] buf_invD(6) [OF inv]
  show ?thesis unfolding deleteIndexLocked_def Let_def
    by (rule releaseLocked_inv [OF inv, where ys = ?ys])
      (simp_all only: sub srt refs, use sidx iidx sums in \<open>simp_all split: if_splits\<close>)
qed

section \<open>Well-formed items and buffers\<close>

text \<open>
  An item stored in scope \<open>k\<close>: a plain item holds a valid payload with the rendered form that
  belongs to it and fits the scope's per-item cap; a counter item holds only the index of an allocated
  cell.
\<close>

definition item_ok :: "core \<Rightarrow> bytestr \<Rightarrow> Item \<Rightarrow> bool" where
  "item_ok c k it \<longleftrightarrow>
     Scope it = k \<and> approxItemSize it \<le> maxItemBytesFor c k \<and>
     (case counter it of
        None \<Rightarrow> payload_ok (Payload it) \<and> renderBytes it = precomputeRenderBytes (Payload it)
      | Some a \<Rightarrow> a < length (cells c) \<and> ID it \<noteq> [] \<and> Payload it = None \<and> renderBytes it = None)"

definition cells_ok :: "core \<Rightarrow> bool" where
  "cells_ok c \<longleftrightarrow> (\<forall>cell \<in> set (cells c). \<bar>cell_value cell\<bar> \<le> MaxCounterValue)"

definition buf_ok :: "core \<Rightarrow> bytestr \<Rightarrow> scopeBuffer \<Rightarrow> bool" where
  "buf_ok c k b \<longleftrightarrow> buf_inv b \<and> (\<forall>it \<in> set (items b). item_ok c k it)"

lemma maxItemBytesFor_cong: "core_config c' = core_config c \<Longrightarrow> maxItemBytesFor c' k = maxItemBytesFor c k"
  by (simp add: maxItemBytesFor_def core_config_def)

lemma item_ok_mono:
  "item_ok c k it \<Longrightarrow> core_config c' = core_config c \<Longrightarrow> length (cells c) \<le> length (cells c') \<Longrightarrow> item_ok c' k it"
  using maxItemBytesFor_cong [of c' c k] by (cases "counter it") (simp_all add: item_ok_def)

lemma buf_ok_mono:
  "buf_ok c k b \<Longrightarrow> core_config c' = core_config c \<Longrightarrow> length (cells c) \<le> length (cells c') \<Longrightarrow> buf_ok c' k b"
  unfolding buf_ok_def by (blast intro: item_ok_mono)

lemma item_ok_Seq: "item_ok c k it \<Longrightarrow> item_ok c k (it\<lparr>Seq := sq\<rparr>)"
  by (cases "counter it") (simp_all add: item_ok_def)

lemma newscopeBuffer_ok: "0 \<le> cap \<Longrightarrow> buf_ok c k (newscopeBuffer cap now)"
  by (simp add: buf_ok_def newscopeBuffer_inv) (simp add: newscopeBuffer_def)

section \<open>The contract\<close>

definition ready :: "core \<Rightarrow> bytestr \<Rightarrow> scopeBuffer \<Rightarrow> bool" where
  "ready c k b \<longleftrightarrow> attached b \<and> \<not> detached b \<and> within_cap c \<and> cells_ok c \<and> buf_ok c k b \<and>
     bytes b \<le> totalBytes c \<and> lastSeq b \<noteq> - 1"

text \<open>The store's counters and the buffer move together; nothing else of the store moves.\<close>

definition moved :: "core \<Rightarrow> scopeBuffer \<Rightarrow> core \<Rightarrow> scopeBuffer \<Rightarrow> bool" where
  "moved c b c' b' \<longleftrightarrow>
     core_config c' = core_config c \<and> eventsDropsTotal c' = eventsDropsTotal c \<and>
     scopeCount c' = scopeCount c \<and>
     totalBytes c' - totalBytes c = bytes b' - bytes b \<and>
     totalItems c' - totalItems c = int (length (items b')) - int (length (items b)) \<and>
     lastWriteTS c \<le> lastWriteTS c' \<and> length (cells c) \<le> length (cells c') \<and>
     (\<forall>a \<in> set (cell_refs (items b')). a \<in> set (cell_refs (items b)) \<or> length (cells c) \<le> a) \<and>
     attached b' = attached b \<and> detached b' = detached b \<and> maxItems b' = maxItems b \<and>
     createdTS b' = createdTS b \<and> (lastSeq b' = lastSeq b \<or> lastSeq b' = lastSeq b + 1) \<and> (id_acct b \<longrightarrow> id_acct b')"

definition step_ok :: "core \<Rightarrow> bytestr \<Rightarrow> scopeBuffer \<Rightarrow> core \<Rightarrow> scopeBuffer \<Rightarrow> bool" where
  "step_ok c k b c' b' \<longleftrightarrow> moved c b c' b' \<and> within_cap c' \<and> cells_ok c' \<and> buf_ok c' k b'"

lemma step_ok_refl: "ready c k b \<Longrightarrow> step_ok c k b c b"
  by (simp add: step_ok_def moved_def ready_def)

lemma readyD:
  assumes "ready c k b"
  shows "attached b" "\<not> detached b" "within_cap c" "cells_ok c" "buf_inv b" "bytes b \<le> totalBytes c"
    "lastSeq b \<noteq> - 1" "it \<in> set (items b) \<Longrightarrow> item_ok c k it"
  using assms by (simp_all add: ready_def buf_ok_def)

definition not_panic :: "'a res \<Rightarrow> bool" where
  "not_panic r \<longleftrightarrow> (\<forall>p. r \<noteq> Inl (GoPanic p))"

lemma not_panic_simps [simp]: "not_panic (Inr x)" "not_panic (Inl (InvalidInput r))" "not_panic (Inl DuplicateID)"
  "not_panic (Inl (ScopeFullError i j))" "not_panic (Inl (StoreFullError i j l))"
  "not_panic (Inl ScopeDetachedError)" "not_panic (Inl (CounterPayloadError cr))"
  "not_panic (Inl (CounterOverflowError i j))"
  by (simp_all add: not_panic_def)

text \<open>
  The interface the store relies on. \<open>admissible\<close> is what the caller has validated about the
  arguments. A detached buffer refuses the operation and nothing moves; a refused operation leaves both
  states as they were; on a ready buffer the operation does not panic and moves everything in lockstep.
\<close>

locale buffer_op =
  fixes operation :: "'p \<Rightarrow> 'a bufop"
    and admissible :: "'p \<Rightarrow> core \<Rightarrow> bytestr \<Rightarrow> bool"
  assumes detached_refused: "detached b \<Longrightarrow> operation p c b = (Inl ScopeDetachedError, c, b)"
    and refused_same: "ready c k b \<Longrightarrow> admissible p c k \<Longrightarrow> operation p c b = (Inl e, c', b') \<Longrightarrow> c' = c \<and> b' = b"
    and safe: "ready c k b \<Longrightarrow> admissible p c k \<Longrightarrow> operation p c b = (r, c', b') \<Longrightarrow>
      not_panic r \<and> step_ok c k b c' b'"
begin

lemma runs_ok:
  assumes "ready c k b" "admissible p c k"
  obtains r c' b' where "operation p c b = (r, c', b')" "not_panic r" "step_ok c k b c' b'"
  using safe [OF assms] by (metis prod_cases3)

end

section \<open>Steps of the three transitions\<close>

lemma reserveFor_ready:
  assumes "ready c k b" "- bytes b \<le> d"
  shows "reserveFor d c b = (if totalBytes c + d \<le> maxStoreBytes c then (None, c\<lparr>totalBytes := totalBytes c + d\<rparr>)
     else (Some (StoreFullError (totalBytes c) d (maxStoreBytes c)), c))"
  using reserveBytes_eq [OF readyD(3) [OF assms(1)], of d] assms(2) readyD(1,6) [OF assms(1)]
  by (simp add: reserveFor_def)

lemma reservePayloadDelta_ready:
  assumes "ready c k b" "- bytes b \<le> new - old"
  shows "reservePayloadDeltaLocked old new c b =
    (if totalBytes c + (new - old) \<le> maxStoreBytes c then (None, new - old, c\<lparr>totalBytes := totalBytes c + (new - old)\<rparr>)
     else (Some (StoreFullError (totalBytes c) (new - old) (maxStoreBytes c)), 0, c))"
proof (cases "new = old")
  case True
  then show ?thesis using readyD(3) [OF assms(1)]
    by (simp add: reservePayloadDeltaLocked_def within_cap_def)
next
  case False
  then show ?thesis using reserveFor_ready [OF assms] readyD(1) [OF assms(1)]
    by (simp add: reservePayloadDeltaLocked_def Let_def)
qed

lemma cells_ok_simps [simp]:
  "cells_ok (bumpLastWriteTS t c) = cells_ok c" "cells_ok (add_totalItems d c) = cells_ok c"
  "cells_ok (add_totalBytes d c) = cells_ok c" "cells_ok (c\<lparr>totalBytes := n\<rparr>) = cells_ok c"
  by (simp_all add: cells_ok_def)

lemma within_cap_simps [simp]:
  "within_cap (bumpLastWriteTS t c) = within_cap c" "within_cap (add_totalItems d c) = within_cap c"
  "within_cap (c\<lparr>cells := cs\<rparr>) = within_cap c"
  by (simp_all add: within_cap_def add_totalItems_def)

lemma core_moveI:
  \<comment> \<open>the common shape of a step: some bytes and items, a timestamp, perhaps new cells\<close>
  assumes "ready c k b" "buf_inv b'" "core_config c' = core_config c" "eventsDropsTotal c' = eventsDropsTotal c"
    "scopeCount c' = scopeCount c" "totalBytes c' = totalBytes c + d" "bytes b' = bytes b + d"
    "totalItems c' - totalItems c = int (length (items b')) - int (length (items b))"
    "0 \<le> totalBytes c + d" "totalBytes c + d \<le> maxStoreBytes c" "lastWriteTS c \<le> lastWriteTS c'"
    "length (cells c) \<le> length (cells c')" "cells_ok c'"
    "attached b' = attached b" "detached b' = detached b" "maxItems b' = maxItems b" "createdTS b' = createdTS b"
    "lastSeq b' = lastSeq b \<or> lastSeq b' = lastSeq b + 1" "id_acct b \<longrightarrow> id_acct b'" "\<forall>it \<in> set (items b'). it \<in> set (items b) \<or>
       item_ok c' k it \<and> (\<forall>a. counter it = Some a \<longrightarrow> length (cells c) \<le> a)"
  shows "step_ok c k b c' b'"
proof -
  have "maxStoreBytes c' = maxStoreBytes c" using core_config_eqD(2) [OF assms(3)] .
  then have "within_cap c'" using assms(6,9,10) readyD(3) [OF assms(1)] by (simp add: within_cap_def)
  moreover have "buf_ok c' k b'"
    using assms(2,20) readyD(8) [OF assms(1)] item_ok_mono [OF _ assms(3,12)] by (auto simp: buf_ok_def)
  moreover have "a \<in> set (cell_refs (items b)) \<or> length (cells c) \<le> a" if "a \<in> set (cell_refs (items b'))" for a
    using that assms(20) unfolding cell_refs_set by blast
  then have "moved c b c' b'" using assms by (simp add: moved_def)
  ultimately show ?thesis using assms(13) by (simp add: step_ok_def)
qed

end
