(* ===== verification/BufferOps.thy ===== *)
theory BufferOps
  imports BufferContract
begin

text \<open>
  The single-item write paths of \<open>buffer_write.go\<close> and the delete paths of \<open>buffer_delete.go\<close>, each
  with the contract \<open>buffer_op\<close> interpreted on it and its effect on the item list. The clock reading
  of an operation is its argument \<open>now\<close>.
\<close>

section \<open>Operations\<close>

definition appendItem :: "int \<Rightarrow> Item \<Rightarrow> Item bufop" where
  "appendItem now it c b =
     (if detached b then (Inl ScopeDetachedError, c, b)
      else if itemCapExceeded b (int (length (items b)) + 1)
      then (Inl (ScopeFullError (int (length (items b))) (maxItems b)), c, b)
      else if ID it \<noteq> [] \<and> gm_get (byID b) (ID it) \<noteq> None then (Inl DuplicateID, c, b)
      else insertNewItemLocked it now c b)"

definition newRenderOf :: "raw \<Rightarrow> raw \<Rightarrow> raw" where
  "newRenderOf pre payload = (if pre = None then precomputeRenderBytes payload else pre)"

definition upsertByID :: "int \<Rightarrow> Item \<Rightarrow> (Item \<times> bool) bufop" where
  "upsertByID nowUs it c b =
     (if detached b then (Inl ScopeDetachedError, c, b)
      else case gm_get (byID b) (ID it) of
        Some existing \<Rightarrow>
          (let newRender = newRenderOf (renderBytes it) (Payload it) in
           case reservePayloadDeltaLocked (payloadAndRenderBytes existing)
                  (rawlen (Payload it) + rawlen newRender) c b of
             (Some e, _, c') \<Rightarrow> (Inl e, c', b)
           | (None, delta, c') \<Rightarrow>
               (case indexBySeqLocked b (Seq existing) of
                  None \<Rightarrow> (Inr (Item_zero, False), c', b)
                | Some i \<Rightarrow>
                    (let updated = (items b ! i)\<lparr>Payload := Payload it, Ts := nowUs,
                                                 renderBytes := newRender, counter := None\<rparr> in
                     case overwriteLocked i updated (Some (ID it)) delta b of
                       (Some p, b') \<Rightarrow> (Inl (GoPanic p), c', b')
                     | (None, b') \<Rightarrow> (Inr (updated, False), stampLocked nowUs c' b'))))
      | None \<Rightarrow>
          (if itemCapExceeded b (int (length (items b)) + 1)
           then (Inl (ScopeFullError (int (length (items b))) (maxItems b)), c, b)
           else case insertNewItemLocked it nowUs c b of
                  (Inl e, c', b') \<Rightarrow> (Inl e, c', b')
                | (Inr inserted, c', b') \<Rightarrow> (Inr (inserted, True), c', b')))"

definition replaceFound :: "int \<Rightarrow> Item \<Rightarrow> u64 \<Rightarrow> raw \<Rightarrow> raw \<Rightarrow> int bufop" where
  \<comment> \<open>the part \<open>updateByID\<close> and \<open>updateBySeq\<close> share: reserve the payload delta, then replace at the index\<close>
  "replaceFound now existing sq payload newRender c b =
     (case reservePayloadDeltaLocked (payloadAndRenderBytes existing) (rawlen payload + rawlen newRender) c b of
        (Some e, _, c') \<Rightarrow> (Inl e, c', b)
      | (None, delta, c') \<Rightarrow>
          (case indexBySeqLocked b sq of
             None \<Rightarrow> (Inr 0, c', b)
           | Some i \<Rightarrow>
               (case replaceItemAtIndexLocked i payload now newRender delta c' b of
                  (Inl e, c'', b') \<Rightarrow> (Inl e, c'', b')
                | (Inr _, c'', b') \<Rightarrow> (Inr 1, c'', b'))))"

definition updateByID :: "int \<Rightarrow> bytestr \<Rightarrow> raw \<Rightarrow> raw \<Rightarrow> int bufop" where
  "updateByID now i payload preRender c b =
     (if detached b then (Inl ScopeDetachedError, c, b)
      else case gm_get (byID b) i of
        None \<Rightarrow> (Inr 0, c, b)
      | Some existing \<Rightarrow>
          replaceFound now existing (Seq existing) payload (newRenderOf preRender payload) c b)"

definition updateBySeq :: "int \<Rightarrow> u64 \<Rightarrow> raw \<Rightarrow> raw \<Rightarrow> int bufop" where
  "updateBySeq now sq payload preRender c b =
     (if detached b then (Inl ScopeDetachedError, c, b)
      else case gm_get (bySeq b) sq of
        None \<Rightarrow> (Inr 0, c, b)
      | Some existing \<Rightarrow>
          (let newRender = newRenderOf preRender payload;
               candidate = Item_zero\<lparr>Scope := Scope existing, ID := ID existing, Payload := payload,
                                     renderBytes := newRender\<rparr>;
               cap = maxItemBytesFor c (Scope existing)
           in if attached b \<and> cap < approxItemSize candidate
              then (Inl (InvalidInput (ItemTooLarge (approxItemSize candidate) cap)), c, b)
              else replaceFound now existing sq payload newRender c b))"

definition deleteByID :: "int \<Rightarrow> bytestr \<Rightarrow> int bufop" where
  "deleteByID now i c b =
     (if detached b then (Inl ScopeDetachedError, c, b)
      else case gm_get (byID b) i of
        None \<Rightarrow> (Inr 0, c, b)
      | Some existing \<Rightarrow>
          (case indexBySeqLocked b (Seq existing) of
             None \<Rightarrow> (Inr 0, c, b)
           | Some j \<Rightarrow> (Inr 1, deleteIndexLocked j now c b)))"

definition deleteBySeq :: "int \<Rightarrow> u64 \<Rightarrow> int bufop" where
  "deleteBySeq now sq c b =
     (if detached b then (Inl ScopeDetachedError, c, b)
      else case gm_get (bySeq b) sq of
        None \<Rightarrow> (Inr 0, c, b)
      | Some _ \<Rightarrow>
          (case indexBySeqLocked b sq of
             None \<Rightarrow> (Inr 0, c, b)
           | Some j \<Rightarrow> (Inr 1, deleteIndexLocked j now c b)))"

type_synonym drain_state = "int \<times> int \<times> (u64, Item) gomap \<times> (bytestr, Item) gomap"

fun drainLoop :: "Item list \<Rightarrow> drain_state \<Rightarrow> drain_state" where
  \<comment> \<open>the loop over the removed prefix: freed bytes, freed id bytes, bySeq, byID\<close>
  "drainLoop [] st = st"
| "drainLoop (removed # rest) (freed, freedID, ms, mi) =
     drainLoop rest
       (freed + approxItemSize removed,
        (if ID removed \<noteq> [] then freedID + int (length (ID removed)) else freedID),
        gm_del ms (Seq removed),
        (if ID removed \<noteq> [] then gm_del mi (ID removed) else mi))"

definition deleteUpToSeq :: "int \<Rightarrow> u64 \<Rightarrow> int bufop" where
  "deleteUpToSeq now maxSeq c b =
     (if detached b then (Inl ScopeDetachedError, c, b)
      else
        (let idx = sort_Search (length (items b)) (\<lambda>i. maxSeq < Seq (items b ! i)) in
         if idx = 0 then (Inr 0, c, b)
         else
           (case drainLoop (take idx (items b)) (0, 0, bySeq b, byID b) of
              (freed, freedID, ms, mi) \<Rightarrow>
                (Inr (int idx),
                 releaseLocked freed (int idx) now c
                   (b\<lparr>items := drop idx (items b), bySeq := ms, byID := mi,
                      idKeyBytes := idKeyBytes b - freedID\<rparr>)))))"

section \<open>Insert\<close>

definition fresh_item :: "int \<Rightarrow> u64 \<Rightarrow> Item \<Rightarrow> Item" where
  "fresh_item now sq it = (fillRender (it\<lparr>counter := None, Ts := now\<rparr>))\<lparr>Seq := sq\<rparr>"

definition plain_ok :: "core \<Rightarrow> bytestr \<Rightarrow> Item \<Rightarrow> bool" where
  "plain_ok c k it \<longleftrightarrow> item_ok c k (fillRender (it\<lparr>counter := None\<rparr>))"

lemma fillRender_eq: "fillRender it = it\<lparr>renderBytes := newRenderOf (renderBytes it) (Payload it)\<rparr>"
  by (simp add: fillRender_def newRenderOf_def)

lemma fresh_item_counter [simp]: "counter (fresh_item now sq it) = None"
  by (simp add: fresh_item_def)

lemma plain_ok_fresh: "plain_ok c k it \<Longrightarrow> item_ok c k (fresh_item now sq it)"
  by (auto simp: plain_ok_def item_ok_def fresh_item_def fillRender_eq approxItemSize_def Let_def)

lemma plain_ok_size: "plain_ok c k it \<Longrightarrow> approxItemSize (fresh_item now sq it) \<le> maxItemBytesFor c k"
  using plain_ok_fresh [of c k it now sq] by (simp add: item_ok_def)

lemma insertNewItemLocked_ready:
  fixes now :: int and it :: Item
  assumes "ready c k b"
  defines "sz \<equiv> approxItemSize (fresh_item now (lastSeq b + 1) it)"
  shows "insertNewItemLocked it now c b =
    (if totalBytes c + sz \<le> maxStoreBytes c
     then (Inr (fresh_item now (lastSeq b + 1) it),
           bumpLastWriteTS now (add_totalItems 1 (c\<lparr>totalBytes := totalBytes c + sz\<rparr>)),
           (snd (pushLocked (fillRender (it\<lparr>counter := None, Ts := now\<rparr>)) (ID it \<noteq> []) sz b))\<lparr>bLastWriteTS := now\<rparr>)
     else (Inl (StoreFullError (totalBytes c) sz (maxStoreBytes c)), c, b))"
proof -
  have sz: "approxItemSize (fillRender (it\<lparr>counter := None, Ts := now\<rparr>)) = sz"
    by (simp add: sz_def fresh_item_def)
  have "0 \<le> bytes b" using buf_invD(6) [OF readyD(5) [OF assms(1)]] by simp
  moreover have "0 \<le> sz" by (simp add: sz_def)
  ultimately have le: "- bytes b \<le> sz" by simp
  show ?thesis
    using readyD(1) [OF assms(1)] reserveFor_ready [OF assms(1) le]
    by (auto simp: insertNewItemLocked_def sz Let_def fresh_item_def pushLocked_def)
qed

lemma insert_step:
  assumes "ready c k b" "plain_ok c k it" "\<not> itemCapExceeded b (int (length (items b)) + 1)"
    and fresh: "ID it \<noteq> [] \<Longrightarrow> gm_get (byID b) (ID it) = None"
    and run: "insertNewItemLocked it now c b = (Inr r, c', b')"
  shows "step_ok c k b c' b' \<and> items b' = items b @ [fresh_item now (lastSeq b + 1) it] \<and>
    r = fresh_item now (lastSeq b + 1) it \<and> lastSeq b' = lastSeq b + 1"
proof -
  let ?it = "fillRender (it\<lparr>counter := None, Ts := now\<rparr>)"
  let ?f = "fresh_item now (lastSeq b + 1) it"
  let ?sz = "approxItemSize ?f"
  let ?b = "snd (pushLocked ?it (ID it \<noteq> []) ?sz b)"
  have run': "totalBytes c + ?sz \<le> maxStoreBytes c" "r = ?f" "b' = ?b\<lparr>bLastWriteTS := now\<rparr>"
    "c' = bumpLastWriteTS now (add_totalItems 1 (c\<lparr>totalBytes := totalBytes c + ?sz\<rparr>))"
    using run insertNewItemLocked_ready [OF assms(1), of it now] by (auto split: if_splits)
  have "buf_inv ?b"
    using fresh by (intro pushLocked_inv readyD(5,7) [OF assms(1)] assms(3)) (simp_all add: fresh_item_def)
  then have inv: "buf_inv b'" by (simp add: run'(3) buf_inv_def)
  have fields: "items b' = items b @ [?f]" "lastSeq b' = lastSeq b + 1" "bytes b' = bytes b + ?sz"
    "attached b' = attached b" "detached b' = detached b" "maxItems b' = maxItems b" "createdTS b' = createdTS b"
    by (simp_all add: run'(3) pushLocked_fields fresh_item_def)
  have tot: "0 \<le> totalBytes c" using readyD(3) [OF assms(1)] by (simp add: within_cap_def)
  have acct: "id_acct b \<longrightarrow> id_acct b'"
    using pushLocked_id_acct [of b "ID it \<noteq> []" ?it ?sz] by (simp add: run'(3) id_acct_def)
  have ok: "item_ok c' k ?f"
    by (rule item_ok_mono [OF plain_ok_fresh [OF assms(2)]]) (simp_all add: run'(4))
  have "step_ok c k b c' b'"
    by (rule core_moveI [OF assms(1) inv, where d = ?sz])
      (use run' fields tot ok acct readyD(4) [OF assms(1)] word_less_Suc [OF readyD(7) [OF assms(1)]] in auto)
  with fields run' show ?thesis by simp
qed

lemma insert_refused:
  assumes "ready c k b" "insertNewItemLocked it now c b = (Inl e, c', b')"
  shows "c' = c \<and> b' = b \<and> not_panic (Inl e)"
  using assms(2) insertNewItemLocked_ready [OF assms(1), of it now] by (auto split: if_splits)

text \<open>\<open>appendItem\<close> on a ready buffer, branch by branch.\<close>

lemma appendItem_Inr:
  assumes "ready c k b" "plain_ok c k it" "appendItem now it c b = (Inr r, c', b')"
  shows "step_ok c k b c' b' \<and> items b' = items b @ [fresh_item now (lastSeq b + 1) it] \<and>
    r = fresh_item now (lastSeq b + 1) it \<and> lastSeq b' = lastSeq b + 1"
  by (rule insert_step [OF assms(1,2)])
    (use assms(3) readyD(2) [OF assms(1)] in \<open>auto simp: appendItem_def split: if_splits\<close>)

lemma appendItem_Inl:
  assumes "ready c k b" "appendItem now it c b = (Inl e, c', b')"
  shows "c' = c \<and> b' = b \<and> not_panic (Inl e :: Item res)"
  using assms(2) insert_refused [OF assms(1), of it now e c' b']
  by (auto simp: appendItem_def not_panic_def split: if_splits)

interpretation append_op: buffer_op "\<lambda>(now, it). appendItem now it" "\<lambda>(now, it) c k. plain_ok c k it"
proof (unfold_locales, goal_cases)
  case (1 b p c)
  then show ?case by (simp add: appendItem_def split: prod.splits)
next
  case (2 c k b p e c' b')
  then show ?case using appendItem_Inl [of c k b "fst p" "snd p" e c' b'] by (cases p) simp
next
  case (3 c k b p r c' b')
  then show ?case
    using appendItem_Inl [of c k b "fst p" "snd p" _ c' b'] appendItem_Inr [of c k b "snd p" "fst p" _ c' b']
      step_ok_refl [of c k b]
    by (cases p; cases r) (auto simp: not_panic_def)
qed

section \<open>Replace in place\<close>

definition replaced :: "raw \<Rightarrow> int \<Rightarrow> raw \<Rightarrow> Item \<Rightarrow> Item" where
  "replaced payload ts render x = x\<lparr>Payload := payload, Ts := ts, renderBytes := render, counter := None\<rparr>"

lemma replaced_fields [simp]:
  "Seq (replaced p t r x) = Seq x" "ID (replaced p t r x) = ID x" "Scope (replaced p t r x) = Scope x"
  "counter (replaced p t r x) = None"
  by (simp_all add: replaced_def)

lemma replaced_size:
  "approxItemSize (replaced p t r x) - approxItemSize x = rawlen p + rawlen r - payloadAndRenderBytes x"
  by (simp add: replaced_def approxItemSize_def payloadAndRenderBytes_def Let_def)

lemma replaced_delta_bound:
  assumes "buf_inv b" "x \<in> set (items b)"
  shows "- bytes b \<le> rawlen p + rawlen r - payloadAndRenderBytes x"
proof -
  have "approxItemSize x \<le> bytes b" using buf_invD(6) [OF assms(1)] total_size_mem [OF assms(2)] by simp
  moreover have "0 \<le> approxItemSize (replaced p 0 r x)" by simp
  ultimately show ?thesis using replaced_size [of p 0 r x] by linarith
qed

lemma update_list_eq:
  assumes "buf_inv b" "x = items b ! i" "i < length (items b)"
  shows "(items b)[i := f x] = map (\<lambda>y. if Seq y = Seq x then f y else y) (items b)"
proof (rule nth_equalityI)
  fix j assume "j < length ((items b)[i := f x])"
  then have j: "j < length (items b)" by simp
  have "Seq (items b ! j) = Seq x \<longleftrightarrow> j = i"
    using buf_inv_distinct_seq [OF assms(1)] assms(2,3) j by (metis length_map nth_eq_iff_index_eq nth_map)
  then show "(items b)[i := f x] ! j = map (\<lambda>y. if Seq y = Seq x then f y else y) (items b) ! j"
    using j assms by auto
qed simp

text \<open>
  One step covers every replace: the new content of the item at the index fits the scope's cap, and the
  reserved delta is the change of its size.
\<close>

lemma replace_step:
  assumes rdy: "ready c k b" and x: "x \<in> set (items b)" "indexBySeqLocked b (Seq x) = Some i"
    and ok: "item_ok c k (replaced p now r x)"
    and delta: "delta = rawlen p + rawlen r - payloadAndRenderBytes x"
    and fits: "totalBytes c + delta \<le> maxStoreBytes c"
    and key: "key = id_key x"
  shows "\<exists>b1. overwriteLocked i (replaced p now r x) key delta b = (None, b1) \<and>
    (\<forall>c' b'. stampLocked now (c\<lparr>totalBytes := totalBytes c + delta\<rparr>) b1 = (c', b') \<longrightarrow>
       step_ok c k b c' b' \<and> lastSeq b' = lastSeq b \<and>
       items b' = map (\<lambda>y. if Seq y = Seq x then replaced p now r y else y) (items b))"
proof -
  have inv: "buf_inv b" using readyD(5) [OF rdy] .
  have i: "i < length (items b)" "items b ! i = x"
    using x indexBySeqLocked_Some [OF inv] buf_inv_seq_inj [OF inv] by auto
  have d: "delta = approxItemSize (replaced p now r x) - approxItemSize (items b ! i)"
    using replaced_size [of p now r x] i delta by simp
  have key': "key = id_key (replaced p now r x)" using key by (simp add: id_key_def)
  obtain b1 where b1: "overwriteLocked i (replaced p now r x) key delta b = (None, b1)" "buf_inv b1"
    "b1 = b\<lparr>items := (items b)[i := replaced p now r x], bySeq := bySeq b1, byID := byID b1, bytes := bytes b + delta\<rparr>"
    using overwriteLocked_ok [OF inv i(1) _ _ key' d] i(2) by auto
  have f: "items b1 = (items b)[i := replaced p now r x]" "bytes b1 = bytes b + delta" "attached b1 = attached b"
    "detached b1 = detached b" "maxItems b1 = maxItems b" "createdTS b1 = createdTS b" "lastSeq b1 = lastSeq b"
    "idKeyBytes b1 = idKeyBytes b"
    by (subst b1(3), simp)+
  have acct: "id_acct b \<longrightarrow> id_acct (b1\<lparr>bLastWriteTS := now\<rparr>)"
    using i by (simp add: id_acct_def f id_bytes_update)
  let ?c = "bumpLastWriteTS now (c\<lparr>totalBytes := totalBytes c + delta\<rparr>)"
  let ?b = "b1\<lparr>bLastWriteTS := now\<rparr>"
  have inv1: "buf_inv ?b" using b1(2) by (simp add: buf_inv_def)
  have nonneg: "0 \<le> totalBytes c + delta"
    using replaced_delta_bound [OF inv x(1), of p r] readyD(6) [OF rdy] delta by simp
  have mem: "\<forall>y \<in> set (items ?b). y \<in> set (items b) \<or>
      item_ok ?c k y \<and> (\<forall>a. counter y = Some a \<longrightarrow> length (cells c) \<le> a)"
    using set_update_subset_insert [of "items b" i "replaced p now r x"] item_ok_mono [OF ok, of ?c]
    by (auto simp: f)
  have "step_ok c k b ?c ?b"
    by (rule core_moveI [OF rdy inv1, where d = delta]) (use f fits nonneg mem acct readyD(4) [OF rdy] in auto)
  moreover have "items ?b = map (\<lambda>y. if Seq y = Seq x then replaced p now r y else y) (items b)"
    using update_list_eq [OF inv i(2) [symmetric] i(1)] f by simp
  moreover have "stampLocked now (c\<lparr>totalBytes := totalBytes c + delta\<rparr>) b1 = (?c, ?b)"
    using readyD(1) [OF rdy] f by (simp add: stampLocked_def)
  ultimately show ?thesis using b1(1) f(7) by auto
qed

text \<open>The replace branch of \<open>upsertByID\<close>, and both branches together.\<close>

lemma byID_hit:
  assumes "buf_inv b" "gm_get (byID b) j = Some x"
  shows "x \<in> set (items b)" "ID x = j" "j \<noteq> []" "id_key x = Some j"
  using assms indexesD [OF buf_invD(5) [OF assms(1)], of j x] by (auto simp: id_key_def split: if_splits)

lemma bySeq_hit:
  assumes "buf_inv b" "gm_get (bySeq b) sq = Some x"
  shows "x \<in> set (items b)" "Seq x = sq"
  using assms indexesD [OF buf_invD(4) [OF assms(1)], of sq x] by (auto simp: seq_key_def)

lemma item_ok_replaced:
  assumes "item_ok c k x" "plain_ok c k it" "ID x = ID it"
  shows "item_ok c k (replaced (Payload it) now (newRenderOf (renderBytes it) (Payload it)) x)"
  using assms by (auto simp: plain_ok_def item_ok_def replaced_def fillRender_eq approxItemSize_def Let_def)

lemma upsertByID_replace:
  assumes rdy: "ready c k b" and ok: "plain_ok c k it" and hit: "gm_get (byID b) (ID it) = Some x"
  defines "r \<equiv> newRenderOf (renderBytes it) (Payload it)"
  defines "delta \<equiv> rawlen (Payload it) + rawlen r - payloadAndRenderBytes x"
  shows "if totalBytes c + delta \<le> maxStoreBytes c
    then \<exists>c' b'. upsertByID now it c b = (Inr (replaced (Payload it) now r x, False), c', b') \<and>
      step_ok c k b c' b' \<and> lastSeq b' = lastSeq b \<and>
      items b' = map (\<lambda>y. if Seq y = Seq x then replaced (Payload it) now r y else y) (items b)
    else upsertByID now it c b = (Inl (StoreFullError (totalBytes c) delta (maxStoreBytes c)), c, b)"
proof -
  have inv: "buf_inv b" using readyD(5) [OF rdy] .
  note h = byID_hit [OF inv hit]
  obtain i where i: "indexBySeqLocked b (Seq x) = Some i" "i < length (items b)" "items b ! i = x"
    using index_of_member [OF inv h(1)] .
  have okx: "item_ok c k (replaced (Payload it) now r x)"
    unfolding r_def using item_ok_replaced [OF readyD(8) [OF rdy h(1)] ok h(2)] .
  have bound: "- bytes b \<le> rawlen (Payload it) + rawlen r - payloadAndRenderBytes x"
    using replaced_delta_bound [OF inv h(1)] .
  note res = reservePayloadDelta_ready [OF rdy bound, folded delta_def]
  show ?thesis
  proof (cases "totalBytes c + delta \<le> maxStoreBytes c")
    case False
    then show ?thesis using readyD(2) [OF rdy] hit res
      by (simp add: upsertByID_def Let_def flip: r_def)
  next
    case True
    obtain b1 where b1: "overwriteLocked i (replaced (Payload it) now r x) (Some (ID it)) delta b = (None, b1)"
      "\<forall>c' b'. stampLocked now (c\<lparr>totalBytes := totalBytes c + delta\<rparr>) b1 = (c', b') \<longrightarrow>
         step_ok c k b c' b' \<and> lastSeq b' = lastSeq b \<and>
         items b' = map (\<lambda>y. if Seq y = Seq x then replaced (Payload it) now r y else y) (items b)"
      using replace_step [OF rdy h(1) i(1) okx _ True, of "Some (ID it)"] h(4) by (auto simp: delta_def)
    obtain c' b' where st: "stampLocked now (c\<lparr>totalBytes := totalBytes c + delta\<rparr>) b1 = (c', b')"
      by (metis surj_pair)
    have "upsertByID now it c b = (Inr (replaced (Payload it) now r x, False), c', b')"
      using readyD(2) [OF rdy] hit res True i b1(1) st
      by (simp add: upsertByID_def Let_def replaced_def flip: r_def)
    with True b1(2) st show ?thesis by auto
  qed
qed

lemma upsertByID_create:
  assumes "ready c k b" "gm_get (byID b) (ID it) = None"
  shows "upsertByID now it c b =
    (if itemCapExceeded b (int (length (items b)) + 1)
     then (Inl (ScopeFullError (int (length (items b))) (maxItems b)), c, b)
     else case insertNewItemLocked it now c b of
            (Inl e, c', b') \<Rightarrow> (Inl e, c', b')
          | (Inr inserted, c', b') \<Rightarrow> (Inr (inserted, True), c', b'))"
  using assms readyD(2) [OF assms(1)] by (simp add: upsertByID_def)

lemma upsertByID_Inl:
  assumes "ready c k b" "plain_ok c k it" "upsertByID now it c b = (Inl e, c', b')"
  shows "c' = c \<and> b' = b \<and> not_panic (Inl e :: (Item \<times> bool) res)"
proof (cases "gm_get (byID b) (ID it)")
  case None
  then show ?thesis
    using assms(3) insert_refused [OF assms(1), of it now e c' b']
    by (auto simp: upsertByID_create [OF assms(1)] not_panic_def split: if_splits prod.splits sum.splits)
next
  case (Some x)
  then show ?thesis using upsertByID_replace [OF assms(1,2) Some, of now] assms(3)
    by (auto split: if_splits)
qed

lemma upsertByID_Inr:
  assumes "ready c k b" "plain_ok c k it" "upsertByID now it c b = (Inr (r, created), c', b')"
  shows "step_ok c k b c' b' \<and> (created \<longleftrightarrow> gm_get (byID b) (ID it) = None)"
proof (cases "gm_get (byID b) (ID it)")
  case None
  then show ?thesis
    using assms(3) insert_step [OF assms(1,2), of now r c' b']
    by (auto simp: upsertByID_create [OF assms(1)] split: if_splits prod.splits sum.splits)
next
  case (Some x)
  then show ?thesis using upsertByID_replace [OF assms(1,2) Some, of now] assms(3)
    by (auto split: if_splits)
qed

interpretation upsert_op: buffer_op "\<lambda>(now, it). upsertByID now it"
  "\<lambda>(now, it) c k. plain_ok c k it \<and> ID it \<noteq> []"
proof (unfold_locales, goal_cases)
  case (1 b p c)
  then show ?case by (simp add: upsertByID_def split: prod.splits)
next
  case (2 c k b p e c' b')
  then show ?case using upsertByID_Inl [of c k b "snd p" "fst p" e c' b'] by (cases p) simp
next
  case (3 c k b p r c' b')
  then show ?case
    using upsertByID_Inl [of c k b "snd p" "fst p" _ c' b'] upsertByID_Inr [of c k b "snd p" "fst p" _ _ c' b']
      step_ok_refl [of c k b]
    by (cases p; cases r) (auto simp: not_panic_def)
qed

section \<open>Update\<close>

definition update_ok :: "raw \<Rightarrow> raw \<Rightarrow> bool" where
  "update_ok payload pre \<longleftrightarrow>
     payload_ok payload \<and> newRenderOf pre payload = precomputeRenderBytes payload"

lemma replaceFound_ready:
  assumes rdy: "ready c k b" and x: "x \<in> set (items b)" and sq: "sq = Seq x"
    and ok: "item_ok c k (replaced p now r x)"
  defines "delta \<equiv> rawlen p + rawlen r - payloadAndRenderBytes x"
  shows "if totalBytes c + delta \<le> maxStoreBytes c
    then \<exists>c' b'. replaceFound now x sq p r c b = (Inr 1, c', b') \<and>
      step_ok c k b c' b' \<and> lastSeq b' = lastSeq b \<and>
      items b' = map (\<lambda>y. if Seq y = Seq x then replaced p now r y else y) (items b)
    else replaceFound now x sq p r c b = (Inl (StoreFullError (totalBytes c) delta (maxStoreBytes c)), c, b)"
proof -
  have inv: "buf_inv b" using readyD(5) [OF rdy] .
  obtain i where i: "indexBySeqLocked b (Seq x) = Some i" "i < length (items b)" "items b ! i = x"
    using index_of_member [OF inv x] .
  have bound: "- bytes b \<le> rawlen p + rawlen r - payloadAndRenderBytes x"
    using replaced_delta_bound [OF inv x] .
  note res = reservePayloadDelta_ready [OF rdy bound, folded delta_def]
  show ?thesis
  proof (cases "totalBytes c + delta \<le> maxStoreBytes c")
    case False
    then show ?thesis using res by (simp add: replaceFound_def)
  next
    case True
    obtain b1 where b1: "overwriteLocked i (replaced p now r x) (id_key x) delta b = (None, b1)"
      "\<forall>c' b'. stampLocked now (c\<lparr>totalBytes := totalBytes c + delta\<rparr>) b1 = (c', b') \<longrightarrow>
         step_ok c k b c' b' \<and> lastSeq b' = lastSeq b \<and>
         items b' = map (\<lambda>y. if Seq y = Seq x then replaced p now r y else y) (items b)"
      using replace_step [OF rdy x i(1) ok _ True refl] by (auto simp: delta_def)
    obtain c' b' where st: "stampLocked now (c\<lparr>totalBytes := totalBytes c + delta\<rparr>) b1 = (c', b')"
      by (metis surj_pair)
    have key: "(if ID (replaced p now r x) \<noteq> [] then Some (ID (replaced p now r x)) else None) = id_key x"
      by (simp add: id_key_def)
    have "replaceItemAtIndexLocked i p now r delta (c\<lparr>totalBytes := totalBytes c + delta\<rparr>) b = (Inr (), c', b')"
      unfolding replaceItemAtIndexLocked_def Let_def i(3) replaced_def [symmetric] key using b1(1) st by simp
    then have "replaceFound now x sq p r c b = (Inr 1, c', b')"
      using res True i sq by (simp add: replaceFound_def)
    with True b1(2) st show ?thesis by auto
  qed
qed

lemma update_item_ok:
  assumes "item_ok c k x" "update_ok p pre"
    "approxItemSize (Item_zero\<lparr>Scope := k, ID := ID x, Payload := p, renderBytes := newRenderOf pre p\<rparr>)
       \<le> maxItemBytesFor c k"
  shows "item_ok c k (replaced p now (newRenderOf pre p) x)"
  using assms by (auto simp: update_ok_def item_ok_def replaced_def approxItemSize_def Let_def Item_zero_def)

definition update_size :: "bytestr \<Rightarrow> bytestr \<Rightarrow> raw \<Rightarrow> raw \<Rightarrow> int" where
  "update_size k i p pre =
     approxItemSize (Item_zero\<lparr>Scope := k, ID := i, Payload := p, renderBytes := newRenderOf pre p\<rparr>)"

lemma updateByID_ready:
  assumes rdy: "ready c k b" and ok: "update_ok p pre" and sz: "update_size k i p pre \<le> maxItemBytesFor c k"
    and hit: "gm_get (byID b) i = Some x"
  defines "delta \<equiv> rawlen p + rawlen (newRenderOf pre p) - payloadAndRenderBytes x"
  shows "if totalBytes c + delta \<le> maxStoreBytes c
    then \<exists>c' b'. updateByID now i p pre c b = (Inr 1, c', b') \<and>
      step_ok c k b c' b' \<and> lastSeq b' = lastSeq b \<and>
      items b' = map (\<lambda>y. if Seq y = Seq x then replaced p now (newRenderOf pre p) y else y) (items b)
    else updateByID now i p pre c b = (Inl (StoreFullError (totalBytes c) delta (maxStoreBytes c)), c, b)"
proof -
  note h = byID_hit [OF readyD(5) [OF rdy] hit]
  have "item_ok c k (replaced p now (newRenderOf pre p) x)"
    using update_item_ok [OF readyD(8) [OF rdy h(1)] ok] sz h(2) by (simp add: update_size_def)
  from replaceFound_ready [OF rdy h(1) refl this] show ?thesis
    using readyD(2) [OF rdy] hit by (simp add: updateByID_def delta_def)
qed

lemma updateBySeq_ready:
  assumes rdy: "ready c k b" and ok: "update_ok p pre" and hit: "gm_get (bySeq b) sq = Some x"
  defines "delta \<equiv> rawlen p + rawlen (newRenderOf pre p) - payloadAndRenderBytes x"
    and "sz \<equiv> update_size k (ID x) p pre"
  shows "if maxItemBytesFor c k < sz
    then updateBySeq now sq p pre c b = (Inl (InvalidInput (ItemTooLarge sz (maxItemBytesFor c k))), c, b)
    else if totalBytes c + delta \<le> maxStoreBytes c
    then \<exists>c' b'. updateBySeq now sq p pre c b = (Inr 1, c', b') \<and>
      step_ok c k b c' b' \<and> lastSeq b' = lastSeq b \<and>
      items b' = map (\<lambda>y. if Seq y = sq then replaced p now (newRenderOf pre p) y else y) (items b)
    else updateBySeq now sq p pre c b = (Inl (StoreFullError (totalBytes c) delta (maxStoreBytes c)), c, b)"
proof -
  note h = bySeq_hit [OF readyD(5) [OF rdy] hit]
  have k: "Scope x = k" using readyD(8) [OF rdy h(1)] by (simp add: item_ok_def)
  have run: "updateBySeq now sq p pre c b =
      (if maxItemBytesFor c k < sz
       then (Inl (InvalidInput (ItemTooLarge sz (maxItemBytesFor c k))), c, b)
       else replaceFound now x sq p (newRenderOf pre p) c b)"
    using readyD(1,2) [OF rdy] hit k by (simp add: updateBySeq_def sz_def update_size_def Let_def)
  show ?thesis
  proof (cases "maxItemBytesFor c k < sz")
    case False
    then have "item_ok c k (replaced p now (newRenderOf pre p) x)"
      using update_item_ok [OF readyD(8) [OF rdy h(1)] ok] by (simp add: sz_def update_size_def)
    note found = replaceFound_ready [OF rdy h(1) refl this, folded delta_def]
    have "updateBySeq now (Seq x) p pre c b = replaceFound now x (Seq x) p (newRenderOf pre p) c b"
      using False run h(2) by simp
    with found show ?thesis unfolding if_not_P [OF False] h(2) [symmetric] by (simp only:)
  qed (simp add: run)
qed

lemma updateByID_miss: "ready c k b \<Longrightarrow> gm_get (byID b) i = None \<Longrightarrow> updateByID now i p pre c b = (Inr 0, c, b)"
  by (simp add: updateByID_def readyD(2))

lemma updateBySeq_miss: "ready c k b \<Longrightarrow> gm_get (bySeq b) sq = None \<Longrightarrow> updateBySeq now sq p pre c b = (Inr 0, c, b)"
  by (simp add: updateBySeq_def readyD(2))

lemma updateByID_cases:
  assumes "ready c k b" "update_ok p pre" "update_size k i p pre \<le> maxItemBytesFor c k"
    "updateByID now i p pre c b = (r, c', b')"
  shows "not_panic r \<and> step_ok c k b c' b' \<and> (\<forall>e. r = Inl e \<longrightarrow> c' = c \<and> b' = b)"
proof (cases "gm_get (byID b) i")
  case None
  then show ?thesis using assms updateByID_miss [OF assms(1) None] step_ok_refl [OF assms(1)] by auto
next
  case (Some x)
  then show ?thesis using updateByID_ready [OF assms(1-3) Some, of now] assms(4) step_ok_refl [OF assms(1)]
    by (auto split: if_splits)
qed

lemma updateBySeq_cases:
  assumes "ready c k b" "update_ok p pre" "updateBySeq now sq p pre c b = (r, c', b')"
  shows "not_panic r \<and> step_ok c k b c' b' \<and> (\<forall>e. r = Inl e \<longrightarrow> c' = c \<and> b' = b)"
proof (cases "gm_get (bySeq b) sq")
  case None
  then show ?thesis using assms updateBySeq_miss [OF assms(1) None] step_ok_refl [OF assms(1)] by auto
next
  case (Some x)
  then show ?thesis using updateBySeq_ready [OF assms(1,2) Some, of now] assms(3) step_ok_refl [OF assms(1)]
    by (auto split: if_splits)
qed

interpretation update_id_op: buffer_op "\<lambda>(now, i, p, pre). updateByID now i p pre"
  "\<lambda>(now, i, p, pre) c k. update_ok p pre \<and> update_size k i p pre \<le> maxItemBytesFor c k"
proof (unfold_locales, goal_cases)
  case (1 b p c)
  then show ?case by (simp add: updateByID_def split: prod.splits)
next
  case (2 c k b p e c' b')
  then show ?case by (cases p) (auto dest: updateByID_cases)
next
  case (3 c k b p r c' b')
  then show ?case by (cases p) (auto dest: updateByID_cases)
qed

interpretation update_seq_op: buffer_op "\<lambda>(now, sq, p, pre). updateBySeq now sq p pre"
  "\<lambda>(now, sq, p, pre) c k. update_ok p pre"
proof (unfold_locales, goal_cases)
  case (1 b p c)
  then show ?case by (simp add: updateBySeq_def split: prod.splits)
next
  case (2 c k b p e c' b')
  then show ?case by (cases p) (auto dest: updateBySeq_cases)
next
  case (3 c k b p r c' b')
  then show ?case by (cases p) (auto dest: updateBySeq_cases)
qed

section \<open>Delete\<close>

lemma filter_others:
  assumes "distinct (map f (xs @ x # ys))"
  shows "filter (\<lambda>y. f y \<noteq> f x) (xs @ x # ys) = xs @ ys"
proof -
  have "f x \<notin> f ` set xs" "f x \<notin> f ` set ys" using assms by simp_all
  then have "\<forall>y \<in> set xs. f y \<noteq> f x" "\<forall>y \<in> set ys. f y \<noteq> f x" by (metis imageI)+
  then show ?thesis by (simp add: filter_id_conv)
qed

lemma deleteIndex_step:
  assumes rdy: "ready c k b" and x: "x \<in> set (items b)" "indexBySeqLocked b (Seq x) = Some i"
    and run: "deleteIndexLocked i now c b = (c', b')"
  shows "step_ok c k b c' b' \<and> items b' = filter (\<lambda>y. Seq y \<noteq> Seq x) (items b) \<and> lastSeq b' = lastSeq b \<and>
    bytes b' = bytes b - approxItemSize x"
proof -
  have inv: "buf_inv b" using readyD(5) [OF rdy] .
  have i: "i < length (items b)" "items b ! i = x"
    using x indexBySeqLocked_Some [OF inv] buf_inv_seq_inj [OF inv] by auto
  have b': "b' = snd (deleteIndexLocked i now c b)" and c': "c' = fst (deleteIndexLocked i now c b)"
    using run by simp_all
  have tot: "0 \<le> totalBytes c" "totalBytes c \<le> maxStoreBytes c" using readyD(3) [OF rdy] by (auto simp: within_cap_def)
  have "approxItemSize x \<le> bytes b" using buf_invD(6) [OF inv] total_size_mem [OF x(1)] by simp
  then have nonneg: "0 \<le> totalBytes c - approxItemSize x" using readyD(6) [OF rdy] by simp
  have wrap: "wrap64 (totalBytes c + - approxItemSize x) = totalBytes c - approxItemSize x"
    using within_cap_wrap [OF readyD(3) [OF rdy], of "- approxItemSize x"] nonneg tot
      approxItemSize_pos(2) [of x] by simp
  have its: "items b' = filter (\<lambda>y. Seq y \<noteq> Seq x) (items b)"
  proof -
    have d: "distinct (map Seq (take i (items b) @ x # drop (Suc i) (items b)))"
      using buf_inv_distinct_seq [OF inv] id_take_nth_drop [OF i(1)] i(2) by metis
    have "filter (\<lambda>y. Seq y \<noteq> Seq x) (take i (items b) @ x # drop (Suc i) (items b)) =
        take i (items b) @ drop (Suc i) (items b)"
      using filter_others [OF d] .
    moreover have "take i (items b) @ x # drop (Suc i) (items b) = items b"
      using id_take_nth_drop [OF i(1)] i(2) by simp
    ultimately show ?thesis by (simp add: b' deleteIndexLocked_fields)
  qed
  have len: "length (items b') = length (items b) - 1" using i(1) b' by (simp add: deleteIndexLocked_fields)
  have le: "totalBytes c - approxItemSize x \<le> maxStoreBytes c"
    using tot approxItemSize_pos(2) [of x] by linarith
  have "step_ok c k b c' b'"
    by (rule core_moveI [OF rdy deleteIndexLocked_inv [OF inv i(1), of now c, folded b'], where d = "- approxItemSize x"])
      (use its len i wrap nonneg le readyD(1,4) [OF rdy] deleteIndexLocked_id_acct [OF _ i(1), of now c] in
        \<open>auto simp: b' c' deleteIndexLocked_fields deleteIndexLocked_core add_increasing2\<close>)
  then show ?thesis using its i b' by (simp add: deleteIndexLocked_fields)
qed


lemma deleteByID_ready:
  assumes rdy: "ready c k b"
  shows "\<exists>c' b'. deleteByID now i c b =
      (Inr (int (length (items b)) - int (length (items b'))), c', b') \<and>
    step_ok c k b c' b' \<and> lastSeq b' = lastSeq b \<and>
    items b' = filter (\<lambda>y. i = [] \<or> ID y \<noteq> i) (items b)"
proof (cases "gm_get (byID b) i")
  case None
  have "filter (\<lambda>y. i = [] \<or> ID y \<noteq> i) (items b) = items b"
    using None indexes_None [OF buf_invD(5) [OF readyD(5) [OF rdy]], of i]
    by (auto simp: filter_id_conv id_key_def)
  then show ?thesis using None readyD(2) [OF rdy] step_ok_refl [OF rdy] by (simp add: deleteByID_def)
next
  case (Some x)
  have inv: "buf_inv b" using readyD(5) [OF rdy] .
  note h = byID_hit [OF inv Some]
  obtain j where j: "indexBySeqLocked b (Seq x) = Some j" "j < length (items b)" "items b ! j = x"
    using index_of_member [OF inv h(1)] .
  obtain c' b' where run: "deleteIndexLocked j now c b = (c', b')" by (metis surj_pair)
  note st = deleteIndex_step [OF rdy h(1) j(1) run]
  have "Seq y \<noteq> Seq x \<longleftrightarrow> i = [] \<or> ID y \<noteq> i" if "y \<in> set (items b)" for y
    using that h buf_inv_seq_inj [OF inv that h(1)] indexes_unique [OF buf_invD(5) [OF inv] that h(1) _ h(4)]
    by (auto simp: id_key_def)
  then have f: "filter (\<lambda>y. Seq y \<noteq> Seq x) (items b) = filter (\<lambda>y. i = [] \<or> ID y \<noteq> i) (items b)"
    by (rule filter_cong [OF refl])
  have "length (items b') = length (items b) - 1"
    using run j(2) deleteIndexLocked_fields(1) [of j now c b] by simp
  then have n: "int (length (items b)) - int (length (items b')) = 1" using j(2) by simp
  have "deleteByID now i c b = (Inr 1, c', b')"
    using readyD(2) [OF rdy] Some j(1) run by (simp add: deleteByID_def)
  with st f n show ?thesis by auto
qed

lemma deleteBySeq_ready:
  assumes rdy: "ready c k b"
  shows "\<exists>c' b'. deleteBySeq now sq c b =
      (Inr (int (length (items b)) - int (length (items b'))), c', b') \<and>
    step_ok c k b c' b' \<and> lastSeq b' = lastSeq b \<and> items b' = filter (\<lambda>y. Seq y \<noteq> sq) (items b)"
proof (cases "gm_get (bySeq b) sq")
  case None
  have "filter (\<lambda>y. Seq y \<noteq> sq) (items b) = items b"
    using None indexes_None [OF buf_invD(4) [OF readyD(5) [OF rdy]], of sq]
    by (auto simp: filter_id_conv seq_key_def)
  then show ?thesis using None readyD(2) [OF rdy] step_ok_refl [OF rdy] by (simp add: deleteBySeq_def)
next
  case (Some x)
  have inv: "buf_inv b" using readyD(5) [OF rdy] .
  note h = bySeq_hit [OF inv Some]
  obtain j where j: "indexBySeqLocked b (Seq x) = Some j" "j < length (items b)" "items b ! j = x"
    using index_of_member [OF inv h(1)] .
  obtain c' b' where run: "deleteIndexLocked j now c b = (c', b')" by (metis surj_pair)
  note st = deleteIndex_step [OF rdy h(1) j(1) run]
  have "length (items b') = length (items b) - 1"
    using run j(2) deleteIndexLocked_fields(1) [of j now c b] by simp
  then have n: "int (length (items b)) - int (length (items b')) = 1" using j(2) by simp
  have "deleteBySeq now sq c b = (Inr 1, c', b')"
    using readyD(2) [OF rdy] Some j(1) run h(2) by (simp add: deleteBySeq_def)
  with st n h(2) show ?thesis by auto
qed

lemma drainLoop_indexes:
  assumes "indexes seq_key S ms" "indexes id_key S mi" "set xs \<subseteq> S" "distinct xs"
  shows "\<exists>ms' mi'. drainLoop xs (f, g, ms, mi) = (f + total_size xs, g + id_bytes xs, ms', mi') \<and>
    indexes seq_key (S - set xs) ms' \<and> indexes id_key (S - set xs) mi'"
  using assms
proof (induction xs arbitrary: S ms mi f g)
  case (Cons x xs)
  let ?mi = "if ID x \<noteq> [] then gm_del mi (ID x) else mi"
  have s: "indexes seq_key (S - {x}) (gm_del ms (Seq x))"
    using Cons.prems(3) by (intro indexes_del [OF Cons.prems(1)]) (simp_all add: seq_key_def)
  have i: "indexes id_key (S - {x}) ?mi"
  proof (cases "ID x = []")
    case True
    then have "id_key x = None" by (simp add: id_key_def)
    with indexes_del_keyless [OF Cons.prems(2) this] True show ?thesis by simp
  next
    case False
    then have "id_key x = Some (ID x)" by (simp add: id_key_def)
    with indexes_del [OF Cons.prems(2) _ this] Cons.prems(3) False show ?thesis by simp
  qed
  have sub: "set xs \<subseteq> S - {x}" "distinct xs" using Cons.prems(3,4) by auto
  have "S - set (x # xs) = S - {x} - set xs" by auto
  with Cons.IH [OF s i sub, of "f + approxItemSize x" "g + int (length (ID x))"] show ?case
    by (auto simp: ac_simps split: if_splits)
qed simp

lemma deleteUpToSeq_ready:
  assumes rdy: "ready c k b"
  shows "\<exists>c' b'. deleteUpToSeq now m c b =
      (Inr (int (length (items b)) - int (length (items b'))), c', b') \<and>
    step_ok c k b c' b' \<and> lastSeq b' = lastSeq b \<and> items b' = filter (\<lambda>y. m < Seq y) (items b)"
proof -
  have inv: "buf_inv b" using readyD(5) [OF rdy] .
  define idx where "idx = sort_Search (length (items b)) (\<lambda>i. m < Seq (items b ! i))"
  note cut = seq_cut [OF inv, of m, folded idx_def]
  show ?thesis
  proof (cases "idx = 0")
    case True
    then show ?thesis using cut(3) readyD(2) [OF rdy] step_ok_refl [OF rdy]
      by (simp add: deleteUpToSeq_def flip: idx_def)
  next
    case False
    let ?xs = "take idx (items b)" let ?ys = "drop idx (items b)"
    have dist: "distinct (items b)" using buf_inv_distinct [OF inv] .
    have "set (items b) = set ?xs \<union> set ?ys" by (simp flip: set_append)
    then have split: "set (items b) - set ?xs = set ?ys"
      using set_take_disj_set_drop_if_distinct [OF dist order_refl, of idx] by blast
    note drained = drainLoop_indexes [OF buf_invD(4,5) [OF inv] set_take_subset, of idx 0 0, unfolded split]
    obtain ms mi where loop: "drainLoop ?xs (0, 0, bySeq b, byID b) = (total_size ?xs, id_bytes ?xs, ms, mi)"
      "indexes seq_key (set ?ys) ms" "indexes id_key (set ?ys) mi"
      using drained dist by auto
    have sums: "total_size (items b) = total_size ?xs + total_size ?ys" "id_bytes (items b) = id_bytes ?xs + id_bytes ?ys"
      by (metis append_take_drop_id total_size_simps(3)) (metis append_take_drop_id id_bytes_simps(3))
    let ?b1 = "b\<lparr>items := ?ys, bySeq := ms, byID := mi, idKeyBytes := idKeyBytes b - id_bytes ?xs\<rparr>"
    obtain c' b' where rel: "releaseLocked (total_size ?xs) (int idx) now c ?b1 = (c', b')" by (metis surj_pair)
    have b': "b' = snd (releaseLocked (total_size ?xs) (int idx) now c ?b1)"
      and c': "c' = bumpLastWriteTS now (add_totalItems (- int idx) (add_totalBytes (- total_size ?xs) c))"
      using rel readyD(1) [OF rdy] by (simp_all add: releaseLocked_def Let_def)
    note f = releaseLocked_fields [of "total_size ?xs" "int idx" now c ?b1, folded b']
    have "sorted_wrt (<) (map Seq ?ys)" using sorted_wrt_drop [OF buf_invD(1) [OF inv]] by (simp add: drop_map)
    moreover have "distinct (cell_refs ?xs @ cell_refs ?ys)"
      using buf_invD(7) [OF inv] by (metis append_take_drop_id cell_refs_simps(2))
    ultimately have inv': "buf_inv b'"
      unfolding b' by (intro releaseLocked_inv [OF inv, where ys = ?ys])
        (use loop(2,3) sums buf_invD(6) [OF inv] in \<open>auto simp: set_drop_subset\<close>)
    have tot: "0 \<le> totalBytes c - total_size ?xs" "totalBytes c - total_size ?xs \<le> maxStoreBytes c"
      using readyD(3,6) [OF rdy] buf_invD(6) [OF inv] sums total_size_nonneg [of ?ys] total_size_nonneg [of ?xs]
      unfolding within_cap_def by linarith+
    then have wrap: "wrap64 (totalBytes c + - total_size ?xs) = totalBytes c + - total_size ?xs"
      by (intro within_cap_wrap readyD(3) [OF rdy]) simp_all
    have acct: "id_acct b \<longrightarrow> id_acct b'"
      unfolding b' by (intro impI releaseLocked_id_acct) (simp add: id_acct_def sums)
    have "step_ok c k b c' b'"
      by (rule core_moveI [OF rdy inv', where d = "- total_size ?xs"])
        (use f tot wrap acct cut(1) readyD(4) [OF rdy] in \<open>auto simp: c' dest: in_set_dropD\<close>)
    moreover have "deleteUpToSeq now m c b = (Inr (int idx), c', b')"
      using readyD(2) [OF rdy] False loop(1) rel by (simp add: deleteUpToSeq_def flip: idx_def)
    moreover have "int idx = int (length (items b)) - int (length (items b'))" using f(1) cut(1) by simp
    ultimately show ?thesis using f(1,6) cut(3) by auto
  qed
qed

text \<open>The three delete paths satisfy the contract without any condition on their arguments.\<close>

interpretation delete_id_op: buffer_op "\<lambda>(now, i). deleteByID now i" "\<lambda>_ _ _. True"
proof (unfold_locales, goal_cases)
  case (1 b p c)
  then show ?case by (simp add: deleteByID_def split: prod.splits)
next
  case (2 c k b p e c' b')
  then show ?case using deleteByID_ready [of c k b "fst p" "snd p"] by (cases p) auto
next
  case (3 c k b p r c' b')
  then show ?case using deleteByID_ready [of c k b "fst p" "snd p"] by (cases p) auto
qed

interpretation delete_seq_op: buffer_op "\<lambda>(now, sq). deleteBySeq now sq" "\<lambda>_ _ _. True"
proof (unfold_locales, goal_cases)
  case (1 b p c)
  then show ?case by (simp add: deleteBySeq_def split: prod.splits)
next
  case (2 c k b p e c' b')
  then show ?case using deleteBySeq_ready [of c k b "fst p" "snd p"] by (cases p) auto
next
  case (3 c k b p r c' b')
  then show ?case using deleteBySeq_ready [of c k b "fst p" "snd p"] by (cases p) auto
qed

interpretation drain_op: buffer_op "\<lambda>(now, m). deleteUpToSeq now m" "\<lambda>_ _ _. True"
proof (unfold_locales, goal_cases)
  case (1 b p c)
  then show ?case by (simp add: deleteUpToSeq_def split: prod.splits)
next
  case (2 c k b p e c' b')
  then show ?case using deleteUpToSeq_ready [of c k b "fst p" "snd p"] by (cases p) auto
next
  case (3 c k b p r c' b')
  then show ?case using deleteUpToSeq_ready [of c k b "fst p" "snd p"] by (cases p) auto
qed

end
