(* ===== verification/BufferRead.thy ===== *)
theory BufferRead
  imports BufferContract
begin

text \<open>
  The read paths of \<open>buffer_read.go\<close>, \<open>recordRead\<close> of \<open>buffer_heat.go\<close> and the metrics of
  \<open>buffer_stats.go\<close>. A read takes the core for the counter cells and changes nothing; the reads are
  specified on the item list, and a client that pages with the after-seq cursor is shown to see every
  item once.
\<close>

section \<open>Reads\<close>

definition renderCounterPayload :: "counterCell \<Rightarrow> raw" where
  "renderCounterPayload cell = Some (show_int (cell_value cell))"

definition materialiseCounter :: "core \<Rightarrow> Item \<Rightarrow> Item" where
  "materialiseCounter c it =
     (case counter it of
        None \<Rightarrow> it
      | Some a \<Rightarrow> it\<lparr>Payload := renderCounterPayload (cells c ! a), Ts := cell_ts (cells c ! a)\<rparr>)"

definition materialiseCountersInPlace :: "core \<Rightarrow> Item list \<Rightarrow> Item list" where
  "materialiseCountersInPlace c its =
     map (\<lambda>it. if counter it \<noteq> None then materialiseCounter c it else it) its"

definition tailOffset :: "int \<Rightarrow> int \<Rightarrow> core \<Rightarrow> scopeBuffer \<Rightarrow> Item list \<times> bool" where
  "tailOffset limit offset c b =
     (if limit \<le> 0 \<or> offset < 0 then ([], False)
      else if int (length (items b)) \<le> offset then ([], False)
      else
        (let end = int (length (items b)) - offset;
             start = end - limit;
             hasMore = 0 < start;
             start = (if start < 0 then 0 else start)
         in if end \<le> start then ([], False)
            else (materialiseCountersInPlace c (drop (nat start) (take (nat end) (items b))), hasMore)))"

definition sinceSeq :: "u64 \<Rightarrow> int \<Rightarrow> core \<Rightarrow> scopeBuffer \<Rightarrow> Item list \<times> bool" where
  "sinceSeq afterSeq limit c b =
     (if limit \<le> 0 then ([], False)
      else if items b = [] then ([], False)
      else
        (let idx = sort_Search (length (items b)) (\<lambda>i. afterSeq < Seq (items b ! i)) in
         if length (items b) \<le> idx then ([], False)
         else
           (let available = length (items b) - idx;
                (takeN, hasMore) = (if limit < int available then (nat limit, True) else (available, False))
            in (materialiseCountersInPlace c (take takeN (drop idx (items b))), hasMore))))"

definition getByID :: "bytestr \<Rightarrow> core \<Rightarrow> scopeBuffer \<Rightarrow> Item option" where
  "getByID i c b = map_option (materialiseCounter c) (gm_get (byID b) i)"

definition getBySeq :: "u64 \<Rightarrow> core \<Rightarrow> scopeBuffer \<Rightarrow> Item option" where
  "getBySeq sq c b = map_option (materialiseCounter c) (gm_get (bySeq b) sq)"

definition recordRead :: "int \<Rightarrow> scopeBuffer \<Rightarrow> scopeBuffer" where
  "recordRead now b = b\<lparr>readCountTotal := readCountTotal b + 1, lastAccessTS := now\<rparr>"

section \<open>Metrics\<close>

definition approxSizeBytesLocked :: "scopeBuffer \<Rightarrow> int" where
  "approxSizeBytesLocked b =
     64 + int (length (items b)) * 32 + bytes b + gm_len (byID b) * 32 + idKeyBytes b + gm_len (bySeq b) * 16"

record scopeStats =
  ss_ItemCount :: int
  ss_LastSeq :: u64
  ss_ApproxScopeMB :: int
  ss_CreatedTS :: int
  ss_LastWriteTS :: int
  ss_LastAccessTS :: int
  ss_ReadCountTotal :: u64

definition buf_stats :: "scopeBuffer \<Rightarrow> scopeStats" where
  "buf_stats b =
     \<lparr>ss_ItemCount = int (length (items b)), ss_LastSeq = lastSeq b,
      ss_ApproxScopeMB = approxSizeBytesLocked b, ss_CreatedTS = createdTS b,
      ss_LastWriteTS = bLastWriteTS b, ss_LastAccessTS = lastAccessTS b,
      ss_ReadCountTotal = readCountTotal b\<rparr>"

section \<open>What the reads return\<close>

lemma materialiseCountersInPlace_map: "materialiseCountersInPlace c its = map (materialiseCounter c) its"
  by (simp add: materialiseCountersInPlace_def materialiseCounter_def)

lemma materialiseCounter_fields [simp]:
  "Scope (materialiseCounter c it) = Scope it" "ID (materialiseCounter c it) = ID it"
  "Seq (materialiseCounter c it) = Seq it" "counter (materialiseCounter c it) = counter it"
  by (simp_all add: materialiseCounter_def split: option.splits)

text \<open>The tail window is the newest-first list, cut at the offset and the limit, oldest first again.\<close>

lemma tailOffset_window:
  assumes "0 < limit" "0 \<le> offset"
  shows "tailOffset limit offset c b =
    (map (materialiseCounter c) (rev (take (nat limit) (drop (nat offset) (rev (items b))))),
     limit + offset < int (length (items b)))"
proof (cases "int (length (items b)) \<le> offset")
  case True
  then show ?thesis using assms by (simp add: tailOffset_def)
next
  case False
  define n where "n = length (items b)"
  define e where "e = n - nat offset"
  have e: "0 < e" "int n - offset = int e" "e \<le> n" using False assms by (auto simp: e_def n_def)
  have win: "rev (take (nat limit) (drop (nat offset) (rev (items b)))) = drop (e - nat limit) (take e (items b))"
    by (simp add: rev_take rev_drop e_def n_def)
  have run: "tailOffset limit offset c b =
      (map (materialiseCounter c) (drop (nat (if int e - limit < 0 then 0 else int e - limit)) (take e (items b))),
       0 < int e - limit)"
    using assms False e unfolding tailOffset_def materialiseCountersInPlace_map Let_def n_def [symmetric]
    by simp
  have "nat (if int e - limit < 0 then 0 else int e - limit) = e - nat limit" using assms(1) by auto
  moreover have "0 < int e - limit \<longleftrightarrow> limit + offset < int n" using e(2) by auto
  ultimately show ?thesis by (simp add: run win n_def)
qed

lemma tailOffset_guard: "limit \<le> 0 \<or> offset < 0 \<Longrightarrow> tailOffset limit offset c b = ([], False)"
  by (simp add: tailOffset_def)

text \<open>The head window is the first \<open>limit\<close> items past the cursor.\<close>

lemma sinceSeq_window:
  assumes "buf_inv b" "0 < limit"
  shows "sinceSeq after limit c b =
    (map (materialiseCounter c) (take (nat limit) (filter (\<lambda>y. after < Seq y) (items b))),
     limit < int (length (filter (\<lambda>y. after < Seq y) (items b))))"
proof -
  define idx where "idx = sort_Search (length (items b)) (\<lambda>i. after < Seq (items b ! i))"
  note cut = seq_cut [OF assms(1), of after, folded idx_def]
  have len: "length (filter (\<lambda>y. after < Seq y) (items b)) = length (items b) - idx"
    by (simp flip: cut(3))
  show ?thesis
    using assms(2) cut(1) len unfolding sinceSeq_def idx_def [symmetric] Let_def materialiseCountersInPlace_map cut(3) [symmetric]
    by (auto split: if_splits)
qed

lemma getByID_iff:
  assumes "buf_inv b"
  shows "getByID i c b = Some r \<longleftrightarrow> (\<exists>it \<in> set (items b). ID it = i \<and> i \<noteq> [] \<and> r = materialiseCounter c it)"
  using indexesD [OF buf_invD(5) [OF assms], of i] by (auto simp: getByID_def id_key_def split: if_splits)

lemma getBySeq_iff:
  assumes "buf_inv b"
  shows "getBySeq sq c b = Some r \<longleftrightarrow> (\<exists>it \<in> set (items b). Seq it = sq \<and> r = materialiseCounter c it)"
  using indexesD [OF buf_invD(4) [OF assms], of sq] by (auto simp: getBySeq_def seq_key_def)

section \<open>Paging with the cursor\<close>

text \<open>
  A client that reads pages until \<open>hasMore\<close> is false, each time from the last seq it saw; the fuel
  bounds the number of pages.
\<close>

fun read_pages :: "nat \<Rightarrow> u64 \<Rightarrow> int \<Rightarrow> core \<Rightarrow> scopeBuffer \<Rightarrow> Item list option" where
  "read_pages 0 after limit c b = None"
| "read_pages (Suc n) after limit c b =
     (case sinceSeq after limit c b of
        (page, False) \<Rightarrow> Some page
      | (page, True) \<Rightarrow> map_option ((@) page) (read_pages n (Seq (last page)) limit c b))"

lemma filter_after_last:
  assumes "sorted_wrt (<) (map Seq xs)" "0 < n" "n < length xs"
  shows "filter (\<lambda>y. Seq (last (take n xs)) < Seq y) xs = drop n xs"
proof -
  have l: "last (take n xs) = xs ! (n - 1)" using assms(2,3) by (subst last_conv_nth) auto
  have lt: "Seq (xs ! i) < Seq (xs ! j)" if "i < j" "j < length xs" for i j
    using sorted_wrt_nth_less [OF assms(1), of i j] that by simp
  have a: "\<forall>y \<in> set (take n xs). \<not> Seq (xs ! (n - 1)) < Seq y"
  proof
    fix y assume "y \<in> set (take n xs)"
    then obtain i where i: "i < n" "y = xs ! i" using assms(3) by (auto simp: in_set_conv_nth)
    from i(1) have "i < n - 1 \<or> i = n - 1" by linarith
    then have "Seq (xs ! i) \<le> Seq (xs ! (n - 1))"
      using lt [of i "n - 1"] assms(3) by (auto simp: less_imp_le)
    then show "\<not> Seq (xs ! (n - 1)) < Seq y" using i(2) by (simp add: not_less)
  qed
  have b: "\<forall>y \<in> set (drop n xs). Seq (xs ! (n - 1)) < Seq y"
  proof
    fix y assume "y \<in> set (drop n xs)"
    then obtain i where "i < length xs - n" "y = xs ! (n + i)" using assms(3) by (auto simp: in_set_conv_nth)
    then show "Seq (xs ! (n - 1)) < Seq y" using lt [of "n - 1" "n + i"] assms(2,3) by simp
  qed
  have "filter P xs = filter P (take n xs) @ filter P (drop n xs)" for P
    by (metis append_take_drop_id filter_append)
  then show ?thesis using a b l by (simp add: filter_id_conv filter_empty_conv)
qed

lemma read_pages_all:
  assumes inv: "buf_inv b" and limit: "0 < limit"
  shows "length (filter (\<lambda>y. after < Seq y) (items b)) < fuel \<Longrightarrow>
    read_pages fuel after limit c b = Some (map (materialiseCounter c) (filter (\<lambda>y. after < Seq y) (items b)))"
proof (induction fuel arbitrary: after)
  case (Suc n)
  let ?xs = "filter (\<lambda>y. after < Seq y) (items b)"
  note win = sinceSeq_window [OF inv limit, of after c]
  show ?case
  proof (cases "limit < int (length ?xs)")
    case False
    then show ?thesis using limit by (simp add: win)
  next
    case True
    let ?k = "nat limit"
    have k: "0 < ?k" "?k < length ?xs" using True limit by auto
    have srt: "sorted_wrt (<) (map Seq ?xs)"
      using buf_invD(1) [OF inv] by (simp add: sorted_wrt_map sorted_wrt_filter)
    let ?a = "Seq (last (take ?k ?xs))"
    have ne: "take ?k ?xs \<noteq> []" using k by auto
    have cur: "Seq (last (map (materialiseCounter c) (take ?k ?xs))) = ?a"
      using ne by (simp add: last_map)
    have "last (take ?k ?xs) \<in> set ?xs" using last_in_set [OF ne] by (rule in_set_takeD)
    then have "after < ?a" by simp
    then have "filter (\<lambda>y. ?a < Seq y) (items b) = filter (\<lambda>y. ?a < Seq y) ?xs"
      by (auto intro!: filter_cong)
    also have "\<dots> = drop ?k ?xs" by (rule filter_after_last [OF srt k])
    finally have rest: "filter (\<lambda>y. ?a < Seq y) (items b) = drop ?k ?xs" .
    have "length (drop ?k ?xs) < n" using Suc.prems k by simp
    with Suc.IH [of ?a] rest
    have "read_pages n ?a limit c b = Some (map (materialiseCounter c) (drop ?k ?xs))" by simp
    then show ?thesis using True cur by (simp add: win flip: map_append)
  qed
qed simp

section \<open>The size estimate\<close>

lemma gm_len_indexes:
  assumes "indexes key S m" "finite S" "inj_on key {x \<in> S. key x \<noteq> None}"
  shows "gm_len m = int (card {x \<in> S. key x \<noteq> None})"
proof -
  have "dom (gm_get m) = (the \<circ> key) ` {x \<in> S. key x \<noteq> None}"
    using indexesD [OF assms(1)] by (force simp: dom_def image_iff)
  moreover have "inj_on (the \<circ> key) {x \<in> S. key x \<noteq> None}"
    using assms(3) by (force simp: inj_on_def)
  ultimately show ?thesis by (simp only: gm_len_dom card_image)
qed

text \<open>
  The constant-time estimate equals the walk over the items it replaces: 64 for the buffer, the charged
  size and one slot of each structure per item, and the id key of an item that has one.
\<close>

definition item_footprint :: "Item \<Rightarrow> int" where
  "item_footprint it = 32 + approxItemSize it + 16 + (if ID it \<noteq> [] then 32 + int (length (ID it)) else 0)"

lemma card_filter_distinct: "distinct xs \<Longrightarrow> card {x \<in> set xs. P x} = length (filter P xs)"
  by (metis distinct_card distinct_filter set_filter)

lemma approxSizeBytes_exact:
  assumes "buf_inv b"
  shows "approxSizeBytesLocked b = 64 + sum_list (map item_footprint (items b)) + (idKeyBytes b - id_bytes (items b))"
proof -
  have seqs: "gm_len (bySeq b) = int (length (items b))"
    using gm_len_indexes [OF buf_invD(4) [OF assms]] buf_inv_seq_inj [OF assms]
      distinct_card [OF buf_inv_distinct [OF assms]]
    by (simp add: seq_key_def inj_on_def)
  have inj: "inj_on id_key {x \<in> set (items b). id_key x \<noteq> None}"
    using indexes_unique [OF buf_invD(5) [OF assms]] by (fastforce simp: inj_on_def)
  have ids: "gm_len (byID b) = int (length (filter (\<lambda>x. id_key x \<noteq> None) (items b)))"
    using gm_len_indexes [OF buf_invD(5) [OF assms] _ inj]
    by (simp add: card_filter_distinct [OF buf_inv_distinct [OF assms]])
  have "sum_list (map item_footprint xs) = int (length xs) * 48 + total_size xs + id_bytes xs +
      int (length (filter (\<lambda>x. id_key x \<noteq> None) xs)) * 32" for xs
    by (induction xs) (auto simp: item_footprint_def id_key_def)
  then show ?thesis using buf_invD(6) [OF assms]
    by (simp add: approxSizeBytesLocked_def seqs ids)
qed

lemma approxSizeBytes_walk:
  "buf_inv b \<Longrightarrow> id_acct b \<Longrightarrow> approxSizeBytesLocked b = 64 + sum_list (map item_footprint (items b))"
  by (simp add: approxSizeBytes_exact id_acct_def)

end
