(* ===== verification/BufferCounter.thy ===== *)
theory BufferCounter
  imports BufferOps BufferRead
begin

text \<open>
  \<open>buffer_counter.go\<close>: \<open>counterAdd\<close> with its fast and slow paths. The cells live in the core's
  list and a counter item holds an index into it. \<open>counter_value\<close> is the abstract integer a client
  sees at an id; the operation refines addition on it.
\<close>

section \<open>Operations\<close>

definition atomicCounterAdd :: "int \<Rightarrow> int \<Rightarrow> counterCell \<Rightarrow> int res \<times> counterCell" where
  \<comment> \<open>with no other increment in between, both compare-and-swaps succeed at once\<close>
  "atomicCounterAdd nowUs by cell =
     (let cur = cell_value cell; next = wrap64 (cur + by) in
      if MaxCounterValue < next \<or> next < - MaxCounterValue then (Inl (CounterOverflowError cur by), cell)
      else (Inr next, cell\<lparr>cell_value := next, cell_ts := (if nowUs \<le> cell_ts cell then cell_ts cell else nowUs)\<rparr>))"

definition addToCell :: "int \<Rightarrow> int \<Rightarrow> nat \<Rightarrow> core \<Rightarrow> (int \<times> bool) res \<times> core" where
  "addToCell nowUs by a c =
     (case atomicCounterAdd nowUs by (cells c ! a) of
        (Inl e, cell) \<Rightarrow> (Inl e, c)
      | (Inr v, cell) \<Rightarrow> (Inr (v, False), c\<lparr>cells := (cells c)[a := cell]\<rparr>))"

definition parseCounterValue :: "raw \<Rightarrow> counter_reason + int" where
  "parseCounterValue payload =
     (case unmarshal_Number (raw_bytes payload) of
        None \<Rightarrow> Inl NotJSONNumber
      | Some num \<Rightarrow>
          (case parse_int64 num of
             None \<Rightarrow> Inl NotInteger
           | Some v \<Rightarrow> if MaxCounterValue < v \<or> v < - MaxCounterValue then Inl OutOfCounterRange else Inr v))"

definition newCell :: "int \<Rightarrow> int \<Rightarrow> core \<Rightarrow> nat \<times> core" where
  \<comment> \<open>allocate a cell holding the value and the timestamp; a failed reservation leaves it to the collector\<close>
  "newCell v ts c = (length (cells c), c\<lparr>cells := cells c @ [\<lparr>cell_value = v, cell_ts = ts\<rparr>]\<rparr>)"

definition promoteLocked :: "int \<Rightarrow> Item \<Rightarrow> bytestr \<Rightarrow> int \<Rightarrow> (int \<times> bool) bufop" where
  "promoteLocked nowUs existing i by c b =
     (case parseCounterValue (Payload existing) of
        Inl r \<Rightarrow> (Inl (CounterPayloadError r), c, b)
      | Inr current \<Rightarrow>
          (let newValue = wrap64 (current + by) in
           if MaxCounterValue < newValue \<or> newValue < - MaxCounterValue
           then (Inl (CounterOverflowError current by), c, b)
           else case indexBySeqLocked b (Seq existing) of
             None \<Rightarrow> (Inr (0, False), c, b)
           | Some j \<Rightarrow>
               (let oldSize = approxItemSize existing;
                    (a, c0) = newCell newValue nowUs c;
                    promoted = existing\<lparr>counter := Some a, Payload := None, renderBytes := None\<rparr>;
                    newSize = approxItemSize promoted
                in case reservePayloadDeltaLocked oldSize newSize c0 b of
                     (Some e, _, _) \<Rightarrow> (Inl e, c, b)
                   | (None, delta, c') \<Rightarrow>
                       (case overwriteLocked j promoted (Some i) delta b of
                          (Some p, b') \<Rightarrow> (Inl (GoPanic p), c', b')
                        | (None, b') \<Rightarrow> (Inr (newValue, False), c', b')))))"

definition createCounterLocked :: "int \<Rightarrow> bytestr \<Rightarrow> bytestr \<Rightarrow> int \<Rightarrow> (int \<times> bool) bufop" where
  "createCounterLocked nowUs scope i by c b =
     (if itemCapExceeded b (int (length (items b)) + 1)
      then (Inl (ScopeFullError (int (length (items b))) (maxItems b)), c, b)
      else
        (let (a, c0) = newCell by nowUs c;
             it = Item_zero\<lparr>Scope := scope, ID := i, Ts := nowUs, counter := Some a\<rparr>;
             sz = approxItemSize it
         in case reserveFor sz c0 b of
              (Some e, _) \<Rightarrow> (Inl e, c, b)
            | (None, c') \<Rightarrow>
                (let (_, b') = pushLocked it True sz b
                 in (Inr (by, True), (if attached b then add_totalItems 1 c' else c'), b'))))"

definition counterAddSlow :: "int \<Rightarrow> bytestr \<Rightarrow> bytestr \<Rightarrow> int \<Rightarrow> (int \<times> bool) bufop" where
  "counterAddSlow nowUs scope i by c b =
     (if detached b then (Inl ScopeDetachedError, c, b)
      else case gm_get (byID b) i of
        Some existing \<Rightarrow>
          (case counter existing of
             Some a \<Rightarrow> (case addToCell nowUs by a c of (r, c') \<Rightarrow> (r, c', b))
           | None \<Rightarrow> promoteLocked nowUs existing i by c b)
      | None \<Rightarrow> createCounterLocked nowUs scope i by c b)"

definition counterAdd :: "int \<Rightarrow> bytestr \<Rightarrow> bytestr \<Rightarrow> int \<Rightarrow> (int \<times> bool) bufop" where
  "counterAdd nowUs scope i by c b =
     (case (if \<not> detached b then (case gm_get (byID b) i of Some existing \<Rightarrow> counter existing | None \<Rightarrow> None)
            else None) of
        Some a \<Rightarrow> (case addToCell nowUs by a c of (r, c') \<Rightarrow> (r, c', b))
      | None \<Rightarrow> counterAddSlow nowUs scope i by c b)"

section \<open>Values\<close>

lemma parseCounterValue_bounds: "parseCounterValue p = Inr v \<Longrightarrow> \<bar>v\<bar> \<le> MaxCounterValue"
  by (auto simp: parseCounterValue_def split: option.splits if_splits)

lemma parseCounterValue_show:
  assumes "\<bar>v\<bar> \<le> MaxCounterValue"
  shows "parseCounterValue (Some (show_int v)) = Inr v"
proof -
  have "parse_int64 (show_int v) = Some v"
    using assms by (intro parse_show_int) (auto simp: MaxCounterValue_def MinInt64_def MaxInt64_def)
  then show ?thesis using assms by (auto simp: parseCounterValue_def unmarshal_Number_show_int)
qed

lemma counter_sum_wrap:
  assumes "\<bar>cur\<bar> \<le> MaxCounterValue" "\<bar>by\<bar> \<le> MaxCounterValue"
  shows "wrap64 (cur + by) = cur + by"
  using assms by (intro wrap64_id) (auto simp: MaxCounterValue_def MinInt64_def MaxInt64_def)

definition cell_added :: "int \<Rightarrow> int \<Rightarrow> counterCell \<Rightarrow> counterCell" where
  "cell_added nowUs by cell = cell\<lparr>cell_value := cell_value cell + by, cell_ts := max (cell_ts cell) nowUs\<rparr>"

lemma addToCell_eq:
  assumes "cells_ok c" "a < length (cells c)" "\<bar>by\<bar> \<le> MaxCounterValue"
  shows "addToCell nowUs by a c =
    (if \<bar>cell_value (cells c ! a) + by\<bar> \<le> MaxCounterValue
     then (Inr (cell_value (cells c ! a) + by, False), c\<lparr>cells := (cells c)[a := cell_added nowUs by (cells c ! a)]\<rparr>)
     else (Inl (CounterOverflowError (cell_value (cells c ! a)) by), c))"
proof -
  have "\<bar>cell_value (cells c ! a)\<bar> \<le> MaxCounterValue" using assms(1,2) by (simp add: cells_ok_def)
  then show ?thesis using counter_sum_wrap [OF _ assms(3)]
    by (auto simp: addToCell_def atomicCounterAdd_def Let_def cell_added_def max_def)
qed

text \<open>The integer a client sees at an id: the cell's value, or the payload read as a number.\<close>

datatype cview = Absent | NotACounter counter_reason | Value int

definition counter_value :: "core \<Rightarrow> scopeBuffer \<Rightarrow> bytestr \<Rightarrow> cview" where
  "counter_value c b i =
     (case gm_get (byID b) i of
        None \<Rightarrow> Absent
      | Some it \<Rightarrow>
          (case counter it of
             Some a \<Rightarrow> Value (cell_value (cells c ! a))
           | None \<Rightarrow> (case parseCounterValue (Payload it) of Inl r \<Rightarrow> NotACounter r | Inr v \<Rightarrow> Value v)))"

definition counter_admissible :: "bytestr \<Rightarrow> bytestr \<Rightarrow> int \<Rightarrow> core \<Rightarrow> bytestr \<Rightarrow> bool" where
  "counter_admissible scope i by c k \<longleftrightarrow>
     scope = k \<and> i \<noteq> [] \<and> \<bar>by\<bar> \<le> MaxCounterValue \<and>
     48 + int (length scope) + int (length i) + counterCellOverhead \<le> maxItemBytesFor c k"

lemma counter_value_bounded:
  assumes "ready c k b" "counter_value c b i = Value v"
  shows "\<bar>v\<bar> \<le> MaxCounterValue"
proof -
  obtain it where it: "gm_get (byID b) i = Some it" using assms(2) by (auto simp: counter_value_def split: option.splits)
  have ok: "item_ok c k it" using readyD(8) [OF assms(1) byID_hit(1) [OF readyD(5) [OF assms(1)] it]] .
  show ?thesis
  proof (cases "counter it")
    case None
    with assms(2) it show ?thesis
      by (auto simp: counter_value_def dest: parseCounterValue_bounds split: sum.splits)
  next
    case (Some a)
    with ok have "a < length (cells c)" by (simp add: item_ok_def)
    with assms(2) it Some readyD(4) [OF assms(1)] show ?thesis by (auto simp: counter_value_def cells_ok_def)
  qed
qed

section \<open>Steps\<close>

lemma byID_cong:
  assumes "buf_inv b" "buf_inv b'"
    and "\<And>it. ID it = j \<Longrightarrow> it \<in> set (items b) \<longleftrightarrow> it \<in> set (items b')"
  shows "gm_get (byID b') j = gm_get (byID b) j"
proof -
  have "gm_get (byID b') j = Some it \<longleftrightarrow> gm_get (byID b) j = Some it" for it
    using assms(3) [of it] indexesD [OF buf_invD(5) [OF assms(1)]] indexesD [OF buf_invD(5) [OF assms(2)]]
    by (auto simp: id_key_def split: if_splits)
  then show ?thesis by (metis not_None_eq)
qed

lemma cell_refs_inj:
  "distinct (cell_refs xs) \<Longrightarrow> x \<in> set xs \<Longrightarrow> y \<in> set xs \<Longrightarrow> counter x = Some a \<Longrightarrow> counter y = Some a \<Longrightarrow> x = y"
proof (induction xs)
  case (Cons z xs)
  have "a \<in> set (cell_refs xs)" if "w \<in> set xs" "counter w = Some a" for w
    using that unfolding cell_refs_set by blast
  with Cons show ?case by (cases "counter z") auto
qed simp

definition counter_post :: "int \<Rightarrow> bytestr \<Rightarrow> core \<Rightarrow> bytestr \<Rightarrow> scopeBuffer \<Rightarrow> int \<Rightarrow> core \<Rightarrow> scopeBuffer \<Rightarrow> bool" where
  \<comment> \<open>the value is installed at the id, every other id keeps its value, and no freshness stamp moves\<close>
  "counter_post by i c k b v c' b' \<longleftrightarrow>
     step_ok c k b c' b' \<and> counter_value c' b' i = Value v \<and>
     (\<forall>j. j \<noteq> i \<longrightarrow> counter_value c' b' j = counter_value c b j) \<and>
     lastWriteTS c' = lastWriteTS c \<and> bLastWriteTS b' = bLastWriteTS b"

lemma hit_post:
  fixes now :: int
  assumes rdy: "ready c k b" and bnd: "\<bar>by\<bar> \<le> MaxCounterValue"
    and x: "gm_get (byID b) i = Some x" "counter x = Some a"
    and v: "v = cell_value (cells c ! a) + by" "\<bar>v\<bar> \<le> MaxCounterValue"
  defines "c' \<equiv> c\<lparr>cells := (cells c)[a := cell_added now by (cells c ! a)]\<rparr>"
  shows "counter_post by i c k b v c' b"
proof -
  note h = byID_hit [OF readyD(5) [OF rdy] x(1)]
  have a: "a < length (cells c)" using readyD(8) [OF rdy h(1)] x(2) by (simp add: item_ok_def)
  have val: "cell_value (cell_added now by (cells c ! a)) = v" by (simp add: cell_added_def v(1))
  have cells: "cells_ok c'"
    using readyD(4) [OF rdy] v(2) val set_update_subset_insert [of "cells c" a "cell_added now by (cells c ! a)"]
    by (auto simp: c'_def cells_ok_def)
  have "step_ok c k b c' b"
    by (rule core_moveI [OF rdy readyD(5) [OF rdy], where d = 0])
      (use cells readyD(3) [OF rdy] in \<open>auto simp: c'_def within_cap_def\<close>)
  moreover have "counter_value c' b i = Value v" using x a val by (simp add: counter_value_def c'_def)
  moreover have "counter_value c' b j = counter_value c b j" if "j \<noteq> i" for j
  proof (cases "gm_get (byID b) j")
    case (Some y)
    note hy = byID_hit [OF readyD(5) [OF rdy] Some]
    have "counter y \<noteq> Some a"
      using cell_refs_inj [OF buf_invD(7) [OF readyD(5) [OF rdy]] h(1) hy(1) x(2)] h(2) hy(2) that by auto
    then show ?thesis using Some by (auto simp: counter_value_def c'_def split: option.splits)
  qed (simp add: counter_value_def)
  ultimately show ?thesis by (simp add: counter_post_def c'_def)
qed

lemma fresh_cell_value:
  assumes "ready c k b" "cells c' = cells c @ [cell]" "gm_get (byID b') j = gm_get (byID b) j"
  shows "counter_value c' b' j = counter_value c b j"
proof (cases "gm_get (byID b) j")
  case None
  then show ?thesis using assms(3) by (simp add: counter_value_def)
next
  case (Some y)
  have ok: "item_ok c k y" using readyD(8) [OF assms(1) byID_hit(1) [OF readyD(5) [OF assms(1)] Some]] .
  show ?thesis using Some assms(2,3) ok
    by (cases "counter y") (auto simp: counter_value_def item_ok_def nth_append)
qed

lemma ready_newCell:
  assumes "ready c k b" "\<bar>v\<bar> \<le> MaxCounterValue"
  shows "ready (snd (newCell v ts c)) k b"
proof -
  let ?c = "snd (newCell v ts c)"
  have f: "core_config ?c = core_config c" "length (cells c) \<le> length (cells ?c)" "totalBytes ?c = totalBytes c"
    "within_cap ?c = within_cap c"
    by (simp_all add: newCell_def)
  have "cells_ok ?c" using readyD(4) [OF assms(1)] assms(2) by (auto simp: newCell_def cells_ok_def)
  with assms(1) f buf_ok_mono [OF _ f(1,2)] show ?thesis by (simp add: ready_def)
qed

text \<open>Both remaining steps start from the core with the new cell and end in a state of the old core.\<close>

lemma promote_post:
  fixes now :: int
  assumes rdy: "ready c k b" and adm: "counter_admissible k i by c k"
    and x: "gm_get (byID b) i = Some x" "counter x = None" and v: "\<bar>v\<bar> \<le> MaxCounterValue"
    and j: "indexBySeqLocked b (Seq x) = Some j"
  defines "p \<equiv> x\<lparr>counter := Some (length (cells c)), Payload := None, renderBytes := None\<rparr>"
  defines "delta \<equiv> approxItemSize p - approxItemSize x"
  assumes fits: "totalBytes c + delta \<le> maxStoreBytes c"
  shows "\<exists>b'. overwriteLocked j p (Some i) delta b = (None, b') \<and>
     counter_post by i c k b v
       (c\<lparr>cells := cells c @ [\<lparr>cell_value = v, cell_ts = now\<rparr>], totalBytes := totalBytes c + delta\<rparr>) b'"
proof -
  let ?c = "c\<lparr>cells := cells c @ [\<lparr>cell_value = v, cell_ts = now\<rparr>], totalBytes := totalBytes c + delta\<rparr>"
  have inv: "buf_inv b" using readyD(5) [OF rdy] .
  note h = byID_hit [OF inv x(1)]
  have okx: "item_ok c k x" using readyD(8) [OF rdy h(1)] .
  have jx: "j < length (items b)" "items b ! j = x"
    using j indexBySeqLocked_Some [OF inv] buf_inv_seq_inj [OF inv] h(1) by auto
  have pf: "Seq p = Seq x" "ID p = ID x" "counter p = Some (length (cells c))" by (simp_all add: p_def)
  have fresh: "\<And>a. counter p = Some a \<Longrightarrow> a \<notin> set (cell_refs (items b))"
  proof
    fix a assume a: "counter p = Some a" "a \<in> set (cell_refs (items b))"
    then obtain y where "y \<in> set (items b)" "counter y = Some a" unfolding cell_refs_set by blast
    with readyD(8) [OF rdy this(1)] have "a < length (cells c)" by (simp add: item_ok_def)
    with a(1) pf(3) show False by simp
  qed
  have key: "Some i = id_key p" using h(2,3) pf(2) by (simp add: id_key_def)
  have d: "delta = approxItemSize p - approxItemSize (items b ! j)" by (simp add: delta_def jx)
  obtain b1 where b1: "overwriteLocked j p (Some i) delta b = (None, b1)" "buf_inv b1"
    "b1 = b\<lparr>items := (items b)[j := p], bySeq := bySeq b1, byID := byID b1, bytes := bytes b + delta\<rparr>"
    using overwriteLocked_ok [OF inv jx(1) _ _ key d fresh] pf jx(2) by auto
  have f: "items b1 = (items b)[j := p]" "bytes b1 = bytes b + delta" "attached b1 = attached b"
    "detached b1 = detached b" "maxItems b1 = maxItems b" "createdTS b1 = createdTS b" "lastSeq b1 = lastSeq b"
    "bLastWriteTS b1 = bLastWriteTS b" "idKeyBytes b1 = idKeyBytes b"
    by (subst b1(3), simp)+
  have acct: "id_acct b \<longrightarrow> id_acct b1"
    using jx pf(2) by (simp add: id_acct_def f id_bytes_update)
  have mx: "maxItemBytesFor ?c k = maxItemBytesFor c k" by (rule maxItemBytesFor_cong) (simp add: core_config_def)
  have okp: "item_ok ?c k p"
    using okx adm h(2,3) mx
    by (simp add: item_ok_def p_def approxItemSize_def Let_def counter_admissible_def)
  have "approxItemSize x \<le> bytes b" using buf_invD(6) [OF inv] total_size_mem [OF h(1)] by simp
  then have nonneg: "0 \<le> totalBytes c + delta" using readyD(6) [OF rdy] approxItemSize_pos(2) [of p]
    unfolding delta_def by linarith
  have set: "set (items b1) = insert p (set (items b) - {x})"
    using set_update_distinct [OF buf_inv_distinct [OF inv] jx(1), of p] jx(2) f(1) by simp
  have cells: "cells_ok ?c" using readyD(4) [OF rdy] v by (auto simp: cells_ok_def)
  have mem: "\<forall>y \<in> set (items b1). y \<in> set (items b) \<or>
      item_ok ?c k y \<and> (\<forall>a. counter y = Some a \<longrightarrow> length (cells c) \<le> a)"
    using okp pf(3) by (auto simp: set)
  have len: "length (items b1) = length (items b)" by (simp add: f(1))
  have "step_ok c k b ?c b1"
    by (rule core_moveI [OF rdy b1(2), where d = delta])
      (use f(2-8) len mem acct nonneg fits cells in \<open>simp_all add: core_config_def\<close>)
  moreover have "gm_get (byID b1) i = Some p"
    using indexesD [OF buf_invD(5) [OF b1(2)]] set key by simp
  then have "counter_value ?c b1 i = Value v" using pf(3) by (simp add: counter_value_def)
  moreover have "counter_value ?c b1 l = counter_value c b l" if "l \<noteq> i" for l
    by (rule fresh_cell_value [OF rdy]) (simp, rule byID_cong [OF inv b1(2)], use that set h(2) pf(2) in auto)
  ultimately show ?thesis using b1(1) f(8) by (auto simp: counter_post_def)
qed

lemma create_post:
  fixes now :: int
  assumes rdy: "ready c k b" and adm: "counter_admissible k i by c k"
    and miss: "gm_get (byID b) i = None" and cap: "\<not> itemCapExceeded b (int (length (items b)) + 1)"
  defines "it \<equiv> Item_zero\<lparr>Scope := k, ID := i, Ts := now, counter := Some (length (cells c))\<rparr>"
  defines "sz \<equiv> approxItemSize it"
  assumes fits: "totalBytes c + sz \<le> maxStoreBytes c"
  shows "counter_post by i c k b by
     (add_totalItems 1 (c\<lparr>cells := cells c @ [\<lparr>cell_value = by, cell_ts = now\<rparr>], totalBytes := totalBytes c + sz\<rparr>))
     (snd (pushLocked it True sz b))"
proof -
  let ?c = "add_totalItems 1 (c\<lparr>cells := cells c @ [\<lparr>cell_value = by, cell_ts = now\<rparr>], totalBytes := totalBytes c + sz\<rparr>)"
  let ?b = "snd (pushLocked it True sz b)" let ?it = "it\<lparr>Seq := lastSeq b + 1\<rparr>"
  have inv: "buf_inv b" using readyD(5) [OF rdy] .
  have i: "i \<noteq> []" "\<bar>by\<bar> \<le> MaxCounterValue" using adm by (simp_all add: counter_admissible_def)
  have itf: "ID it = i" "counter it = Some (length (cells c))" "Scope it = k" "Payload it = None" "renderBytes it = None"
    by (simp_all add: it_def Item_zero_def)
  have fresh: "\<And>a. counter it = Some a \<Longrightarrow> a \<notin> set (cell_refs (items b))"
  proof
    fix a assume a: "counter it = Some a" "a \<in> set (cell_refs (items b))"
    then obtain y where "y \<in> set (items b)" "counter y = Some a" unfolding cell_refs_set by blast
    with readyD(8) [OF rdy this(1)] have "a < length (cells c)" by (simp add: item_ok_def)
    with a(1) itf(2) show False by simp
  qed
  have invb: "buf_inv ?b"
    using miss i by (intro pushLocked_inv inv readyD(7) [OF rdy] cap fresh) (simp_all add: itf sz_def)
  note f = pushLocked_fields [of it True sz b]
  have mx: "maxItemBytesFor ?c k = maxItemBytesFor c k" by (rule maxItemBytesFor_cong) (simp add: core_config_def add_totalItems_def)
  have okit: "item_ok ?c k ?it"
    using adm i mx by (simp add: item_ok_def itf approxItemSize_def Let_def counter_admissible_def)
  have cells: "cells_ok ?c" using readyD(4) [OF rdy] i by (auto simp: cells_ok_def)
  have tot: "0 \<le> totalBytes c" using readyD(3) [OF rdy] by (simp add: within_cap_def)
  have "step_ok c k b ?c ?b"
    by (rule core_moveI [OF rdy invb, where d = sz])
      (use f tot fits cells okit itf(2) pushLocked_id_acct [of b True it sz] i(1) itf(1) word_less_Suc [OF readyD(7) [OF rdy]] in
        \<open>auto simp: core_config_def add_totalItems_def sz_def\<close>)
  moreover have "gm_get (byID ?b) i = Some ?it"
    using indexesD [OF buf_invD(5) [OF invb]] i by (simp add: f id_key_def itf)
  then have "counter_value ?c ?b i = Value by" using itf(2) by (simp add: counter_value_def)
  moreover have "counter_value ?c ?b l = counter_value c b l" if "l \<noteq> i" for l
    by (rule fresh_cell_value [OF rdy]) (simp, rule byID_cong [OF inv invb], use that f itf in auto)
  moreover have "bLastWriteTS ?b = bLastWriteTS b" by (simp add: pushLocked_def Let_def)
  ultimately show ?thesis by (simp add: counter_post_def)
qed

section \<open>The operation refines addition\<close>

definition counter_ok :: "int \<Rightarrow> bytestr \<Rightarrow> core \<Rightarrow> bytestr \<Rightarrow> scopeBuffer \<Rightarrow> (int \<times> bool) res \<times> core \<times> scopeBuffer \<Rightarrow> bool" where
  \<comment> \<open>what a client may conclude from each outcome, in terms of the value it could read before\<close>
  "counter_ok by i c k b out \<longleftrightarrow>
     (case out of
        (Inr (v, created), c', b') \<Rightarrow>
          \<bar>v\<bar> \<le> MaxCounterValue \<and> counter_post by i c k b v c' b' \<and>
          (case counter_value c b i of
             Absent \<Rightarrow> created \<and> v = by
           | Value old \<Rightarrow> \<not> created \<and> v = old + by
           | NotACounter _ \<Rightarrow> False)
      | (Inl e, c', b') \<Rightarrow>
          c' = c \<and> b' = b \<and>
          (case e of
             CounterOverflowError cur d \<Rightarrow> counter_value c b i = Value cur \<and> d = by \<and> MaxCounterValue < \<bar>cur + by\<bar>
           | CounterPayloadError r \<Rightarrow> counter_value c b i = NotACounter r
           | ScopeFullError n cap \<Rightarrow> counter_value c b i = Absent \<and> n = cap \<and> 0 < cap
           | StoreFullError used d cap \<Rightarrow> used = totalBytes c \<and> cap = maxStoreBytes c \<and> cap < used + d
           | _ \<Rightarrow> False))"

lemma counterAdd_hit_ok:
  assumes rdy: "ready c k b" and adm: "counter_admissible k i by c k"
    and x: "gm_get (byID b) i = Some x" "counter x = Some a"
  shows "counter_ok by i c k b (counterAdd now k i by c b)"
proof -
  note h = byID_hit [OF readyD(5) [OF rdy] x(1)]
  have a: "a < length (cells c)" using readyD(8) [OF rdy h(1)] x(2) by (simp add: item_ok_def)
  have bnd: "\<bar>by\<bar> \<le> MaxCounterValue" using adm by (simp add: counter_admissible_def)
  have run: "counterAdd now k i by c b = (case addToCell now by a c of (r, c') \<Rightarrow> (r, c', b))"
    using x readyD(2) [OF rdy] by (simp add: counterAdd_def)
  have val: "counter_value c b i = Value (cell_value (cells c ! a))" using x by (simp add: counter_value_def)
  show ?thesis
    using hit_post [OF rdy bnd x refl, of now] val
    by (auto simp: run addToCell_eq [OF readyD(4) [OF rdy] a bnd] counter_ok_def)
qed

lemma counterAdd_promote_ok:
  assumes rdy: "ready c k b" and adm: "counter_admissible k i by c k"
    and x: "gm_get (byID b) i = Some x" "counter x = None"
  shows "counter_ok by i c k b (counterAdd now k i by c b)"
proof -
  note h = byID_hit [OF readyD(5) [OF rdy] x(1)]
  obtain j where j: "indexBySeqLocked b (Seq x) = Some j"
    using index_of_member [OF readyD(5) [OF rdy] h(1)] by blast
  have bnd: "\<bar>by\<bar> \<le> MaxCounterValue" using adm by (simp add: counter_admissible_def)
  have run: "counterAdd now k i by c b = promoteLocked now x i by c b"
    using x readyD(2) [OF rdy] by (simp add: counterAdd_def counterAddSlow_def)
  show ?thesis
  proof (cases "parseCounterValue (Payload x)")
    case (Inl r)
    then show ?thesis using x by (simp add: run promoteLocked_def counter_ok_def counter_value_def)
  next
    case (Inr old)
    have val: "counter_value c b i = Value old" using x Inr by (simp add: counter_value_def)
    have sum: "wrap64 (old + by) = old + by" using counter_sum_wrap [OF parseCounterValue_bounds [OF Inr] bnd] .
    show ?thesis
    proof (cases "\<bar>old + by\<bar> \<le> MaxCounterValue")
      case False
      then have "MaxCounterValue < old + by \<or> old + by < - MaxCounterValue" by linarith
      then show ?thesis using Inr val False by (simp add: run promoteLocked_def sum counter_ok_def)
    next
      case True
      let ?p = "x\<lparr>counter := Some (length (cells c)), Payload := None, renderBytes := None\<rparr>"
      let ?d = "approxItemSize ?p - approxItemSize x"
      let ?c0 = "snd (newCell (old + by) now c)"
      have rdy0: "ready ?c0 k b" using ready_newCell [OF rdy True] .
      have "approxItemSize x \<le> bytes b" using buf_invD(6) [OF readyD(5) [OF rdy]] total_size_mem [OF h(1)] by simp
      then have "- bytes b \<le> ?d" using approxItemSize_pos(2) [of ?p] by linarith
      note res = reservePayloadDelta_ready [OF rdy0 this]
      have prm: "promoteLocked now x i by c b =
        (case reservePayloadDeltaLocked (approxItemSize x) (approxItemSize ?p) ?c0 b of
           (Some e, _, _) \<Rightarrow> (Inl e, c, b)
         | (None, delta, c') \<Rightarrow>
             (case overwriteLocked j ?p (Some i) delta b of
                (Some p, b') \<Rightarrow> (Inl (GoPanic p), c', b')
              | (None, b') \<Rightarrow> (Inr (old + by, False), c', b')))"
        using Inr True j by (simp add: promoteLocked_def sum newCell_def abs_le_iff Let_def)
      show ?thesis
      proof (cases "totalBytes c + ?d \<le> maxStoreBytes c")
        case False
        then have "totalBytes ?c0 + ?d > maxStoreBytes ?c0" by (simp add: newCell_def)
        then have "promoteLocked now x i by c b = (Inl (StoreFullError (totalBytes c) ?d (maxStoreBytes c)), c, b)"
          using prm res by (simp add: newCell_def)
        then show ?thesis using False run by (simp add: counter_ok_def)
      next
        case fits: True
        obtain b' where b': "overwriteLocked j ?p (Some i) ?d b = (None, b')"
          "counter_post by i c k b (old + by)
             (c\<lparr>cells := cells c @ [\<lparr>cell_value = old + by, cell_ts = now\<rparr>], totalBytes := totalBytes c + ?d\<rparr>) b'"
          using promote_post [OF rdy adm x True j fits, of now] by blast
        have "promoteLocked now x i by c b = (Inr (old + by, False),
            c\<lparr>cells := cells c @ [\<lparr>cell_value = old + by, cell_ts = now\<rparr>], totalBytes := totalBytes c + ?d\<rparr>, b')"
          using prm res fits b'(1) by (simp add: newCell_def)
        then show ?thesis using b'(2) run val True by (simp add: counter_ok_def)
      qed
    qed
  qed
qed

lemma counterAdd_create_ok:
  assumes rdy: "ready c k b" and adm: "counter_admissible k i by c k" and miss: "gm_get (byID b) i = None"
  shows "counter_ok by i c k b (counterAdd now k i by c b)"
proof -
  have run: "counterAdd now k i by c b = createCounterLocked now k i by c b"
    using miss readyD(2) [OF rdy] by (simp add: counterAdd_def counterAddSlow_def)
  have bnd: "\<bar>by\<bar> \<le> MaxCounterValue" using adm by (simp add: counter_admissible_def)
  have val: "counter_value c b i = Absent" using miss by (simp add: counter_value_def)
  show ?thesis
  proof (cases "itemCapExceeded b (int (length (items b)) + 1)")
    case True
    then show ?thesis using val buf_invD(9) [OF readyD(5) [OF rdy]]
      by (auto simp: run createCounterLocked_def counter_ok_def itemCapExceeded_def)
  next
    case False
    let ?it = "Item_zero\<lparr>Scope := k, ID := i, Ts := now, counter := Some (length (cells c))\<rparr>"
    let ?sz = "approxItemSize ?it"
    let ?c0 = "snd (newCell by now c)"
    have "0 \<le> bytes b" using buf_invD(6) [OF readyD(5) [OF rdy]] by simp
    then have "- bytes b \<le> ?sz" using approxItemSize_pos(2) [of ?it] by linarith
    note res = reserveFor_ready [OF ready_newCell [OF rdy bnd] this]
    have crt: "createCounterLocked now k i by c b =
      (case reserveFor ?sz ?c0 b of
         (Some e, _) \<Rightarrow> (Inl e, c, b)
       | (None, c') \<Rightarrow> (Inr (by, True), add_totalItems 1 c', snd (pushLocked ?it True ?sz b)))"
      using False readyD(1) [OF rdy]
      by (simp add: createCounterLocked_def newCell_def Let_def split: prod.splits option.splits)
    show ?thesis
    proof (cases "totalBytes c + ?sz \<le> maxStoreBytes c")
      case nofit: False
      then have "createCounterLocked now k i by c b = (Inl (StoreFullError (totalBytes c) ?sz (maxStoreBytes c)), c, b)"
        using crt res [of now] by (simp add: newCell_def)
      then show ?thesis using nofit run by (simp add: counter_ok_def)
    next
      case fits: True
      have "createCounterLocked now k i by c b = (Inr (by, True),
          add_totalItems 1 (c\<lparr>cells := cells c @ [\<lparr>cell_value = by, cell_ts = now\<rparr>], totalBytes := totalBytes c + ?sz\<rparr>),
          snd (pushLocked ?it True ?sz b))"
        using crt res [of now] fits by (simp add: newCell_def)
      then show ?thesis using create_post [OF rdy adm miss False fits] run val bnd by (simp add: counter_ok_def)
    qed
  qed
qed

lemma counterAdd_refines:
  assumes "ready c k b" "counter_admissible k i by c k"
  shows "counter_ok by i c k b (counterAdd now k i by c b)"
proof (cases "gm_get (byID b) i")
  case None
  with assms show ?thesis by (rule counterAdd_create_ok)
next
  case (Some x)
  with assms counterAdd_promote_ok [OF assms Some] counterAdd_hit_ok [OF assms Some] show ?thesis
    by (cases "counter x") auto
qed

interpretation counter_op: buffer_op "\<lambda>(now, scope, i, by). counterAdd now scope i by"
  "\<lambda>(now, scope, i, by). counter_admissible scope i by"
proof (unfold_locales, goal_cases)
  case (1 b p c)
  then show ?case by (simp add: counterAdd_def counterAddSlow_def split: prod.splits)
next
  case (2 c k b p e c' b')
  then have "counter_admissible k (fst (snd (snd p))) (snd (snd (snd p))) c k" "fst (snd p) = k"
    by (cases p; simp add: counter_admissible_def)+
  with counterAdd_refines [OF 2(1) this(1), of "fst p"] 2 show ?case by (cases p) (simp add: counter_ok_def)
next
  case (3 c k b p r c' b')
  then have "counter_admissible k (fst (snd (snd p))) (snd (snd (snd p))) c k" "fst (snd p) = k"
    by (cases p; simp add: counter_admissible_def)+
  with counterAdd_refines [OF 3(1) this(1), of "fst p"] 3 step_ok_refl [OF 3(1)] show ?case
    by (cases p; cases r)
      (auto simp: counter_ok_def counter_post_def not_panic_def split: gerr.splits)
qed

end
