(* ===== verification/Shards.thy ===== *)
theory Shards
  imports Types "HOL-Library.AList" "HOL-Library.Multiset"
begin

text \<open>
  The sharded scope directory of \<open>store.go\<close>: 32 maps from scope names to buffers, a scope's shard
  being the low bits of its seeded hash. A buffer pointer is an address (an index into the store's
  buffers), a shard map is an association list with distinct keys, and the hash of one run is the
  function \<open>dhash\<close>, about which nothing is assumed. The interface the store uses is the locale
  \<open>scope_dir\<close>: a finite map with an enumeration of its entries.
\<close>

section \<open>The directory\<close>

definition numShards :: nat where "numShards = 32"
definition shardMask :: "64 word" where "shardMask = 31"

record dir =
  dhash :: "bytestr \<Rightarrow> 64 word"
  dshards :: "(bytestr \<times> nat) list list"

definition shardIdxFor :: "dir \<Rightarrow> bytestr \<Rightarrow> nat" where
  "shardIdxFor d scope = unat (and (dhash d scope) shardMask)"

definition shardFor :: "dir \<Rightarrow> bytestr \<Rightarrow> (bytestr \<times> nat) list" where
  "shardFor d scope = dshards d ! shardIdxFor d scope"

definition dir_lookup :: "dir \<Rightarrow> bytestr \<Rightarrow> nat option" where
  "dir_lookup d scope = map_of (shardFor d scope) scope"

definition dir_insert :: "bytestr \<Rightarrow> nat \<Rightarrow> dir \<Rightarrow> dir" where
  "dir_insert scope a d =
     d\<lparr>dshards := (dshards d)[shardIdxFor d scope := AList.update scope a (shardFor d scope)]\<rparr>"

definition dir_delete :: "bytestr \<Rightarrow> dir \<Rightarrow> dir" where
  "dir_delete scope d =
     d\<lparr>dshards := (dshards d)[shardIdxFor d scope := AList.delete scope (shardFor d scope)]\<rparr>"

definition dir_clear :: "dir \<Rightarrow> dir" where
  "dir_clear d = d\<lparr>dshards := replicate numShards []\<rparr>"

definition dir_entries :: "dir \<Rightarrow> (bytestr \<times> nat) list" where
  "dir_entries d = concat (dshards d)"

definition shardsForScopes :: "dir \<Rightarrow> bytestr list \<Rightarrow> nat list" where
  \<comment> \<open>the indices of the shards the scopes fall in, ascending\<close>
  "shardsForScopes d scopes =
     filter (\<lambda>i. i \<in> set (map (shardIdxFor d) scopes)) [0..<numShards]"

definition dir_inv :: "dir \<Rightarrow> bool" where
  "dir_inv d \<longleftrightarrow> length (dshards d) = numShards \<and>
     (\<forall>i < numShards. distinct (map fst (dshards d ! i)) \<and>
        (\<forall>p \<in> set (dshards d ! i). shardIdxFor d (fst p) = i))"

lemma shardIdxFor_less: "shardIdxFor d k < numShards"
proof -
  have "unat (and (dhash d k) shardMask) \<le> unat shardMask"
    by (rule word_le_nat_alt [THEN iffD1]) (rule word_and_le1)
  then show ?thesis by (simp add: shardIdxFor_def numShards_def shardMask_def)
qed

lemma shardsForScopes_sorted: "sorted_wrt (<) (shardsForScopes d scopes)"
  by (simp add: shardsForScopes_def sorted_wrt_filter)

lemma shardsForScopes_set: "set (shardsForScopes d scopes) = shardIdxFor d ` set scopes"
  using shardIdxFor_less by (auto simp: shardsForScopes_def)

section \<open>The interface\<close>

locale scope_dir =
  fixes look :: "'d \<Rightarrow> 'k \<Rightarrow> nat option"
    and ins :: "'k \<Rightarrow> nat \<Rightarrow> 'd \<Rightarrow> 'd"
    and del :: "'k \<Rightarrow> 'd \<Rightarrow> 'd"
    and entries :: "'d \<Rightarrow> ('k \<times> nat) list"
    and ok :: "'d \<Rightarrow> bool"
  assumes look_iff: "ok d \<Longrightarrow> look d k = Some a \<longleftrightarrow> (k, a) \<in> set (entries d)"
    and ins_ok: "ok d \<Longrightarrow> look d k = None \<Longrightarrow> ok (ins k a d)"
    and ins_entries: "ok d \<Longrightarrow> look d k = None \<Longrightarrow> mset (entries (ins k a d)) = add_mset (k, a) (mset (entries d))"
    and del_ok: "ok d \<Longrightarrow> look d k = Some a \<Longrightarrow> ok (del k d)"
    and del_entries: "ok d \<Longrightarrow> look d k = Some a \<Longrightarrow> mset (entries d) = add_mset (k, a) (mset (entries (del k d)))"
    and keys_distinct: "ok d \<Longrightarrow> distinct (map fst (entries d))"
begin

lemma look_None: "ok d \<Longrightarrow> look d k = None \<longleftrightarrow> (\<forall>a. (k, a) \<notin> set (entries d))"
  using look_iff by (metis not_Some_eq)

lemma entries_ins: "ok d \<Longrightarrow> look d k = None \<Longrightarrow> set (entries (ins k a d)) = insert (k, a) (set (entries d))"
  using ins_entries by (metis set_mset_add_mset_insert set_mset_mset)

lemma entries_del:
  assumes "ok d" "look d k = Some a"
  shows "set (entries (del k d)) = set (entries d) - {(k, a)}"
proof -
  have m: "mset (entries d) = add_mset (k, a) (mset (entries (del k d)))" using del_entries [OF assms] .
  have "distinct (entries d)" using keys_distinct [OF assms(1)] by (simp add: distinct_map)
  moreover have "mset (entries d) = mset ((k, a) # entries (del k d))" using m by simp
  ultimately have "distinct ((k, a) # entries (del k d))" using mset_eq_imp_distinct_iff by blast
  then have "(k, a) \<notin> set (entries (del k d))" by simp
  moreover have "set (entries d) = insert (k, a) (set (entries (del k d)))"
    using m by (metis set_mset_add_mset_insert set_mset_mset)
  ultimately show ?thesis by blast
qed

lemma look_ins:
  assumes "ok d" "look d k = None"
  shows "look (ins k a d) j = (if j = k then Some a else look d j)"
proof -
  have e: "look (ins k a d) j = Some x \<longleftrightarrow> (j, x) = (k, a) \<or> look d j = Some x" for x
    using entries_ins [OF assms] by (simp add: look_iff [OF ins_ok [OF assms]] look_iff [OF assms(1)])
  show ?thesis
  proof (cases "j = k")
    case True
    then show ?thesis using e [of a] by simp
  next
    case False
    then have "look (ins k a d) j = Some x \<longleftrightarrow> look d j = Some x" for x using e [of x] by simp
    with False show ?thesis by (metis not_None_eq)
  qed
qed

lemma look_del:
  assumes "ok d" "look d k = Some a"
  shows "look (del k d) j = (if j = k then None else look d j)"
proof -
  have e: "look (del k d) j = Some x \<longleftrightarrow> look d j = Some x \<and> (j, x) \<noteq> (k, a)" for x
    using entries_del [OF assms] by (auto simp: look_iff [OF del_ok [OF assms]] look_iff [OF assms(1)])
  show ?thesis
  proof (cases "j = k")
    case True
    then have "\<nexists>x. look (del k d) j = Some x" using e assms(2) by simp
    with True show ?thesis by (metis not_None_eq)
  next
    case False
    then have "look (del k d) j = Some x \<longleftrightarrow> look d j = Some x" for x using e [of x] by simp
    with False show ?thesis by (metis not_None_eq)
  qed
qed

text \<open>Sums over the entries.\<close>

definition total :: "('k \<times> nat \<Rightarrow> int) \<Rightarrow> 'd \<Rightarrow> int" where
  "total f d = sum_list (map f (entries d))"

lemma total_mset: "mset (entries d') = add_mset p (mset (entries d)) \<Longrightarrow> total f d' = f p + total f d"
  unfolding total_def by (metis image_mset_add_mset mset_map sum_mset.add_mset sum_mset_sum_list)

lemma total_ins: "ok d \<Longrightarrow> look d k = None \<Longrightarrow> total f (ins k a d) = f (k, a) + total f d"
  using total_mset ins_entries by blast

lemma total_del: "ok d \<Longrightarrow> look d k = Some a \<Longrightarrow> total f (del k d) = total f d - f (k, a)"
  using total_mset [OF del_entries, of d k a f] by simp

lemma total_nonneg: "(\<And>p. p \<in> set (entries d) \<Longrightarrow> 0 \<le> f p) \<Longrightarrow> 0 \<le> total f d"
  unfolding total_def by (rule sum_list_nonneg) auto

lemma total_member:
  assumes "ok d" "look d k = Some a" "\<And>p. p \<in> set (entries d) \<Longrightarrow> 0 \<le> f p"
  shows "f (k, a) \<le> total f d"
proof -
  have "0 \<le> total f (del k d)"
    using entries_del [OF assms(1,2)] assms(3) by (intro total_nonneg) auto
  then show ?thesis using total_del [OF assms(1,2), of f] by simp
qed

lemma total_cong: "(\<And>p. p \<in> set (entries d) \<Longrightarrow> f p = g p) \<Longrightarrow> total f d = total g d"
  unfolding total_def by (metis map_cong)

lemma total_one:
  \<comment> \<open>two summands that differ at one entry\<close>
  assumes "ok d" "look d k = Some a" "\<And>p. p \<in> set (entries d) \<Longrightarrow> p \<noteq> (k, a) \<Longrightarrow> f p = g p"
  shows "total f d = total g d + (f (k, a) - g (k, a))"
proof -
  have "total f (del k d) = total g (del k d)"
    using entries_del [OF assms(1,2)] assms(3) by (intro total_cong) auto
  then show ?thesis using total_del [OF assms(1,2), of f] total_del [OF assms(1,2), of g] by simp
qed

end

section \<open>The shards implement it\<close>

lemma in_concat_nth:
  assumes "p \<in> set (concat xss)"
  obtains i where "i < length xss" "p \<in> set (xss ! i)"
proof -
  obtain ys where "ys \<in> set xss" "p \<in> set ys" using assms by auto
  with that show thesis by (metis in_set_conv_nth)
qed

lemma in_entries:
  assumes "dir_inv d"
  shows "(k, a) \<in> set (dir_entries d) \<longleftrightarrow> (k, a) \<in> set (shardFor d k)"
proof
  assume "(k, a) \<in> set (dir_entries d)"
  then obtain i where i: "i < numShards" "(k, a) \<in> set (dshards d ! i)"
    using assms in_concat_nth [of "(k, a)" "dshards d"] by (auto simp: dir_entries_def dir_inv_def)
  then have "shardIdxFor d k = i" using assms by (fastforce simp: dir_inv_def)
  with i show "(k, a) \<in> set (shardFor d k)" by (simp add: shardFor_def)
next
  assume "(k, a) \<in> set (shardFor d k)"
  moreover have "shardFor d k \<in> set (dshards d)"
    using shardIdxFor_less [of d k] assms by (simp add: shardFor_def dir_inv_def)
  ultimately show "(k, a) \<in> set (dir_entries d)" by (auto simp: dir_entries_def)
qed

lemma shard_distinct: "dir_inv d \<Longrightarrow> distinct (map fst (shardFor d k))"
  using shardIdxFor_less by (simp add: dir_inv_def shardFor_def)

lemma shardIdxFor_upd [simp]: "shardIdxFor (d\<lparr>dshards := ss\<rparr>) k = shardIdxFor d k"
  by (simp add: shardIdxFor_def)

lemma dir_inv_upd:
  assumes "dir_inv d" "distinct (map fst sh)" "\<forall>p \<in> set sh. shardIdxFor d (fst p) = shardIdxFor d k"
  shows "dir_inv (d\<lparr>dshards := (dshards d)[shardIdxFor d k := sh]\<rparr>)"
  using assms shardIdxFor_less [of d k] by (auto simp: dir_inv_def nth_list_update)

lemma shard_index: "dir_inv d \<Longrightarrow> p \<in> set (shardFor d k) \<Longrightarrow> shardIdxFor d (fst p) = shardIdxFor d k"
  using shardIdxFor_less by (simp add: dir_inv_def shardFor_def)

lemma mset_concat_upd:
  "i < length xss \<Longrightarrow> mset (concat (xss[i := ys])) + mset (xss ! i) = mset (concat xss) + mset ys"
proof (induction xss arbitrary: i)
  case (Cons xs xss)
  then show ?case by (cases i) (simp_all add: ac_simps)
qed simp

lemma mset_update_new: "k \<notin> fst ` set xs \<Longrightarrow> mset (AList.update k a xs) = add_mset (k, a) (mset xs)"
  by (induction xs) auto

lemma mset_delete:
  "distinct (map fst xs) \<Longrightarrow> (k, a) \<in> set xs \<Longrightarrow> mset xs = add_mset (k, a) (mset (AList.delete k xs))"
proof (induction xs)
  case (Cons p xs)
  show ?case
  proof (cases "fst p = k")
    case True
    with Cons.prems have "k \<notin> fst ` set xs" "p = (k, a)" by (auto simp: image_iff)
    then show ?thesis by (simp add: delete_simps delete_idem)
  next
    case False
    with Cons show ?thesis by (auto simp: delete_simps)
  qed
qed simp

lemma distinct_concat_keys:
  assumes "dir_inv d"
  shows "distinct (map fst (dir_entries d))"
proof -
  have "distinct (map fst (concat xss))"
    if "\<forall>i < length xss. distinct (map fst (xss ! i)) \<and> (\<forall>p \<in> set (xss ! i). h (fst p) = g i)" "inj_on g {..<length xss}"
    for xss :: "('k \<times> nat) list list" and h :: "'k \<Rightarrow> nat" and g
    using that
  proof (induction xss arbitrary: g)
    case (Cons xs xss)
    have "distinct (map fst (concat xss))"
    proof (rule Cons.IH [of "\<lambda>i. g (Suc i)"])
      show "\<forall>i < length xss. distinct (map fst (xss ! i)) \<and> (\<forall>p \<in> set (xss ! i). h (fst p) = g (Suc i))"
        using Cons.prems(1) by fastforce
      show "inj_on (\<lambda>i. g (Suc i)) {..<length xss}" using Cons.prems(2) by (auto simp: inj_on_def)
    qed
    moreover have "distinct (map fst xs)" "\<forall>p \<in> set xs. h (fst p) = g 0" using Cons.prems(1) by fastforce+
    moreover have "h (fst p) \<noteq> g 0" if p: "p \<in> set (concat xss)" for p
    proof -
      obtain i where i: "i < length xss" "p \<in> set (xss ! i)" using in_concat_nth [OF p] .
      then have "h (fst p) = g (Suc i)" using Cons.prems(1) by fastforce
      then show ?thesis using Cons.prems(2) i(1) by (auto simp: inj_on_def)
    qed
    ultimately show ?case by fastforce
  qed simp
  from this [of "dshards d" "shardIdxFor d" "\<lambda>i. i"] assms show ?thesis
    by (simp add: dir_entries_def dir_inv_def)
qed

lemma dir_lookup_iff: "dir_inv d \<Longrightarrow> dir_lookup d k = Some a \<longleftrightarrow> (k, a) \<in> set (dir_entries d)"
  using in_entries [of d k a] shard_distinct [of d k] by (simp add: dir_lookup_def)

interpretation sdir: scope_dir dir_lookup dir_insert dir_delete dir_entries dir_inv
proof (unfold_locales, goal_cases)
  case (1 d k a)
  then show ?case by (rule dir_lookup_iff)
next
  case (2 d k a)
  have "k \<notin> fst ` set (shardFor d k)" using 2(2) by (simp add: dir_lookup_def map_of_eq_None_iff)
  then have "set (AList.update k a (shardFor d k)) = insert (k, a) (set (shardFor d k))"
    using mset_update_new [of k "shardFor d k" a] by (metis set_mset_add_mset_insert set_mset_mset)
  then show ?case unfolding dir_insert_def
    using 2 shard_distinct [OF 2(1), of k] shard_index [OF 2(1)]
    by (intro dir_inv_upd) (auto intro: distinct_update)
next
  case (3 d k a)
  have "k \<notin> fst ` set (shardFor d k)" using 3(2) by (simp add: dir_lookup_def map_of_eq_None_iff)
  then have "mset (AList.update k a (shardFor d k)) = add_mset (k, a) (mset (shardFor d k))" by (rule mset_update_new)
  moreover have "shardIdxFor d k < length (dshards d)" using 3(1) shardIdxFor_less by (simp add: dir_inv_def)
  ultimately show ?case
    using mset_concat_upd [of "shardIdxFor d k" "dshards d" "AList.update k a (shardFor d k)"]
    by (simp add: dir_insert_def dir_entries_def shardFor_def)
next
  case (4 d k a)
  have "set (AList.delete k (shardFor d k)) \<subseteq> set (shardFor d k)" by (auto simp: AList.delete_eq)
  then show ?case unfolding dir_delete_def
    using 4 shard_distinct [OF 4(1), of k] shard_index [OF 4(1)]
    by (intro dir_inv_upd) (auto intro: distinct_delete)
next
  case (5 d k a)
  have "(k, a) \<in> set (shardFor d k)" using 5 in_entries dir_lookup_iff by blast
  then have "mset (shardFor d k) = add_mset (k, a) (mset (AList.delete k (shardFor d k)))"
    using shard_distinct [OF 5(1)] by (intro mset_delete)
  moreover have "shardIdxFor d k < length (dshards d)" using 5(1) shardIdxFor_less by (simp add: dir_inv_def)
  ultimately show ?case
    using mset_concat_upd [of "shardIdxFor d k" "dshards d" "AList.delete k (shardFor d k)"]
    by (simp add: dir_delete_def dir_entries_def shardFor_def)
next
  case (6 d)
  then show ?case by (rule distinct_concat_keys)
qed

lemma dir_clear_inv [simp]: "dir_inv (dir_clear d)" "dir_entries (dir_clear d) = []"
  by (simp_all add: dir_inv_def dir_clear_def dir_entries_def numShards_def)

lemma dir_clear_lookup [simp]: "dir_lookup (dir_clear d) k = None"
  using sdir.look_None [of "dir_clear d" k] by simp

end
