(* ===== verification/Subscribe.thy ===== *)
theory Subscribe
  imports Types
begin

text \<open>
  \<open>subscribe.go\<close>: the wake-up channels on the reserved scopes. A channel of capacity one is a slot
  and a closed flag in the hub's list of channels; the subscriber map holds indices into it. Sending on
  a closed channel and closing one twice panic in Go, and do here; the invariant rules both out.
\<close>

record chan =
  ch_full :: bool
  ch_closed :: bool

record hub =
  subscribers :: "(bytestr \<times> nat) list"
  chans :: "chan list"

definition sub_at :: "hub \<Rightarrow> bytestr \<Rightarrow> nat option" where
  "sub_at h scope = map_of (subscribers h) scope"

definition close_chan :: "nat \<Rightarrow> hub \<Rightarrow> panic option \<times> hub" where
  "close_chan i h =
     (if ch_closed (chans h ! i) then (Some CloseOfClosedChannel, h)
      else (None, h\<lparr>chans := (chans h)[i := (chans h ! i)\<lparr>ch_closed := True\<rparr>]\<rparr>))"

definition try_send :: "nat \<Rightarrow> hub \<Rightarrow> panic option \<times> hub" where
  \<comment> \<open>\<open>select\<close> with a default branch: a full slot drops the send\<close>
  "try_send i h =
     (if ch_closed (chans h ! i) then (Some SendOnClosedChannel, h)
      else if ch_full (chans h ! i) then (None, h)
      else (None, h\<lparr>chans := (chans h)[i := (chans h ! i)\<lparr>ch_full := True\<rparr>]\<rparr>))"

definition Subscribe :: "bytestr \<Rightarrow> hub \<Rightarrow> nat res \<times> hub" where
  \<comment> \<open>the result is the channel; the second result of the Go function is \<open>unsubscribe scope\<close>\<close>
  "Subscribe scope h =
     (if \<not> isReservedScope scope then (Inl ErrInvalidSubscribeScope, h)
      else if sub_at h scope \<noteq> None then (Inl ErrAlreadySubscribed, h)
      else (Inr (length (chans h)),
            h\<lparr>subscribers := (scope, length (chans h)) # subscribers h,
              chans := chans h @ [\<lparr>ch_full = False, ch_closed = False\<rparr>]\<rparr>))"

definition unsubscribe :: "bytestr \<Rightarrow> hub \<Rightarrow> panic option \<times> hub" where
  "unsubscribe scope h =
     (case sub_at h scope of
        None \<Rightarrow> (None, h)
      | Some i \<Rightarrow> close_chan i (h\<lparr>subscribers := filter (\<lambda>p. fst p \<noteq> scope) (subscribers h)\<rparr>))"

definition notifySubscriber :: "bytestr \<Rightarrow> hub \<Rightarrow> panic option \<times> hub" where
  "notifySubscriber scope h =
     (case sub_at h scope of None \<Rightarrow> (None, h) | Some i \<Rightarrow> try_send i h)"

datatype recv = Wake | LoopExit | Block

definition receive :: "nat \<Rightarrow> hub \<Rightarrow> recv \<times> hub" where
  \<comment> \<open>one step of the subscriber's \<open>for range ch\<close>\<close>
  "receive i h =
     (if ch_full (chans h ! i) then (Wake, h\<lparr>chans := (chans h)[i := (chans h ! i)\<lparr>ch_full := False\<rparr>]\<rparr>)
      else if ch_closed (chans h ! i) then (LoopExit, h) else (Block, h))"

section \<open>Channels are open as long as they are reachable\<close>

definition hub_inv :: "hub \<Rightarrow> bool" where
  "hub_inv h \<longleftrightarrow> distinct (map fst (subscribers h)) \<and> distinct (map snd (subscribers h)) \<and>
     (\<forall>p \<in> set (subscribers h). isReservedScope (fst p) \<and> snd p < length (chans h) \<and>
        \<not> ch_closed (chans h ! snd p))"

definition hub_empty :: hub where
  "hub_empty = \<lparr>subscribers = [], chans = []\<rparr>"

lemma hub_empty_inv [simp]: "hub_inv hub_empty"
  by (simp add: hub_inv_def hub_empty_def)

lemma sub_at_mem: "sub_at h k = Some i \<Longrightarrow> (k, i) \<in> set (subscribers h)"
  by (simp add: sub_at_def map_of_SomeD)

lemma sub_at_open: "hub_inv h \<Longrightarrow> sub_at h k = Some i \<Longrightarrow> i < length (chans h) \<and> \<not> ch_closed (chans h ! i)"
  by (auto simp: hub_inv_def dest!: sub_at_mem)

lemma Subscribe_inv: "hub_inv h \<Longrightarrow> hub_inv (snd (Subscribe k h))"
  by (auto simp: Subscribe_def hub_inv_def sub_at_def map_of_eq_None_iff nth_append)

lemma unsubscribe_inv:
  assumes "hub_inv h"
  shows "fst (unsubscribe k h) = None \<and> hub_inv (snd (unsubscribe k h))"
proof (cases "sub_at h k")
  case None
  then show ?thesis using assms by (simp add: unsubscribe_def)
next
  case (Some i)
  let ?subs = "filter (\<lambda>p. fst p \<noteq> k) (subscribers h)"
  have i: "i < length (chans h)" "\<not> ch_closed (chans h ! i)" using sub_at_open [OF assms Some] by simp_all
  have other: "snd p \<noteq> i" if "p \<in> set ?subs" for p
  proof
    assume p: "snd p = i"
    have m: "(k, i) \<in> set (subscribers h)" "p \<in> set (subscribers h)" "fst p \<noteq> k"
      using sub_at_mem [OF Some] that by simp_all
    have "inj_on snd (set (subscribers h))" using assms by (simp add: hub_inv_def distinct_map)
    then have "p = (k, i)" using inj_onD [of snd _ p "(k, i)"] m p by simp
    with m(3) show False by simp
  qed
  have d: "distinct (map fst ?subs)" "distinct (map snd ?subs)"
    using assms by (simp_all add: hub_inv_def distinct_map_filter)
  have run: "unsubscribe k h = (None, h\<lparr>subscribers := ?subs, chans := (chans h)[i := (chans h ! i)\<lparr>ch_closed := True\<rparr>]\<rparr>)"
    using Some i by (simp add: unsubscribe_def close_chan_def)
  have keep: "isReservedScope (fst p) \<and> snd p < length (chans h) \<and> \<not> ch_closed ((chans h)[i := x] ! snd p)"
    if "p \<in> set ?subs" for p x
  proof -
    have "i \<noteq> snd p" using other [OF that] by blast
    then show ?thesis using that assms by (simp add: hub_inv_def)
  qed
  show ?thesis unfolding run hub_inv_def using d keep by simp
qed

lemma notifySubscriber_inv:
  assumes "hub_inv h"
  shows "fst (notifySubscriber k h) = None \<and> hub_inv (snd (notifySubscriber k h))"
proof (cases "sub_at h k")
  case None
  then show ?thesis using assms by (simp add: notifySubscriber_def)
next
  case (Some i)
  then show ?thesis using assms sub_at_open [OF assms Some]
    by (auto simp: notifySubscriber_def try_send_def hub_inv_def nth_list_update)
qed

lemma receive_inv: "hub_inv h \<Longrightarrow> hub_inv (snd (receive i h))"
  by (cases "i < length (chans h)") (auto simp: receive_def hub_inv_def nth_list_update)

text \<open>A notification leaves the slot full, and more of them change nothing until it is received.\<close>

lemma notify_wakes:
  assumes "hub_inv h" "sub_at h k = Some i"
  shows "ch_full (chans (snd (notifySubscriber k h)) ! i)"
    and "fst (receive i (snd (notifySubscriber k h))) = Wake"
  using sub_at_open [OF assms] assms(2) by (auto simp: notifySubscriber_def try_send_def receive_def)

lemma sub_at_notify [simp]: "sub_at (snd (notifySubscriber k h)) j = sub_at h j"
  by (simp add: notifySubscriber_def try_send_def sub_at_def split: option.splits)

lemma notify_coalesces:
  assumes "hub_inv h"
  shows "snd (notifySubscriber k (snd (notifySubscriber k h))) = snd (notifySubscriber k h)"
proof (cases "sub_at h k")
  case (Some i)
  let ?h = "snd (notifySubscriber k h)"
  have "hub_inv ?h" using notifySubscriber_inv [OF assms] by blast
  moreover have "sub_at ?h k = Some i" using Some by simp
  ultimately have "\<not> ch_closed (chans ?h ! i)" using sub_at_open by blast
  moreover have "ch_full (chans ?h ! i)" using notify_wakes(1) [OF assms Some] .
  moreover have "notifySubscriber k ?h = try_send i ?h" using Some by (simp add: notifySubscriber_def [of k ?h])
  ultimately show ?thesis by (simp add: try_send_def)
qed (simp add: notifySubscriber_def)

text \<open>
  \<open>unsubscribe\<close> is keyed by the scope, not by the subscription: a release function called a second
  time, after somebody else has subscribed, ends the newer subscription.
\<close>

lemma stale_unsubscribe:
  assumes "hub_inv h" "isReservedScope k" "sub_at h k = None"
  defines "first \<equiv> snd (Subscribe k h)"
  defines "second \<equiv> Subscribe k (snd (unsubscribe k first))"
  shows "\<exists>i. fst second = Inr i \<and> sub_at (snd second) k = Some i \<and>
    ch_closed (chans (snd (unsubscribe k (snd second))) ! i) \<and> sub_at (snd (unsubscribe k (snd second))) k = None"
proof -
  let ?n = "length (chans h)"
  have none: "filter (\<lambda>p. fst p \<noteq> k) (subscribers h) = subscribers h"
    using assms(3) by (auto simp: sub_at_def map_of_eq_None_iff filter_id_conv)
  have f: "first = h\<lparr>subscribers := (k, ?n) # subscribers h, chans := chans h @ [\<lparr>ch_full = False, ch_closed = False\<rparr>]\<rparr>"
    using assms(2,3) by (simp add: first_def Subscribe_def)
  have u: "snd (unsubscribe k first) = h\<lparr>chans := chans h @ [\<lparr>ch_full = False, ch_closed = True\<rparr>]\<rparr>"
    by (simp add: f unsubscribe_def sub_at_def close_chan_def none nth_append)
  have s: "second = (Inr (?n + 1), h\<lparr>subscribers := (k, ?n + 1) # subscribers h,
      chans := chans h @ [\<lparr>ch_full = False, ch_closed = True\<rparr>, \<lparr>ch_full = False, ch_closed = False\<rparr>]\<rparr>)"
    using assms(2,3) by (simp add: second_def u Subscribe_def sub_at_def)
  show ?thesis using assms(3) by (simp add: s sub_at_def unsubscribe_def close_chan_def none nth_append)
qed

end
