(* ===== verification/Events.thy ===== *)
theory Events
  imports Types
begin

text \<open>
  The event envelope of \<open>events.go\<close>: \<open>writeEvent\<close> and its JSON encoding, with the field order and
  the omitempty rules of the struct. The emit functions need the store's \<open>appendOne\<close> and are in
  \<open>Store\<close>.
\<close>

record writeEvent =
  ev_Op :: bytestr
  ev_Scope :: bytestr
  ev_ID :: bytestr
  ev_Seq :: u64
  ev_Ts :: int
  ev_Payload :: raw
  ev_By :: "int option"
  ev_MaxSeq :: u64

definition writeEvent_zero :: writeEvent where
  "writeEvent_zero = \<lparr>ev_Op = [], ev_Scope = [], ev_ID = [], ev_Seq = 0, ev_Ts = 0, ev_Payload = None,
     ev_By = None, ev_MaxSeq = 0\<rparr>"

definition json_key :: "string \<Rightarrow> string" where
  "json_key k = [CHR 0x22] @ k @ [CHR 0x22, CHR '':'']"

definition show_u64 :: "u64 \<Rightarrow> string" where
  "show_u64 w = show_nat (unat w)"

definition string_field :: "string \<Rightarrow> bytestr \<Rightarrow> string list" where
  "string_field k v = (if v = [] then [] else [json_key k @ marshal_string v])"

definition u64_field :: "string \<Rightarrow> u64 \<Rightarrow> string list" where
  "u64_field k v = (if v = 0 then [] else [json_key k @ show_u64 v])"

definition int_field :: "string \<Rightarrow> int \<Rightarrow> string list" where
  "int_field k v = (if v = 0 then [] else [json_key k @ show_int v])"

definition ptr_field :: "string \<Rightarrow> int option \<Rightarrow> string list" where
  "ptr_field k v = (case v of None \<Rightarrow> [] | Some n \<Rightarrow> [json_key k @ show_int n])"

fun join_fields :: "string list \<Rightarrow> string" where
  "join_fields [] = []"
| "join_fields [f] = f"
| "join_fields (f # g # fs) = f @ '','' @ join_fields (g # fs)"

text \<open>Encoding fails only on a payload that is not valid JSON.\<close>

definition marshal_writeEvent :: "writeEvent \<Rightarrow> bytestr option" where
  "marshal_writeEvent e =
     (case (if raw_bytes (ev_Payload e) = [] then Some []
            else map_option (\<lambda>p. [json_key ''payload'' @ p]) (marshal_raw (ev_Payload e))) of
        None \<Rightarrow> None
      | Some payload \<Rightarrow>
          Some (''{'' @ join_fields
            ([json_key ''op'' @ marshal_string (ev_Op e)] @ string_field ''scope'' (ev_Scope e) @
             string_field ''id'' (ev_ID e) @ u64_field ''seq'' (ev_Seq e) @ int_field ''ts'' (ev_Ts e) @
             payload @ ptr_field ''by'' (ev_By e) @ u64_field ''max_seq'' (ev_MaxSeq e)) @ ''}''))"

end
