(* ===== verification/Store.thy ===== *)
theory Store
  imports BufferCounter Shards Subscribe Events
begin

text \<open>
  \<open>store.go\<close> and the emit functions of \<open>events.go\<close>: the store's state, scope lookup and creation, and
  the single-item, delete and read operations. A buffer pointer is an index into \<open>bufs\<close>. An operation
  is given a clock, the sequence of the readings it takes; the event it emits continues with the
  readings it has left. Operations run one at a time here: re-checks the code makes under a lock are
  found as they were.
\<close>

record store =
  score :: core
  sdirectory :: dir
  bufs :: "scopeBuffer list"
  shub :: hub

type_synonym clock = "nat \<Rightarrow> int"

definition later :: "nat \<Rightarrow> clock \<Rightarrow> clock" where
  "later k clk n = clk (n + k)"

section \<open>Scopes\<close>

definition getScope :: "store \<Rightarrow> bytestr \<Rightarrow> nat option" where
  "getScope s scope = dir_lookup (sdirectory s) scope"

definition store_newscopeBuffer :: "int \<Rightarrow> store \<Rightarrow> scopeBuffer" where
  "store_newscopeBuffer now s = (newscopeBuffer (defaultMaxItems (score s)) now)\<lparr>attached := True\<rparr>"

definition linkScope :: "bytestr \<Rightarrow> scopeBuffer \<Rightarrow> store \<Rightarrow> store" where
  \<comment> \<open>\<open>sh.scopes[scope] = buf\<close> for a buffer just allocated\<close>
  "linkScope scope b s =
     s\<lparr>sdirectory := dir_insert scope (length (bufs s)) (sdirectory s), bufs := bufs s @ [b]\<rparr>"

definition detachBuf :: "scopeBuffer \<Rightarrow> scopeBuffer" where
  "detachBuf b = b\<lparr>detached := True, attached := False\<rparr>"

definition unlinkScope :: "bytestr \<Rightarrow> nat \<Rightarrow> store \<Rightarrow> store" where
  \<comment> \<open>\<open>delete(sh.scopes, scope)\<close>, and the buffer is detached from the store\<close>
  "unlinkScope scope a s =
     s\<lparr>sdirectory := dir_delete scope (sdirectory s), bufs := (bufs s)[a := detachBuf (bufs s ! a)]\<rparr>"

definition getOrCreateScopeTrackingCreated :: "int \<Rightarrow> bytestr \<Rightarrow> store \<Rightarrow> (nat \<times> bool) res \<times> store" where
  "getOrCreateScopeTrackingCreated now scope s =
     (if scope = [] then (Inl ScopeNameRequired, s)
      else case getScope s scope of
        Some a \<Rightarrow> (Inr (a, False), s)
      | None \<Rightarrow>
          (let preBuf = store_newscopeBuffer now s in
           case reserveBytes scopeBufferOverhead (score s) of
             ((ok, current, mx), c') \<Rightarrow>
               if \<not> ok then (Inl (StoreFullError current scopeBufferOverhead mx), s\<lparr>score := c'\<rparr>)
               else (Inr (length (bufs s), True),
                     linkScope scope preBuf (s\<lparr>score := add_scopeCount 1 c'\<rparr>))))"

definition getOrCreateScope :: "int \<Rightarrow> bytestr \<Rightarrow> store \<Rightarrow> nat res \<times> store" where
  "getOrCreateScope now scope s =
     (case getOrCreateScopeTrackingCreated now scope s of
        (Inl e, s') \<Rightarrow> (Inl e, s') | (Inr (a, _), s') \<Rightarrow> (Inr a, s'))"

definition cleanupIfEmptyAndUnused :: "bytestr \<Rightarrow> nat \<Rightarrow> store \<Rightarrow> store" where
  "cleanupIfEmptyAndUnused scope a s =
     (case getScope s scope of
        None \<Rightarrow> s
      | Some cur \<Rightarrow>
          if cur \<noteq> a then s
          else if items (bufs s ! a) \<noteq> [] then s
          else unlinkScope scope a
                 (s\<lparr>score := add_scopeCount (- 1) (add_totalBytes (- scopeBufferOverhead) (score s))\<rparr>))"

definition ensureScope :: "int \<Rightarrow> bytestr \<Rightarrow> store \<Rightarrow> nat option \<times> store" where
  "ensureScope now scope s =
     (case getScope s scope of
        Some a \<Rightarrow> (Some a, s)
      | None \<Rightarrow>
          (case reserveBytes scopeBufferOverhead (score s) of
             ((ok, _, _), c') \<Rightarrow>
               if \<not> ok then (None, s\<lparr>score := c'\<rparr>)
               else
                 (let b = store_newscopeBuffer now s
                  in (Some (length (bufs s)),
                      linkScope scope b (s\<lparr>score := bumpLastWriteTS (bLastWriteTS b) (add_scopeCount 1 c')\<rparr>)))))"

definition initReserved :: "(store \<Rightarrow> int) \<Rightarrow> clock \<Rightarrow> store \<Rightarrow> store" where
  \<comment> \<open>the loop of both \<open>initReservedScopes\<close> and its locked form, given the initial \<open>lastWriteTS\<close>\<close>
  "initReserved stamp clk s0 =
     foldl (\<lambda>s (i, name).
        if getScope s name \<noteq> None then s
        else linkScope name
               ((store_newscopeBuffer (clk i) s)\<lparr>maxItems := maxItemsFor (score s) name, bLastWriteTS := stamp s\<rparr>)
               (s\<lparr>score := add_scopeCount 1 (add_totalBytes scopeBufferOverhead (score s))\<rparr>))
       s0 (enumerate 0 reservedScopeNames)"

definition initReservedScopes :: "clock \<Rightarrow> store \<Rightarrow> store" where
  "initReservedScopes = initReserved (\<lambda>_. 0)"

definition initReservedScopesLocked :: "clock \<Rightarrow> store \<Rightarrow> store" where
  "initReservedScopesLocked = initReserved (\<lambda>s. lastWriteTS (score s))"

definition newStore :: "(bytestr \<Rightarrow> 64 word) \<Rightarrow> clock \<Rightarrow> Config \<Rightarrow> store" where
  "newStore seed clk c0 =
     (let c = WithDefaults c0;
          biggestUserCap = (if cMaxItemBytes c < cInboxMaxItemBytes c then cInboxMaxItemBytes c else cMaxItemBytes c)
      in initReservedScopes clk
        \<lparr>score = \<lparr>defaultMaxItems = cScopeMaxItems c, maxStoreBytes = cMaxStoreBytes c,
            maxItemBytes = cMaxItemBytes c,
            eventsMaxItemBytes = addClampedInt64 biggestUserCap eventsItemEnvelopeOverhead,
            inboxMaxItems = cInboxMaxItems c, inboxMaxItemBytes = cInboxMaxItemBytes c,
            eventsMode = cEventsMode c, eventsDropsTotal = 0, totalBytes = 0, totalItems = 0,
            scopeCount = 0, lastWriteTS = 0, cells = []\<rparr>,
         sdirectory = dir_clear \<lparr>dhash = seed, dshards = []\<rparr>, bufs = [], shub = hub_empty\<rparr>)"

section \<open>Append and events\<close>

definition on_buf :: "nat \<Rightarrow> 'a bufop \<Rightarrow> store \<Rightarrow> 'a res \<times> store" where
  \<comment> \<open>a method call on the buffer at an address\<close>
  "on_buf a f s =
     (case f (score s) (bufs s ! a) of (r, c', b') \<Rightarrow> (r, s\<lparr>score := c', bufs := (bufs s)[a := b']\<rparr>))"

definition eventsEnabled :: "store \<Rightarrow> bytestr \<Rightarrow> bool" where
  "eventsEnabled s scope \<longleftrightarrow> eventsMode (score s) \<noteq> EventsModeOff \<and> scope \<noteq> EventsScopeName"

definition dropEvent :: "store \<Rightarrow> store" where
  "dropEvent s = s\<lparr>score := (score s)\<lparr>eventsDropsTotal := eventsDropsTotal (score s) + 1\<rparr>\<rparr>"

definition emitWith :: "(Item \<Rightarrow> store \<Rightarrow> Item res \<times> store) \<Rightarrow> writeEvent \<Rightarrow> store \<Rightarrow> panic option \<times> store" where
  \<comment> \<open>\<open>emitEvent\<close>, with \<open>appendOne\<close> as an argument; only a panic comes back\<close>
  "emitWith app evt s =
     (let evt' = (if eventsMode (score s) = EventsModeNotify then evt\<lparr>ev_Payload := None\<rparr> else evt) in
      case marshal_writeEvent evt' of
        None \<Rightarrow> (None, dropEvent s)
      | Some body \<Rightarrow>
          (case app (Item_zero\<lparr>Scope := EventsScopeName, Payload := Some body\<rparr>) s of
             (Inl (GoPanic p), s') \<Rightarrow> (Some p, s')
           | (Inl _, s') \<Rightarrow> (None, dropEvent s')
           | (Inr _, s') \<Rightarrow> (None, s')))"

lemma emitWith_cong [fundef_cong]:
  assumes "evt = evt'" "s = s'"
    and "\<And>it t. Scope it = EventsScopeName \<Longrightarrow> app it t = app' it t"
  shows "emitWith app evt s = emitWith app' evt' s'"
proof -
  have "app (Item_zero\<lparr>Scope := EventsScopeName, Payload := p\<rparr>) s = app' (Item_zero\<lparr>Scope := EventsScopeName, Payload := p\<rparr>) s" for p
    by (rule assms(3)) simp
  then show ?thesis using assms(1,2) by (simp add: emitWith_def split: option.splits)
qed

definition appendEvent :: "Item \<Rightarrow> writeEvent" where
  "appendEvent it = writeEvent_zero\<lparr>ev_Op := ''append'', ev_Scope := Scope it, ev_ID := ID it, ev_Seq := Seq it,
     ev_Ts := Ts it, ev_Payload := Payload it\<rparr>"

definition notify :: "bytestr \<Rightarrow> store \<Rightarrow> panic option \<times> store" where
  "notify scope s = (case notifySubscriber scope (shub s) of (p, h) \<Rightarrow> (p, s\<lparr>shub := h\<rparr>))"

definition undoCreate :: "bool \<Rightarrow> bytestr \<Rightarrow> nat \<Rightarrow> gerr \<Rightarrow> store \<Rightarrow> store" where
  \<comment> \<open>the rollback of a scope this request created; a panic skips it\<close>
  "undoCreate created scope a e s =
     (case e of GoPanic _ \<Rightarrow> s | _ \<Rightarrow> if created then cleanupIfEmptyAndUnused scope a s else s)"

lemma insertNewItemLocked_Scope: "insertNewItemLocked it now c b = (Inr r, c', b') \<Longrightarrow> Scope r = Scope it"
  by (auto simp: insertNewItemLocked_def pushLocked_def Let_def split: prod.splits option.splits if_splits)

lemma appendItem_Scope: "appendItem now it c b = (Inr r, c', b') \<Longrightarrow> Scope r = Scope it"
  by (auto simp: appendItem_def dest: insertNewItemLocked_Scope split: if_splits)

lemma on_buf_append_Scope: "on_buf a (appendItem now it) s = (Inr r, s') \<Longrightarrow> Scope r = Scope it"
  by (auto simp: on_buf_def dest: appendItem_Scope split: prod.splits)

lemma validateWriteItem_Scope: "validateWriteItem it ep cap = Inr it' \<Longrightarrow> Scope it' = Scope it"
  by (simp add: validateWriteItem_Inr)

function appendOne :: "clock \<Rightarrow> Item \<Rightarrow> store \<Rightarrow> Item res \<times> store" where
  "appendOne clk it s =
     (case validateWriteItem it ''/append'' (maxItemBytesFor (score s) (Scope it)) of
        Inl e \<Rightarrow> (Inl e, s)
      | Inr it1 \<Rightarrow>
          (case getOrCreateScopeTrackingCreated (clk 0) (Scope it1) s of
             (Inl e, s1) \<Rightarrow> (Inl e, s1)
           | (Inr (a, created), s1) \<Rightarrow>
               (case on_buf a (appendItem (clk 1) it1) s1 of
                  (Inl e, s2) \<Rightarrow> (Inl e, undoCreate created (Scope it1) a e s2)
                | (Inr result, s2) \<Rightarrow>
                    (case (if eventsEnabled s2 (Scope result)
                           then emitWith (appendOne (later 2 clk)) (appendEvent result) s2 else (None, s2)) of
                       (Some p, s3) \<Rightarrow> (Inl (GoPanic p), s3)
                     | (None, s3) \<Rightarrow>
                         (case (if isReservedScope (Scope result) then notify (Scope result) s3 else (None, s3)) of
                            (Some p, s4) \<Rightarrow> (Inl (GoPanic p), s4)
                          | (None, s4) \<Rightarrow> (Inr result, s4))))))"
  by pat_completeness auto

text \<open>
  The recursion is one level deep: an event is emitted only for a scope other than \<open>_events\<close>, and it is
  appended to \<open>_events\<close>.
\<close>

termination
  by (relation "measure (\<lambda>(clk, it, s). if Scope it = EventsScopeName then 0 else 1)")
    (auto simp: eventsEnabled_def split: if_splits
      dest!: validateWriteItem_Scope on_buf_append_Scope [OF sym])

declare appendOne.simps [simp del]

section \<open>The other emit functions\<close>

definition emitEvent :: "clock \<Rightarrow> writeEvent \<Rightarrow> store \<Rightarrow> panic option \<times> store" where
  "emitEvent clk evt s = emitWith (appendOne clk) evt s"

definition emitFor :: "bytestr \<Rightarrow> clock \<Rightarrow> writeEvent \<Rightarrow> store \<Rightarrow> panic option \<times> store" where
  \<comment> \<open>the guard every emit function opens with\<close>
  "emitFor scope clk evt s = (if \<not> eventsEnabled s scope then (None, s) else emitEvent clk evt s)"

definition emitUpsertEvent :: "clock \<Rightarrow> Item \<Rightarrow> store \<Rightarrow> panic option \<times> store" where
  "emitUpsertEvent clk it = emitFor (Scope it) clk
     (writeEvent_zero\<lparr>ev_Op := ''upsert'', ev_Scope := Scope it, ev_ID := ID it, ev_Seq := Seq it,
        ev_Ts := Ts it, ev_Payload := Payload it\<rparr>)"

definition emitUpdateEvent :: "clock \<Rightarrow> Item \<Rightarrow> store \<Rightarrow> panic option \<times> store" where
  "emitUpdateEvent clk it = emitFor (Scope it) clk
     (writeEvent_zero\<lparr>ev_Op := ''update'', ev_Scope := Scope it, ev_ID := ID it, ev_Seq := Seq it,
        ev_Payload := Payload it\<rparr>)"

definition emitCounterAddEvent :: "clock \<Rightarrow> bytestr \<Rightarrow> bytestr \<Rightarrow> int \<Rightarrow> store \<Rightarrow> panic option \<times> store" where
  "emitCounterAddEvent clk scope i by = emitFor scope clk
     (writeEvent_zero\<lparr>ev_Op := ''counter_add'', ev_Scope := scope, ev_ID := i, ev_By := Some by\<rparr>)"

definition emitDeleteEvent :: "clock \<Rightarrow> bytestr \<Rightarrow> bytestr \<Rightarrow> u64 \<Rightarrow> store \<Rightarrow> panic option \<times> store" where
  "emitDeleteEvent clk scope i sq = emitFor scope clk
     (writeEvent_zero\<lparr>ev_Op := ''delete'', ev_Scope := scope, ev_ID := i, ev_Seq := sq\<rparr>)"

definition emitDeleteUpToEvent :: "clock \<Rightarrow> bytestr \<Rightarrow> u64 \<Rightarrow> store \<Rightarrow> panic option \<times> store" where
  "emitDeleteUpToEvent clk scope maxSeq = emitFor scope clk
     (writeEvent_zero\<lparr>ev_Op := ''delete_up_to'', ev_Scope := scope, ev_MaxSeq := maxSeq\<rparr>)"

definition emitWarmEvent :: "clock \<Rightarrow> store \<Rightarrow> panic option \<times> store" where
  "emitWarmEvent clk s =
     (if eventsMode (score s) = EventsModeOff then (None, s)
      else emitEvent (later 1 clk) (writeEvent_zero\<lparr>ev_Op := ''warm'', ev_Ts := clk 0\<rparr>) s)"

definition emitDeleteScopeEvent :: "clock \<Rightarrow> bytestr \<Rightarrow> store \<Rightarrow> panic option \<times> store" where
  "emitDeleteScopeEvent clk scope = emitFor scope (later 1 clk)
     (writeEvent_zero\<lparr>ev_Op := ''delete_scope'', ev_Scope := scope, ev_Ts := clk 0\<rparr>)"

definition returning :: "'a \<Rightarrow> panic option \<times> store \<Rightarrow> 'a res \<times> store" where
  \<comment> \<open>the value an operation returns once its event is out\<close>
  "returning x out = (case out of (Some p, s) \<Rightarrow> (Inl (GoPanic p), s) | (None, s) \<Rightarrow> (Inr x, s))"

section \<open>Upsert, counters, update, delete\<close>

definition upsertOne :: "clock \<Rightarrow> Item \<Rightarrow> store \<Rightarrow> (Item \<times> bool) res \<times> store" where
  "upsertOne clk it s =
     (case validateUpsertItem it (maxItemBytes (score s)) of
        Inl e \<Rightarrow> (Inl e, s)
      | Inr it1 \<Rightarrow>
          (case getOrCreateScopeTrackingCreated (clk 0) (Scope it1) s of
             (Inl e, s1) \<Rightarrow> (Inl e, s1)
           | (Inr (a, scopeCreated), s1) \<Rightarrow>
               (case on_buf a (upsertByID (clk 1) it1) s1 of
                  (Inl e, s2) \<Rightarrow> (Inl e, undoCreate scopeCreated (Scope it1) a e s2)
                | (Inr (result, itemCreated), s2) \<Rightarrow>
                    returning (result, itemCreated) (emitUpsertEvent (later 2 clk) result s2))))"

definition counterAddOne :: "clock \<Rightarrow> bytestr \<Rightarrow> bytestr \<Rightarrow> int \<Rightarrow> store \<Rightarrow> (int \<times> bool) res \<times> store" where
  "counterAddOne clk scope i by s =
     (case validateCounterAddRequest \<lparr>car_Scope = scope, car_ID = i, car_By = Some by\<rparr> (maxItemBytesFor (score s) scope) of
        Inl e \<Rightarrow> (Inl e, s)
      | Inr _ \<Rightarrow>
          (case getOrCreateScopeTrackingCreated (clk 0) scope s of
             (Inl e, s1) \<Rightarrow> (Inl e, s1)
           | (Inr (a, scopeCreated), s1) \<Rightarrow>
               (case on_buf a (counterAdd (clk 1) scope i by) s1 of
                  (Inl e, s2) \<Rightarrow> (Inl e, undoCreate scopeCreated scope a e s2)
                | (Inr (v, counterCreated), s2) \<Rightarrow>
                    (let s3 = (if scopeCreated then s2\<lparr>score := bumpLastWriteTS (clk 2) (score s2)\<rparr> else s2)
                     in returning (v, counterCreated) (emitCounterAddEvent (later 3 clk) scope i by s3)))))"

definition updateOne :: "clock \<Rightarrow> Item \<Rightarrow> store \<Rightarrow> int res \<times> store" where
  "updateOne clk it s =
     (case validateUpdateItem it (maxItemBytes (score s)) of
        Inl e \<Rightarrow> (Inl e, s)
      | Inr it1 \<Rightarrow>
          (case getScope s (Scope it1) of
             None \<Rightarrow> (Inr 0, s)
           | Some a \<Rightarrow>
               (case (if ID it1 \<noteq> [] then on_buf a (updateByID (clk 0) (ID it1) (Payload it1) (renderBytes it1)) s
                      else on_buf a (updateBySeq (clk 0) (Seq it1) (Payload it1) (renderBytes it1)) s) of
                  (Inl e, s1) \<Rightarrow> (Inl e, s1)
                | (Inr updated, s1) \<Rightarrow>
                    if 0 < updated then returning updated (emitUpdateEvent (later 1 clk) it1 s1)
                    else (Inr updated, s1))))"

definition deleteOne :: "clock \<Rightarrow> bytestr \<Rightarrow> bytestr \<Rightarrow> u64 \<Rightarrow> store \<Rightarrow> int res \<times> store" where
  "deleteOne clk scope i sq s =
     (case validateDeleteRequest \<lparr>dr_Scope = scope, dr_ID = i, dr_Seq = sq\<rparr> of
        Inl e \<Rightarrow> (Inl e, s)
      | Inr _ \<Rightarrow>
          (case getScope s scope of
             None \<Rightarrow> (Inr 0, s)
           | Some a \<Rightarrow>
               (case (if i \<noteq> [] then on_buf a (deleteByID (clk 0) i) s else on_buf a (deleteBySeq (clk 0) sq) s) of
                  (Inl e, s1) \<Rightarrow> (Inl e, s1)
                | (Inr deleted, s1) \<Rightarrow>
                    if 0 < deleted then returning deleted (emitDeleteEvent (later 1 clk) scope i sq s1)
                    else (Inr deleted, s1))))"

definition deleteUpTo :: "clock \<Rightarrow> bytestr \<Rightarrow> u64 \<Rightarrow> store \<Rightarrow> int res \<times> store" where
  "deleteUpTo clk scope maxSeq s =
     (case validateDeleteUpToRequest \<lparr>dur_Scope = scope, dur_MaxSeq = maxSeq\<rparr> of
        Inl e \<Rightarrow> (Inl e, s)
      | Inr _ \<Rightarrow>
          (case getScope s scope of
             None \<Rightarrow> (Inr 0, s)
           | Some a \<Rightarrow>
               (case on_buf a (deleteUpToSeq (clk 0) maxSeq) s of
                  (Inl e, s1) \<Rightarrow> (Inl e, s1)
                | (Inr deleted, s1) \<Rightarrow>
                    if 0 < deleted then returning deleted (emitDeleteUpToEvent (later 1 clk) scope maxSeq s1)
                    else (Inr deleted, s1))))"

definition deleteScope :: "clock \<Rightarrow> bytestr \<Rightarrow> store \<Rightarrow> (int \<times> bool) res \<times> store" where
  "deleteScope clk scope s =
     (case validateDeleteScopeRequest \<lparr>dsr_Scope = scope\<rparr> of
        Inl e \<Rightarrow> (Inl e, s)
      | Inr _ \<Rightarrow>
          (case getScope s scope of
             None \<Rightarrow> (Inr (0, False), s)
           | Some a \<Rightarrow>
               (let b = bufs s ! a;
                    itemCount = int (length (items b));
                    s1 = unlinkScope scope a
                      (s\<lparr>score := bumpLastWriteTS (clk 0) (add_scopeCount (- 1) (add_totalItems (- itemCount)
                           (add_totalBytes (- (bytes b + scopeBufferOverhead)) (score s))))\<rparr>)
                in returning (itemCount, True) (emitDeleteScopeEvent (later 1 clk) scope s1))))"

section \<open>Reads\<close>

definition touch :: "int \<Rightarrow> nat \<Rightarrow> store \<Rightarrow> store" where
  \<comment> \<open>\<open>buf.recordRead\<close>\<close>
  "touch now a s = s\<lparr>bufs := (bufs s)[a := recordRead now (bufs s ! a)]\<rparr>"

definition head :: "int \<Rightarrow> bytestr \<Rightarrow> u64 \<Rightarrow> int \<Rightarrow> store \<Rightarrow> (Item list \<times> bool \<times> bool) \<times> store" where
  "head now scope afterSeq limit s =
     (case getScope s scope of
        None \<Rightarrow> (([], False, False), s)
      | Some a \<Rightarrow>
          (case sinceSeq afterSeq limit (score s) (bufs s ! a) of
             (its, truncated) \<Rightarrow> ((its, truncated, True), if its \<noteq> [] then touch now a s else s)))"

definition tail :: "int \<Rightarrow> bytestr \<Rightarrow> int \<Rightarrow> int \<Rightarrow> store \<Rightarrow> (Item list \<times> bool \<times> bool) \<times> store" where
  "tail now scope limit offset s =
     (case getScope s scope of
        None \<Rightarrow> (([], False, False), s)
      | Some a \<Rightarrow>
          (case tailOffset limit offset (score s) (bufs s ! a) of
             (its, truncated) \<Rightarrow> ((its, truncated, True), if its \<noteq> [] then touch now a s else s)))"

definition store_get :: "int \<Rightarrow> bytestr \<Rightarrow> bytestr \<Rightarrow> u64 \<Rightarrow> store \<Rightarrow> Item option \<times> store" where
  "store_get now scope i sq s =
     (case getScope s scope of
        None \<Rightarrow> (None, s)
      | Some a \<Rightarrow>
          (case (if i \<noteq> [] then getByID i (score s) (bufs s ! a) else getBySeq sq (score s) (bufs s ! a)) of
             None \<Rightarrow> (None, s)
           | Some it \<Rightarrow> (Some it, touch now a s)))"

definition render :: "int \<Rightarrow> bytestr \<Rightarrow> bytestr \<Rightarrow> u64 \<Rightarrow> store \<Rightarrow> raw option \<times> store" where
  \<comment> \<open>Some is a hit, whose bytes may be nil\<close>
  "render now scope i sq s =
     (case store_get now scope i sq s of
        (None, s') \<Rightarrow> (None, s')
      | (Some it, s') \<Rightarrow> (Some (if renderBytes it \<noteq> None then renderBytes it else Payload it), s'))"

section \<open>Observability\<close>

record reservedScopeEntry =
  rse_Scope :: bytestr
  rse_ItemCount :: int
  rse_LastSeq :: u64
  rse_ApproxScopeMB :: int
  rse_CreatedTS :: int
  rse_LastWriteTS :: int

record storeStats =
  sst_ScopeCount :: int
  sst_TotalItems :: int
  sst_ApproxStoreMB :: int
  sst_LastWriteTS :: int
  sst_EventsDropsTotal :: int
  sst_ReservedScopes :: "reservedScopeEntry list"

definition reservedScopeStats :: "store \<Rightarrow> reservedScopeEntry list" where
  "reservedScopeStats s =
     concat (map (\<lambda>name.
        case getScope s name of
          None \<Rightarrow> []
        | Some a \<Rightarrow>
            (let st = buf_stats (bufs s ! a) in
             [\<lparr>rse_Scope = name, rse_ItemCount = ss_ItemCount st, rse_LastSeq = ss_LastSeq st,
               rse_ApproxScopeMB = ss_ApproxScopeMB st, rse_CreatedTS = ss_CreatedTS st,
               rse_LastWriteTS = ss_LastWriteTS st\<rparr>]))
       reservedScopeNames)"

definition store_stats :: "store \<Rightarrow> storeStats" where
  "store_stats s =
     \<lparr>sst_ScopeCount = scopeCount (score s), sst_TotalItems = totalItems (score s),
      sst_ApproxStoreMB = totalBytes (score s), sst_LastWriteTS = lastWriteTS (score s),
      sst_EventsDropsTotal = eventsDropsTotal (score s), sst_ReservedScopes = reservedScopeStats s\<rparr>"

definition listScopes :: "store \<Rightarrow> bytestr \<rightharpoonup> nat" where
  "listScopes s = map_of (concat (dshards (sdirectory s)))"

record scopeListEntry =
  sle_Scope :: bytestr
  sle_stats :: scopeStats

definition scopeList :: "string \<Rightarrow> string \<Rightarrow> int \<Rightarrow> store \<Rightarrow> scopeListEntry list \<times> bool" where
  "scopeList pre after limit s =
     (if limit \<le> 0 then ([], False)
      else
        (let refs = concat (map (filter (\<lambda>(name, a).
                       \<not> (pre \<noteq> [] \<and> \<not> has_prefix name pre) \<and> \<not> (after \<noteq> [] \<and> name \<le> after)))
                     (dshards (sdirectory s)));
             refs = sort_key fst refs;
             truncated = limit < int (length refs);
             refs = (if truncated then take (nat limit) refs else refs)
         in (map (\<lambda>(name, a). \<lparr>sle_Scope = name, sle_stats = buf_stats (bufs s ! a)\<rparr>) refs, truncated)))"

section \<open>Subscriptions\<close>

definition store_Subscribe :: "bytestr \<Rightarrow> store \<Rightarrow> nat res \<times> store" where
  "store_Subscribe scope s = (case Subscribe scope (shub s) of (r, h) \<Rightarrow> (r, s\<lparr>shub := h\<rparr>))"

definition store_unsubscribe :: "bytestr \<Rightarrow> store \<Rightarrow> panic option \<times> store" where
  "store_unsubscribe scope s = (case unsubscribe scope (shub s) of (p, h) \<Rightarrow> (p, s\<lparr>shub := h\<rparr>))"

end
