(* ===== verification/BufferReplace.thy ===== *)
theory BufferReplace
  imports BufferOps
begin

text \<open>
  \<open>buffer_replace.go\<close>: the state \<open>/warm\<close> and \<open>/rebuild\<close> build off the buffer and the commits that
  swap it in. A successful build is characterised item by item; a commit of a built state gives the
  buffer invariant back.
\<close>

section \<open>Operations\<close>

record scopeReplacement =
  r_items :: "Item list"
  r_byID :: "(bytestr, Item) gomap"
  r_bySeq :: "(u64, Item) gomap"
  r_lastSeq :: u64
  r_idKeyBytes :: int

fun buildLoop :: "int \<Rightarrow> Item list \<Rightarrow> bytestr set \<Rightarrow> Item list \<Rightarrow> (u64, Item) mapping \<Rightarrow> u64 \<Rightarrow>
    bytestr + (Item list \<times> (u64, Item) mapping \<times> u64)" where
  \<comment> \<open>Inl is the duplicated id\<close>
  "buildLoop nowUs [] seen built ms sq = Inr (built, ms, sq)"
| "buildLoop nowUs (src # rest) seen built ms sq =
     (if ID src \<noteq> [] \<and> ID src \<in> seen then Inl (ID src)
      else
        (let seen' = (if ID src \<noteq> [] then insert (ID src) seen else seen);
             sq' = sq + 1;
             it = fillRender (src\<lparr>counter := None, Seq := sq', Ts := nowUs\<rparr>)
         in buildLoop nowUs rest seen' (built @ [it]) (Mapping.update sq' it ms) sq'))"

fun byIDLoop :: "Item list \<Rightarrow> (bytestr, Item) mapping \<times> int \<Rightarrow> (bytestr, Item) mapping \<times> int" where
  "byIDLoop [] st = st"
| "byIDLoop (it # rest) (m, n) =
     byIDLoop rest (if ID it \<noteq> [] then (Mapping.update (ID it) it m, n + int (length (ID it))) else (m, n))"

definition buildReplacementState :: "int \<Rightarrow> Item list \<Rightarrow> bytestr + scopeReplacement" where
  "buildReplacementState nowUs its =
     (if its = [] then
        Inr \<lparr>r_items = [], r_byID = Some Mapping.empty, r_bySeq = Some Mapping.empty, r_lastSeq = 0, r_idKeyBytes = 0\<rparr>
      else case buildLoop nowUs its {} [] Mapping.empty 0 of
        Inl i \<Rightarrow> Inl i
      | Inr (built, ms, sq) \<Rightarrow>
          (case byIDLoop built (Mapping.empty, 0) of
             (mi, n) \<Rightarrow> Inr \<lparr>r_items = built, r_byID = Some mi, r_bySeq = Some ms, r_lastSeq = sq, r_idKeyBytes = n\<rparr>))"

definition sumItemBytes :: "Item list \<Rightarrow> int" where
  "sumItemBytes its = foldl (\<lambda>n it. n + approxItemSize it) 0 its"

definition adoptReplacement :: "int \<Rightarrow> scopeReplacement \<Rightarrow> int \<Rightarrow> scopeBuffer \<Rightarrow> scopeBuffer" where
  \<comment> \<open>the assignments both commits end with\<close>
  "adoptReplacement now r newBytes b =
     b\<lparr>bytes := newBytes, idKeyBytes := r_idKeyBytes r, items := r_items r, byID := r_byID r,
       bySeq := r_bySeq r, lastSeq := r_lastSeq r, bLastWriteTS := now\<rparr>"

definition commitReplacement :: "int \<Rightarrow> scopeReplacement \<Rightarrow> int \<Rightarrow> core \<Rightarrow> scopeBuffer \<Rightarrow> core \<times> scopeBuffer" where
  "commitReplacement now r newBytes c b =
     (if attached b then
        bumpLastWriteTS now (add_totalItems (int (length (r_items r)) - int (length (items b)))
          (add_totalBytes (newBytes - bytes b) c))
      else c,
      adoptReplacement now r newBytes b)"

definition commitReplacementPreReserved ::
    "int \<Rightarrow> scopeReplacement \<Rightarrow> int \<Rightarrow> int \<Rightarrow> core \<Rightarrow> scopeBuffer \<Rightarrow> core \<times> scopeBuffer" where
  "commitReplacementPreReserved now r newBytes oldSnapshot c b =
     (if attached b then
        (let drift = bytes b - oldSnapshot;
             c1 = (if drift \<noteq> 0 then add_totalBytes (- drift) c else c)
         in bumpLastWriteTS now (add_totalItems (int (length (r_items r)) - int (length (items b))) c1))
      else c,
      adoptReplacement now r newBytes b)"

definition replaceAll :: "int \<Rightarrow> int \<Rightarrow> Item list \<Rightarrow> core \<Rightarrow> scopeBuffer \<Rightarrow> (gerr + bytestr + Item list) \<times> core \<times> scopeBuffer" where
  \<comment> \<open>the two clock readings are the build's and the commit's; the inner Inl is the duplicated id\<close>
  "replaceAll t1 t2 its c b =
     (if itemCapExceeded b (int (length its)) then (Inl (ScopeFullError (int (length its)) (maxItems b)), c, b)
      else case buildReplacementState t1 its of
        Inl i \<Rightarrow> (Inr (Inl i), c, b)
      | Inr r \<Rightarrow>
          (case commitReplacement t2 r (sumItemBytes (r_items r)) c b of
             (c', b') \<Rightarrow> (Inr (Inr (items b')), c', b')))"

section \<open>What a build gives\<close>

lemma sumItemBytes_eq: "sumItemBytes its = total_size its"
proof -
  have "foldl (\<lambda>n it. n + approxItemSize it) a xs = a + total_size xs" for a xs
    by (induction xs arbitrary: a) simp_all
  then show ?thesis by (simp add: sumItemBytes_def)
qed

text \<open>The items, numbered from the seq after \<open>sq\<close> and stamped.\<close>

fun numbered :: "int \<Rightarrow> u64 \<Rightarrow> Item list \<Rightarrow> Item list" where
  "numbered nowUs sq [] = []"
| "numbered nowUs sq (src # rest) = fresh_item nowUs (sq + 1) src # numbered nowUs (sq + 1) rest"

definition nonempty_ids :: "Item list \<Rightarrow> bytestr list" where
  "nonempty_ids its = filter (\<lambda>i. i \<noteq> []) (map ID its)"

lemma fresh_item_build: "fillRender (src\<lparr>counter := None, Seq := sq, Ts := t\<rparr>) = fresh_item t sq src"
  by (simp add: fresh_item_def fillRender_eq)

lemma fresh_item_fields [simp]:
  "ID (fresh_item t sq it) = ID it" "Scope (fresh_item t sq it) = Scope it" "Seq (fresh_item t sq it) = sq"
  by (simp_all add: fresh_item_def)

lemma length_numbered [simp]: "length (numbered t sq its) = length its"
  by (induction its arbitrary: sq) simp_all

lemma numbered_ID [simp]: "map ID (numbered t sq its) = map ID its"
  by (induction its arbitrary: sq) simp_all

lemma nth_numbered:
  "i < length its \<Longrightarrow> numbered t sq its ! i = fresh_item t (sq + of_nat (Suc i)) (its ! i)"
proof (induction its arbitrary: sq i)
  case (Cons x its)
  then show ?case by (cases i) (simp_all add: ac_simps)
qed simp

lemma buildLoop_cases:
  "if distinct (nonempty_ids its) \<and> set (nonempty_ids its) \<inter> seen = {}
   then buildLoop t its seen built ms sq =
     Inr (built @ numbered t sq its,
          put_all (map (\<lambda>it. (Seq it, it)) (numbered t sq its)) ms, sq + of_nat (length its))
   else \<exists>i. buildLoop t its seen built ms sq = Inl i"
proof (induction its arbitrary: seen built ms sq)
  case Nil
  show ?case by (simp add: nonempty_ids_def)
next
  case (Cons src rest)
  let ?seen = "if ID src \<noteq> [] then insert (ID src) seen else seen"
  let ?it = "fresh_item t (sq + 1) src"
  let ?ms = "Mapping.update (sq + 1) ?it ms"
  show ?case
  proof (cases "ID src \<noteq> [] \<and> ID src \<in> seen")
    case True
    then have "set (nonempty_ids (src # rest)) \<inter> seen \<noteq> {}" by (auto simp: nonempty_ids_def)
    with True show ?thesis by simp
  next
    case False
    have run: "buildLoop t (src # rest) seen built ms sq = buildLoop t rest ?seen (built @ [?it]) ?ms (sq + 1)"
      using False by (auto simp: Let_def fresh_item_build)
    have cond: "distinct (nonempty_ids (src # rest)) \<and> set (nonempty_ids (src # rest)) \<inter> seen = {} \<longleftrightarrow>
        distinct (nonempty_ids rest) \<and> set (nonempty_ids rest) \<inter> ?seen = {}"
      using False by (auto simp: nonempty_ids_def)
    have pairs: "map (\<lambda>it. (Seq it, it)) (numbered t sq (src # rest)) =
        (sq + 1, ?it) # map (\<lambda>it. (Seq it, it)) (numbered t (sq + 1) rest)"
      by simp
    have tail: "built @ numbered t sq (src # rest) = (built @ [?it]) @ numbered t (sq + 1) rest"
      "sq + of_nat (length (src # rest)) = sq + 1 + of_nat (length rest)"
      by (simp_all add: add.assoc)
    show ?thesis unfolding run cond pairs tail put_all_simps(2) by (rule Cons.IH)
  qed
qed

lemma byIDLoop_eq:
  "byIDLoop xs (m, n) = (put_all (map (\<lambda>it. (ID it, it)) (filter (\<lambda>it. ID it \<noteq> []) xs)) m, n + id_bytes xs)"
  by (induction xs arbitrary: m n) simp_all

lemma map_of_rev_index:
  assumes "distinct (map f ys)"
  shows "map_of (rev (map (\<lambda>it. (f it, it)) ys)) k = Some x \<longleftrightarrow> x \<in> set ys \<and> f x = k"
proof -
  have "map fst (rev (map (\<lambda>it. (f it, it)) ys)) = rev (map f ys)" by (simp add: rev_map comp_def)
  then have d: "distinct (map fst (rev (map (\<lambda>it. (f it, it)) ys)))" using assms by simp
  show ?thesis using map_of_eq_Some_iff [OF d, of k x] by auto
qed

definition short :: "Item list \<Rightarrow> bool" where
  \<comment> \<open>the seqs do not run out\<close>
  "short its \<longleftrightarrow> length its < 2 ^ 64"

lemma numbered_Seq: "map Seq (numbered t 0 its) = map (\<lambda>i. of_nat (Suc i)) [0..<length its]"
  by (rule nth_equalityI) (simp_all add: nth_numbered)

lemma of_nat_less: "i < j \<Longrightarrow> j < 2 ^ 64 \<Longrightarrow> (of_nat i :: u64) < of_nat j"
  by (simp add: word_less_nat_alt unat_of_nat)

lemma of_nat_le: "i \<le> j \<Longrightarrow> j < 2 ^ 64 \<Longrightarrow> (of_nat i :: u64) \<le> of_nat j"
  by (simp add: word_le_nat_alt unat_of_nat)

lemma numbered_sorted:
  assumes "short its"
  shows "sorted_wrt (<) (map Seq (numbered t 0 its))"
proof -
  have "(of_nat (Suc i) :: u64) < of_nat (Suc j)" if "i < j" "j < length its" for i j
    using of_nat_less [of "Suc i" "Suc j"] that assms by (simp add: short_def del: of_nat_Suc)
  then show ?thesis unfolding numbered_Seq by (simp add: sorted_wrt_iff_nth_less del: of_nat_Suc)
qed

lemma numbered_bounds:
  assumes "short its" "x \<in> set (numbered t 0 its)"
  shows "0 < Seq x" "Seq x \<le> of_nat (length its)"
proof -
  obtain i where i: "i < length its" "x = numbered t 0 its ! i" using assms(2) by (auto simp: in_set_conv_nth)
  then have x: "Seq x = of_nat (Suc i)" by (simp add: nth_numbered)
  show "0 < Seq x" using of_nat_less [of 0 "Suc i"] i assms(1) unfolding x short_def by simp
  show "Seq x \<le> of_nat (length its)" using of_nat_le [of "Suc i" "length its"] i assms(1) unfolding x short_def by simp
qed

lemma buildReplacementState_cases:
  "if distinct (nonempty_ids its)
   then \<exists>r. buildReplacementState t its = Inr r \<and> r_items r = numbered t 0 its \<and>
     r_lastSeq r = of_nat (length its) \<and> r_idKeyBytes r = id_bytes (r_items r) \<and>
     (short its \<longrightarrow> indexes seq_key (set (r_items r)) (r_bySeq r) \<and> indexes id_key (set (r_items r)) (r_byID r))
   else \<exists>i. buildReplacementState t its = Inl i"
proof (cases "its = []")
  case True
  then show ?thesis by (auto simp: buildReplacementState_def nonempty_ids_def indexes_def lookup_empty_fun)
next
  case False
  let ?xs = "numbered t 0 its"
  show ?thesis
  proof (cases "distinct (nonempty_ids its)")
    case nd: False
    then show ?thesis using buildLoop_cases [of its "{}" t "[]" Mapping.empty 0] False
      by (auto simp: buildReplacementState_def split: sum.splits)
  next
    case True
    let ?ms = "put_all (map (\<lambda>it. (Seq it, it)) ?xs) Mapping.empty"
    let ?ys = "filter (\<lambda>it. ID it \<noteq> []) ?xs"
    let ?mi = "put_all (map (\<lambda>it. (ID it, it)) ?ys) Mapping.empty"
    have run: "buildReplacementState t its = Inr \<lparr>r_items = ?xs, r_byID = Some ?mi, r_bySeq = Some ?ms,
        r_lastSeq = of_nat (length its), r_idKeyBytes = id_bytes ?xs\<rparr>"
      using buildLoop_cases [of its "{}" t "[]" Mapping.empty 0] True False
      by (simp add: buildReplacementState_def byIDLoop_eq)
    have "distinct (map ID ?ys)"
      using True [unfolded nonempty_ids_def, folded numbered_ID [of t 0 its]] by (simp only: filter_map comp_def)
    then have "indexes id_key (set ?xs) (Some ?mi)"
      using map_of_rev_index [of ID ?ys] by (auto simp: indexes_def id_key_def lookup_put_all lookup_empty_fun)
    moreover have "indexes seq_key (set ?xs) (Some ?ms)" if "short its"
    proof -
      have "distinct (map Seq ?xs)" using numbered_sorted [OF that] strict_sorted_iff by blast
      then show ?thesis using map_of_rev_index [of Seq ?xs] by (auto simp: indexes_def seq_key_def lookup_put_all lookup_empty_fun)
    qed
    ultimately show ?thesis using True run by simp
  qed
qed

section \<open>Committing a built state\<close>

definition repl_ok :: "core \<Rightarrow> bytestr \<Rightarrow> scopeReplacement \<Rightarrow> bool" where
  "repl_ok c k r \<longleftrightarrow>
     sorted_wrt (<) (map Seq (r_items r)) \<and>
     (\<forall>it \<in> set (r_items r). 0 < Seq it \<and> Seq it \<le> r_lastSeq r \<and> counter it = None \<and> item_ok c k it) \<and>
     indexes seq_key (set (r_items r)) (r_bySeq r) \<and> indexes id_key (set (r_items r)) (r_byID r) \<and>
     r_idKeyBytes r = id_bytes (r_items r)"

lemma numbered_member:
  assumes "x \<in> set (numbered t sq its)"
  obtains it sq' where "it \<in> set its" "x = fresh_item t sq' it"
proof -
  obtain i where "i < length its" "x = numbered t sq its ! i" using assms by (auto simp: in_set_conv_nth)
  then have "x = fresh_item t (sq + of_nat (Suc i)) (its ! i)" "its ! i \<in> set its" by (simp_all add: nth_numbered)
  with that show thesis by blast
qed

lemma build_repl_ok:
  assumes run: "buildReplacementState t its = Inr r" and "short its" "\<forall>it \<in> set its. plain_ok c k it"
  shows "repl_ok c k r" and "length (r_items r) = length its" and "r_items r = numbered t 0 its"
    and "r_lastSeq r = of_nat (length its)" and "distinct (nonempty_ids its)"
proof -
  show d: "distinct (nonempty_ids its)" using buildReplacementState_cases [of its t] run by (auto split: if_splits)
  then have r: "r_items r = numbered t 0 its" "r_lastSeq r = of_nat (length its)"
    "r_idKeyBytes r = id_bytes (r_items r)"
    "indexes seq_key (set (r_items r)) (r_bySeq r)" "indexes id_key (set (r_items r)) (r_byID r)"
    using buildReplacementState_cases [of its t] run assms(2) by auto
  have "counter x = None \<and> item_ok c k x" if x: "x \<in> set (numbered t 0 its)" for x
  proof -
    obtain it sq' where "it \<in> set its" "x = fresh_item t sq' it" using numbered_member [OF x] .
    then show ?thesis using assms(3) plain_ok_fresh by auto
  qed
  then show "repl_ok c k r"
    using r numbered_sorted [OF assms(2)] numbered_bounds [OF assms(2)] by (simp add: repl_ok_def)
  show "length (r_items r) = length its" "r_items r = numbered t 0 its" "r_lastSeq r = of_nat (length its)"
    using r by simp_all
qed

lemma build_duplicate:
  "buildReplacementState t its = Inl i \<Longrightarrow> \<not> distinct (nonempty_ids its)"
  using buildReplacementState_cases [of its t] by (auto split: if_splits)

lemma adopt_fields [simp]:
  "attached (adoptReplacement now r n b) = attached b" "detached (adoptReplacement now r n b) = detached b"
  "maxItems (adoptReplacement now r n b) = maxItems b" "createdTS (adoptReplacement now r n b) = createdTS b"
  "items (adoptReplacement now r n b) = r_items r" "bytes (adoptReplacement now r n b) = n"
  "lastSeq (adoptReplacement now r n b) = r_lastSeq r" "bLastWriteTS (adoptReplacement now r n b) = now"
  by (simp_all add: adoptReplacement_def)

lemma cell_refs_none: "\<forall>it \<in> set xs. counter it = None \<Longrightarrow> cell_refs xs = []"
  by (induction xs) simp_all

lemma repl_cell_refs: "repl_ok c k r \<Longrightarrow> cell_refs (r_items r) = []"
  by (rule cell_refs_none) (simp add: repl_ok_def)

lemma adopt_ok:
  assumes "repl_ok c k r" "n = total_size (r_items r)" "0 \<le> maxItems b"
    "0 < maxItems b \<Longrightarrow> int (length (r_items r)) \<le> maxItems b"
  shows "buf_ok c k (adoptReplacement now r n b)" and "id_acct (adoptReplacement now r n b)"
proof -
  have "buf_inv (adoptReplacement now r n b)"
    using assms repl_cell_refs [OF assms(1)] by (simp add: buf_inv_def repl_ok_def adoptReplacement_def)
  then show "buf_ok c k (adoptReplacement now r n b)" using assms(1) by (simp add: buf_ok_def repl_ok_def)
  show "id_acct (adoptReplacement now r n b)"
    using assms(1) by (simp add: id_acct_def adoptReplacement_def repl_ok_def)
qed

text \<open>
  The stand-alone commit moves the total by the difference of the two sizes, whatever happened to the
  buffer since the caller looked. The pre-reserved commit gives back what the buffer gained since the
  snapshot, so that snapshot, reservation and commit together move it by the same difference.
\<close>

lemma commitReplacement_bytes:
  assumes "attached b" "commitReplacement now r n c b = (c', b')"
  shows "totalBytes c' = wrap64 (totalBytes c + (n - bytes b))" "bytes b' = n"
    "totalItems c' - totalItems c = int (length (items b')) - int (length (items b))"
  using assms by (auto simp: commitReplacement_def)

lemma commitPreReserved_bytes:
  assumes "attached b" "commitReplacementPreReserved now r n old c b = (c', b')" "within_cap c"
    "0 \<le> totalBytes c - (bytes b - old)" "totalBytes c - (bytes b - old) \<le> MaxInt64"
  shows "totalBytes c' = totalBytes c - (bytes b - old)" "bytes b' = n" "b' = adoptReplacement now r n b"
    "totalItems c' - totalItems c = int (length (items b')) - int (length (items b))"
    "core_config c' = core_config c" "cells c' = cells c" "scopeCount c' = scopeCount c"
    "lastWriteTS c' = max (lastWriteTS c) now" "eventsDropsTotal c' = eventsDropsTotal c"
proof -
  have "wrap64 (totalBytes c + (old - bytes b)) = totalBytes c - (bytes b - old)"
    using assms(4,5) by (subst wrap64_nonneg_id) simp_all
  moreover have c': "c' = bumpLastWriteTS now (add_totalItems (int (length (r_items r)) - int (length (items b)))
      (if bytes b - old \<noteq> 0 then add_totalBytes (- (bytes b - old)) c else c))"
    and b': "b' = adoptReplacement now r n b"
    using assms(1,2) by (auto simp: commitReplacementPreReserved_def Let_def)
  ultimately show "totalBytes c' = totalBytes c - (bytes b - old)" by simp
  show "bytes b' = n" "b' = adoptReplacement now r n b"
    "totalItems c' - totalItems c = int (length (items b')) - int (length (items b))"
    "core_config c' = core_config c" "cells c' = cells c" "scopeCount c' = scopeCount c"
    "lastWriteTS c' = max (lastWriteTS c) now" "eventsDropsTotal c' = eventsDropsTotal c"
    using c' b' by simp_all
qed

end
