(* ===== verification/StoreInv.thy ===== *)
theory StoreInv
  imports Store BufferReplace
begin

text \<open>
  The store invariant and its preservation. The lemmas of the first two parts are about the pieces the
  operations are made of (a buffer operation that meets the contract \<open>buffer_op\<close>, linking a new scope,
  unlinking one, the counters that move alone); the last part is about the operations.
\<close>

section \<open>The invariant\<close>

abbreviation linked :: "store \<Rightarrow> (bytestr \<times> nat) list" where
  "linked s \<equiv> dir_entries (sdirectory s)"

definition scope_charge :: "scopeBuffer list \<Rightarrow> bytestr \<times> nat \<Rightarrow> int" where
  "scope_charge bs p = bytes (bs ! snd p) + scopeBufferOverhead"

definition scope_items :: "scopeBuffer list \<Rightarrow> bytestr \<times> nat \<Rightarrow> int" where
  "scope_items bs p = int (length (items (bs ! snd p)))"

definition config_ok :: "core \<Rightarrow> bool" where
  "config_ok c \<longleftrightarrow> 0 < defaultMaxItems c \<and> 0 < inboxMaxItems c \<and> reservedScopesOverhead \<le> maxStoreBytes c \<and>
     defaultMaxItems c \<le> MaxInt64 \<and> maxItemBytes c \<le> eventsMaxItemBytes c \<and> 0 < maxItemBytes c"

definition linked_ok :: "core \<Rightarrow> scopeBuffer list \<Rightarrow> bytestr \<times> nat \<Rightarrow> bool" where
  "linked_ok c bs p \<longleftrightarrow> snd p < length bs \<and> fst p \<noteq> [] \<and> attached (bs ! snd p) \<and> \<not> detached (bs ! snd p) \<and>
     buf_ok c (fst p) (bs ! snd p) \<and> maxItems (bs ! snd p) = maxItemsFor c (fst p)"

definition bufs_ok :: "core \<Rightarrow> (bytestr \<times> nat) set \<Rightarrow> scopeBuffer list \<Rightarrow> bool" where
  \<comment> \<open>linked buffers are in order and share nothing; all others are detached\<close>
  "bufs_ok c E bs \<longleftrightarrow>
     inj_on snd E \<and> (\<forall>p \<in> E. linked_ok c bs p) \<and>
     (\<forall>a < length bs. a \<notin> snd ` E \<longrightarrow> detached (bs ! a) \<and> \<not> attached (bs ! a)) \<and>
     (\<forall>p \<in> E. \<forall>q \<in> E. p \<noteq> q \<longrightarrow>
        set (cell_refs (items (bs ! snd p))) \<inter> set (cell_refs (items (bs ! snd q))) = {})"

definition struct_inv :: "store \<Rightarrow> bool" where
  \<comment> \<open>the part that says nothing of the counters\<close>
  "struct_inv s \<longleftrightarrow>
     dir_inv (sdirectory s) \<and> hub_inv (shub s) \<and> config_ok (score s) \<and> cells_ok (score s) \<and>
     bufs_ok (score s) (set (linked s)) (bufs s)"

definition charged :: "store \<Rightarrow> int" where
  "charged s = sdir.total (scope_charge (bufs s)) (sdirectory s)"

definition held :: "store \<Rightarrow> int" where
  "held s = sdir.total (scope_items (bufs s)) (sdirectory s)"

definition base_inv :: "store \<Rightarrow> bool" where
  "base_inv s \<longleftrightarrow> struct_inv s \<and> within_cap (score s) \<and> totalBytes (score s) = charged s \<and>
     totalItems (score s) = held s \<and> scopeCount (score s) = int (length (linked s))"

definition store_inv :: "store \<Rightarrow> bool" where
  "store_inv s \<longleftrightarrow> base_inv s \<and> (\<forall>k \<in> set reservedScopeNames. getScope s k \<noteq> None)"

lemmas inv_defs = store_inv_def base_inv_def struct_inv_def charged_def held_def

lemma store_invD:
  assumes "store_inv s"
  shows "dir_inv (sdirectory s)" "hub_inv (shub s)" "config_ok (score s)" "within_cap (score s)" "cells_ok (score s)"
    "bufs_ok (score s) (set (linked s)) (bufs s)"
    "totalBytes (score s) = sdir.total (scope_charge (bufs s)) (sdirectory s)"
    "totalItems (score s) = sdir.total (scope_items (bufs s)) (sdirectory s)"
    "scopeCount (score s) = int (length (linked s))"
    "k \<in> set reservedScopeNames \<Longrightarrow> getScope s k \<noteq> None"
  using assms by (simp_all add: inv_defs)

lemma getScope_linked:
  assumes "store_inv s"
  shows "getScope s k = Some a \<longleftrightarrow> (k, a) \<in> set (linked s)"
  using sdir.look_iff [OF store_invD(1) [OF assms]] by (simp add: getScope_def)

lemma linked_bufD:
  assumes "store_inv s" "getScope s k = Some a"
  shows "a < length (bufs s)" "k \<noteq> []" "attached (bufs s ! a)" "\<not> detached (bufs s ! a)"
    "buf_ok (score s) k (bufs s ! a)" "buf_inv (bufs s ! a)" "maxItems (bufs s ! a) = maxItemsFor (score s) k"
proof -
  have "linked_ok (score s) (bufs s) (k, a)"
    using store_invD(6) [OF assms(1)] getScope_linked [OF assms(1)] assms(2) by (auto simp: bufs_ok_def)
  then show "a < length (bufs s)" "k \<noteq> []" "attached (bufs s ! a)" "\<not> detached (bufs s ! a)"
    "buf_ok (score s) k (bufs s ! a)" "maxItems (bufs s ! a) = maxItemsFor (score s) k"
    by (simp_all add: linked_ok_def)
  then show "buf_inv (bufs s ! a)" by (simp add: buf_ok_def)
qed

lemma scope_charge_nonneg:
  assumes "bufs_ok c E bs" "p \<in> E"
  shows "0 \<le> scope_charge bs p"
proof -
  have "buf_inv (bs ! snd p)" using assms by (auto simp: bufs_ok_def linked_ok_def buf_ok_def)
  then show ?thesis by (simp add: scope_charge_def scopeBufferOverhead_def buf_invD(6))
qed

lemma charge_le_total:
  assumes "store_inv s" "getScope s k = Some a"
  shows "bytes (bufs s ! a) + scopeBufferOverhead \<le> totalBytes (score s)"
  using sdir.total_member [OF store_invD(1) [OF assms(1)], of k a "scope_charge (bufs s)"] assms
    scope_charge_nonneg [OF store_invD(6) [OF assms(1)]] store_invD(7) [OF assms(1)]
  by (simp add: scope_charge_def getScope_def)

text \<open>Room for the seqs: every linked buffer has assigned at most \<open>m\<close> of them.\<close>

definition seqs_below :: "nat \<Rightarrow> store \<Rightarrow> bool" where
  "seqs_below m s \<longleftrightarrow> (\<forall>p \<in> set (linked s). unat (lastSeq (bufs s ! snd p)) \<le> m)"

lemma seqs_below_mono: "seqs_below m s \<Longrightarrow> m \<le> n \<Longrightarrow> seqs_below n s"
  by (auto simp: seqs_below_def)

lemma unat_minus_one: "unat (- 1 :: u64) = 2 ^ 64 - 1"
  by (simp add: unsigned_minus_1_eq_mask mask_eq_exp_minus_1)

lemma linked_ready:
  assumes "store_inv s" "getScope s k = Some a" "seqs_below m s" "m < 2 ^ 64 - 1"
  shows "ready (score s) k (bufs s ! a)"
proof -
  have "unat (lastSeq (bufs s ! a)) \<le> m"
    using assms(2,3) getScope_linked [OF assms(1)] by (auto simp: seqs_below_def)
  then have "lastSeq (bufs s ! a) \<noteq> - 1" using assms(4) unat_minus_one by (metis not_le)
  moreover have "bytes (bufs s ! a) \<le> totalBytes (score s)"
    using charge_le_total [OF assms(1,2)] by (simp add: scopeBufferOverhead_def)
  ultimately show ?thesis
    using linked_bufD [OF assms(1,2)] store_invD(4,5) [OF assms(1)] by (simp add: ready_def)
qed

section \<open>Pieces\<close>

subsection \<open>A step of one buffer\<close>

lemma bufs_ok_set:
  \<comment> \<open>a linked buffer is overwritten by one in order whose cells are its own or new\<close>
  assumes ok: "bufs_ok c E bs" and mem: "(k, a) \<in> E"
    and cfg: "core_config c' = core_config c" and len: "length (cells c) \<le> length (cells c')"
    and b': "buf_ok c' k b'" "attached b' = attached (bs ! a)" "detached b' = detached (bs ! a)"
      "maxItems b' = maxItems (bs ! a)"
    and refs: "\<And>x. x \<in> set (cell_refs (items b')) \<Longrightarrow> x \<in> set (cell_refs (items (bs ! a))) \<or> length (cells c) \<le> x"
  shows "bufs_ok c' E (bs[a := b'])"
proof -
  have mx: "maxItemsFor c' j = maxItemsFor c j" for j
    using cfg by (simp add: maxItemsFor_def core_config_def)
  have a: "linked_ok c bs (k, a)" using ok mem by (auto simp: bufs_ok_def)
  have at: "snd p = a \<longleftrightarrow> p = (k, a)" if "p \<in> E" for p
    using ok mem that by (auto simp: bufs_ok_def inj_on_def)
  have lnk: "linked_ok c' (bs[a := b']) p" if p: "p \<in> E" for p
  proof (cases "p = (k, a)")
    case True
    then show ?thesis using a b' by (simp add: linked_ok_def mx)
  next
    case False
    then have "snd p \<noteq> a" using at [OF p] by blast
    moreover have "linked_ok c bs p" using ok p by (auto simp: bufs_ok_def)
    ultimately show ?thesis using buf_ok_mono [OF _ cfg len] by (auto simp: linked_ok_def mx)
  qed
  have old: "x < length (cells c)" if px: "p \<in> E" "x \<in> set (cell_refs (items (bs ! snd p)))" for p x
  proof -
    have "buf_ok c (fst p) (bs ! snd p)" using ok px(1) by (auto simp: bufs_ok_def linked_ok_def)
    moreover obtain it where "it \<in> set (items (bs ! snd p))" "counter it = Some x"
      using px(2) unfolding cell_refs_set by blast
    ultimately show ?thesis by (auto simp: buf_ok_def item_ok_def)
  qed
  have disj: "set (cell_refs (items b')) \<inter> set (cell_refs (items (bs ! snd q))) = {}"
    if q: "q \<in> E" "q \<noteq> (k, a)" for q
  proof -
    have "\<forall>p \<in> E. p \<noteq> q \<longrightarrow> set (cell_refs (items (bs ! snd p))) \<inter> set (cell_refs (items (bs ! snd q))) = {}"
      using ok q(1) by (simp add: bufs_ok_def)
    from bspec [OF this mem] q(2) have "set (cell_refs (items (bs ! a))) \<inter> set (cell_refs (items (bs ! snd q))) = {}"
      by auto
    then show ?thesis using refs old [OF q(1)] by fastforce
  qed
  have al: "a < length bs" using a by (simp add: linked_ok_def)
  have refs_at: "cell_refs (items (bs[a := b'] ! snd p)) = (if p = (k, a) then cell_refs (items b') else cell_refs (items (bs ! snd p)))"
    if "p \<in> E" for p
    using at [OF that] al by (cases "p = (k, a)") auto
  have "set (cell_refs (items (bs[a := b'] ! snd p))) \<inter> set (cell_refs (items (bs[a := b'] ! snd q))) = {}"
    if p: "p \<in> E" and q: "q \<in> E" and pq: "p \<noteq> q" for p q
  proof -
    have both: "set (cell_refs (items (bs ! snd p))) \<inter> set (cell_refs (items (bs ! snd q))) = {}"
      using ok p q pq by (simp add: bufs_ok_def)
    consider "p = (k, a)" "q \<noteq> (k, a)" | "p \<noteq> (k, a)" "q = (k, a)" | "p \<noteq> (k, a)" "q \<noteq> (k, a)"
      using pq by blast
    then show ?thesis
    proof cases
      case 1
      then show ?thesis unfolding refs_at [OF p] refs_at [OF q] using disj [OF q 1(2)] by simp
    next
      case 2
      then show ?thesis unfolding refs_at [OF p] refs_at [OF q] using disj [OF p 2(1)] by (simp add: Int_commute)
    next
      case 3
      then show ?thesis unfolding refs_at [OF p] refs_at [OF q] using both by simp
    qed
  qed
  moreover have "detached (bs[a := b'] ! x) \<and> \<not> attached (bs[a := b'] ! x)"
    if x: "x < length (bs[a := b'])" "x \<notin> snd ` E" for x
  proof -
    have "x \<noteq> a" using x(2) mem by force
    then show ?thesis using x ok by (simp add: bufs_ok_def)
  qed
  moreover have "inj_on snd E" using ok by (simp add: bufs_ok_def)
  ultimately show ?thesis using lnk unfolding bufs_ok_def by blast
qed

lemma bufs_ok_step:
  assumes "bufs_ok c E bs" "(k, a) \<in> E" "step_ok c k (bs ! a) c' b'"
  shows "bufs_ok c' E (bs[a := b'])"
  by (rule bufs_ok_set [OF assms(1,2)]) (use assms(3) in \<open>auto simp: step_ok_def moved_def\<close>)

lemma total_at:
  assumes inv: "dir_inv d" and inj: "inj_on snd (set (dir_entries d))" and look: "dir_lookup d k = Some a"
    and len: "a < length bs"
  shows "sdir.total (\<lambda>p. f ((bs[a := b']) ! snd p)) d =
    sdir.total (\<lambda>p. f (bs ! snd p)) d + (f b' - f (bs ! a))"
proof -
  have mem: "(k, a) \<in> set (dir_entries d)" using sdir.look_iff [OF inv] look by simp
  have "f ((bs[a := b']) ! snd p) = f (bs ! snd p)" if "p \<in> set (dir_entries d)" "p \<noteq> (k, a)" for p
  proof -
    have "snd p \<noteq> a" using inj_onD [OF inj, of p "(k, a)"] that mem by auto
    then show ?thesis by simp
  qed
  from sdir.total_one [OF inv look this] show ?thesis using len by simp
qed

text \<open>Any operation that meets its contract keeps the store invariant, whichever scope it runs on.\<close>

lemma on_buf_inv:
  assumes inv: "store_inv s" and look: "getScope s k = Some a"
    and step: "step_ok (score s) k (bufs s ! a) c' b'"
  shows "store_inv (s\<lparr>score := c', bufs := (bufs s)[a := b']\<rparr>)"
proof -
  let ?s = "s\<lparr>score := c', bufs := (bufs s)[a := b']\<rparr>"
  note I = store_invD [OF inv]
  have len: "a < length (bufs s)" using linked_bufD(1) [OF inv look] .
  have look': "dir_lookup (sdirectory s) k = Some a" using look by (simp add: getScope_def)
  have mem: "(k, a) \<in> set (linked s)" using getScope_linked [OF inv] look by simp
  have inj: "inj_on snd (set (linked s))" using I(6) by (simp add: bufs_ok_def)
  have m: "core_config c' = core_config (score s)" "scopeCount c' = scopeCount (score s)"
    "totalBytes c' - totalBytes (score s) = bytes b' - bytes (bufs s ! a)"
    "totalItems c' - totalItems (score s) = int (length (items b')) - int (length (items (bufs s ! a)))"
    "within_cap c'" "cells_ok c'"
    using step by (simp_all add: step_ok_def moved_def)
  have cfg: "config_ok c'" using I(3) m(1) by (simp add: config_ok_def core_config_def)
  have "bufs_ok c' (set (linked s)) ((bufs s)[a := b'])" by (rule bufs_ok_step [OF I(6) mem step])
  moreover have "totalBytes c' = sdir.total (scope_charge ((bufs s)[a := b'])) (sdirectory s)"
    using total_at [OF I(1) inj look' len, of "\<lambda>b. bytes b + scopeBufferOverhead" b'] I(7) m(3)
    by (simp add: scope_charge_def [abs_def])
  moreover have "totalItems c' = sdir.total (scope_items ((bufs s)[a := b'])) (sdirectory s)"
    using total_at [OF I(1) inj look' len, of "\<lambda>b. int (length (items b))" b'] I(8) m(4)
    by (simp add: scope_items_def [abs_def])
  ultimately show ?thesis using I(1,2,9,10) cfg m(2,5,6) by (simp add: inv_defs getScope_def)
qed

subsection \<open>The core alone\<close>

lemma buf_ok_cong: "core_config c' = core_config c \<Longrightarrow> cells c' = cells c \<Longrightarrow> buf_ok c' k b = buf_ok c k b"
  using buf_ok_mono [of c k b c'] buf_ok_mono [of c' k b c] by auto

lemma maxItemsFor_cong: "core_config c' = core_config c \<Longrightarrow> maxItemsFor c' k = maxItemsFor c k"
  by (simp add: maxItemsFor_def core_config_def)

lemma linked_ok_cong:
  "core_config c' = core_config c \<Longrightarrow> cells c' = cells c \<Longrightarrow> linked_ok c' bs p = linked_ok c bs p"
  using buf_ok_cong [of c' c "fst p" "bs ! snd p"] maxItemsFor_cong [of c' c "fst p"] by (simp add: linked_ok_def)

lemma bufs_ok_cong: "core_config c' = core_config c \<Longrightarrow> cells c' = cells c \<Longrightarrow> bufs_ok c' E bs = bufs_ok c E bs"
  using linked_ok_cong [of c' c bs] by (simp add: bufs_ok_def)

lemma config_ok_cong: "core_config c' = core_config c \<Longrightarrow> config_ok c' = config_ok c"
  by (simp add: config_ok_def core_config_def)

lemma within_cap_cong: "core_config c' = core_config c \<Longrightarrow> totalBytes c' = totalBytes c \<Longrightarrow> within_cap c' = within_cap c"
  by (simp add: within_cap_def core_config_def)

lemma score_inv:
  assumes "store_inv s" "core_config c' = core_config (score s)" "cells c' = cells (score s)"
    "totalBytes c' = totalBytes (score s)" "totalItems c' = totalItems (score s)" "scopeCount c' = scopeCount (score s)"
  shows "store_inv (s\<lparr>score := c'\<rparr>)"
  using assms(1,3-6) bufs_ok_cong [OF assms(2,3)] config_ok_cong [OF assms(2)] within_cap_cong [OF assms(2,4)]
  by (simp add: inv_defs getScope_def cells_ok_def)

lemma dropEvent_inv: "store_inv s \<Longrightarrow> store_inv (dropEvent s)"
  unfolding dropEvent_def by (rule score_inv) simp_all

lemma bump_inv: "store_inv s \<Longrightarrow> store_inv (s\<lparr>score := bumpLastWriteTS t (score s)\<rparr>)"
  by (rule score_inv) simp_all

lemma shub_inv: "store_inv s \<Longrightarrow> hub_inv h \<Longrightarrow> store_inv (s\<lparr>shub := h\<rparr>)"
  by (simp add: inv_defs getScope_def)

lemma notify_inv: "store_inv s \<Longrightarrow> fst (notify k s) = None \<and> store_inv (snd (notify k s))"
  using notifySubscriber_inv [OF store_invD(2), of s k] shub_inv [of s "snd (notifySubscriber k (shub s))"]
  by (cases "notifySubscriber k (shub s)") (simp add: notify_def)

lemma recordRead_step:
  assumes "store_inv s" "getScope s k = Some a"
  shows "step_ok (score s) k (bufs s ! a) (score s) (recordRead now (bufs s ! a))"
  using linked_bufD [OF assms] store_invD(4,5) [OF assms(1)]
  by (simp add: step_ok_def moved_def recordRead_def buf_ok_def buf_inv_def id_acct_def)

lemma touch_inv: "store_inv s \<Longrightarrow> getScope s k = Some a \<Longrightarrow> store_inv (touch now a s)"
  using on_buf_inv [OF _ _ recordRead_step, of s k a now] by (simp add: touch_def)

subsection \<open>Linking and unlinking a scope\<close>

lemma scopeBufferOverhead_pos [simp]: "0 < scopeBufferOverhead"
  by (simp add: scopeBufferOverhead_def)

lemma bufs_ok_link:
  assumes ok: "bufs_ok c E bs" and new: "attached b" "\<not> detached b" "cell_refs (items b) = []" "buf_ok c k b" "maxItems b = maxItemsFor c k"
    and k: "k \<noteq> []"
  shows "bufs_ok c (insert (k, length bs) E) (bs @ [b])"
proof -
  have less: "snd p < length bs" if "p \<in> E" for p using ok that by (auto simp: bufs_ok_def linked_ok_def)
  have same: "(bs @ [b]) ! snd p = bs ! snd p" if "p \<in> E" for p using less [OF that] by (simp add: nth_append)
  have new_at: "(bs @ [b]) ! length bs = b" by simp
  have "length bs \<notin> snd ` E" using less by fastforce
  then have "length bs \<notin> snd ` (E - {(k, length bs)})" by blast
  then have "inj_on snd (insert (k, length bs) E)" using ok by (simp add: bufs_ok_def)
  moreover have "linked_ok c (bs @ [b]) p" if "p \<in> insert (k, length bs) E" for p
  proof (cases "p = (k, length bs)")
    case True
    then show ?thesis using new k by (simp add: linked_ok_def)
  next
    case False
    then have p: "p \<in> E" using that by simp
    have "linked_ok c bs p" using ok p by (simp add: bufs_ok_def)
    then show ?thesis unfolding linked_ok_def same [OF p] using less [OF p] by simp
  qed
  moreover have "detached ((bs @ [b]) ! x) \<and> \<not> attached ((bs @ [b]) ! x)"
    if "x < length (bs @ [b])" "x \<notin> snd ` insert (k, length bs) E" for x
    using that ok by (simp add: bufs_ok_def nth_append)
  moreover have "set (cell_refs (items ((bs @ [b]) ! snd p))) \<inter> set (cell_refs (items ((bs @ [b]) ! snd q))) = {}"
    if pq: "p \<in> insert (k, length bs) E" "q \<in> insert (k, length bs) E" "p \<noteq> q" for p q
  proof (cases "p \<in> E \<and> q \<in> E")
    case True
    then show ?thesis using ok pq(3) same [of p] same [of q] by (simp add: bufs_ok_def)
  next
    case False
    then have "snd p = length bs \<or> snd q = length bs" using pq by auto
    then have "cell_refs (items ((bs @ [b]) ! snd p)) = [] \<or> cell_refs (items ((bs @ [b]) ! snd q)) = []"
      using new(3) by (metis new_at)
    then show ?thesis by auto
  qed
  ultimately show ?thesis unfolding bufs_ok_def by blast
qed

lemma total_append:
  assumes "\<forall>p \<in> set (dir_entries d). snd p < length bs"
  shows "sdir.total (\<lambda>p. f ((bs @ [b]) ! snd p)) d = sdir.total (\<lambda>p. f (bs ! snd p)) d"
  by (rule sdir.total_cong) (use assms in \<open>simp add: nth_append\<close>)

lemma linked_less: "struct_inv s \<Longrightarrow> \<forall>p \<in> set (linked s). snd p < length (bufs s)"
  by (auto simp: struct_inv_def bufs_ok_def linked_ok_def)

lemma linkScope_fields [simp]:
  "score (linkScope k b s) = score s" "shub (linkScope k b s) = shub s" "bufs (linkScope k b s) = bufs s @ [b]"
  "sdirectory (linkScope k b s) = dir_insert k (length (bufs s)) (sdirectory s)"
  by (simp_all add: linkScope_def)

text \<open>Linking a buffer built off to the side, whatever it holds.\<close>

lemma linkScope_struct:
  assumes st: "struct_inv s" and k: "k \<noteq> []" "getScope s k = None"
    and new: "attached b" "\<not> detached b" "cell_refs (items b) = []" "buf_ok (score s) k b" "maxItems b = maxItemsFor (score s) k"
  shows "struct_inv (linkScope k b s)"
    and "charged (linkScope k b s) = charged s + bytes b + scopeBufferOverhead"
    and "held (linkScope k b s) = held s + int (length (items b))"
    and "length (linked (linkScope k b s)) = Suc (length (linked s))"
    and "getScope (linkScope k b s) j = (if j = k then Some (length (bufs s)) else getScope s j)"
proof -
  have d: "dir_inv (sdirectory s)" and ok: "bufs_ok (score s) (set (linked s)) (bufs s)"
    using st by (simp_all add: struct_inv_def)
  have look: "dir_lookup (sdirectory s) k = None" using k(2) by (simp add: getScope_def)
  note ins = sdir.ins_ok [OF d look, of "length (bufs s)"] sdir.entries_ins [OF d look, of "length (bufs s)"]
  show "length (linked (linkScope k b s)) = Suc (length (linked s))"
    using sdir.ins_entries [OF d look, of "length (bufs s)"] by simp (metis size_add_mset size_mset)
  show "charged (linkScope k b s) = charged s + bytes b + scopeBufferOverhead"
    using sdir.total_ins [OF d look, of "scope_charge (bufs s @ [b])" "length (bufs s)"]
      total_append [OF linked_less [OF st], of "\<lambda>b. bytes b + scopeBufferOverhead" b]
    by (simp add: charged_def scope_charge_def [abs_def])
  show "held (linkScope k b s) = held s + int (length (items b))"
    using sdir.total_ins [OF d look, of "scope_items (bufs s @ [b])" "length (bufs s)"]
      total_append [OF linked_less [OF st], of "\<lambda>b. int (length (items b))" b]
    by (simp add: held_def scope_items_def [abs_def])
  show "struct_inv (linkScope k b s)"
    using st ins bufs_ok_link [OF ok new k(1)] by (simp add: struct_inv_def)
  show "getScope (linkScope k b s) j = (if j = k then Some (length (bufs s)) else getScope s j)"
    using sdir.look_ins [OF d look, of "length (bufs s)" j] by (simp add: getScope_def)
qed

lemma struct_cong: "core_config c' = core_config (score s) \<Longrightarrow> cells c' = cells (score s) \<Longrightarrow>
    struct_inv (s\<lparr>score := c'\<rparr>) = struct_inv s"
  using bufs_ok_cong [of c' "score s" "set (linked s)" "bufs s"] config_ok_cong [of c' "score s"]
  by (simp add: struct_inv_def cells_ok_def)

lemma charged_score [simp]: "charged (s\<lparr>score := c\<rparr>) = charged s" "held (s\<lparr>score := c\<rparr>) = held s"
  by (simp_all add: charged_def held_def)

lemma getScope_score [simp]: "getScope (s\<lparr>score := c\<rparr>) = getScope s"
  by (simp add: getScope_def fun_eq_iff)

lemma linkScope_base:
  assumes inv: "base_inv s" and k: "k \<noteq> []" "getScope s k = None"
    and new: "attached b" "\<not> detached b" "items b = []" "buf_inv b" "maxItems b = maxItemsFor (score s) k"
    and c': "core_config c' = core_config (score s)" "cells c' = cells (score s)" "within_cap c'"
      "totalBytes c' = totalBytes (score s) + scopeBufferOverhead" "totalItems c' = totalItems (score s)"
      "scopeCount c' = scopeCount (score s) + 1"
  shows "base_inv (linkScope k b (s\<lparr>score := c'\<rparr>))"
proof -
  let ?s = "s\<lparr>score := c'\<rparr>"
  have st: "struct_inv ?s" using inv struct_cong [OF c'(1,2)] by (simp add: base_inv_def)
  have "buf_ok (score ?s) k b" using new(3,4) by (simp add: buf_ok_def)
  then have L: "struct_inv (linkScope k b ?s)" "charged (linkScope k b ?s) = charged ?s + bytes b + scopeBufferOverhead"
    "held (linkScope k b ?s) = held ?s + int (length (items b))"
    "length (linked (linkScope k b ?s)) = Suc (length (linked ?s))"
    using linkScope_struct [OF st k(1), of b] k(2) new maxItemsFor_cong [OF c'(1), of k] by simp_all
  have "bytes b = 0" using buf_invD(6) [OF new(4)] new(3) by simp
  then show ?thesis using L inv c' new(3) by (simp add: base_inv_def)
qed

lemma linkScope_inv:
  assumes inv: "store_inv s" and k: "k \<noteq> []" "getScope s k = None"
    and new: "attached b" "\<not> detached b" "items b = []" "buf_inv b" "maxItems b = maxItemsFor (score s) k"
    and c': "core_config c' = core_config (score s)" "cells c' = cells (score s)" "within_cap c'"
      "totalBytes c' = totalBytes (score s) + scopeBufferOverhead" "totalItems c' = totalItems (score s)"
      "scopeCount c' = scopeCount (score s) + 1"
  shows "store_inv (linkScope k b (s\<lparr>score := c'\<rparr>))"
proof -
  have base: "base_inv s" using inv by (simp add: store_inv_def)
  have "getScope (linkScope k b (s\<lparr>score := c'\<rparr>)) j \<noteq> None" if "j \<in> set reservedScopeNames" for j
    using store_invD(10) [OF inv that] sdir.look_ins [OF store_invD(1) [OF inv], of k "length (bufs s)" j] k(2)
    by (simp add: getScope_def)
  then show ?thesis using linkScope_base [OF base k new c'] by (simp add: store_inv_def)
qed

lemma bufs_ok_unlink:
  assumes ok: "bufs_ok c E bs" and mem: "(k, a) \<in> E"
  shows "bufs_ok c (E - {(k, a)}) (bs[a := detachBuf (bs ! a)])"
proof -
  let ?bs = "bs[a := detachBuf (bs ! a)]"
  have inj: "inj_on snd E" using ok by (simp add: bufs_ok_def)
  have ne: "snd p \<noteq> a" if "p \<in> E - {(k, a)}" for p
    using inj_onD [OF inj, of p "(k, a)"] that mem by auto
  have same: "?bs ! snd p = bs ! snd p" if "p \<in> E - {(k, a)}" for p using ne [OF that] by simp
  have "linked_ok c ?bs p" if "p \<in> E - {(k, a)}" for p
    using that ok same [OF that] by (simp add: bufs_ok_def linked_ok_def)
  moreover have "detached (?bs ! x) \<and> \<not> attached (?bs ! x)"
    if x: "x < length ?bs" "x \<notin> snd ` (E - {(k, a)})" for x
  proof (cases "x = a")
    case True
    then show ?thesis using x by (simp add: detachBuf_def)
  next
    case False
    then have "x \<notin> snd ` E" using x(2) by force
    then show ?thesis using False x ok by (simp add: bufs_ok_def)
  qed
  moreover have "set (cell_refs (items (?bs ! snd p))) \<inter> set (cell_refs (items (?bs ! snd q))) = {}"
    if "p \<in> E - {(k, a)}" "q \<in> E - {(k, a)}" "p \<noteq> q" for p q
    using that ok unfolding same [OF that(1)] same [OF that(2)] by (simp add: bufs_ok_def)
  moreover have "inj_on snd (E - {(k, a)})" using inj by (rule inj_on_diff)
  ultimately show ?thesis unfolding bufs_ok_def by blast
qed

lemma unlinkScope_inv:
  assumes inv: "store_inv s" and k: "getScope s k = Some a" "\<not> isReservedScope k"
    and c': "core_config c' = core_config (score s)" "cells c' = cells (score s)"
      "totalBytes c' = totalBytes (score s) - (bytes (bufs s ! a) + scopeBufferOverhead)"
      "totalItems c' = totalItems (score s) - int (length (items (bufs s ! a)))"
      "scopeCount c' = scopeCount (score s) - 1"
  shows "store_inv (unlinkScope k a (s\<lparr>score := c'\<rparr>))"
proof -
  note I = store_invD [OF inv]
  let ?d = "dir_delete k (sdirectory s)" let ?bs = "(bufs s)[a := detachBuf (bufs s ! a)]"
  have look: "dir_lookup (sdirectory s) k = Some a" using k(1) by (simp add: getScope_def)
  have mem: "(k, a) \<in> set (linked s)" using getScope_linked [OF inv] k(1) by simp
  have inj: "inj_on snd (set (linked s))" using I(6) by (simp add: bufs_ok_def)
  note del = sdir.del_ok [OF I(1) look] sdir.entries_del [OF I(1) look]
  have same: "?bs ! snd p = bufs s ! snd p" if "p \<in> set (dir_entries ?d)" for p
    using inj_onD [OF inj, of p "(k, a)"] that mem del(2) by (cases "snd p = a") auto
  have "length (linked s) = Suc (length (dir_entries ?d))"
    using sdir.del_entries [OF I(1) look] by (metis size_add_mset size_mset)
  moreover have "sdir.total (scope_charge ?bs) ?d = totalBytes (score s) - scope_charge (bufs s) (k, a)"
    using sdir.total_cong [of ?d "scope_charge ?bs" "scope_charge (bufs s)"] same
      sdir.total_del [OF I(1) look, of "scope_charge (bufs s)"] I(7) by (simp add: scope_charge_def)
  moreover have "sdir.total (scope_items ?bs) ?d = totalItems (score s) - scope_items (bufs s) (k, a)"
    using sdir.total_cong [of ?d "scope_items ?bs" "scope_items (bufs s)"] same
      sdir.total_del [OF I(1) look, of "scope_items (bufs s)"] I(8) by (simp add: scope_items_def)
  moreover have "bufs_ok c' (set (dir_entries ?d)) ?bs"
    unfolding del(2) bufs_ok_cong [OF c'(1,2)] using bufs_ok_unlink [OF I(6) mem] .
  moreover have "dir_lookup ?d j \<noteq> None" if "j \<in> set reservedScopeNames" for j
    using I(10) [OF that] sdir.look_del [OF I(1) look, of j] that k(2)
    by (auto simp: getScope_def isReservedScope_def)
  moreover have "within_cap c'"
  proof -
    have "0 \<le> bytes (bufs s ! a)" using buf_invD(6) [OF linked_bufD(6) [OF inv k(1)]] by simp
    then show ?thesis
      using I(4) charge_le_total [OF inv k(1)] c'(3) core_config_eqD(2) [OF c'(1)] scopeBufferOverhead_pos
      unfolding within_cap_def by linarith
  qed
  ultimately show ?thesis
    using I del(1) c' config_ok_cong [OF c'(1)]
    by (simp add: inv_defs unlinkScope_def getScope_def cells_ok_def scope_charge_def scope_items_def)
qed

end
