(* ===== verification/StoreOps.thy ===== *)
theory StoreOps
  imports StoreInv
begin

text \<open>
  Every operation of \<open>Store\<close> keeps the store invariant, panics never, and leaves no trace when it
  fails. \<open>good m\<close> is the invariant with room left in the seqs: \<open>m\<close> bounds the seqs assigned so far, and
  an operation adds at most two to it (the item and its event).
\<close>

section \<open>Buffer operations on the store\<close>

definition good :: "nat \<Rightarrow> store \<Rightarrow> bool" where
  "good m s \<longleftrightarrow> store_inv s \<and> seqs_below m s"

definition room :: "nat \<Rightarrow> bool" where
  "room m \<longleftrightarrow> m < 2 ^ 64 - 1"

lemma good_mono: "good m s \<Longrightarrow> m \<le> n \<Longrightarrow> good n s"
  by (auto simp: good_def intro: seqs_below_mono)

lemma goodD: "good m s \<Longrightarrow> store_inv s" "good m s \<Longrightarrow> seqs_below m s"
  by (simp_all add: good_def)

lemma room_less: "room m \<Longrightarrow> k \<le> m \<Longrightarrow> room k"
  by (simp add: room_def)

definition stays :: "store \<Rightarrow> store \<Rightarrow> bool" where
  \<comment> \<open>the scopes, the configuration and the subscriptions are the ones there were\<close>
  "stays s s' \<longleftrightarrow> sdirectory s' = sdirectory s \<and> core_config (score s') = core_config (score s) \<and>
     subscribers (shub s') = subscribers (shub s)"

lemma stays_refl [simp]: "stays s s"
  by (simp add: stays_def)

lemma stays_trans: "stays s t \<Longrightarrow> stays t u \<Longrightarrow> stays s u"
  by (simp add: stays_def)

lemma stays_getScope: "stays s s' \<Longrightarrow> getScope s' = getScope s"
  by (simp add: stays_def getScope_def fun_eq_iff)

lemma unat_Suc:
  assumes "w \<noteq> - 1"
  shows "unat (w + 1 :: u64) = unat w + 1"
proof -
  have "unat w \<noteq> 2 ^ 64 - 1" using assms unat_minus_one by (metis unsigned_word_eqI)
  moreover have "unat w < 2 ^ LENGTH(64)" by (rule unsigned_less)
  ultimately have "unat w + 1 < 2 ^ 64" by simp
  then show ?thesis using unat_word_ariths(1) [of w 1] by simp
qed

lemma on_buf_step:
  assumes g: "good m s" and look: "getScope s k = Some a"
    and step: "step_ok (score s) k (bufs s ! a) c' b'"
    and room: "room m"
  shows "good (m + 1) (s\<lparr>score := c', bufs := (bufs s)[a := b']\<rparr>) \<and>
    stays s (s\<lparr>score := c', bufs := (bufs s)[a := b']\<rparr>)"
proof -
  note inv = goodD(1) [OF g]
  have "store_inv (s\<lparr>score := c', bufs := (bufs s)[a := b']\<rparr>)" by (rule on_buf_inv [OF inv look step])
  moreover have "seqs_below (m + 1) (s\<lparr>score := c', bufs := (bufs s)[a := b']\<rparr>)"
  proof -
    have "lastSeq b' = lastSeq (bufs s ! a) \<or> lastSeq b' = lastSeq (bufs s ! a) + 1"
      using step by (simp add: step_ok_def moved_def)
    moreover have "lastSeq (bufs s ! a) \<noteq> - 1" "unat (lastSeq (bufs s ! a)) \<le> m"
      using linked_ready [OF inv look goodD(2) [OF g]] room getScope_linked [OF inv] look goodD(2) [OF g]
      by (auto simp: ready_def room_def seqs_below_def)
    ultimately have "unat (lastSeq b') \<le> m + 1" using unat_Suc by fastforce
    moreover have "unat (lastSeq (bufs s ! snd p)) \<le> m + 1" if "p \<in> set (linked s)" for p
      using goodD(2) [OF g] that by (auto simp: seqs_below_def intro: le_SucI)
    ultimately show ?thesis
      using linked_bufD(1) [OF inv look] by (auto simp: seqs_below_def nth_list_update)
  qed
  ultimately show ?thesis using step by (simp add: good_def stays_def step_ok_def moved_def)
qed

context buffer_op
begin

lemma on_store:
  assumes g: "good m s" and look: "getScope s k = Some a" and room: "room m"
    and adm: "admissible p (score s) k" and run: "on_buf a (operation p) s = (r, s')"
  shows "good (m + 1) s' \<and> stays s s' \<and> not_panic r \<and> (\<forall>e. r = Inl e \<longrightarrow> s' = s)"
proof -
  have rdy: "ready (score s) k (bufs s ! a)"
    using linked_ready [OF goodD(1) [OF g] look goodD(2) [OF g]] room by (simp add: room_def)
  obtain c' b' where op: "operation p (score s) (bufs s ! a) = (r, c', b')"
    "s' = s\<lparr>score := c', bufs := (bufs s)[a := b']\<rparr>"
    using run by (auto simp: on_buf_def split: prod.splits)
  have ok: "not_panic r" "step_ok (score s) k (bufs s ! a) c' b'" using safe [OF rdy adm op(1)] by simp_all
  have "s' = s" if "r = Inl e" for e
    using refused_same [OF rdy adm, of e c' b'] op that by simp
  with on_buf_step [OF g look ok(2) room] ok(1) op(2) show ?thesis by blast
qed

end

section \<open>Creating a scope\<close>

lemma newscope_facts:
  fixes now :: int
  assumes "config_ok (score s)" "\<not> isReservedScope k"
  defines "b \<equiv> store_newscopeBuffer now s"
  shows "attached b" "\<not> detached b" "items b = []" "buf_inv b" "maxItems b = maxItemsFor (score s) k" "lastSeq b = 0"
proof -
  have "buf_inv (newscopeBuffer (defaultMaxItems (score s)) now)"
    using assms(1) by (intro newscopeBuffer_inv) (simp add: config_ok_def)
  then show "buf_inv b" by (simp add: b_def store_newscopeBuffer_def buf_inv_def)
  show "attached b" "\<not> detached b" "items b = []" "lastSeq b = 0"
    by (simp_all add: b_def store_newscopeBuffer_def newscopeBuffer_def)
  show "maxItems b = maxItemsFor (score s) k"
    using assms(2) by (simp add: b_def store_newscopeBuffer_def newscopeBuffer_def maxItemsFor_def isReservedScope_iff)
qed

lemma not_reserved_missing:
  assumes "store_inv s" "getScope s k = None"
  shows "\<not> isReservedScope k"
  using store_invD(10) [OF assms(1), of k] assms(2) by (auto simp: isReservedScope_def)

lemma linkScope_getScope:
  assumes "store_inv s" "getScope s k = None"
  shows "getScope (linkScope k b (s\<lparr>score := c'\<rparr>)) j = (if j = k then Some (length (bufs s)) else getScope s j)"
  using sdir.look_ins [OF store_invD(1) [OF assms(1)], of k "length (bufs s)" j] assms(2)
  by (simp add: getScope_def linkScope_def)

lemma linkScope_seqs:
  assumes "store_inv s" "getScope s k = None" "seqs_below m s" "lastSeq b = 0"
  shows "seqs_below m (linkScope k b (s\<lparr>score := c'\<rparr>))"
proof -
  have look: "dir_lookup (sdirectory s) k = None" using assms(2) by (simp add: getScope_def)
  have "\<forall>p \<in> set (linked s). snd p < length (bufs s)"
    using store_invD(6) [OF assms(1)] by (auto simp: bufs_ok_def linked_ok_def)
  then show ?thesis
    using assms(3,4) sdir.entries_ins [OF store_invD(1) [OF assms(1)] look, of "length (bufs s)"]
    by (auto simp: seqs_below_def linkScope_def nth_append)
qed

text \<open>What creation returns, on each branch.\<close>

lemma getOrCreate_Inl:
  assumes "store_inv s" "getOrCreateScopeTrackingCreated now k s = (Inl e, s')"
  shows "s' = s \<and> (e = ScopeNameRequired \<and> k = [] \<or>
    getScope s k = None \<and> e = StoreFullError (totalBytes (score s)) scopeBufferOverhead (maxStoreBytes (score s)))"
  using assms(2) reserveBytes_grow [OF store_invD(4) [OF assms(1)], of scopeBufferOverhead]
  by (auto simp: getOrCreateScopeTrackingCreated_def Let_def split: if_splits option.splits prod.splits)

definition created_core :: "core \<Rightarrow> core" where
  "created_core c = add_scopeCount 1 (c\<lparr>totalBytes := totalBytes c + scopeBufferOverhead\<rparr>)"

lemma getOrCreate_Inr:
  assumes g: "good m s" and run: "getOrCreateScopeTrackingCreated now k s = (Inr (a, created), s')"
  shows "good m s'" "getScope s' k = Some a" "core_config (score s') = core_config (score s)"
    "cells (score s') = cells (score s)" "shub s' = shub s"
    "\<not> created \<Longrightarrow> s' = s" "created \<longleftrightarrow> getScope s k = None"
    "created \<Longrightarrow> s' = linkScope k (store_newscopeBuffer now s) (s\<lparr>score := created_core (score s)\<rparr>) \<and>
       a = length (bufs s) \<and> totalBytes (score s) + scopeBufferOverhead \<le> maxStoreBytes (score s)"
proof -
  note inv = goodD(1) [OF g]
  have k: "k \<noteq> []" using run by (auto simp: getOrCreateScopeTrackingCreated_def)
  have "good m s' \<and> getScope s' k = Some a \<and> core_config (score s') = core_config (score s) \<and>
    cells (score s') = cells (score s) \<and> shub s' = shub s \<and>
    (\<not> created \<longrightarrow> s' = s) \<and> (created \<longleftrightarrow> getScope s k = None) \<and>
    (created \<longrightarrow> s' = linkScope k (store_newscopeBuffer now s) (s\<lparr>score := created_core (score s)\<rparr>) \<and>
       a = length (bufs s) \<and> totalBytes (score s) + scopeBufferOverhead \<le> maxStoreBytes (score s))"
  proof (cases "getScope s k")
    case (Some x)
    then show ?thesis using run k g by (simp add: getOrCreateScopeTrackingCreated_def)
  next
    case None
    let ?b = "store_newscopeBuffer now s"
    have fits: "totalBytes (score s) + scopeBufferOverhead \<le> maxStoreBytes (score s)" and
      s': "s' = linkScope k ?b (s\<lparr>score := created_core (score s)\<rparr>)" and a: "a = length (bufs s)" "created"
      using run None k reserveBytes_grow [OF store_invD(4) [OF inv], of scopeBufferOverhead]
      by (auto simp: getOrCreateScopeTrackingCreated_def created_core_def Let_def split: if_splits)
    note nf = newscope_facts [OF store_invD(3) [OF inv] not_reserved_missing [OF inv None], of now]
    have "store_inv s'" unfolding s'
      by (rule linkScope_inv [OF inv k None nf(1-5)])
        (use fits store_invD(4) [OF inv] in \<open>auto simp: created_core_def within_cap_def scopeBufferOverhead_def add_scopeCount_def core_config_def\<close>)
    moreover have "seqs_below m s'" unfolding s' by (rule linkScope_seqs [OF inv None goodD(2) [OF g] nf(6)])
    moreover have "getScope s' k = Some a" unfolding s' a(1) by (simp add: linkScope_getScope [OF inv None])
    moreover have "core_config (score s') = core_config (score s)" "cells (score s') = cells (score s)" "shub s' = shub s"
      by (simp_all add: s' linkScope_def created_core_def core_config_def add_scopeCount_def)
    ultimately show ?thesis using s' a fits None by (simp add: good_def)
  qed
  then show "good m s'" "getScope s' k = Some a" "core_config (score s') = core_config (score s)"
    "cells (score s') = cells (score s)" "shub s' = shub s"
    "\<not> created \<Longrightarrow> s' = s" "created \<longleftrightarrow> getScope s k = None"
    "created \<Longrightarrow> s' = linkScope k (store_newscopeBuffer now s) (s\<lparr>score := created_core (score s)\<rparr>) \<and>
       a = length (bufs s) \<and> totalBytes (score s) + scopeBufferOverhead \<le> maxStoreBytes (score s)"
    by blast+
qed

text \<open>
  Rolling a fresh scope back restores the directory and the counters exactly; all that is left is the
  detached buffer nothing points to.
\<close>

lemma dir_delete_insert:
  assumes "dir_inv d" "dir_lookup d k = None"
  shows "dir_delete k (dir_insert k a d) = d"
proof -
  have i: "shardIdxFor d k < length (dshards d)" using assms(1) shardIdxFor_less by (simp add: dir_inv_def)
  have "k \<notin> fst ` set (shardFor d k)" using assms(2) by (simp add: dir_lookup_def map_of_eq_None_iff)
  then have del: "AList.delete k (AList.update k a (shardFor d k)) = shardFor d k"
    by (simp add: AList.delete_update_same)
  have "shardFor (dir_insert k a d) k = AList.update k a (shardFor d k)"
    using i by (simp add: shardFor_def dir_insert_def)
  then show ?thesis using del by (simp add: dir_delete_def) (simp add: dir_insert_def shardFor_def)
qed

lemma created_core_undo:
  assumes "within_cap c"
  shows "add_scopeCount (- 1) (add_totalBytes (- scopeBufferOverhead) (created_core c)) = c"
proof -
  have "wrap64 (totalBytes c) = totalBytes c" using assms by (intro wrap64_nonneg_id) (auto simp: within_cap_def)
  then show ?thesis by (simp add: created_core_def add_scopeCount_def add_totalBytes_def)
qed

definition discarded :: "store \<Rightarrow> scopeBuffer \<Rightarrow> store" where
  \<comment> \<open>the store with one more detached buffer nothing points to\<close>
  "discarded s b = s\<lparr>bufs := bufs s @ [detachBuf b]\<rparr>"

lemma cleanup_fresh:
  assumes inv: "store_inv s" and none: "getScope s k = None" and emp: "items b = []"
  shows "cleanupIfEmptyAndUnused k (length (bufs s)) (linkScope k b (s\<lparr>score := created_core (score s)\<rparr>)) = discarded s b"
proof -
  let ?s = "linkScope k b (s\<lparr>score := created_core (score s)\<rparr>)"
  have look: "dir_lookup (sdirectory s) k = None" using none by (simp add: getScope_def)
  have "getScope ?s k = Some (length (bufs s))" by (simp add: linkScope_getScope [OF inv none])
  moreover have "bufs ?s ! length (bufs s) = b" by (simp add: linkScope_def)
  moreover have "score ?s = created_core (score s)" by (simp add: linkScope_def)
  ultimately have "cleanupIfEmptyAndUnused k (length (bufs s)) ?s =
      unlinkScope k (length (bufs s)) (?s\<lparr>score := score s\<rparr>)"
    using emp created_core_undo [OF store_invD(4) [OF inv]] by (simp add: cleanupIfEmptyAndUnused_def)
  then show ?thesis
    using dir_delete_insert [OF store_invD(1) [OF inv] look]
    by (simp add: unlinkScope_def linkScope_def discarded_def)
qed

lemma discarded_good:
  assumes "good m s"
  shows "good m (discarded s b)" "stays s (discarded s b)"
proof -
  note inv = goodD(1) [OF assms]
  have less: "\<forall>p \<in> set (linked s). snd p < length (bufs s)"
    using store_invD(6) [OF inv] by (auto simp: bufs_ok_def linked_ok_def)
  let ?bs = "bufs s @ [detachBuf b]"
  have same: "?bs ! snd p = bufs s ! snd p" if "p \<in> set (linked s)" for p using less that by (simp add: nth_append)
  have "bufs_ok (score s) (set (linked s)) ?bs"
  proof -
    note ok = store_invD(6) [OF inv, unfolded bufs_ok_def]
    have "linked_ok (score s) ?bs p" if "p \<in> set (linked s)" for p
      using ok that less unfolding linked_ok_def same [OF that] by (simp add: less_SucI)
    moreover have "detached (?bs ! x) \<and> \<not> attached (?bs ! x)" if "x < length ?bs" "x \<notin> snd ` set (linked s)" for x
      using ok that by (auto simp: nth_append detachBuf_def less_Suc_eq)
    moreover have "set (cell_refs (items (?bs ! snd p))) \<inter> set (cell_refs (items (?bs ! snd q))) = {}"
      if "p \<in> set (linked s)" "q \<in> set (linked s)" "p \<noteq> q" for p q
      using ok that unfolding same [OF that(1)] same [OF that(2)] by blast
    ultimately show ?thesis using ok unfolding bufs_ok_def by blast
  qed
  moreover have "sdir.total (scope_charge ?bs) (sdirectory s) = sdir.total (scope_charge (bufs s)) (sdirectory s)"
    "sdir.total (scope_items ?bs) (sdirectory s) = sdir.total (scope_items (bufs s)) (sdirectory s)"
    by (rule sdir.total_cong, simp only: scope_charge_def scope_items_def same)+
  ultimately have "store_inv (discarded s b)"
    using inv by (simp add: inv_defs discarded_def getScope_def)
  moreover have "seqs_below m (discarded s b)" using goodD(2) [OF assms] same by (simp add: seqs_below_def discarded_def)
  ultimately show "good m (discarded s b)" by (simp add: good_def)
  show "stays s (discarded s b)" by (simp add: stays_def discarded_def)
qed

text \<open>
  What is left of a request that failed after it looked up or created its scope: nothing, or one
  discarded buffer.
\<close>

definition no_trace :: "store \<Rightarrow> store \<Rightarrow> bool" where
  "no_trace s s' \<longleftrightarrow> s' = s \<or> (\<exists>b. s' = discarded s b)"

lemma no_trace_refl [simp]: "no_trace s s"
  by (simp add: no_trace_def)

lemma no_trace_good: "good m s \<Longrightarrow> no_trace s s' \<Longrightarrow> good m s' \<and> stays s s'"
  using discarded_good by (auto simp: no_trace_def)

lemma no_trace_fields: "no_trace s s' \<Longrightarrow> score s' = score s \<and> sdirectory s' = sdirectory s \<and> shub s' = shub s"
  by (auto simp: no_trace_def discarded_def)

lemma undoCreate_no_trace:
  assumes g: "good m s" and run: "getOrCreateScopeTrackingCreated now k s = (Inr (a, created), s1)"
    and e: "\<forall>p. e \<noteq> GoPanic p"
  shows "no_trace s (undoCreate created k a e s1)"
proof (cases created)
  case False
  then show ?thesis using getOrCreate_Inr(6) [OF g run] e by (simp add: undoCreate_def split: gerr.splits)
next
  case True
  then have none: "getScope s k = None" using getOrCreate_Inr(7) [OF g run] by simp
  let ?b = "store_newscopeBuffer now s"
  have s1: "s1 = linkScope k ?b (s\<lparr>score := created_core (score s)\<rparr>)" "a = length (bufs s)"
    using getOrCreate_Inr(8) [OF g run] True by simp_all
  have emp: "items ?b = []"
    using newscope_facts(3) [OF store_invD(3) [OF goodD(1) [OF g]] not_reserved_missing [OF goodD(1) [OF g] none]] .
  have "undoCreate created k a e s1 = discarded s ?b"
    using True e cleanup_fresh [OF goodD(1) [OF g] none emp] s1 by (simp add: undoCreate_def split: gerr.splits)
  then show ?thesis by (auto simp: no_trace_def)
qed

section \<open>Append\<close>

lemma client_plain_ok:
  assumes "client_item it" "payload_ok (Payload it)" "approxItemSize (fillRender it) \<le> maxItemBytesFor c (Scope it)"
  shows "plain_ok c (Scope it) (fillRender it)"
proof -
  have f: "fillRender it = it\<lparr>renderBytes := precomputeRenderBytes (Payload it)\<rparr>" "counter it = None"
    using assms(1) by (simp_all add: client_item_def fillRender_def)
  have id: "fillRender ((fillRender it)\<lparr>counter := None\<rparr>) = fillRender it"
  proof -
    have "(fillRender it)\<lparr>counter := None\<rparr> = fillRender it" using f by simp
    moreover have "fillRender (fillRender it) = fillRender it" by (simp add: f(1) fillRender_def)
    ultimately show ?thesis by simp
  qed
  have "item_ok c (Scope it) (fillRender it)"
    using assms f by (simp add: item_ok_def)
  then show ?thesis by (simp only: plain_ok_def id)
qed

lemma validated_plain_ok:
  assumes "client_item it" "validateWriteItem it ep (maxItemBytesFor c (Scope it)) = Inr it1"
  shows "plain_ok c (Scope it1) it1" "Scope it1 = Scope it" "ID it1 = ID it" "Payload it1 = Payload it" "scope_ok (Scope it)"
  using assms client_plain_ok [OF assms(1), of c] by (simp_all add: validateWriteItem_Inr)

lemma plain_ok_cong: "core_config c' = core_config c \<Longrightarrow> cells c' = cells c \<Longrightarrow> plain_ok c' k it = plain_ok c k it"
  using item_ok_mono [of c k "fillRender (it\<lparr>counter := None\<rparr>)" c'] item_ok_mono [of c' k "fillRender (it\<lparr>counter := None\<rparr>)" c]
  by (auto simp: plain_ok_def)

definition commitAppend :: "clock \<Rightarrow> Item \<Rightarrow> store \<Rightarrow> Item res \<times> store" where
  \<comment> \<open>\<open>appendOne\<close> up to the committed item: validate, find or create the scope, append or roll back\<close>
  "commitAppend clk it s =
     (case validateWriteItem it ''/append'' (maxItemBytesFor (score s) (Scope it)) of
        Inl e \<Rightarrow> (Inl e, s)
      | Inr it1 \<Rightarrow>
          (case getOrCreateScopeTrackingCreated (clk 0) (Scope it1) s of
             (Inl e, s1) \<Rightarrow> (Inl e, s1)
           | (Inr (a, created), s1) \<Rightarrow>
               (case on_buf a (appendItem (clk 1) it1) s1 of
                  (Inl e, s2) \<Rightarrow> (Inl e, undoCreate created (Scope it1) a e s2)
                | (Inr result, s2) \<Rightarrow> (Inr result, s2))))"

lemma appendOne_unfold:
  "appendOne clk it s =
     (case commitAppend clk it s of
        (Inl e, s') \<Rightarrow> (Inl e, s')
      | (Inr result, s2) \<Rightarrow>
          (case (if eventsEnabled s2 (Scope result)
                 then emitWith (appendOne (later 2 clk)) (appendEvent result) s2 else (None, s2)) of
             (Some p, s3) \<Rightarrow> (Inl (GoPanic p), s3)
           | (None, s3) \<Rightarrow>
               (case (if isReservedScope (Scope result) then notify (Scope result) s3 else (None, s3)) of
                  (Some p, s4) \<Rightarrow> (Inl (GoPanic p), s4)
                | (None, s4) \<Rightarrow> (Inr result, s4))))"
  unfolding commitAppend_def by (subst appendOne.simps) (simp split: sum.splits prod.splits)

lemma commitAppend_good:
  assumes g: "good m s" and room: "room m" and cl: "client_item it"
    and run: "commitAppend clk it s = (r, s')"
  shows "good (m + 1) s'" "not_panic r" "core_config (score s') = core_config (score s)"
    "\<And>e. r = Inl e \<Longrightarrow> no_trace s s'" "\<And>x. r = Inr x \<Longrightarrow> Scope x = Scope it"
    "getScope s (Scope it) \<noteq> None \<Longrightarrow> stays s s'" "shub s' = shub s"
proof -
  have "good (m + 1) s' \<and> not_panic r \<and> core_config (score s') = core_config (score s) \<and>
    (\<forall>e. r = Inl e \<longrightarrow> no_trace s s') \<and> (\<forall>x. r = Inr x \<longrightarrow> Scope x = Scope it) \<and>
    (getScope s (Scope it) \<noteq> None \<longrightarrow> stays s s') \<and> shub s' = shub s"
  proof (cases "validateWriteItem it ''/append'' (maxItemBytesFor (score s) (Scope it))")
    case (Inl e)
    then have "r = Inl e" "s' = s" using run by (simp_all add: commitAppend_def)
    moreover have "\<exists>q. e = InvalidInput q" using Inl
      by (auto simp: validateWriteItem_def wrapValidation_def split: prod.splits option.splits)
    ultimately show ?thesis using good_mono [OF g] by (auto simp: not_panic_def)
  next
    case (Inr it1)
    note v = validated_plain_ok [OF cl Inr]
    obtain q s1 where goc: "getOrCreateScopeTrackingCreated (clk 0) (Scope it1) s = (q, s1)" by (metis surj_pair)
    show ?thesis
    proof (cases q)
      case (Inl e)
      then have "r = Inl e" "s' = s1" using run Inr goc by (simp_all add: commitAppend_def)
      then show ?thesis
        using getOrCreate_Inl [OF goodD(1) [OF g] goc [unfolded Inl]] good_mono [OF g] by (auto simp: not_panic_def)
    next
      case q: (Inr ac)
      obtain a created where ac: "ac = (a, created)" by (metis surj_pair)
      note C = getOrCreate_Inr [OF g goc [unfolded q ac]]
      have adm: "plain_ok (score s1) (Scope it1) it1" using v(1) plain_ok_cong [OF C(3,4)] by simp
      obtain r2 s2 where ob: "on_buf a (appendItem (clk 1) it1) s1 = (r2, s2)" by (metis surj_pair)
      have step: "good (m + 1) s2 \<and> stays s1 s2 \<and> not_panic r2 \<and> (\<forall>e. r2 = Inl e \<longrightarrow> s2 = s1)"
        using append_op.on_store [OF C(1,2) room, of "(clk 1, it1)" r2 s2] adm ob by simp
      have hub: "shub s2 = shub s1" using ob by (auto simp: on_buf_def split: prod.splits)
      show ?thesis
      proof (cases r2)
        case e: (Inl e)
        have np: "\<forall>p. e \<noteq> GoPanic p" using step e by (auto simp: not_panic_def)
        have "r = Inl e" "s' = undoCreate created (Scope it1) a e s1"
          using run Inr goc q ac ob e step by (simp_all add: commitAppend_def)
        then show ?thesis
          using undoCreate_no_trace [OF g goc [unfolded q ac] np] no_trace_good [OF g, of s'] no_trace_fields [of s s']
            good_mono [of m s' "m + 1"] np by (auto simp: not_panic_def)
      next
        case x: (Inr x)
        have rs: "r = Inr x" "s' = s2" using run Inr goc q ac ob x by (simp_all add: commitAppend_def)
        have "Scope x = Scope it" using on_buf_append_Scope [OF ob [unfolded x]] v(2) by simp
        moreover have "stays s s2" if "getScope s (Scope it) \<noteq> None"
          using C(6,7) that v(2) step by auto
        moreover have "core_config (score s2) = core_config (score s)" using step C(3) by (simp add: stays_def)
        ultimately show ?thesis using step rs hub C(5) by simp
      qed
    qed
  qed
  then show "good (m + 1) s'" "not_panic r" "core_config (score s') = core_config (score s)"
    "\<And>e. r = Inl e \<Longrightarrow> no_trace s s'" "\<And>x. r = Inr x \<Longrightarrow> Scope x = Scope it"
    "getScope s (Scope it) \<noteq> None \<Longrightarrow> stays s s'" "shub s' = shub s"
    by blast+
qed

lemma events_linked: "good m s \<Longrightarrow> getScope s EventsScopeName \<noteq> None"
  using store_invD(10) [OF goodD(1)] by (simp add: reservedScopeNames_def)

lemma notify_good:
  assumes "good m s" "notify k s = (p, s')"
  shows "p = None" "good m s'" "stays s s'" "score s' = score s"
proof -
  have s': "s' = s\<lparr>shub := snd (notifySubscriber k (shub s))\<rparr>"
    using assms(2) by (auto simp: notify_def split: prod.splits)
  show "p = None" using notify_inv [OF goodD(1) [OF assms(1)], of k] assms(2) by simp
  show "good m s'" using notify_inv [OF goodD(1) [OF assms(1)], of k] assms goodD(2) [OF assms(1)] s'
    by (simp add: good_def seqs_below_def)
  show "stays s s'" "score s' = score s" using s'
    by (simp_all add: stays_def notifySubscriber_def try_send_def split: option.splits)
qed

text \<open>Appending an event.\<close>

lemma appendOne_events:
  assumes g: "good m s" and room: "room m" and cl: "client_item it" and ev: "Scope it = EventsScopeName"
    and run: "appendOne clk it s = (r, s')"
  shows "good (m + 1) s' \<and> stays s s' \<and> not_panic r \<and> (\<forall>e. r = Inl e \<longrightarrow> no_trace s s')"
proof -
  obtain r1 s1 where ca: "commitAppend clk it s = (r1, s1)" by (metis surj_pair)
  note C = commitAppend_good [OF g room cl ca]
  have st: "stays s s1" using C(6) ev events_linked [OF g] by simp
  show ?thesis
  proof (cases r1)
    case (Inl e)
    then have "r = Inl e" "s' = s1" using run ca by (simp_all add: appendOne_unfold [of clk it s])
    then show ?thesis using C(1,2,4) st Inl by simp
  next
    case (Inr x)
    have sc: "Scope x = EventsScopeName" using C(5) Inr ev by simp
    obtain p s4 where n: "notify (Scope x) s1 = (p, s4)" by (metis surj_pair)
    note N = notify_good [OF C(1) n]
    have "r = Inr x" "s' = s4" using run ca Inr sc n N(1)
      by (simp_all add: appendOne_unfold [of clk it s] eventsEnabled_def isReservedScope_iff)
    then show ?thesis using N st stays_trans by auto
  qed
qed

lemma dropEvent_good: "good m s \<Longrightarrow> good m (dropEvent s) \<and> stays s (dropEvent s)"
  using dropEvent_inv [of s] by (simp add: good_def seqs_below_def stays_def dropEvent_def)

lemma emitWith_good:
  assumes g: "good m s" and room: "room m" and run: "emitWith (appendOne clk) evt s = (p, s')"
  shows "p = None \<and> good (m + 1) s' \<and> stays s s'"
proof -
  let ?evt = "if eventsMode (score s) = EventsModeNotify then evt\<lparr>ev_Payload := None\<rparr> else evt"
  show ?thesis
  proof (cases "marshal_writeEvent ?evt")
    case None
    then have "p = None" "s' = dropEvent s" using run by (simp_all add: emitWith_def)
    then show ?thesis using dropEvent_good [OF good_mono [OF g, of "m + 1"]] by simp
  next
    case (Some body)
    let ?it = "Item_zero\<lparr>Scope := EventsScopeName, Payload := Some body\<rparr>"
    obtain r1 s1 where ap: "appendOne clk ?it s = (r1, s1)" by (metis surj_pair)
    have "client_item ?it" "Scope ?it = EventsScopeName" by (simp_all add: client_item_def Item_zero_def)
    note A = appendOne_events [OF g room this ap]
    have "p = None \<and> (s' = s1 \<or> s' = dropEvent s1)"
      using run Some ap A by (auto simp: emitWith_def not_panic_def split: sum.splits gerr.splits)
    then show ?thesis using A dropEvent_good [of "m + 1" s1] stays_trans by auto
  qed
qed

lemma appendOne_good:
  assumes g: "good m s" and room: "room (m + 1)" and cl: "client_item it" and run: "appendOne clk it s = (r, s')"
  shows "good (m + 2) s'" "not_panic r" "\<And>e. r = Inl e \<Longrightarrow> no_trace s s'"
    "core_config (score s') = core_config (score s)"
proof -
  obtain r1 s1 where ca: "commitAppend clk it s = (r1, s1)" by (metis surj_pair)
  have room': "room m" using room by (rule room_less) simp
  note C = commitAppend_good [OF g room' cl ca]
  have "good (m + 2) s' \<and> not_panic r \<and> (\<forall>e. r = Inl e \<longrightarrow> no_trace s s') \<and>
    core_config (score s') = core_config (score s)"
  proof (cases r1)
    case (Inl e)
    then have "r = Inl e" "s' = s1" using run ca by (simp_all add: appendOne_unfold [of clk it s])
    then show ?thesis using C(2,3,4) Inl good_mono [OF C(1), of "m + 2"] by simp
  next
    case (Inr x)
    obtain p s3 where em: "(if eventsEnabled s1 (Scope x)
        then emitWith (appendOne (later 2 clk)) (appendEvent x) s1 else (None, s1)) = (p, s3)" by (metis surj_pair)
    have E: "p = None \<and> good (m + 2) s3 \<and> stays s1 s3"
      using emitWith_good [OF C(1) room, of "later 2 clk" "appendEvent x" p s3] em good_mono [OF C(1), of "m + 2"]
      by (auto split: if_splits)
    obtain p' s4 where nt: "(if isReservedScope (Scope x) then notify (Scope x) s3 else (None, s3)) = (p', s4)"
      by (metis surj_pair)
    have N: "p' = None \<and> good (m + 2) s4 \<and> stays s3 s4"
      using notify_good [of "m + 2" s3 "Scope x" p' s4] E nt by (auto split: if_splits)
    have "r = Inr x" "s' = s4" using run ca Inr em nt E N by (simp_all add: appendOne_unfold [of clk it s])
    then show ?thesis using E N C(3) by (simp add: stays_def)
  qed
  then show "good (m + 2) s'" "not_panic r" "\<And>e. r = Inl e \<Longrightarrow> no_trace s s'"
    "core_config (score s') = core_config (score s)" by blast+
qed

end
