(* ===== verification/StoreClient.thy ===== *)
theory StoreClient
  imports StoreOps
begin

text \<open>
  The remaining operations of the store: each keeps \<open>good\<close>, panics never, and leaves no trace when it
  fails. An operation that creates its scope on demand shares one lemma (\<open>create_and_run\<close>), an operation
  on an existing scope another (\<open>run_existing\<close>).
\<close>

section \<open>An event touches nothing but its own scope\<close>

definition quiet :: "store \<Rightarrow> store \<Rightarrow> bool" where
  "quiet s s' \<longleftrightarrow> sdirectory s' = sdirectory s \<and> cells (score s') = cells (score s) \<and>
     core_config (score s') = core_config (score s) \<and> length (bufs s) \<le> length (bufs s') \<and>
     (\<forall>a < length (bufs s). getScope s EventsScopeName \<noteq> Some a \<longrightarrow> bufs s' ! a = bufs s ! a)"

lemma quiet_refl [simp]: "quiet s s"
  by (simp add: quiet_def)

lemma quiet_trans: "quiet s t \<Longrightarrow> quiet t u \<Longrightarrow> quiet s u"
  by (simp add: quiet_def getScope_def)

lemma quiet_getScope: "quiet s s' \<Longrightarrow> getScope s' = getScope s"
  by (simp add: quiet_def getScope_def fun_eq_iff)

lemma appendItem_cells: "appendItem now it c b = (r, c', b') \<Longrightarrow> cells c' = cells c"
  by (auto simp: appendItem_def insertNewItemLocked_def reserveFor_def reserveBytes_def Let_def
      split: if_splits prod.splits option.splits)

lemma no_trace_quiet: "no_trace s s' \<Longrightarrow> quiet s s'"
  by (auto simp: no_trace_def quiet_def discarded_def nth_append)

lemma commitAppend_quiet:
  assumes g: "good m s" and room: "room m" and cl: "client_item it" and ev: "Scope it = EventsScopeName"
    and run: "commitAppend clk it s = (r, s')"
  shows "quiet s s'"
proof (cases r)
  case (Inl e)
  then show ?thesis using commitAppend_good(4) [OF g room cl run] no_trace_quiet by blast
next
  case (Inr x)
  obtain b where b: "getScope s EventsScopeName = Some b" using events_linked [OF g] by blast
  obtain it1 a created s1 where st: "validateWriteItem it ''/append'' (maxItemBytesFor (score s) (Scope it)) = Inr it1"
    "getOrCreateScopeTrackingCreated (clk 0) (Scope it1) s = (Inr (a, created), s1)"
    "on_buf a (appendItem (clk 1) it1) s1 = (Inr x, s')"
    using run Inr by (auto simp: commitAppend_def split: sum.splits prod.splits)
  have sc: "Scope it1 = EventsScopeName" using validateWriteItem_Scope [OF st(1)] ev by simp
  note C = getOrCreate_Inr [OF g st(2)]
  have "s1 = s" "a = b" using C(6,7) b C(2) sc by auto
  then show ?thesis
    using st(3) b commitAppend_good(3) [OF g room cl run] appendItem_cells [of "clk 1" it1 "score s" "bufs s ! a"]
    by (auto simp: quiet_def on_buf_def split: prod.splits)
qed

lemma notify_quiet: "notify k s = (p, s') \<Longrightarrow> quiet s s'"
  by (auto simp: notify_def quiet_def split: prod.splits)

lemma dropEvent_quiet: "quiet s (dropEvent s)"
  by (simp add: quiet_def dropEvent_def core_config_def)

lemma emitWith_quiet:
  assumes g: "good m s" and room: "room m" and run: "emitWith (appendOne clk) evt s = (p, s')"
  shows "quiet s s'"
proof -
  let ?evt = "if eventsMode (score s) = EventsModeNotify then evt\<lparr>ev_Payload := None\<rparr> else evt"
  show ?thesis
  proof (cases "marshal_writeEvent ?evt")
    case None
    then show ?thesis using run dropEvent_quiet by (auto simp: emitWith_def)
  next
    case (Some body)
    let ?it = "Item_zero\<lparr>Scope := EventsScopeName, Payload := Some body\<rparr>"
    obtain r1 s1 where ca: "commitAppend clk ?it s = (r1, s1)" by (metis surj_pair)
    have it: "client_item ?it" "Scope ?it = EventsScopeName" by (simp_all add: client_item_def Item_zero_def)
    have q1: "quiet s s1" by (rule commitAppend_quiet [OF g room it ca])
    obtain r2 s2 where ap: "appendOne clk ?it s = (r2, s2)" by (metis surj_pair)
    have "quiet s1 s2"
    proof (cases r1)
      case (Inl e)
      then show ?thesis using ap ca by (simp add: appendOne_unfold [of clk ?it s])
    next
      case (Inr x)
      have sc: "Scope x = EventsScopeName" using commitAppend_good(5) [OF g room it(1) ca Inr] it(2) by simp
      obtain p s4 where n: "notify (Scope x) s1 = (p, s4)" by (metis surj_pair)
      have "p = None" using notify_good(1) [OF commitAppend_good(1) [OF g room it(1) ca] n] .
      then have "s2 = s4" using ap ca Inr sc n
        by (simp add: appendOne_unfold [of clk ?it s] eventsEnabled_def isReservedScope_iff)
      then show ?thesis using notify_quiet [OF n] by simp
    qed
    then have "quiet s s2" using q1 quiet_trans by blast
    moreover have "s' = s2 \<or> s' = dropEvent s2"
      using run Some ap by (auto simp: emitWith_def split: sum.splits gerr.splits)
    ultimately show ?thesis using dropEvent_quiet [of s2] quiet_trans by blast
  qed
qed

lemma emitFor_quiet:
  assumes "good m s" "room m" "emitFor k clk evt s = (p, s')"
  shows "quiet s s'"
  using assms(3) emitWith_quiet [OF assms(1,2), of clk evt p s']
  by (auto simp: emitFor_def emitEvent_def split: if_splits)

lemma returning_quiet:
  assumes "good m s" "room m" "returning x (emitFor k clk evt s) = (r, s')"
  shows "quiet s s'"
  using assms(3) emitFor_quiet [OF assms(1,2), of k clk evt]
  by (auto simp: returning_def split: prod.splits option.splits)

section \<open>The two shapes\<close>

context buffer_op
begin

lemma create_and_run:
  assumes g: "good m s" and room: "room m"
    and goc: "getOrCreateScopeTrackingCreated now k s = (Inr (a, created), s1)"
    and adm: "\<And>c. core_config c = core_config (score s) \<Longrightarrow> cells c = cells (score s) \<Longrightarrow> admissible p c k"
    and run: "on_buf a (operation p) s1 = (r, s2)"
  shows "good (m + 1) s2" "not_panic r" "core_config (score s2) = core_config (score s)"
    "\<And>e. r = Inl e \<Longrightarrow> no_trace s (undoCreate created k a e s2)" "stays s1 s2"
proof -
  note C = getOrCreate_Inr [OF g goc]
  have step: "good (m + 1) s2 \<and> stays s1 s2 \<and> not_panic r \<and> (\<forall>e. r = Inl e \<longrightarrow> s2 = s1)"
    by (rule on_store [OF C(1,2) room adm [OF C(3,4)] run])
  then show "good (m + 1) s2" "not_panic r" "stays s1 s2" by simp_all
  show "core_config (score s2) = core_config (score s)" using step C(3) by (simp add: stays_def)
  fix e assume e: "r = Inl e"
  then have "s2 = s1" "\<forall>p. e \<noteq> GoPanic p" using step by (auto simp: not_panic_def)
  then show "no_trace s (undoCreate created k a e s2)" using undoCreate_no_trace [OF g goc] by simp
qed

end

lemma emitFor_good:
  assumes "good m s" "room m" "emitFor k clk evt s = (p, s')"
  shows "p = None \<and> good (m + 1) s' \<and> stays s s'"
  using assms(3) emitWith_good [OF assms(1,2), of clk evt p s'] good_mono [OF assms(1), of "m + 1"]
  by (auto simp: emitFor_def emitEvent_def split: if_splits)

lemma returning_emitFor:
  assumes "good m s" "room m" "returning x (emitFor k clk evt s) = (r, s')"
  shows "r = Inr x \<and> good (m + 1) s' \<and> stays s s'"
  using assms(3) emitFor_good [OF assms(1,2), of k clk evt]
  by (auto simp: returning_def split: prod.splits option.splits)

lemmas emit_defs = emitUpsertEvent_def emitUpdateEvent_def emitCounterAddEvent_def emitDeleteEvent_def
  emitDeleteUpToEvent_def emitDeleteScopeEvent_def

definition op_ok :: "nat \<Rightarrow> store \<Rightarrow> 'a res \<Rightarrow> store \<Rightarrow> bool" where
  \<comment> \<open>what every store operation promises\<close>
  "op_ok m s r s' \<longleftrightarrow> good (m + 2) s' \<and> not_panic r \<and> (\<forall>e. r = Inl e \<longrightarrow> no_trace s s') \<and>
     core_config (score s') = core_config (score s)"

lemma op_okI_err: "good m s \<Longrightarrow> no_trace s s' \<Longrightarrow> not_panic (Inl e :: 'a res) \<Longrightarrow> op_ok m s (Inl e :: 'a res) s'"
  using no_trace_good [of m s s'] good_mono [of m s' "m + 2"] by (simp add: op_ok_def stays_def)

lemma op_okI_same: "good m s \<Longrightarrow> not_panic r \<Longrightarrow> op_ok m s r s"
  using good_mono [of m s "m + 2"] by (simp add: op_ok_def)

lemma op_okI_emit:
  assumes "good (m + 1) t" "room (m + 1)" "core_config (score t) = core_config (score s)"
    "returning x (emitFor k clk evt t) = (r, s')"
  shows "op_ok m s r s'"
  using returning_emitFor [OF assms(1,2,4)] assms(3) by (simp add: op_ok_def stays_def)

lemma run_existing:
  \<comment> \<open>an operation on a scope there is, and its event when it did something\<close>
  assumes "good m s" "room (m + 1)"
    and step: "good (m + 1) s2 \<and> stays s s2 \<and> not_panic r2 \<and> (\<forall>e. r2 = Inl e \<longrightarrow> s2 = s)"
    and run: "(case r2 of Inl e \<Rightarrow> (Inl e, s2)
      | Inr n \<Rightarrow> if 0 < n then returning n (emitFor k clk evt s2) else (Inr n, s2)) = (r, s')"
  shows "op_ok m s (r :: int res) s'"
proof (cases "\<exists>n. r2 = Inr n \<and> 0 < n")
  case True
  then obtain n where n: "r2 = Inr n" "returning n (emitFor k clk evt s2) = (r, s')" using run by auto
  show ?thesis by (rule op_okI_emit [OF _ assms(2) _ n(2)]) (use step in \<open>simp_all add: stays_def\<close>)
next
  case False
  then have "r = r2" "s' = s2" using run by (auto split: sum.splits)
  then show ?thesis using step good_mono [of "m + 1" s2 "m + 2"] by (auto simp: op_ok_def stays_def)
qed

lemma wrap_not_panic [simp]: "not_panic (wrapValidation e x)"
  by (simp add: wrapValidation_def split: option.splits)

lemma wrap_Inl_not_panic: "wrapValidation e x = Inl y \<Longrightarrow> not_panic (Inl y)"
  by (auto simp: wrapValidation_def split: option.splits)

lemma not_panic_retype: "not_panic (Inl e :: 'a res) \<Longrightarrow> not_panic (Inl e :: 'b res)"
  by (simp add: not_panic_def)

lemma validated_not_panic:
  "validateUpsertItem it cap = Inl e \<Longrightarrow> not_panic (Inl e :: 'a res)"
  "validateUpdateItem it cap = Inl e \<Longrightarrow> not_panic (Inl e :: 'a res)"
  "validateCounterAddRequest cr cap = Inl e \<Longrightarrow> not_panic (Inl e :: 'a res)"
  "validateDeleteRequest dr = Inl e \<Longrightarrow> not_panic (Inl e :: 'a res)"
  "validateDeleteScopeRequest dsr = Inl e \<Longrightarrow> not_panic (Inl e :: 'a res)"
  "validateDeleteUpToRequest dur = Inl e \<Longrightarrow> not_panic (Inl e :: 'a res)"
  by (auto simp: validateUpsertItem_def validateUpdateItem_def validateCounterAddRequest_def
      validateDeleteRequest_def validateDeleteScopeRequest_def validateDeleteUpToRequest_def Let_def
      wrapValidation_def not_panic_def split: prod.splits option.splits)

lemma getOrCreate_err_ok:
  assumes "good m s" "getOrCreateScopeTrackingCreated now k s = (Inl e, s')"
  shows "op_ok m s (Inl e :: 'a res) s'"
  using getOrCreate_Inl [OF goodD(1) [OF assms(1)] assms(2)] by (intro op_okI_err [OF assms(1)]) (auto simp: not_panic_def)

section \<open>Upsert\<close>

lemma upsertOne_good:
  assumes g: "good m s" and room: "room (m + 1)" and cl: "client_item it" and run: "upsertOne clk it s = (r, s')"
  shows "op_ok m s r s'"
proof (cases "validateUpsertItem it (maxItemBytes (score s))")
  case (Inl e)
  then show ?thesis using run op_okI_same [OF g validated_not_panic(1) [OF Inl]] by (auto simp: upsertOne_def)
next
  case (Inr it1)
  have room': "room m" using room by (rule room_less) simp
  have v: "it1 = fillRender it" "\<not> isReservedScope (Scope it)" "ID it \<noteq> []" "payload_ok (Payload it)"
    "approxItemSize it1 \<le> maxItemBytes (score s)" "Scope it1 = Scope it" "ID it1 = ID it"
    using Inr by (simp_all add: validateUpsertItem_Inr)
  have adm: "plain_ok c (Scope it1) it1 \<and> ID it1 \<noteq> []"
    if "core_config c = core_config (score s)" "cells c = cells (score s)" for c
    using client_plain_ok [OF cl v(4), of "score s"] plain_ok_cong [OF that, of "Scope it" it1] v
    by (simp add: maxItemBytesFor_def isReservedScope_iff)
  obtain q s1 where goc: "getOrCreateScopeTrackingCreated (clk 0) (Scope it1) s = (q, s1)" by (metis surj_pair)
  show ?thesis
  proof (cases q)
    case q: (Inl e)
    then show ?thesis using run Inr goc getOrCreate_err_ok [OF g goc [unfolded q]] by (auto simp: upsertOne_def)
  next
    case q: (Inr ac)
    obtain a created where ac: "ac = (a, created)" by (metis surj_pair)
    obtain r2 s2 where ob: "on_buf a (upsertByID (clk 1) it1) s1 = (r2, s2)" by (metis surj_pair)
    note R = upsert_op.create_and_run [OF g room' goc [unfolded q ac], of "(clk 1, it1)", unfolded prod.case, OF adm ob]
    show ?thesis
    proof (cases r2)
      case r2: (Inl e)
      then show ?thesis using run Inr goc q ac ob op_okI_err [OF g R(4)] R(2) not_panic_retype by (auto simp: upsertOne_def)
    next
      case r2: (Inr x)
      then show ?thesis using run Inr goc q ac ob op_okI_emit [OF _ room] R(1,3)
        by (cases x) (auto simp: upsertOne_def emit_defs)
    qed
  qed
qed

section \<open>Counters\<close>

lemma counterAddOne_good:
  assumes g: "good m s" and room: "room (m + 1)" and run: "counterAddOne clk k i by s = (r, s')"
  shows "op_ok m s r s'"
proof (cases "validateCounterAddRequest \<lparr>car_Scope = k, car_ID = i, car_By = Some by\<rparr> (maxItemBytesFor (score s) k)")
  case (Inl e)
  then show ?thesis using run op_okI_same [OF g validated_not_panic(3) [OF Inl]] by (auto simp: counterAddOne_def)
next
  case (Inr n)
  have room': "room m" using room by (rule room_less) simp
  have cfg: "0 < maxItemBytes (score s)" using store_invD(3) [OF goodD(1) [OF g]] by (simp add: config_ok_def)
  have adm: "counter_admissible k i by c k"
    if "core_config c = core_config (score s)" "cells c = cells (score s)" for c
    using Inr cfg core_config_eqD [OF that(1)]
    by (auto simp: validateCounterAddRequest_Inr counter_admissible_def maxItemBytesFor_def isReservedScope_iff)
  obtain q s1 where goc: "getOrCreateScopeTrackingCreated (clk 0) k s = (q, s1)" by (metis surj_pair)
  show ?thesis
  proof (cases q)
    case q: (Inl e)
    then show ?thesis using run Inr goc getOrCreate_err_ok [OF g goc [unfolded q]] by (auto simp: counterAddOne_def)
  next
    case q: (Inr ac)
    obtain a created where ac: "ac = (a, created)" by (metis surj_pair)
    obtain r2 s2 where ob: "on_buf a (counterAdd (clk 1) k i by) s1 = (r2, s2)" by (metis surj_pair)
    note R = counter_op.create_and_run [OF g room' goc [unfolded q ac], of "(clk 1, k, i, by)", unfolded prod.case, OF adm ob]
    show ?thesis
    proof (cases r2)
      case r2: (Inl e)
      then show ?thesis using run Inr goc q ac ob op_okI_err [OF g R(4)] R(2) not_panic_retype by (auto simp: counterAddOne_def)
    next
      case r2: (Inr x)
      let ?s3 = "if created then s2\<lparr>score := bumpLastWriteTS (clk 2) (score s2)\<rparr> else s2"
      have "good (m + 1) ?s3" "core_config (score ?s3) = core_config (score s)"
        using R(1,3) bump_inv [of s2 "clk 2"] by (auto simp: good_def seqs_below_def)
      moreover have "returning x (emitCounterAddEvent (later 3 clk) k i by ?s3) = (r, s')"
        using run Inr goc q ac ob r2 by (cases x) (simp add: counterAddOne_def Let_def)
      ultimately show ?thesis unfolding emit_defs by (rule op_okI_emit [OF _ room])
    qed
  qed
qed

section \<open>Operations on an existing scope\<close>

lemma validated_update:
  assumes cl: "client_item it" and v: "validateUpdateItem it (maxItemBytes c) = Inr it1"
  shows "update_ok (Payload it1) (renderBytes it1)"
    "update_size (Scope it1) (ID it1) (Payload it1) (renderBytes it1) \<le> maxItemBytesFor c (Scope it1)"
    "it1 = fillRender it" "Scope it1 = Scope it"
proof -
  have v: "it1 = fillRender it" "\<not> isReservedScope (Scope it)" "payload_ok (Payload it)"
    "approxItemSize it1 \<le> maxItemBytes c" "Scope it1 = Scope it" "ID it1 = ID it"
    using v by (simp_all add: validateUpdateItem_Inr)
  have it1: "Payload it1 = Payload it" "renderBytes it1 = precomputeRenderBytes (Payload it)" "counter it1 = None"
    using cl v(1) by (simp_all add: client_item_def fillRender_def)
  show "update_ok (Payload it1) (renderBytes it1)"
    using v(3) it1 by (simp add: update_ok_def newRenderOf_def)
  show "update_size (Scope it1) (ID it1) (Payload it1) (renderBytes it1) \<le> maxItemBytesFor c (Scope it1)"
    using v it1 by (simp add: update_size_def newRenderOf_def approxItemSize_def Item_zero_def Let_def
        maxItemBytesFor_def isReservedScope_iff)
  show "it1 = fillRender it" "Scope it1 = Scope it" by (fact v)+
qed

lemma updateOne_good:
  assumes g: "good m s" and room: "room (m + 1)" and cl: "client_item it" and run: "updateOne clk it s = (r, s')"
  shows "op_ok m s r s'"
proof (cases "validateUpdateItem it (maxItemBytes (score s))")
  case (Inl e)
  then show ?thesis using run op_okI_same [OF g validated_not_panic(2) [OF Inl]] by (auto simp: updateOne_def)
next
  case (Inr it1)
  have room': "room m" using room by (rule room_less) simp
  note ok = validated_update(1) [OF cl Inr] and sz = validated_update(2) [OF cl Inr]
  show ?thesis
  proof (cases "getScope s (Scope it1)")
    case None
    then show ?thesis using run Inr op_okI_same [OF g, of "Inr 0 :: int res"] by (auto simp: updateOne_def)
  next
    case (Some a)
    obtain r2 s2 where ob: "(if ID it1 \<noteq> [] then on_buf a (updateByID (clk 0) (ID it1) (Payload it1) (renderBytes it1)) s
        else on_buf a (updateBySeq (clk 0) (Seq it1) (Payload it1) (renderBytes it1)) s) = (r2, s2)" by (metis surj_pair)
    have step: "good (m + 1) s2 \<and> stays s s2 \<and> not_panic r2 \<and> (\<forall>e. r2 = Inl e \<longrightarrow> s2 = s)"
    proof (cases "ID it1 \<noteq> []")
      case True
      then show ?thesis
        using update_id_op.on_store [OF g Some room', of "(clk 0, ID it1, Payload it1, renderBytes it1)" r2 s2] ok sz ob by simp
    next
      case False
      then show ?thesis
        using update_seq_op.on_store [OF g Some room', of "(clk 0, Seq it1, Payload it1, renderBytes it1)" r2 s2] ok ob by simp
    qed
    show ?thesis using run Inr Some ob unfolding updateOne_def emit_defs by simp (erule run_existing [OF g room step])
  qed
qed

lemma deleteOne_good:
  assumes g: "good m s" and room: "room (m + 1)" and run: "deleteOne clk k i sq s = (r, s')"
  shows "op_ok m s r s'"
proof (cases "validateDeleteRequest \<lparr>dr_Scope = k, dr_ID = i, dr_Seq = sq\<rparr>")
  case (Inl e)
  then show ?thesis using run op_okI_same [OF g validated_not_panic(4) [OF Inl]] by (auto simp: deleteOne_def)
next
  case (Inr u)
  have room': "room m" using room by (rule room_less) simp
  show ?thesis
  proof (cases "getScope s k")
    case None
    then show ?thesis using run Inr op_okI_same [OF g, of "Inr 0 :: int res"] by (auto simp: deleteOne_def)
  next
    case (Some a)
    obtain r2 s2 where ob: "(if i \<noteq> [] then on_buf a (deleteByID (clk 0) i) s else on_buf a (deleteBySeq (clk 0) sq) s) = (r2, s2)"
      by (metis surj_pair)
    have step: "good (m + 1) s2 \<and> stays s s2 \<and> not_panic r2 \<and> (\<forall>e. r2 = Inl e \<longrightarrow> s2 = s)"
      using delete_id_op.on_store [OF g Some room', of "(clk 0, i)" r2 s2]
        delete_seq_op.on_store [OF g Some room', of "(clk 0, sq)" r2 s2] ob by (cases "i \<noteq> []") simp_all
    show ?thesis using run Inr Some ob unfolding deleteOne_def emit_defs by simp (erule run_existing [OF g room step])
  qed
qed

lemma deleteUpTo_good:
  assumes g: "good m s" and room: "room (m + 1)" and run: "deleteUpTo clk k sq s = (r, s')"
  shows "op_ok m s r s'"
proof (cases "validateDeleteUpToRequest \<lparr>dur_Scope = k, dur_MaxSeq = sq\<rparr>")
  case (Inl e)
  then show ?thesis using run op_okI_same [OF g validated_not_panic(6) [OF Inl]] by (auto simp: deleteUpTo_def)
next
  case (Inr u)
  have room': "room m" using room by (rule room_less) simp
  show ?thesis
  proof (cases "getScope s k")
    case None
    then show ?thesis using run Inr op_okI_same [OF g, of "Inr 0 :: int res"] by (auto simp: deleteUpTo_def)
  next
    case (Some a)
    obtain r2 s2 where ob: "on_buf a (deleteUpToSeq (clk 0) sq) s = (r2, s2)" by (metis surj_pair)
    have step: "good (m + 1) s2 \<and> stays s s2 \<and> not_panic r2 \<and> (\<forall>e. r2 = Inl e \<longrightarrow> s2 = s)"
      using drain_op.on_store [OF g Some room', of "(clk 0, sq)" r2 s2] ob by simp
    show ?thesis using run Inr Some ob unfolding deleteUpTo_def emit_defs by simp (erule run_existing [OF g room step])
  qed
qed

section \<open>Deleting a scope\<close>

lemma unlinkScope_seqs: "store_inv s \<Longrightarrow> getScope s k = Some a \<Longrightarrow> seqs_below m s \<Longrightarrow> seqs_below m (unlinkScope k a (s\<lparr>score := c\<rparr>))"
proof -
  assume inv: "store_inv s" and look: "getScope s k = Some a" and sq: "seqs_below m s"
  have "set (linked (unlinkScope k a (s\<lparr>score := c\<rparr>))) = set (linked s) - {(k, a)}"
    using sdir.entries_del [OF store_invD(1) [OF inv]] look by (simp add: unlinkScope_def getScope_def)
  moreover have "lastSeq ((bufs s)[a := detachBuf (bufs s ! a)] ! x) = lastSeq (bufs s ! x)" for x
    using linked_bufD(1) [OF inv look] by (cases "x = a") (simp_all add: detachBuf_def)
  ultimately show ?thesis using sq by (simp add: seqs_below_def unlinkScope_def)
qed

definition released_core :: "int \<Rightarrow> scopeBuffer \<Rightarrow> core \<Rightarrow> core" where
  \<comment> \<open>the counters once a scope's buffer is gone\<close>
  "released_core now b c = bumpLastWriteTS now (add_scopeCount (- 1) (add_totalItems (- int (length (items b)))
     (c\<lparr>totalBytes := totalBytes c - (bytes b + scopeBufferOverhead)\<rparr>)))"

lemma released_core_eq:
  assumes "store_inv s" "getScope s k = Some a"
  shows "bumpLastWriteTS now (add_scopeCount (- 1) (add_totalItems (- int (length (items (bufs s ! a))))
       (add_totalBytes (- (bytes (bufs s ! a) + scopeBufferOverhead)) (score s)))) = released_core now (bufs s ! a) (score s)"
proof -
  have "0 \<le> bytes (bufs s ! a)" using buf_invD(6) [OF linked_bufD(6) [OF assms]] by simp
  then have "0 \<le> totalBytes (score s) - (bytes (bufs s ! a) + scopeBufferOverhead)"
    "totalBytes (score s) - (bytes (bufs s ! a) + scopeBufferOverhead) \<le> MaxInt64"
    using charge_le_total [OF assms] store_invD(4) [OF assms(1), unfolded within_cap_def] scopeBufferOverhead_pos
    by linarith+
  then have "wrap64 (totalBytes (score s) - (bytes (bufs s ! a) + scopeBufferOverhead)) =
      totalBytes (score s) - (bytes (bufs s ! a) + scopeBufferOverhead)"
    by (rule wrap64_nonneg_id)
  then have "wrap64 (totalBytes (score s) + - (bytes (bufs s ! a) + scopeBufferOverhead)) =
      totalBytes (score s) - (bytes (bufs s ! a) + scopeBufferOverhead)" by (simp only: ab_group_add_class.ab_diff_conv_add_uminus)
  then show ?thesis by (simp only: released_core_def add_totalBytes_def)
qed

lemma deleteScope_good:
  assumes g: "good m s" and room: "room (m + 1)" and run: "deleteScope clk k s = (r, s')"
  shows "op_ok m s r s'"
proof (cases "validateDeleteScopeRequest \<lparr>dsr_Scope = k\<rparr>")
  case (Inl e)
  then show ?thesis using run op_okI_same [OF g validated_not_panic(5) [OF Inl]] by (auto simp: deleteScope_def)
next
  case (Inr u)
  have res: "\<not> isReservedScope k"
    using Inr by (auto simp: validateDeleteScopeRequest_def first_err_None rejectReserved_def split: if_splits)
  show ?thesis
  proof (cases "getScope s k")
    case None
    then show ?thesis using run Inr op_okI_same [OF g, of "Inr (0, False) :: (int \<times> bool) res"] by (auto simp: deleteScope_def)
  next
    case (Some a)
    note inv = goodD(1) [OF g]
    let ?c = "released_core (clk 0) (bufs s ! a) (score s)"
    let ?s = "unlinkScope k a (s\<lparr>score := ?c\<rparr>)"
    have "store_inv ?s"
      by (rule unlinkScope_inv [OF inv Some res]) (simp_all add: released_core_def core_config_def bumpLastWriteTS_def add_scopeCount_def add_totalItems_def)
    then have "good (m + 1) ?s"
      using unlinkScope_seqs [OF inv Some goodD(2) [OF g], of ?c] seqs_below_mono [of m ?s "m + 1"] by (simp add: good_def)
    moreover have "core_config (score ?s) = core_config (score s)"
      by (simp add: unlinkScope_def released_core_def core_config_def bumpLastWriteTS_def add_scopeCount_def add_totalItems_def)
    moreover have "returning (int (length (items (bufs s ! a))), True) (emitDeleteScopeEvent (later 1 clk) k ?s) = (r, s')"
      using run Inr Some released_core_eq [OF inv Some, of "clk 0"] by (simp add: deleteScope_def Let_def)
    ultimately show ?thesis unfolding emit_defs by (rule op_okI_emit [OF _ room])
  qed
qed

section \<open>Reads and subscriptions\<close>

lemma touch_good: "good m s \<Longrightarrow> getScope s k = Some a \<Longrightarrow> good m (touch now a s)"
  using touch_inv [of s k a now] linked_bufD(1) [of s k a]
  by (auto simp: good_def seqs_below_def touch_def recordRead_def nth_list_update)

lemma head_good: "good m s \<Longrightarrow> good m (snd (head now k sq l s))"
  using touch_good [of m s k] by (auto simp: head_def split: option.splits prod.splits)

lemma tail_good: "good m s \<Longrightarrow> good m (snd (tail now k l off s))"
  using touch_good [of m s k] by (auto simp: tail_def split: option.splits prod.splits)

lemma store_get_good: "good m s \<Longrightarrow> good m (snd (store_get now k i sq s))"
  using touch_good [of m s k] by (auto simp: store_get_def split: option.splits prod.splits)

lemma render_good: "good m s \<Longrightarrow> good m (snd (render now k i sq s))"
  using store_get_good [of m s now k i sq] by (auto simp: render_def split: option.splits prod.splits)

lemma shub_good: "good m s \<Longrightarrow> hub_inv h \<Longrightarrow> good m (s\<lparr>shub := h\<rparr>)"
  using shub_inv [of s h] by (simp add: good_def seqs_below_def)

lemma store_Subscribe_good: "good m s \<Longrightarrow> good m (snd (store_Subscribe k s))"
  using Subscribe_inv [OF store_invD(2) [OF goodD(1)], of m s k] shub_good [of m s]
  by (cases "Subscribe k (shub s)") (simp add: store_Subscribe_def)

lemma store_unsubscribe_good: "good m s \<Longrightarrow> fst (store_unsubscribe k s) = None \<and> good m (snd (store_unsubscribe k s))"
  using unsubscribe_inv [OF store_invD(2) [OF goodD(1)], of m s k] shub_good [of m s]
  by (cases "unsubscribe k (shub s)") (simp add: store_unsubscribe_def)

section \<open>Scopes made ahead of use\<close>

lemma ensureScope_good:
  assumes g: "good m s" and k: "k \<noteq> []" and run: "ensureScope now k s = (r, s')"
  shows "good m s'" "core_config (score s') = core_config (score s)"
    "r = None \<Longrightarrow> s' = s" "r = Some a \<Longrightarrow> getScope s' k = Some a"
proof -
  note inv = goodD(1) [OF g]
  have "good m s' \<and> core_config (score s') = core_config (score s) \<and>
    (r = None \<longrightarrow> s' = s) \<and> (\<forall>a. r = Some a \<longrightarrow> getScope s' k = Some a)"
  proof (cases "getScope s k")
    case (Some a)
    then show ?thesis using run g by (auto simp: ensureScope_def)
  next
    case None
    let ?b = "store_newscopeBuffer now s"
    let ?c = "bumpLastWriteTS (bLastWriteTS ?b) (created_core (score s))"
    note nf = newscope_facts [OF store_invD(3) [OF inv] not_reserved_missing [OF inv None], of now]
    show ?thesis
    proof (cases "totalBytes (score s) + scopeBufferOverhead \<le> maxStoreBytes (score s)")
      case False
      then show ?thesis using run None g reserveBytes_grow [OF store_invD(4) [OF inv], of scopeBufferOverhead]
        by (auto simp: ensureScope_def)
    next
      case True
      have s': "s' = linkScope k ?b (s\<lparr>score := ?c\<rparr>)" "r = Some (length (bufs s))"
        using run None True reserveBytes_grow [OF store_invD(4) [OF inv], of scopeBufferOverhead]
        by (simp_all add: ensureScope_def created_core_def Let_def split: prod.splits)
      have cfg: "core_config ?c = core_config (score s)"
        by (simp add: created_core_def core_config_def bumpLastWriteTS_def add_scopeCount_def)
      have "store_inv s'" unfolding s'
        by (rule linkScope_inv [OF inv k None nf(1-5) cfg])
          (use True store_invD(4) [OF inv] in \<open>auto simp: created_core_def within_cap_def scopeBufferOverhead_def
            add_scopeCount_def bumpLastWriteTS_def\<close>)
      moreover have "seqs_below m s'" unfolding s' by (rule linkScope_seqs [OF inv None goodD(2) [OF g] nf(6)])
      ultimately show ?thesis using s' cfg by (auto simp: good_def linkScope_getScope [OF inv None])
    qed
  qed
  then show "good m s'" "core_config (score s') = core_config (score s)"
    "r = None \<Longrightarrow> s' = s" "r = Some a \<Longrightarrow> getScope s' k = Some a" by simp_all
qed

section \<open>Boot\<close>

definition reserved_buf :: "int \<Rightarrow> int \<Rightarrow> bytestr \<Rightarrow> core \<Rightarrow> scopeBuffer" where
  \<comment> \<open>the buffer a reserved scope starts with\<close>
  "reserved_buf created stamp k c =
     (newscopeBuffer (defaultMaxItems c) created)\<lparr>attached := True, maxItems := maxItemsFor c k, bLastWriteTS := stamp\<rparr>"

lemma reserved_buf_facts:
  fixes k :: bytestr and created stamp :: int
  assumes "config_ok c"
  defines "b \<equiv> reserved_buf created stamp k c"
  shows "attached b" "\<not> detached b" "items b = []" "buf_inv b" "maxItems b = maxItemsFor c k" "lastSeq b = 0"
proof -
  have "0 \<le> maxItemsFor c k" using assms(1) by (simp add: config_ok_def maxItemsFor_def unboundedScopeMaxItems_def)
  then have "buf_inv (newscopeBuffer (maxItemsFor c k) created)" by (rule newscopeBuffer_inv)
  then show "buf_inv b" by (simp add: b_def reserved_buf_def buf_inv_def newscopeBuffer_def)
  show "attached b" "\<not> detached b" "items b = []" "maxItems b = maxItemsFor c k" "lastSeq b = 0"
    by (simp_all add: b_def reserved_buf_def newscopeBuffer_def)
qed

definition initOne :: "(store \<Rightarrow> int) \<Rightarrow> int \<Rightarrow> bytestr \<Rightarrow> store \<Rightarrow> store" where
  "initOne stamp now k s = linkScope k (reserved_buf now (stamp s) k (score s))
     (s\<lparr>score := add_scopeCount 1 (add_totalBytes scopeBufferOverhead (score s))\<rparr>)"

lemma initOne_base:
  assumes inv: "base_inv s" and k: "k \<noteq> []" "getScope s k = None"
    and fits: "totalBytes (score s) + scopeBufferOverhead \<le> maxStoreBytes (score s)"
  shows "base_inv (initOne stamp now k s)" "totalBytes (score (initOne stamp now k s)) = totalBytes (score s) + scopeBufferOverhead"
    "getScope (initOne stamp now k s) j = (if j = k then Some (length (bufs s)) else getScope s j)"
    "core_config (score (initOne stamp now k s)) = core_config (score s)"
    "seqs_below m s \<Longrightarrow> seqs_below m (initOne stamp now k s)"
    "score (initOne stamp now k s) =
       (score s)\<lparr>totalBytes := totalBytes (score s) + scopeBufferOverhead, scopeCount := scopeCount (score s) + 1\<rparr>"
    "\<exists>b. bufs (initOne stamp now k s) = bufs s @ [b] \<and> items b = []"
proof -
  let ?c = "add_scopeCount 1 (add_totalBytes scopeBufferOverhead (score s))"
  have cap: "within_cap (score s)" "config_ok (score s)" "struct_inv s" "dir_inv (sdirectory s)"
    using inv by (simp_all add: base_inv_def struct_inv_def)
  have w: "wrap64 (totalBytes (score s) + scopeBufferOverhead) = totalBytes (score s) + scopeBufferOverhead"
    using cap(1) fits by (intro within_cap_wrap) (auto simp: within_cap_def scopeBufferOverhead_def)
  note nf = reserved_buf_facts [OF cap(2), where k = k and created = now and stamp = "stamp s" for k now s]
  show "base_inv (initOne stamp now k s)" unfolding initOne_def
    by (rule linkScope_base [OF inv k nf(1-5)])
      (use cap(1) fits w in \<open>auto simp: within_cap_def scopeBufferOverhead_def\<close>)
  show "totalBytes (score (initOne stamp now k s)) = totalBytes (score s) + scopeBufferOverhead"
    "core_config (score (initOne stamp now k s)) = core_config (score s)"
    using w by (simp_all add: initOne_def)
  show "score (initOne stamp now k s) =
       (score s)\<lparr>totalBytes := totalBytes (score s) + scopeBufferOverhead, scopeCount := scopeCount (score s) + 1\<rparr>"
    using w by (simp add: initOne_def add_scopeCount_def add_totalBytes_def)
  show "\<exists>b. bufs (initOne stamp now k s) = bufs s @ [b] \<and> items b = []"
    using nf(3) by (auto simp: initOne_def)
  have look: "dir_lookup (sdirectory s) k = None" using k(2) by (simp add: getScope_def)
  show "getScope (initOne stamp now k s) j = (if j = k then Some (length (bufs s)) else getScope s j)"
    using sdir.look_ins [OF cap(4) look, of "length (bufs s)" j] by (simp add: initOne_def getScope_def)
  show "seqs_below m (initOne stamp now k s)" if "seqs_below m s"
    using that linked_less [OF cap(3)] nf(6) sdir.entries_ins [OF cap(4) look, of "length (bufs s)"]
    by (auto simp: seqs_below_def initOne_def nth_append)
qed

lemma initReserved_two:
  assumes "getScope s EventsScopeName = None" "getScope s InboxScopeName = None" "dir_inv (sdirectory s)"
  shows "initReserved stamp clk s = initOne stamp (clk 1) InboxScopeName (initOne stamp (clk 0) EventsScopeName s)"
proof -
  have look: "dir_lookup (sdirectory s) EventsScopeName = None" using assms(1) by (simp add: getScope_def)
  have ne: "InboxScopeName \<noteq> EventsScopeName" by (simp add: InboxScopeName_def EventsScopeName_def)
  have one: "(store_newscopeBuffer now t)\<lparr>maxItems := maxItemsFor (score t) k, bLastWriteTS := st\<rparr> = reserved_buf now st k (score t)" for now t k st
    by (simp add: store_newscopeBuffer_def reserved_buf_def newscopeBuffer_def)
  have "getScope (initOne stamp (clk 0) EventsScopeName s) InboxScopeName = None"
    using sdir.look_ins [OF assms(3) look, of "length (bufs s)" InboxScopeName] assms(2) ne
    by (simp add: initOne_def getScope_def)
  then show ?thesis using assms(1)
    by (simp add: initReserved_def reservedScopeNames_def one initOne_def [symmetric])
qed

lemma initReserved_good:
  assumes inv: "base_inv s" and none: "\<forall>k \<in> set reservedScopeNames. getScope s k = None"
    and fits: "totalBytes (score s) + reservedScopesOverhead \<le> maxStoreBytes (score s)" and sq: "seqs_below m s"
  shows "good m (initReserved stamp clk s)"
    "totalBytes (score (initReserved stamp clk s)) = totalBytes (score s) + reservedScopesOverhead"
    "core_config (score (initReserved stamp clk s)) = core_config (score s)"
    "\<not> isReservedScope k \<Longrightarrow> getScope (initReserved stamp clk s) k = getScope s k"
    "score (initReserved stamp clk s) =
       (score s)\<lparr>totalBytes := totalBytes (score s) + reservedScopesOverhead, scopeCount := scopeCount (score s) + 2\<rparr>"
    "\<exists>b b'. bufs (initReserved stamp clk s) = bufs s @ [b, b'] \<and> items b = [] \<and> items b' = []"
    "shub (initReserved stamp clk s) = shub s"
    "getScope (initReserved stamp clk s) EventsScopeName = Some (length (bufs s))"
    "getScope (initReserved stamp clk s) InboxScopeName = Some (length (bufs s) + 1)"
proof -
  have ov: "reservedScopesOverhead = 2 * scopeBufferOverhead" by (simp add: reservedScopesOverhead_def reservedScopeNames_def)
  have n: "getScope s EventsScopeName = None" "getScope s InboxScopeName = None" "dir_inv (sdirectory s)"
    using none inv by (simp_all add: reservedScopeNames_def base_inv_def struct_inv_def)
  have e: "EventsScopeName \<noteq> []" "InboxScopeName \<noteq> []" "InboxScopeName \<noteq> EventsScopeName"
    by (simp_all add: EventsScopeName_def InboxScopeName_def)
  let ?s1 = "initOne stamp (clk 0) EventsScopeName s"
  have f1: "totalBytes (score s) + scopeBufferOverhead \<le> maxStoreBytes (score s)"
    using fits by (simp add: ov scopeBufferOverhead_def)
  note A = initOne_base [OF inv e(1) n(1) f1, where stamp = stamp and now = "clk 0"]
  have n2: "getScope ?s1 InboxScopeName = None" using A(3) n(2) e(3) by simp
  have f2: "totalBytes (score ?s1) + scopeBufferOverhead \<le> maxStoreBytes (score ?s1)"
    using fits A(2) core_config_eqD(2) [OF A(4)] by (simp add: ov)
  note B = initOne_base [OF A(1) e(2) n2 f2, where stamp = stamp and now = "clk 1"]
  note run = initReserved_two [OF n, of stamp clk]
  show "good m (initReserved stamp clk s)"
    using B(1,3) B(5) [OF A(5) [OF sq]] A(3) by (simp add: run good_def store_inv_def reservedScopeNames_def)
  show "totalBytes (score (initReserved stamp clk s)) = totalBytes (score s) + reservedScopesOverhead"
    "core_config (score (initReserved stamp clk s)) = core_config (score s)"
    using A(2,4) B(2,4) by (simp_all add: run ov)
  show "getScope (initReserved stamp clk s) k = getScope s k" if "\<not> isReservedScope k"
    using that A(3) B(3) by (simp add: run isReservedScope_iff)
  show "score (initReserved stamp clk s) =
       (score s)\<lparr>totalBytes := totalBytes (score s) + reservedScopesOverhead, scopeCount := scopeCount (score s) + 2\<rparr>"
    using A(6) B(6) by (simp add: run ov)
  show "\<exists>b b'. bufs (initReserved stamp clk s) = bufs s @ [b, b'] \<and> items b = [] \<and> items b' = []"
    using A(7) B(7) by (fastforce simp: run)
  show "shub (initReserved stamp clk s) = shub s" by (simp add: run initOne_def)
  obtain b where "bufs ?s1 = bufs s @ [b]" using A(7) by blast
  then show "getScope (initReserved stamp clk s) EventsScopeName = Some (length (bufs s))"
    "getScope (initReserved stamp clk s) InboxScopeName = Some (length (bufs s) + 1)"
    using A(3) B(3) e(3) by (simp_all add: run)
qed

lemma newStore_good:
  assumes "config_i64 cfg"
  shows "good 0 (newStore seed clk cfg)" "totalBytes (score (newStore seed clk cfg)) = reservedScopesOverhead"
    "\<not> isReservedScope k \<Longrightarrow> getScope (newStore seed clk cfg) k = None"
    "maxStoreBytes (score (newStore seed clk cfg)) = cMaxStoreBytes (WithDefaults cfg)"
    "defaultMaxItems (score (newStore seed clk cfg)) = cScopeMaxItems (WithDefaults cfg)"
    "totalItems (score (newStore seed clk cfg)) = 0"
proof -
  define c where "c = WithDefaults cfg"
  define big where "big = (if cMaxItemBytes c < cInboxMaxItemBytes c then cInboxMaxItemBytes c else cMaxItemBytes c)"
  define s0 where "s0 = \<lparr>score = \<lparr>defaultMaxItems = cScopeMaxItems c, maxStoreBytes = cMaxStoreBytes c,
            maxItemBytes = cMaxItemBytes c,
            eventsMaxItemBytes = addClampedInt64 big eventsItemEnvelopeOverhead,
            inboxMaxItems = cInboxMaxItems c, inboxMaxItemBytes = cInboxMaxItemBytes c,
            eventsMode = cEventsMode c, eventsDropsTotal = 0, totalBytes = 0, totalItems = 0,
            scopeCount = 0, lastWriteTS = 0, cells = []\<rparr>,
         sdirectory = dir_clear \<lparr>dhash = seed, dshards = []\<rparr>, bufs = [], shub = hub_empty\<rparr>"
  have run: "newStore seed clk cfg = initReserved (\<lambda>_. 0) clk s0"
    by (simp add: newStore_def s0_def c_def big_def initReservedScopes_def Let_def)
  have p: "0 < cScopeMaxItems c" "reservedScopesOverhead \<le> cMaxStoreBytes c" "0 < cMaxItemBytes c" "0 < cInboxMaxItems c"
    "cScopeMaxItems c \<le> MaxInt64" "cMaxStoreBytes c \<le> MaxInt64" "cMaxItemBytes c \<le> MaxInt64" "cInboxMaxItemBytes c \<le> MaxInt64"
    using WithDefaults_positive [of cfg] WithDefaults_i64 [OF assms] by (simp_all add: c_def config_i64_def)
  have big: "cMaxItemBytes c \<le> big" "0 < big" "big \<le> MaxInt64" using p by (auto simp: big_def)
  have "addClampedInt64 big eventsItemEnvelopeOverhead = min MaxInt64 (big + eventsItemEnvelopeOverhead)"
    using big addClampedInt64_saturates [of big eventsItemEnvelopeOverhead]
    by (simp add: MinInt64_def MaxInt64_def eventsItemEnvelopeOverhead_def)
  then have ev: "cMaxItemBytes c \<le> addClampedInt64 big eventsItemEnvelopeOverhead"
    using big p by (simp add: eventsItemEnvelopeOverhead_def)
  have "base_inv s0"
    using p ev reservedScopesOverhead_eq
    by (simp add: inv_defs s0_def config_ok_def cells_ok_def within_cap_def bufs_ok_def sdir.total_def)
  moreover have "seqs_below 0 s0" by (simp add: seqs_below_def s0_def)
  moreover have none: "getScope s0 j = None" for j by (simp add: getScope_def s0_def)
  ultimately have G: "good 0 (initReserved (\<lambda>_. 0) clk s0)"
    "totalBytes (score (initReserved (\<lambda>_. 0) clk s0)) = totalBytes (score s0) + reservedScopesOverhead"
    "\<not> isReservedScope k \<Longrightarrow> getScope (initReserved (\<lambda>_. 0) clk s0) k = getScope s0 k"
    "core_config (score (initReserved (\<lambda>_. 0) clk s0)) = core_config (score s0)"
    "totalItems (score (initReserved (\<lambda>_. 0) clk s0)) = totalItems (score s0)"
    using initReserved_good [of s0 0, where stamp = "\<lambda>_. 0" and clk = clk] p(2) by (simp_all add: s0_def)
  show "good 0 (newStore seed clk cfg)" "totalBytes (score (newStore seed clk cfg)) = reservedScopesOverhead"
    "\<not> isReservedScope k \<Longrightarrow> getScope (newStore seed clk cfg) k = None"
    using G(1-3) none unfolding run by (simp_all add: s0_def)
  show "maxStoreBytes (score (newStore seed clk cfg)) = cMaxStoreBytes (WithDefaults cfg)"
    "defaultMaxItems (score (newStore seed clk cfg)) = cScopeMaxItems (WithDefaults cfg)"
    using core_config_eqD(1,2) [OF G(4)] unfolding run by (simp_all add: s0_def c_def)
  show "totalItems (score (newStore seed clk cfg)) = 0" using G(5) unfolding run by (simp add: s0_def)
qed

end
