(* ===== verification/Bulk.thy ===== *)
theory Bulk
  imports StoreClient
begin

text \<open>
  \<open>bulk.go\<close>: wipe, warm and rebuild. A batch is a \<open>grouped\<close>, whose order is the order the range over
  the Go map takes. The phase both bulk writes open with, which reads nothing of the store but its
  configuration, is \<open>buildBatch\<close>; warm then reserves the batch's net growth (\<open>warmReserve\<close>) and commits
  scope by scope (\<open>warmCommit\<close>); rebuild fills a directory off to the side and swaps it in.
\<close>

section \<open>Wipe\<close>

definition detachAll :: "store \<Rightarrow> store" where
  \<comment> \<open>every buffer of the map is detached; the map still holds them\<close>
  "detachAll s = s\<lparr>bufs := foldl (\<lambda>bs (_, a). bs[a := detachBuf (bs ! a)]) (bufs s) (dir_entries (sdirectory s))\<rparr>"

definition wipe :: "clock \<Rightarrow> store \<Rightarrow> (int \<times> int \<times> int) \<times> store" where
  "wipe clk s =
     (let nScopes = sum_list (map (int \<circ> length) (dshards (sdirectory s)));
          nItems = sum_list (map (\<lambda>(_, a). int (length (items (bufs s ! a)))) (dir_entries (sdirectory s)));
          s1 = detachAll s;
          freedBytes = totalBytes (score s1);
          s2 = s1\<lparr>score := bumpLastWriteTS (clk 0) ((score s1)\<lparr>totalBytes := 0, totalItems := 0, scopeCount := 0\<rparr>),
                  sdirectory := dir_clear (sdirectory s1)\<rparr>
      in ((nScopes, nItems, freedBytes), initReservedScopesLocked (later 1 clk) s2))"

section \<open>The batch\<close>

fun inBatch :: "bytestr \<Rightarrow> nat \<Rightarrow> gerr \<Rightarrow> gerr" where
  "inBatch scope i (InvalidInput r) = InvalidInput (InBatch scope i r)"
| "inBatch scope i e = e"

fun checkBatchItems :: "string \<Rightarrow> int \<Rightarrow> bytestr \<Rightarrow> nat \<Rightarrow> Item list \<Rightarrow> Item list res" where
  \<comment> \<open>the items come back with the rendered form the check fills in\<close>
  "checkBatchItems ep cap scope i [] = Inr []"
| "checkBatchItems ep cap scope i (it # its) =
     (case validateWriteItem it ep cap of
        Inl e \<Rightarrow> Inl (inBatch scope i e)
      | Inr it' \<Rightarrow>
          if Scope it' \<noteq> scope then Inl (InvalidInput (ScopeKeyMismatch scope i (Scope it')))
          else (case checkBatchItems ep cap scope (Suc i) its of Inl e \<Rightarrow> Inl e | Inr rest \<Rightarrow> Inr (it' # rest)))"

type_synonym offender = "bytestr \<times> int \<times> int"

definition buildScope :: "string \<Rightarrow> core \<Rightarrow> int \<Rightarrow> bytestr \<Rightarrow> Item list \<Rightarrow> (offender + scopeReplacement) res" where
  "buildScope ep c now scope its =
     (case validateScope scope ep of
        Some r \<Rightarrow> Inl (InvalidInput r)
      | None \<Rightarrow>
          if isReservedScope scope then Inl (InvalidInput (ReservedScope scope ep))
          else (case checkBatchItems ep (maxItemBytes c) scope 0 its of
             Inl e \<Rightarrow> Inl e
           | Inr its' \<Rightarrow>
               if defaultMaxItems c < int (length its')
               then Inr (Inl (scope, int (length its'), defaultMaxItems c))
               else (case buildReplacementState now its' of
                  Inl i \<Rightarrow> Inl (InvalidInput (DuplicateInBatch scope i))
                | Inr r \<Rightarrow> Inr (Inr r))))"

fun buildBatch :: "string \<Rightarrow> core \<Rightarrow> clock \<Rightarrow> grouped \<Rightarrow> ((bytestr \<times> scopeReplacement) list \<times> offender list) res" where
  \<comment> \<open>the first error wins; capacity offenders are collected across the batch\<close>
  "buildBatch ep c clk [] = Inr ([], [])"
| "buildBatch ep c clk ((scope, its) # g) =
     (case buildScope ep c (clk 0) scope its of
        Inl e \<Rightarrow> Inl e
      | Inr x \<Rightarrow>
          (case buildBatch ep c (later 1 clk) g of
             Inl e \<Rightarrow> Inl e
           | Inr (built, offs) \<Rightarrow>
               (case x of Inl off \<Rightarrow> Inr (built, off # offs) | Inr r \<Rightarrow> Inr ((scope, r) # built, offs))))"

section \<open>Warm\<close>

record plan =
  p_scope :: bytestr
  p_replacement :: scopeReplacement
  p_newBytes :: int
  p_oldBytes :: int

definition snapshot :: "store \<Rightarrow> bytestr \<times> scopeReplacement \<Rightarrow> plan" where
  "snapshot s p = (case p of (scope, r) \<Rightarrow>
     \<lparr>p_scope = scope, p_replacement = r, p_newBytes = sumItemBytes (r_items r),
      p_oldBytes = (case getScope s scope of None \<Rightarrow> 0 | Some a \<Rightarrow> bytes (bufs s ! a))\<rparr>)"

definition planDelta :: "store \<Rightarrow> plan \<Rightarrow> int" where
  "planDelta s p = (if getScope s (p_scope p) = None then scopeBufferOverhead else 0) + (p_newBytes p - p_oldBytes p)"

definition warmReserve :: "(bytestr \<times> scopeReplacement) list \<Rightarrow> store \<Rightarrow> plan list res \<times> store" where
  "warmReserve built s =
     (let plans = map (snapshot s) built;
          totalDelta = wrap64 (sum_list (map (planDelta s) plans)) in
      case reserveBytes totalDelta (score s) of
        ((ok, current, mx), c') \<Rightarrow>
          if \<not> ok then (Inl (StoreFullError current totalDelta mx), s\<lparr>score := c'\<rparr>)
          else (Inr plans, s\<lparr>score := c'\<rparr>))"

definition commitAt :: "int \<Rightarrow> plan \<Rightarrow> nat \<Rightarrow> store \<Rightarrow> store" where
  "commitAt now p a s =
     (case commitReplacementPreReserved now (p_replacement p) (p_newBytes p) (p_oldBytes p) (score s) (bufs s ! a) of
        (c', b') \<Rightarrow> s\<lparr>score := c', bufs := (bufs s)[a := b']\<rparr>)"

definition commitPlan :: "clock \<Rightarrow> plan \<Rightarrow> int \<times> store \<Rightarrow> int \<times> store" where
  "commitPlan clk p st =
     (case st of (newScopes, s) \<Rightarrow>
        (case getScope s (p_scope p) of
           Some a \<Rightarrow> (newScopes, commitAt (clk 1) p a s)
         | None \<Rightarrow> (newScopes + 1,
             commitAt (clk 1) p (length (bufs s)) (linkScope (p_scope p) (store_newscopeBuffer (clk 0) s) s))))"

fun warmLoop :: "clock \<Rightarrow> plan list \<Rightarrow> int \<times> store \<Rightarrow> int \<times> store" where
  "warmLoop clk [] st = st"
| "warmLoop clk (p # ps) st = warmLoop (later 2 clk) ps (commitPlan clk p st)"

definition warmCommit :: "clock \<Rightarrow> plan list \<Rightarrow> store \<Rightarrow> store" where
  "warmCommit clk plans s =
     (case warmLoop clk plans (0, s) of
        (newScopes, s') \<Rightarrow> if 0 < newScopes then s'\<lparr>score := add_scopeCount newScopes (score s')\<rparr> else s')"

definition replaceScopes :: "clock \<Rightarrow> grouped \<Rightarrow> store \<Rightarrow> int res \<times> store" where
  "replaceScopes clk grouped s =
     (case buildBatch ''/warm'' (score s) clk grouped of
        Inl e \<Rightarrow> (Inl e, s)
      | Inr (built, offenders) \<Rightarrow>
          if offenders \<noteq> [] then (Inl (ScopeCapacityError offenders), s)
          else (case warmReserve built s of
             (Inl e, s1) \<Rightarrow> (Inl e, s1)
           | (Inr plans, s1) \<Rightarrow>
               (let s2 = warmCommit (later (length grouped) clk) plans s1;
                    n = int (length plans)
                in if 0 < n then returning n (emitWarmEvent (later (3 * length grouped) clk) s2)
                   else (Inr n, s2))))"

section \<open>Rebuild\<close>

definition rebuiltBuffer :: "int \<Rightarrow> store \<Rightarrow> scopeReplacement \<Rightarrow> scopeBuffer" where
  \<comment> \<open>\<open>idKeyBytes\<close> is not among the fields the code sets\<close>
  "rebuiltBuffer now s r = (store_newscopeBuffer now s)\<lparr>items := r_items r, byID := r_byID r, bySeq := r_bySeq r,
     lastSeq := r_lastSeq r, bytes := sumItemBytes (r_items r)\<rparr>"

fun newShardMaps :: "clock \<Rightarrow> store \<Rightarrow> (bytestr \<times> scopeReplacement) list \<Rightarrow> dir \<times> scopeBuffer list \<Rightarrow> dir \<times> scopeBuffer list" where
  "newShardMaps clk s [] acc = acc"
| "newShardMaps clk s ((scope, r) # built) (d, bs) =
     newShardMaps (later 1 clk) s built (dir_insert scope (length bs) d, bs @ [rebuiltBuffer (clk 0) s r])"

definition rebuildBytes :: "(bytestr \<times> scopeReplacement) list \<Rightarrow> int" where
  "rebuildBytes built = wrap64 (sum_list (map (\<lambda>(_, r). sumItemBytes (r_items r) + scopeBufferOverhead) built))"

definition rebuildAll :: "clock \<Rightarrow> grouped \<Rightarrow> store \<Rightarrow> (int \<times> int) res \<times> store" where
  "rebuildAll clk grouped s =
     (case buildBatch ''/rebuild'' (score s) clk grouped of
        Inl e \<Rightarrow> (Inl e, s)
      | Inr (built, offenders) \<Rightarrow>
          if offenders \<noteq> [] then (Inl (ScopeCapacityError offenders), s)
          else
            (let totalScopes = int (length built);
                 nItems = sum_list (map (\<lambda>(_, r). int (length (r_items r))) built);
                 totalNewBytes = rebuildBytes built;
                 needed = wrap64 (totalNewBytes + reservedScopesOverhead) in
             if maxStoreBytes (score s) < needed then (Inl (StoreFullError 0 needed (maxStoreBytes (score s))), s)
             else
               (let s1 = detachAll s;
                    (d, bs) = newShardMaps (later (length grouped) clk) s built (dir_clear (sdirectory s1), bufs s1);
                    s2 = s1\<lparr>sdirectory := d, bufs := bs,
                       score := bumpLastWriteTS (clk (2 * length grouped))
                         ((score s1)\<lparr>totalBytes := totalNewBytes, totalItems := nItems, scopeCount := totalScopes\<rparr>)\<rparr>
                in (Inr (totalScopes, nItems), initReservedScopesLocked (later (2 * length grouped + 1) clk) s2))))"

end
