(* ===== verification/BulkInv.thy ===== *)
theory BulkInv
  imports Bulk
begin

text \<open>
  The bulk operations keep the store invariant. A batch is applied as a whole or not at all; a warm
  replaces exactly the scopes it names, a rebuild leaves exactly the scopes it names and the reserved
  ones.
\<close>

section \<open>Wipe\<close>

lemma detach_fold:
  "length (foldl (\<lambda>bs (_, a). bs[a := detachBuf (bs ! a)]) bs es) = length bs \<and>
   (\<forall>x < length bs. foldl (\<lambda>bs (_, a). bs[a := detachBuf (bs ! a)]) bs es ! x =
      (if x \<in> snd ` set es then detachBuf (bs ! x) else bs ! x))"
proof (induction es arbitrary: bs)
  case (Cons e es)
  have idem: "detachBuf (detachBuf b) = detachBuf b" for b by (simp add: detachBuf_def)
  show ?case using Cons.IH [of "bs[snd e := detachBuf (bs ! snd e)]"]
    by (cases "snd e < length bs") (auto simp: split_def idem nth_list_update)
qed simp

lemma detachAll_fields [simp]:
  "score (detachAll s) = score s" "sdirectory (detachAll s) = sdirectory s" "shub (detachAll s) = shub s"
  "length (bufs (detachAll s)) = length (bufs s)"
  using detach_fold [of "bufs s" "dir_entries (sdirectory s)"] by (simp_all add: detachAll_def)

lemma detachAll_detached:
  assumes "struct_inv s" "x < length (bufs s)"
  shows "detached (bufs (detachAll s) ! x)" "\<not> attached (bufs (detachAll s) ! x)"
    "items (bufs (detachAll s) ! x) = items (bufs s ! x)"
proof -
  have x: "bufs (detachAll s) ! x = (if x \<in> snd ` set (linked s) then detachBuf (bufs s ! x) else bufs s ! x)"
    using detach_fold [of "bufs s" "dir_entries (sdirectory s)"] assms(2) by (simp add: detachAll_def)
  show "detached (bufs (detachAll s) ! x)" "\<not> attached (bufs (detachAll s) ! x)"
    "items (bufs (detachAll s) ! x) = items (bufs s ! x)"
    using assms x by (auto simp: detachBuf_def struct_inv_def bufs_ok_def)
qed

definition emptied :: "int \<Rightarrow> store \<Rightarrow> store" where
  \<comment> \<open>every buffer detached, an empty map, the counters at zero\<close>
  "emptied now s = (detachAll s)
     \<lparr>score := bumpLastWriteTS now ((score s)\<lparr>totalBytes := 0, totalItems := 0, scopeCount := 0\<rparr>),
      sdirectory := dir_clear (sdirectory s)\<rparr>"

lemma emptied_base:
  assumes "store_inv s"
  shows "base_inv (emptied now s)" "getScope (emptied now s) k = None" "seqs_below 0 (emptied now s)"
    "core_config (score (emptied now s)) = core_config (score s)"
proof -
  have st: "struct_inv s" and cap: "within_cap (score s)" using assms by (simp_all add: store_inv_def base_inv_def)
  have cfg: "core_config (score (emptied now s)) = core_config (score s)"
    by (simp add: emptied_def core_config_def bumpLastWriteTS_def)
  have "bufs_ok (score (emptied now s)) {} (bufs (emptied now s))"
    using detachAll_detached [OF st] by (simp add: bufs_ok_def emptied_def)
  moreover have "config_ok (score (emptied now s))" using st config_ok_cong [OF cfg] by (simp add: struct_inv_def)
  ultimately have "struct_inv (emptied now s)"
    using st by (simp add: struct_inv_def emptied_def cells_ok_def)
  moreover have "within_cap (score (emptied now s))"
    using cap by (simp add: within_cap_def emptied_def)
  ultimately show "base_inv (emptied now s)"
    by (simp add: base_inv_def charged_def held_def sdir.total_def) (simp add: emptied_def)
  show "getScope (emptied now s) k = None" by (simp add: emptied_def getScope_def)
  show "seqs_below 0 (emptied now s)" by (simp add: seqs_below_def emptied_def)
  show "core_config (score (emptied now s)) = core_config (score s)" by (rule cfg)
qed

lemma wipe_run:
  assumes "store_inv s"
  shows "wipe clk s = ((scopeCount (score s), totalItems (score s), totalBytes (score s)),
    initReservedScopesLocked (later 1 clk) (emptied (clk 0) s))"
proof -
  have "sum_list (map (int \<circ> length) (dshards (sdirectory s))) = int (length (linked s))"
    by (simp add: dir_entries_def length_concat comp_def sum_list_of_nat [symmetric])
  moreover have "sum_list (map (\<lambda>(_, a). int (length (items (bufs s ! a)))) (linked s)) = held s"
    by (simp add: held_def sdir.total_def scope_items_def [abs_def] split_def)
  ultimately show ?thesis using assms
    by (simp add: wipe_def emptied_def store_inv_def base_inv_def)
qed

lemma wipe_good:
  assumes inv: "store_inv s" and run: "wipe clk s = (r, s')"
  shows "good 0 s'" "r = (scopeCount (score s), totalItems (score s), totalBytes (score s))"
    "totalBytes (score s') = reservedScopesOverhead" "totalItems (score s') = 0" "scopeCount (score s') = 2"
    "core_config (score s') = core_config (score s)" "shub s' = shub s"
    "\<not> isReservedScope k \<Longrightarrow> getScope s' k = None"
    "a < length (bufs s) \<Longrightarrow> detached (bufs s' ! a)"
    "getScope s' EventsScopeName = Some b \<Longrightarrow> items (bufs s' ! b) = []"
    "length (bufs s) \<le> length (bufs s')"
proof -
  note E = emptied_base [OF inv, of "clk 0"]
  have fits: "totalBytes (score (emptied (clk 0) s)) + reservedScopesOverhead \<le> maxStoreBytes (score (emptied (clk 0) s))"
    using store_invD(3) [OF inv] by (simp add: emptied_def config_ok_def)
  note R = initReserved_good [OF E(1) _ fits E(3), where stamp = "\<lambda>s. lastWriteTS (score s)" and clk = "later 1 clk"]
  have s': "r = (scopeCount (score s), totalItems (score s), totalBytes (score s))"
    "s' = initReserved (\<lambda>s. lastWriteTS (score s)) (later 1 clk) (emptied (clk 0) s)"
    using run by (simp_all add: wipe_run [OF inv] initReservedScopesLocked_def)
  show "r = (scopeCount (score s), totalItems (score s), totalBytes (score s))" by (rule s'(1))
  show "good 0 s'" "core_config (score s') = core_config (score s)" "totalBytes (score s') = reservedScopesOverhead"
     "totalItems (score s') = 0" "scopeCount (score s') = 2" "shub s' = shub s"
    using R(1,3,5,7) E(2,4) s'(2) by (simp_all add: emptied_def)
  show "getScope s' k = None" if "\<not> isReservedScope k"
    using R(4) [OF _ that] E(2) s'(2) by simp
  obtain b1 b2 where bs: "bufs s' = bufs (emptied (clk 0) s) @ [b1, b2]" "items b1 = []" using R(6) E(2) s'(2) by auto
  then show "detached (bufs s' ! a)" if "a < length (bufs s)"
    using that detachAll_detached(1) [OF _ that] inv
    by (simp add: emptied_def nth_append store_inv_def base_inv_def)
  show "length (bufs s) \<le> length (bufs s')" using bs by (simp add: emptied_def)
  show "items (bufs s' ! b) = []" if "getScope s' EventsScopeName = Some b"
    using that R(8) E(2) s'(2) bs by (auto simp: emptied_def nth_append)
qed

section \<open>The batch\<close>

definition batch_ok :: "core \<Rightarrow> bytestr \<times> scopeReplacement \<Rightarrow> bool" where
  "batch_ok c p \<longleftrightarrow> fst p \<noteq> [] \<and> \<not> isReservedScope (fst p) \<and> repl_ok c (fst p) (snd p) \<and>
     int (length (r_items (snd p))) \<le> defaultMaxItems c \<and> unat (r_lastSeq (snd p)) = length (r_items (snd p))"

definition client_batch :: "grouped \<Rightarrow> bool" where
  \<comment> \<open>a Go map: distinct keys; the items as they reach the store\<close>
  "client_batch g \<longleftrightarrow> distinct (map fst g) \<and> (\<forall>p \<in> set g. \<forall>it \<in> set (snd p). client_item it)"

lemma checkBatchItems_Inr:
  "checkBatchItems ep cap scope i its = Inr its' \<Longrightarrow>
     its' = map fillRender its \<and>
     (\<forall>it \<in> set its. Scope it = scope \<and> validateWriteItem it ep cap = Inr (fillRender it))"
proof (induction its arbitrary: i its')
  case (Cons it its)
  obtain it' rest where run: "validateWriteItem it ep cap = Inr it'" "Scope it' = scope"
    "checkBatchItems ep cap scope (Suc i) its = Inr rest" "its' = it' # rest"
    using Cons.prems by (auto split: sum.splits if_splits)
  have "it' = fillRender it" using run(1) by (simp only: validateWriteItem_Inr)
  moreover have "Scope it = scope" using validateWriteItem_Scope [OF run(1)] run(2) by simp
  ultimately show ?case using Cons.IH [OF run(3)] run(1,4) by simp
qed simp

lemma checkBatchItems_Inl: "checkBatchItems ep cap scope i its = Inl e \<Longrightarrow> \<exists>r. e = InvalidInput r"
proof (induction its arbitrary: i)
  case (Cons it its)
  have "\<exists>r. e' = InvalidInput r" if "validateWriteItem it ep cap = Inl e'" for e'
    using that by (auto simp: validateWriteItem_def wrapValidation_def split: prod.splits option.splits)
  with Cons show ?case by (fastforce split: sum.splits if_splits)
qed simp

lemma buildScope_Inl: "buildScope ep c now scope its = Inl e \<Longrightarrow> \<exists>r. e = InvalidInput r"
  by (auto simp: buildScope_def dest: checkBatchItems_Inl split: option.splits if_splits sum.splits)

lemma buildBatch_Inl: "buildBatch ep c clk g = Inl e \<Longrightarrow> \<exists>r. e = InvalidInput r"
  by (induction g arbitrary: clk) (auto dest: buildScope_Inl split: sum.splits)

lemma buildScope_Inr:
  assumes cfg: "config_ok c" and cl: "\<forall>it \<in> set its. client_item it" and run: "buildScope ep c now k its = Inr (Inr r)"
  shows "batch_ok c (k, r)" "r_items r = numbered now 0 (map fillRender its)" "scope_ok k"
proof -
  have vs: "validateScope k ep = None" using run by (cases "validateScope k ep") (simp_all add: buildScope_def)
  have "\<not> isReservedScope k"
  proof
    assume "isReservedScope k"
    then show False using run vs by (simp add: buildScope_def del: validateScope_None isReservedScope_iff)
  qed
  then have sc: "scope_ok k" "\<not> isReservedScope k" using vs by simp_all
  obtain its' where ck': "checkBatchItems ep (maxItemBytes c) k 0 its = Inr its'"
    using run vs sc(2) by (cases "checkBatchItems ep (maxItemBytes c) k 0 its") (simp_all add: buildScope_def del: validateScope_None)
  have its': "its' = map fillRender its" using checkBatchItems_Inr [OF ck'] by simp
  have ck: "checkBatchItems ep (maxItemBytes c) k 0 its = Inr (map fillRender its)" using ck' its' by simp
  have len: "int (length its) \<le> defaultMaxItems c"
    using run vs sc(2) ck by (simp add: buildScope_def del: validateScope_None split: if_splits)
  have bld: "buildReplacementState now (map fillRender its) = Inr r"
    using run vs sc(2) ck len
    by (cases "buildReplacementState now (map fillRender its)") (simp_all add: buildScope_def del: validateScope_None)
  have sh: "short (map fillRender its)" using len cfg by (simp add: short_def config_ok_def MaxInt64_def)
  have "plain_ok c k (fillRender it)" if "it \<in> set its" for it
  proof -
    have k: "Scope it = k" and v: "validateWriteItem it ep (maxItemBytes c) = Inr (fillRender it)"
      using checkBatchItems_Inr [OF ck] that by blast+
    have "maxItemBytesFor c (Scope it) = maxItemBytes c"
      using sc(2) k by (simp add: maxItemBytesFor_def isReservedScope_iff)
    then have v': "validateWriteItem it ep (maxItemBytesFor c (Scope it)) = Inr (fillRender it)" using v by simp
    have "client_item it" using cl that by blast
    from validated_plain_ok(1,2) [OF this v'] show ?thesis using k by simp
  qed
  then have "\<forall>it \<in> set (map fillRender its). plain_ok c k it" by simp
  note B = build_repl_ok [OF bld sh this]
  have "length its < 2 ^ 64" using sh by (simp add: short_def)
  then have "unat (of_nat (length its) :: u64) = length its" by (simp add: unat_of_nat)
  then show "batch_ok c (k, r)" using B sc len scope_ok_nonempty by (simp add: batch_ok_def)
  show "r_items r = numbered now 0 (map fillRender its)" by (rule B(3))
  show "scope_ok k" by (rule sc(1))
qed

definition built_from :: "bytestr \<times> Item list \<Rightarrow> bytestr \<times> scopeReplacement \<Rightarrow> bool" where
  \<comment> \<open>a scope of the built batch holds the scope's input items, numbered from 1 and stamped\<close>
  "built_from p q \<longleftrightarrow> fst q = fst p \<and> (\<exists>now. r_items (snd q) = numbered now 0 (map fillRender (snd p)))"

lemma buildBatch_Inr:
  assumes "config_ok c" "\<forall>p \<in> set g. \<forall>it \<in> set (snd p). client_item it" "buildBatch ep c clk g = Inr (built, [])"
  shows "list_all2 built_from g built" "\<forall>p \<in> set built. batch_ok c p"
proof -
  have "list_all2 built_from g built \<and> (\<forall>p \<in> set built. batch_ok c p)" using assms(2,3)
  proof (induction g arbitrary: clk built)
    case (Cons p g)
    obtain k its where p: "p = (k, its)" by (metis surj_pair)
    obtain r built' where run: "buildScope ep c (clk 0) k its = Inr (Inr r)"
      "buildBatch ep c (later 1 clk) g = Inr (built', [])" "built = (k, r) # built'"
      using Cons.prems(2) p by (auto split: sum.splits)
    have cl: "\<forall>it \<in> set its. client_item it" using Cons.prems(1) p by simp
    note B = buildScope_Inr [OF assms(1) cl run(1)]
    then show ?case using Cons.IH [OF _ run(2)] Cons.prems(1) p run(3) by (auto simp: built_from_def)
  qed simp
  then show "list_all2 built_from g built" "\<forall>p \<in> set built. batch_ok c p" by simp_all
qed

lemma built_keys: "list_all2 built_from g built \<Longrightarrow> map fst built = map fst g"
  by (induction rule: list_all2_induct) (simp_all add: built_from_def)

section \<open>Warm\<close>

definition plan_for :: "store \<Rightarrow> bytestr \<times> scopeReplacement \<Rightarrow> plan \<Rightarrow> bool" where
  \<comment> \<open>the plan's snapshot is what the store holds\<close>
  "plan_for s q p \<longleftrightarrow> p = snapshot s q \<and> batch_ok (score s) q"

lemma plan_forD:
  assumes "plan_for s (k, r) p"
  shows "p_scope p = k" "p_replacement p = r" "p_newBytes p = total_size (r_items r)"
    "getScope s k = Some a \<Longrightarrow> p_oldBytes p = bytes (bufs s ! a)" "getScope s k = None \<Longrightarrow> p_oldBytes p = 0"
    "k \<noteq> []" "\<not> isReservedScope k" "repl_ok (score s) k r" "int (length (r_items r)) \<le> defaultMaxItems (score s)"
    "unat (r_lastSeq r) = length (r_items r)"
  using assms by (simp_all add: plan_for_def snapshot_def batch_ok_def sumItemBytes_eq)

definition warm_step :: "bytestr \<Rightarrow> scopeReplacement \<Rightarrow> int \<Rightarrow> int \<Rightarrow> store \<Rightarrow> int \<Rightarrow> store \<Rightarrow> bool" where
  \<comment> \<open>what one commit of a batch does; the counter of bytes was moved before\<close>
  "warm_step k r delta n s n' s' \<longleftrightarrow>
     struct_inv s' \<and> charged s' = charged s + delta \<and>
     held s' - held s = totalItems (score s') - totalItems (score s) \<and>
     totalBytes (score s') = totalBytes (score s) \<and> scopeCount (score s') = scopeCount (score s) \<and>
     core_config (score s') = core_config (score s) \<and> cells (score s') = cells (score s) \<and> shub s' = shub s \<and>
     int (length (linked s')) - n' = int (length (linked s)) - n \<and> n \<le> n' \<and>
     (\<forall>j. j \<noteq> k \<longrightarrow> getScope s' j = getScope s j) \<and>
     (\<forall>j a. j \<noteq> k \<longrightarrow> getScope s j = Some a \<longrightarrow> bufs s' ! a = bufs s ! a) \<and>
     (\<exists>a. getScope s' k = Some a \<and> items (bufs s' ! a) = r_items r \<and> lastSeq (bufs s' ! a) = r_lastSeq r)"

lemma struct_look: "struct_inv s \<Longrightarrow> getScope s k = Some a \<longleftrightarrow> (k, a) \<in> set (linked s)"
  using sdir.look_iff [of "sdirectory s" k a] by (simp add: struct_inv_def getScope_def)

lemma commitAt_step:
  assumes st: "struct_inv s" and look: "getScope s k = Some a" and p: "plan_for s (k, r) p"
  shows "warm_step k r (p_newBytes p - p_oldBytes p) n s n (commitAt now p a s)"
proof -
  note P = plan_forD [OF p]
  let ?b = "bufs s ! a" let ?b' = "adoptReplacement now r (p_newBytes p) ?b"
  let ?c = "bumpLastWriteTS now (add_totalItems (int (length (r_items r)) - int (length (items ?b))) (score s))"
  have mem: "(k, a) \<in> set (linked s)" using struct_look [OF st] look by simp
  have ok: "bufs_ok (score s) (set (linked s)) (bufs s)" "dir_inv (sdirectory s)" "config_ok (score s)"
    using st by (simp_all add: struct_inv_def)
  then have "linked_ok (score s) (bufs s) (k, a)" using mem by (simp add: bufs_ok_def)
  then have b: "a < length (bufs s)" "attached ?b" "maxItems ?b = defaultMaxItems (score s)"
    using P(7) by (simp_all add: linked_ok_def maxItemsFor_def isReservedScope_iff)
  have run: "commitAt now p a s = s\<lparr>score := ?c, bufs := (bufs s)[a := ?b']\<rparr>"
    using b(2) P(4) [OF look] P(2) by (simp add: commitAt_def commitReplacementPreReserved_def Let_def)
  have cfg: "core_config ?c = core_config (score s)" "cells ?c = cells (score s)" by simp_all
  have ok': "buf_ok (score s) k ?b'"
    by (rule adopt_ok(1) [OF P(8)]) (use P(3,9) b(3) ok(3) in \<open>simp_all add: config_ok_def\<close>)
  then have "buf_ok ?c k ?b'" using buf_ok_cong [OF cfg] by simp
  moreover have "cell_refs (items ?b') = []" using repl_cell_refs [OF P(8)] by simp
  ultimately have "bufs_ok ?c (set (linked s)) ((bufs s)[a := ?b'])"
    by (intro bufs_ok_set [OF ok(1) mem]) simp_all
  then have st': "struct_inv (s\<lparr>score := ?c, bufs := (bufs s)[a := ?b']\<rparr>)"
    using st config_ok_cong [OF cfg(1)] by (simp add: struct_inv_def cells_ok_def)
  have inj: "inj_on snd (set (linked s))" using ok(1) by (simp add: bufs_ok_def)
  have look': "dir_lookup (sdirectory s) k = Some a" using look by (simp add: getScope_def)
  have ch: "charged (s\<lparr>score := ?c, bufs := (bufs s)[a := ?b']\<rparr>) = charged s + (p_newBytes p - p_oldBytes p)"
    using total_at [OF ok(2) inj look' b(1), of "\<lambda>b. bytes b + scopeBufferOverhead" ?b'] P(4) [OF look]
    by (simp add: charged_def scope_charge_def [abs_def])
  have hl: "held (s\<lparr>score := ?c, bufs := (bufs s)[a := ?b']\<rparr>) = held s + (int (length (r_items r)) - int (length (items ?b)))"
    using total_at [OF ok(2) inj look' b(1), of "\<lambda>b. int (length (items b))" ?b']
    by (simp add: held_def scope_items_def [abs_def])
  have ne: "x \<noteq> a" if "getScope s j = Some x" "j \<noteq> k" for j x
    using inj_onD [OF inj, of "(j, x)" "(k, a)"] mem that struct_look [OF st] by auto
  have "\<forall>j x. j \<noteq> k \<longrightarrow> getScope s j = Some x \<longrightarrow> (bufs s)[a := ?b'] ! x = bufs s ! x"
    using ne by (metis nth_list_update_neq)
  then show ?thesis using st' ch hl look b(1) unfolding run warm_step_def by (simp add: getScope_def)
qed

lemma commitPlan_step:
  assumes st: "struct_inv s" and p: "plan_for s (k, r) p" and run: "commitPlan clk p (n, s) = (n', s')"
  shows "warm_step k r (planDelta s p) n s n' s'"
proof (cases "getScope s k")
  case (Some a)
  then show ?thesis using commitAt_step [OF st Some p, of n "clk 1"] run plan_forD(1) [OF p]
    by (auto simp: commitPlan_def planDelta_def)
next
  case None
  note P = plan_forD [OF p]
  let ?b = "store_newscopeBuffer (clk 0) s" let ?s = "linkScope k ?b s"
  have cfg: "config_ok (score s)" using st by (simp add: struct_inv_def)
  note nf = newscope_facts [OF cfg P(7), of "clk 0"]
  have "buf_ok (score s) k ?b" "cell_refs (items ?b) = []" using nf by (simp_all add: buf_ok_def)
  then have L: "struct_inv ?s" "charged ?s = charged s + bytes ?b + scopeBufferOverhead"
    "held ?s = held s" "length (linked ?s) = Suc (length (linked s))"
    "\<And>j. getScope ?s j = (if j = k then Some (length (bufs s)) else getScope s j)"
    using linkScope_struct [OF st P(6) None, of ?b] nf by simp_all
  have b0: "bytes ?b = 0" using buf_invD(6) [OF nf(4)] nf(3) by simp
  have "plan_for ?s (k, r) p"
    using p P(5) [OF None] L(5) b0 by (simp add: plan_for_def snapshot_def)
  from commitAt_step [OF L(1) _ this, of "length (bufs s)" "n + 1" "clk 1"] L(5)
  have step: "warm_step k r (p_newBytes p - p_oldBytes p) (n + 1) ?s (n + 1) (commitAt (clk 1) p (length (bufs s)) ?s)"
    by simp
  have rs: "n' = n + 1" "s' = commitAt (clk 1) p (length (bufs s)) ?s"
    using run None P(1) by (simp_all add: commitPlan_def)
  have "x < length (bufs s)" if "getScope s j = Some x" for j x
    using that linked_less [OF st] struct_look [OF st] by fastforce
  then show ?thesis using step L b0 None P(1) unfolding rs warm_step_def
    by (auto simp: planDelta_def nth_append)
qed

definition warmed :: "(bytestr \<times> scopeReplacement) list \<Rightarrow> int \<Rightarrow> int \<Rightarrow> store \<Rightarrow> int \<Rightarrow> store \<Rightarrow> bool" where
  \<comment> \<open>the same of a whole batch\<close>
  "warmed built delta n s n' s' \<longleftrightarrow>
     struct_inv s' \<and> charged s' = charged s + delta \<and>
     held s' - held s = totalItems (score s') - totalItems (score s) \<and>
     totalBytes (score s') = totalBytes (score s) \<and> scopeCount (score s') = scopeCount (score s) \<and>
     core_config (score s') = core_config (score s) \<and> cells (score s') = cells (score s) \<and> shub s' = shub s \<and>
     int (length (linked s')) - n' = int (length (linked s)) - n \<and> n \<le> n' \<and>
     (\<forall>j. j \<notin> fst ` set built \<longrightarrow> getScope s' j = getScope s j) \<and>
     (\<forall>j a. j \<notin> fst ` set built \<longrightarrow> getScope s j = Some a \<longrightarrow> bufs s' ! a = bufs s ! a) \<and>
     (\<forall>q \<in> set built. \<exists>a. getScope s' (fst q) = Some a \<and> items (bufs s' ! a) = r_items (snd q) \<and>
        lastSeq (bufs s' ! a) = r_lastSeq (snd q))"

lemma batch_ok_cong:
  assumes "core_config c' = core_config c" "cells c' = cells c"
  shows "batch_ok c' q = batch_ok c q"
proof -
  have "item_ok c' k it = item_ok c k it" for k it
    using item_ok_mono [of c k it c'] item_ok_mono [of c' k it c] assms by auto
  then show ?thesis using assms(1) by (simp add: batch_ok_def repl_ok_def core_config_def)
qed

lemma warmLoop_ok:
  assumes "struct_inv s" "distinct (map fst built)" "\<forall>q \<in> set built. batch_ok (score s) q"
    and "warmLoop clk (map (snapshot s) built) (n, s) = (n', s')"
  shows "warmed built (sum_list (map (planDelta s) (map (snapshot s) built))) n s n' s'"
  using assms
proof (induction built arbitrary: clk n s)
  case Nil
  then show ?case by (simp add: warmed_def)
next
  case (Cons q built)
  obtain k r where q: "q = (k, r)" by (metis surj_pair)
  obtain n1 s1 where one: "commitPlan clk (snapshot s (k, r)) (n, s) = (n1, s1)" by (metis surj_pair)
  have "plan_for s (k, r) (snapshot s (k, r))" using Cons.prems(3) q by (simp add: plan_for_def)
  from commitPlan_step [OF Cons.prems(1) this one]
  have W: "warm_step k r (planDelta s (snapshot s (k, r))) n s n1 s1" .
  then have w: "struct_inv s1" "core_config (score s1) = core_config (score s)" "cells (score s1) = cells (score s)"
    and oth: "\<And>j. j \<noteq> k \<Longrightarrow> getScope s1 j = getScope s j"
      "\<And>j a. j \<noteq> k \<Longrightarrow> getScope s j = Some a \<Longrightarrow> bufs s1 ! a = bufs s ! a"
    by (simp_all add: warm_step_def)
  have nk: "fst p \<noteq> k" if "p \<in> set built" for p using Cons.prems(2) q that by (auto simp: rev_image_eqI)
  have snap: "snapshot s1 p = snapshot s p" if "p \<in> set built" for p
    using oth [OF nk [OF that]] by (simp add: snapshot_def case_prod_beta split: option.splits)
  have maps: "map (snapshot s1) built = map (snapshot s) built" using snap by simp
  have delta: "map (planDelta s1) (map (snapshot s) built) = map (planDelta s) (map (snapshot s) built)"
    using oth(1) nk by (auto simp: planDelta_def snapshot_def)
  have "\<forall>q \<in> set built. batch_ok (score s1) q" using Cons.prems(3) batch_ok_cong [OF w(2,3)] by simp
  moreover have "distinct (map fst built)" using Cons.prems(2) by simp
  moreover have "warmLoop (later 2 clk) (map (snapshot s1) built) (n1, s1) = (n', s')"
    using Cons.prems(4) q one by (simp add: maps)
  ultimately have R: "warmed built (sum_list (map (planDelta s) (map (snapshot s) built))) n1 s1 n' s'"
    using Cons.IH [OF w(1)] by (simp only: maps delta)
  have kb: "k \<notin> fst ` set built" using Cons.prems(2) q by simp
  obtain a where a: "getScope s1 k = Some a" "items (bufs s1 ! a) = r_items r" "lastSeq (bufs s1 ! a) = r_lastSeq r"
    using W by (auto simp: warm_step_def)
  have a': "getScope s' k = Some a \<and> items (bufs s' ! a) = r_items r \<and> lastSeq (bufs s' ! a) = r_lastSeq r"
    using R a kb by (simp add: warmed_def)
  have far: "bufs s' ! x = bufs s ! x" if "j \<noteq> k" "j \<notin> fst ` set built" "getScope s j = Some x" for j x
    using R oth that by (simp add: warmed_def)
  have all1: "\<forall>j. j \<notin> fst ` set (q # built) \<longrightarrow> getScope s' j = getScope s j"
    using R oth(1) q by (simp add: warmed_def)
  have all2: "\<forall>j a. j \<notin> fst ` set (q # built) \<longrightarrow> getScope s j = Some a \<longrightarrow> bufs s' ! a = bufs s ! a"
    using far q by simp blast
  have all3: "\<forall>p \<in> set (q # built). \<exists>a. getScope s' (fst p) = Some a \<and> items (bufs s' ! a) = r_items (snd p) \<and>
      lastSeq (bufs s' ! a) = r_lastSeq (snd p)"
    using R a' q by (simp add: warmed_def)
  have nums: "struct_inv s'" "charged s' = charged s + sum_list (map (planDelta s) (map (snapshot s) (q # built)))"
    "held s' - held s = totalItems (score s') - totalItems (score s)"
    "totalBytes (score s') = totalBytes (score s)" "scopeCount (score s') = scopeCount (score s)"
    "core_config (score s') = core_config (score s)" "cells (score s') = cells (score s)" "shub s' = shub s"
    "int (length (linked s')) - n' = int (length (linked s)) - n" "n \<le> n'"
    using W R q unfolding warm_step_def warmed_def by simp_all
  show ?case unfolding warmed_def using nums all1 all2 all3 by blast
qed

lemma warmed_seqs:
  assumes "struct_inv s" "warmed built d n s n' s'" "seqs_below m s"
    and "\<forall>q \<in> set built. unat (r_lastSeq (snd q)) \<le> m"
  shows "seqs_below m s'"
  unfolding seqs_below_def
proof
  fix p assume p: "p \<in> set (linked s')"
  obtain k a where ka: "p = (k, a)" by (metis surj_pair)
  have st': "struct_inv s'" using assms(2) by (simp add: warmed_def)
  have look: "getScope s' k = Some a" using p ka struct_look [OF st'] by simp
  show "unat (lastSeq (bufs s' ! snd p)) \<le> m"
  proof (cases "k \<in> fst ` set built")
    case True
    then obtain q where q: "q \<in> set built" "fst q = k" by auto
    then have "lastSeq (bufs s' ! a) = r_lastSeq (snd q)" using assms(2) look by (auto simp: warmed_def)
    then show ?thesis using assms(4) q(1) ka by simp
  next
    case False
    then have "getScope s k = Some a" "bufs s' ! a = bufs s ! a" using assms(2) look by (auto simp: warmed_def)
    then show ?thesis using assms(3) ka struct_look [OF assms(1)] by (auto simp: seqs_below_def)
  qed
qed

text \<open>The bytes of a batch, which a process can address.\<close>

definition batch_bytes :: "grouped \<Rightarrow> int" where
  "batch_bytes g = sum_list (map (\<lambda>p. total_size (map fillRender (snd p)) + scopeBufferOverhead) g)"

lemma numbered_total:
  assumes "\<forall>it \<in> set its. client_item it"
  shows "total_size (numbered t sq (map fillRender its)) = total_size (map fillRender its)"
proof -
  have one: "approxItemSize (fresh_item t q (fillRender it)) = approxItemSize (fillRender it)" if "client_item it" for it q
    using that by (simp add: client_item_def fresh_item_def fillRender_def approxItemSize_def Let_def)
  show ?thesis using assms by (induction its arbitrary: sq) (simp_all add: one)
qed

lemma built_bytes:
  assumes "list_all2 built_from g built" "\<forall>p \<in> set g. \<forall>it \<in> set (snd p). client_item it"
  shows "sum_list (map (\<lambda>q. total_size (r_items (snd q)) + scopeBufferOverhead) built) = batch_bytes g"
  using assms
  by (induction rule: list_all2_induct) (auto simp: batch_bytes_def built_from_def numbered_total)

lemma planDelta_upper: "planDelta s (snapshot s q) \<le> total_size (r_items (snd q)) + scopeBufferOverhead"
  if "struct_inv s" for s q
proof -
  have nn: "0 \<le> bytes (bufs s ! a)" if "getScope s k = Some a" for k a
  proof -
    have "buf_inv (bufs s ! a)" using that \<open>struct_inv s\<close> struct_look [OF \<open>struct_inv s\<close>, of k a]
      by (auto simp: struct_inv_def bufs_ok_def linked_ok_def buf_ok_def)
    then show ?thesis by (simp add: buf_invD(6) total_size_nonneg)
  qed
  show ?thesis
    by (cases "getScope s (fst q)")
      (use nn [of "fst q"] in \<open>simp_all add: planDelta_def snapshot_def case_prod_beta sumItemBytes_eq scopeBufferOverhead_def\<close>)
qed

lemma warm_delta_range:
  assumes inv: "store_inv s" and W: "warmed built d 0 t n' s'" and t: "charged t = charged s"
    and d: "d = sum_list (map (planDelta s) (map (snapshot s) built))"
    and fits: "sum_list (map (\<lambda>q. total_size (r_items (snd q)) + scopeBufferOverhead) built) \<le> MaxInt64"
  shows "- totalBytes (score s) \<le> d" "d \<le> MaxInt64" "wrap64 d = d"
proof -
  have st: "struct_inv s" "totalBytes (score s) = charged s" "within_cap (score s)"
    using inv by (simp_all add: store_inv_def base_inv_def)
  have ok: "bufs_ok (score s') (set (linked s')) (bufs s')" using W by (simp add: warmed_def struct_inv_def)
  have "0 \<le> charged s'" unfolding charged_def
    by (rule sdir.total_nonneg) (rule scope_charge_nonneg [OF ok])
  then show lo: "- totalBytes (score s) \<le> d" using W t st(2) by (simp add: warmed_def)
  have "d \<le> sum_list (map (\<lambda>q. total_size (r_items (snd q)) + scopeBufferOverhead) built)"
    unfolding d map_map comp_def by (rule sum_list_mono) (rule planDelta_upper [OF st(1)])
  then show hi: "d \<le> MaxInt64" using fits by simp
  show "wrap64 d = d"
    by (rule wrap64_id) (use lo hi st(3) in \<open>auto simp: within_cap_def MinInt64_def MaxInt64_def\<close>)
qed

lemma struct_snapshot: "snapshot (s\<lparr>score := c\<rparr>) = snapshot s" "planDelta (s\<lparr>score := c\<rparr>) = planDelta s"
  by (simp_all add: snapshot_def planDelta_def fun_eq_iff split: option.splits)

lemma warmLoop_score:
  \<comment> \<open>the loop moves \<open>totalBytes\<close> for no drift, so it can be run before the reservation\<close>
  assumes inv: "store_inv s" and d: "distinct (map fst built)" and ok: "\<forall>q \<in> set built. batch_ok (score s) q"
    and c: "core_config c = core_config (score s)" "cells c = cells (score s)"
    and run: "warmLoop clk (map (snapshot s) built) (0, s\<lparr>score := c\<rparr>) = (n', s')"
  shows "warmed built (sum_list (map (planDelta s) (map (snapshot s) built))) 0 (s\<lparr>score := c\<rparr>) n' s'"
proof -
  have "struct_inv s" using inv by (simp add: store_inv_def base_inv_def)
  then have "struct_inv (s\<lparr>score := c\<rparr>)" using struct_cong [OF c] by simp
  then show ?thesis
    using warmLoop_ok [of "s\<lparr>score := c\<rparr>" built clk 0 n' s'] d ok batch_ok_cong [OF c] run
    by (simp add: struct_snapshot)
qed

definition warm_result :: "(bytestr \<times> scopeReplacement) list \<Rightarrow> store \<Rightarrow> store \<Rightarrow> bool" where
  \<comment> \<open>the scopes of the batch hold its items, every other scope what it held\<close>
  "warm_result built s s' \<longleftrightarrow>
     core_config (score s') = core_config (score s) \<and> cells (score s') = cells (score s) \<and> shub s' = shub s \<and>
     (\<forall>j. j \<notin> fst ` set built \<longrightarrow> getScope s' j = getScope s j) \<and>
     (\<forall>j a. j \<notin> fst ` set built \<longrightarrow> getScope s j = Some a \<longrightarrow> bufs s' ! a = bufs s ! a) \<and>
     (\<forall>q \<in> set built. \<exists>a. getScope s' (fst q) = Some a \<and> items (bufs s' ! a) = r_items (snd q) \<and>
        lastSeq (bufs s' ! a) = r_lastSeq (snd q))"

lemma warm_commit_inv:
  assumes inv: "store_inv s" and d: "distinct (map fst built)" and ok: "\<forall>q \<in> set built. batch_ok (score s) q"
    and fits: "sum_list (map (\<lambda>q. total_size (r_items (snd q)) + scopeBufferOverhead) built) \<le> MaxInt64"
    and sq: "seqs_below m s" "\<forall>q \<in> set built. length (r_items (snd q)) \<le> m"
    and res: "warmReserve built s = (Inr plans, s1)"
  shows "good m (warmCommit clk plans s1)" "warm_result built s (warmCommit clk plans s1)" "length plans = length built"
proof -
  let ?d = "sum_list (map (planDelta s) (map (snapshot s) built))"
  let ?c = "(score s)\<lparr>totalBytes := totalBytes (score s) + ?d\<rparr>"
  have cap: "within_cap (score s)" using inv by (simp add: store_inv_def base_inv_def)
  obtain n0 t0 where "warmLoop clk (map (snapshot s) built) (0, s\<lparr>score := score s\<rparr>) = (n0, t0)" by (metis surj_pair)
  note W0 = warmLoop_score [OF inv d ok refl refl this]
  have range: "- totalBytes (score s) \<le> ?d" "wrap64 ?d = ?d"
    using warm_delta_range [OF inv W0 _ refl fits] by simp_all
  have plans: "plans = map (snapshot s) built" and s1: "s1 = s\<lparr>score := ?c\<rparr>"
    and below: "totalBytes (score s) + ?d \<le> maxStoreBytes (score s)"
    using res reserveBytes_eq [OF cap range(1)] range(2) by (auto simp: warmReserve_def Let_def split: if_splits)
  show "length plans = length built" by (simp add: plans)
  obtain n' s2 where run: "warmLoop clk plans (0, s1) = (n', s2)" by (metis surj_pair)
  have cc: "core_config ?c = core_config (score s)" "cells ?c = cells (score s)" by (simp_all add: core_config_def)
  have W: "warmed built ?d 0 s1 n' s2"
    using warmLoop_score [OF inv d ok cc] run unfolding plans s1 by blast
  have fin: "warmCommit clk plans s1 = s2\<lparr>score := add_scopeCount n' (score s2)\<rparr>"
    using run W by (auto simp: warmCommit_def warmed_def add_scopeCount_def)
  let ?s = "s2\<lparr>score := add_scopeCount n' (score s2)\<rparr>"
  have w: "struct_inv s2" "charged s2 = charged s + ?d" "held s2 - held s = totalItems (score s2) - totalItems (score s)"
    "totalBytes (score s2) = totalBytes (score s) + ?d" "scopeCount (score s2) = scopeCount (score s)"
    "core_config (score s2) = core_config (score s)" "cells (score s2) = cells (score s)" "shub s2 = shub s"
    "int (length (linked s2)) - n' = int (length (linked s))"
    "\<forall>j. j \<notin> fst ` set built \<longrightarrow> getScope s2 j = getScope s j"
    "\<forall>j a. j \<notin> fst ` set built \<longrightarrow> getScope s j = Some a \<longrightarrow> bufs s2 ! a = bufs s ! a"
    "\<forall>q \<in> set built. \<exists>a. getScope s2 (fst q) = Some a \<and> items (bufs s2 ! a) = r_items (snd q) \<and>
        lastSeq (bufs s2 ! a) = r_lastSeq (snd q)"
    using W cc by (simp_all add: warmed_def s1)
  have "struct_inv ?s" using w(1) struct_cong [of "add_scopeCount n' (score s2)" s2] by simp
  moreover have "within_cap (score ?s)"
    using cap below range(1) w(4) core_config_eqD(2) [OF w(6)] by (simp add: within_cap_def)
  moreover have "totalBytes (score ?s) = charged ?s" "totalItems (score ?s) = held ?s"
    "scopeCount (score ?s) = int (length (linked ?s))"
    using w inv by (simp_all add: store_inv_def base_inv_def)
  ultimately have base: "base_inv ?s" by (simp add: base_inv_def)
  have "getScope ?s k \<noteq> None" if "k \<in> set reservedScopeNames" for k
  proof -
    have "k \<notin> fst ` set built" using ok that by (auto simp: batch_ok_def isReservedScope_def)
    then show ?thesis using w(10) store_invD(10) [OF inv that] by simp
  qed
  then have "store_inv ?s" using base by (simp add: store_inv_def)
  moreover have "seqs_below m ?s"
  proof -
    have "struct_inv s1" using inv struct_cong [OF cc] by (simp add: s1 store_inv_def base_inv_def)
    moreover have "seqs_below m s1" using sq(1) by (simp add: s1 seqs_below_def)
    moreover have "\<forall>q \<in> set built. unat (r_lastSeq (snd q)) \<le> m" using sq(2) ok by (simp add: batch_ok_def)
    ultimately have "seqs_below m s2" using warmed_seqs [OF _ W] by blast
    then show ?thesis by (simp add: seqs_below_def)
  qed
  ultimately show "good m (warmCommit clk plans s1)" by (simp add: fin good_def)
  show "warm_result built s (warmCommit clk plans s1)"
    using w by (simp add: fin warm_result_def)
qed

lemma emitWarm_good:
  assumes "good m s" "room m" "returning x (emitWarmEvent clk s) = (r, s')"
  shows "r = Inr x \<and> good (m + 1) s' \<and> stays s s' \<and> quiet s s'"
proof (cases "eventsMode (score s) = EventsModeOff")
  case True
  then show ?thesis using assms(3) good_mono [OF assms(1), of "m + 1"]
    by (auto simp: emitWarmEvent_def returning_def)
next
  case False
  obtain p t where e: "emitWith (appendOne (later 1 clk)) (writeEvent_zero\<lparr>ev_Op := ''warm'', ev_Ts := clk 0\<rparr>) s = (p, t)"
    by (metis surj_pair)
  then show ?thesis
    using False assms(3) emitWith_good [OF assms(1,2) e] emitWith_quiet [OF assms(1,2) e]
    by (auto simp: emitWarmEvent_def emitEvent_def returning_def)
qed

lemma replaceScopes_good:
  assumes g: "good m s" and room: "room m" and cl: "client_batch grouped" and fits: "batch_bytes grouped \<le> MaxInt64"
    and m: "defaultMaxItems (score s) \<le> int m" and run: "replaceScopes clk grouped s = (r, s')"
  shows "good (m + 1) s'" "not_panic r" "core_config (score s') = core_config (score s)"
    "\<And>e. r = Inl e \<Longrightarrow> s' = s"
    "\<And>n. r = Inr n \<Longrightarrow> n = int (length grouped) \<and>
       (\<exists>built s1. list_all2 built_from grouped built \<and> (\<forall>q \<in> set built. batch_ok (score s) q) \<and>
          warm_result built s s1 \<and> quiet s1 s' \<and> store_inv s1)"
proof -
  note inv = goodD(1) [OF g]
  have "good (m + 1) s' \<and> not_panic r \<and> core_config (score s') = core_config (score s) \<and> (\<forall>e. r = Inl e \<longrightarrow> s' = s) \<and>
    (\<forall>n. r = Inr n \<longrightarrow> n = int (length grouped) \<and>
       (\<exists>built s1. list_all2 built_from grouped built \<and> (\<forall>q \<in> set built. batch_ok (score s) q) \<and>
          warm_result built s s1 \<and> quiet s1 s' \<and> store_inv s1))"
  proof (cases "buildBatch ''/warm'' (score s) clk grouped")
    case (Inl e)
    then show ?thesis using run buildBatch_Inl [OF Inl] good_mono [OF g, of "m + 1"] by (auto simp: replaceScopes_def)
  next
    case (Inr bo)
    obtain built offs where bo: "bo = (built, offs)" by (metis surj_pair)
    show ?thesis
    proof (cases "offs = []")
      case False
      then show ?thesis using run Inr bo good_mono [OF g, of "m + 1"] by (auto simp: replaceScopes_def not_panic_def)
    next
      case True
      have ci: "\<forall>p \<in> set grouped. \<forall>it \<in> set (snd p). client_item it" "distinct (map fst grouped)"
        using cl by (simp_all add: client_batch_def)
      note B = buildBatch_Inr [OF store_invD(3) [OF inv] ci(1) Inr [unfolded bo True]]
      have d: "distinct (map fst built)" using built_keys [OF B(1)] ci(2) by simp
      have bytes: "sum_list (map (\<lambda>q. total_size (r_items (snd q)) + scopeBufferOverhead) built) \<le> MaxInt64"
        using built_bytes [OF B(1) ci(1)] fits by simp
      have len: "\<forall>q \<in> set built. length (r_items (snd q)) \<le> m" using B(2) m by (auto simp: batch_ok_def)
      have leng: "length built = length grouped" using list_all2_lengthD [OF B(1)] by simp
      obtain r1 s1 where res: "warmReserve built s = (r1, s1)" by (metis surj_pair)
      show ?thesis
      proof (cases r1)
        case e: (Inl e)
        have "s1 = s \<and> (\<exists>u d c. e = StoreFullError u d c)"
          using res e by (auto simp: warmReserve_def Let_def reserveBytes_def split: if_splits prod.splits)
        then show ?thesis using run Inr bo True res e good_mono [OF g, of "m + 1"]
          by (auto simp: replaceScopes_def not_panic_def)
      next
        case p: (Inr plans)
        note C = warm_commit_inv(1,2) [OF inv d B(2) bytes goodD(2) [OF g] len res [unfolded p], of "later (length grouped) clk"]
          warm_commit_inv(3) [OF inv d B(2) bytes goodD(2) [OF g] len res [unfolded p]]
        let ?s2 = "warmCommit (later (length grouped) clk) plans s1"
        have out: "(if 0 < length plans then returning (int (length plans)) (emitWarmEvent (later (3 * length grouped) clk) ?s2)
            else (Inr (int (length plans)), ?s2)) = (r, s')"
          using run Inr bo True res p by (simp add: replaceScopes_def Let_def)
        have "r = Inr (int (length plans)) \<and> good (m + 1) s' \<and> quiet ?s2 s'"
          using out emitWarm_good [OF C(1) room, of "int (length plans)" "later (3 * length grouped) clk" r s'] good_mono [OF C(1), of "m + 1"] by (auto split: if_splits)
        moreover from this have "core_config (score s') = core_config (score s)"
          using C(2) by (simp add: warm_result_def quiet_def)
        ultimately show ?thesis using B C(2,3) goodD(1) [OF C(1)] leng by auto
      qed
    qed
  qed
  then show "good (m + 1) s'" "not_panic r" "core_config (score s') = core_config (score s)"
    "\<And>e. r = Inl e \<Longrightarrow> s' = s"
    "\<And>n. r = Inr n \<Longrightarrow> n = int (length grouped) \<and>
       (\<exists>built s1. list_all2 built_from grouped built \<and> (\<forall>q \<in> set built. batch_ok (score s) q) \<and>
          warm_result built s s1 \<and> quiet s1 s' \<and> store_inv s1)"
    by blast+
qed

end
