(* ===== verification/RebuildInv.thy ===== *)
theory RebuildInv
  imports BulkInv
begin

text \<open>
  Rebuild keeps the store invariant: it leaves exactly the scopes of its batch and the reserved ones,
  with the counters of the new state, or nothing changed.
\<close>

section \<open>Rebuild\<close>

text \<open>
  The directory is filled scope by scope into a store whose old buffers are all detached; the counters
  are set at the end, so the loop keeps only the structural part.
\<close>

definition with_dir :: "store \<Rightarrow> dir \<times> scopeBuffer list \<Rightarrow> store" where
  "with_dir s db = s\<lparr>sdirectory := fst db, bufs := snd db\<rparr>"

lemma rebuiltBuffer_ok:
  fixes now :: int
  assumes "config_ok (score s)" "batch_ok (score s) (k, r)"
  defines "b \<equiv> rebuiltBuffer now s r"
  shows "attached b" "\<not> detached b" "cell_refs (items b) = []" "buf_ok (score s) k b" "maxItems b = maxItemsFor (score s) k"
    "bytes b = total_size (r_items r)" "items b = r_items r" "lastSeq b = r_lastSeq r" "idKeyBytes b = 0"
proof -
  have r: "repl_ok (score s) k r" "int (length (r_items r)) \<le> defaultMaxItems (score s)" "\<not> isReservedScope k"
    using assms(2) by (simp_all add: batch_ok_def)
  show f: "attached b" "\<not> detached b" "bytes b = total_size (r_items r)" "items b = r_items r" "lastSeq b = r_lastSeq r"
    "idKeyBytes b = 0"
    by (simp_all add: b_def rebuiltBuffer_def store_newscopeBuffer_def newscopeBuffer_def sumItemBytes_eq)
  show "cell_refs (items b) = []" using repl_cell_refs [OF r(1)] f by simp
  show "maxItems b = maxItemsFor (score s) k"
    using r(3) by (simp add: b_def rebuiltBuffer_def store_newscopeBuffer_def newscopeBuffer_def maxItemsFor_def isReservedScope_iff)
  have "buf_inv b"
    using r assms(1) repl_cell_refs [OF r(1)]
    by (simp add: buf_inv_def repl_ok_def b_def rebuiltBuffer_def store_newscopeBuffer_def newscopeBuffer_def
        sumItemBytes_eq config_ok_def)
  then show "buf_ok (score s) k b" using r(1) f by (simp add: buf_ok_def repl_ok_def)
qed

definition rebuilt :: "(bytestr \<times> scopeReplacement) list \<Rightarrow> store \<Rightarrow> store \<Rightarrow> bool" where
  "rebuilt built t t' \<longleftrightarrow>
     struct_inv t' \<and> score t' = score t \<and> shub t' = shub t \<and>
     charged t' = charged t + sum_list (map (\<lambda>q. total_size (r_items (snd q)) + scopeBufferOverhead) built) \<and>
     held t' = held t + sum_list (map (\<lambda>q. int (length (r_items (snd q)))) built) \<and>
     length (linked t') = length (linked t) + length built \<and>
     (\<forall>j. j \<notin> fst ` set built \<longrightarrow> getScope t' j = getScope t j) \<and>
     (\<forall>x < length (bufs t). bufs t' ! x = bufs t ! x) \<and> length (bufs t) \<le> length (bufs t') \<and>
     (\<forall>q \<in> set built. \<exists>a. getScope t' (fst q) = Some a \<and> items (bufs t' ! a) = r_items (snd q) \<and>
        lastSeq (bufs t' ! a) = r_lastSeq (snd q) \<and> idKeyBytes (bufs t' ! a) = 0)"

lemma newShardMaps_ok:
  assumes "struct_inv t" "\<forall>q \<in> set built. batch_ok (score t) q \<and> getScope t (fst q) = None" "distinct (map fst built)"
    and "score s = score t"
  shows "rebuilt built t (with_dir t (newShardMaps clk s built (sdirectory t, bufs t)))"
  using assms
proof (induction built arbitrary: t clk)
  case Nil
  then show ?case by (simp add: rebuilt_def with_dir_def)
next
  case (Cons q built)
  obtain k r where q: "q = (k, r)" by (metis surj_pair)
  let ?b = "rebuiltBuffer (clk 0) s r" let ?t = "linkScope k ?b t"
  have k: "k \<noteq> []" "getScope t k = None" "batch_ok (score s) (k, r)" and cfg: "config_ok (score s)"
    using Cons.prems q by (simp_all add: batch_ok_def struct_inv_def)
  note R = rebuiltBuffer_ok [OF cfg k(3), of "clk 0"]
  note L = linkScope_struct [OF Cons.prems(1) k(1,2) R(1-3), folded Cons.prems(4), OF R(4,5)]
  have kb: "k \<notin> fst ` set built" using Cons.prems(3) q by simp
  then have "\<forall>q \<in> set built. batch_ok (score ?t) q \<and> getScope ?t (fst q) = None"
    using Cons.prems(2) L(5) by (auto simp: rev_image_eqI)
  then have IH: "rebuilt built ?t (with_dir ?t (newShardMaps (later 1 clk) s built (sdirectory ?t, bufs ?t)))"
    using Cons.IH [OF L(1)] Cons.prems(3,4) by simp
  have same: "with_dir ?t (newShardMaps (later 1 clk) s built (sdirectory ?t, bufs ?t)) =
      with_dir t (newShardMaps clk s (q # built) (sdirectory t, bufs t))" (is "_ = ?t'")
    by (simp add: q with_dir_def linkScope_def)
  note IH = IH [unfolded same]
  have at: "getScope ?t' k = Some (length (bufs t))" "bufs ?t' ! length (bufs t) = ?b"
    using IH kb L(5) by (simp_all add: rebuilt_def)
  have "\<forall>p \<in> set (q # built). \<exists>a. getScope ?t' (fst p) = Some a \<and> items (bufs ?t' ! a) = r_items (snd p) \<and>
      lastSeq (bufs ?t' ! a) = r_lastSeq (snd p) \<and> idKeyBytes (bufs ?t' ! a) = 0"
    using IH at R(7-9) q by (simp add: rebuilt_def)
  moreover have "\<forall>x < length (bufs t). bufs ?t' ! x = bufs t ! x"
    using IH by (simp add: rebuilt_def nth_append)
  moreover have "\<forall>j. j \<notin> fst ` set (q # built) \<longrightarrow> getScope ?t' j = getScope t j"
    using IH L(5) q by (simp add: rebuilt_def)
  moreover have "struct_inv ?t'" "score ?t' = score t" "shub ?t' = shub t" "length (bufs t) \<le> length (bufs ?t')"
    "charged ?t' = charged t + sum_list (map (\<lambda>q. total_size (r_items (snd q)) + scopeBufferOverhead) (q # built))"
    "held ?t' = held t + sum_list (map (\<lambda>q. int (length (r_items (snd q)))) (q # built))"
    "length (linked ?t') = length (linked t) + length (q # built)"
    using IH L(2,3,4) R(6,7) q by (simp_all add: rebuilt_def)
  ultimately show ?case unfolding rebuilt_def by blast
qed

lemma emptied_with: "emptied now s = (detachAll s)\<lparr>score := score (emptied now s), sdirectory := dir_clear (sdirectory s)\<rparr>"
  by (simp add: emptied_def)

definition rebuild_result :: "(bytestr \<times> scopeReplacement) list \<Rightarrow> store \<Rightarrow> store \<Rightarrow> bool" where
  \<comment> \<open>exactly the scopes of the batch and the reserved ones; every buffer there was is detached\<close>
  "rebuild_result built s s' \<longleftrightarrow>
     (\<forall>j. j \<notin> fst ` set built \<longrightarrow> \<not> isReservedScope j \<longrightarrow> getScope s' j = None) \<and>
     length (bufs s) \<le> length (bufs s') \<and> (\<forall>x < length (bufs s). detached (bufs s' ! x)) \<and>
     (\<forall>q \<in> set built. \<exists>a. getScope s' (fst q) = Some a \<and> items (bufs s' ! a) = r_items (snd q) \<and>
        lastSeq (bufs s' ! a) = r_lastSeq (snd q) \<and> idKeyBytes (bufs s' ! a) = 0)"

lemma rebuild_swap:
  fixes clk :: clock and now :: int
  assumes inv: "store_inv s" and d: "distinct (map fst built)" and ok: "\<forall>q \<in> set built. batch_ok (score s) q"
    and newTotal: "newTotal = sum_list (map (\<lambda>q. total_size (r_items (snd q)) + scopeBufferOverhead) built)"
    and fits: "newTotal + reservedScopesOverhead \<le> maxStoreBytes (score s)"
    and m: "\<forall>q \<in> set built. length (r_items (snd q)) \<le> m"
  defines "t \<equiv> with_dir (detachAll s) (newShardMaps clk s built (dir_clear (sdirectory s), bufs (detachAll s)))"
  defines "t' \<equiv> t\<lparr>score := bumpLastWriteTS now ((score s)\<lparr>totalBytes := newTotal,
       totalItems := sum_list (map (\<lambda>q. int (length (r_items (snd q)))) built), scopeCount := int (length built)\<rparr>)\<rparr>"
  shows "good m (initReservedScopesLocked rclk t')" "rebuild_result built s (initReservedScopesLocked rclk t')"
    "core_config (score (initReservedScopesLocked rclk t')) = core_config (score s)"
    "totalBytes (score (initReservedScopesLocked rclk t')) = newTotal + reservedScopesOverhead"
proof -
  let ?e = "(detachAll s)\<lparr>sdirectory := dir_clear (sdirectory s)\<rparr>"
  have st: "struct_inv s" and cap: "within_cap (score s)" using inv by (simp_all add: store_inv_def base_inv_def)
  have "bufs_ok (score s) {} (bufs (detachAll s))" using detachAll_detached [OF st] by (simp add: bufs_ok_def)
  then have se: "struct_inv ?e" using st by (simp add: struct_inv_def)
  have none: "getScope ?e j = None" for j by (simp add: getScope_def)
  have te: "t = with_dir ?e (newShardMaps clk s built (sdirectory ?e, bufs ?e))" by (simp add: t_def with_dir_def)
  have pre: "\<forall>q \<in> set built. batch_ok (score ?e) q \<and> getScope ?e (fst q) = None" using ok none by simp
  have R: "rebuilt built ?e t" unfolding te by (rule newShardMaps_ok [OF se pre d]) simp
  have sc: "score t = score s" using R by (simp add: rebuilt_def)
  have at: "\<forall>q \<in> set built. \<exists>a. getScope t (fst q) = Some a \<and> items (bufs t ! a) = r_items (snd q) \<and>
        lastSeq (bufs t ! a) = r_lastSeq (snd q) \<and> idKeyBytes (bufs t ! a) = 0"
    using R by (simp add: rebuilt_def)
  have zero: "charged ?e = 0" "held ?e = 0" "linked ?e = []" by (simp_all add: charged_def held_def sdir.total_def)
  have cfg: "core_config (score t') = core_config (score s)" "cells (score t') = cells (score s)"
    by (simp_all add: t'_def core_config_def bumpLastWriteTS_def)
  have nn: "0 \<le> newTotal" unfolding newTotal
    by (rule sum_list_nonneg) (auto simp: scopeBufferOverhead_def intro: add_nonneg_nonneg total_size_nonneg)
  have "struct_inv t'" using R struct_cong [of "score t'" t] cfg sc by (simp add: rebuilt_def t'_def)
  moreover have "within_cap (score t')"
    using cap fits nn reservedScopesOverhead_eq by (simp add: within_cap_def t'_def)
  moreover have "totalBytes (score t') = charged t'" "totalItems (score t') = held t'"
    "scopeCount (score t') = int (length (linked t'))"
    using R zero by (simp_all add: t'_def rebuilt_def newTotal)
  ultimately have base: "base_inv t'" by (simp add: base_inv_def)
  have look: "getScope t' j = getScope t j" for j by (simp add: t'_def)
  have gnone: "getScope t' j = None" if "j \<notin> fst ` set built" for j
    using R that none look by (simp add: rebuilt_def)
  have res: "\<forall>k \<in> set reservedScopeNames. getScope t' k = None"
  proof
    fix k assume "k \<in> set reservedScopeNames"
    then have "k \<notin> fst ` set built" using ok by (auto simp: batch_ok_def isReservedScope_def)
    then show "getScope t' k = None" by (rule gnone)
  qed
  have sq: "seqs_below m t'"
    unfolding seqs_below_def
  proof
    fix p assume p: "p \<in> set (linked t')"
    obtain k a where ka: "p = (k, a)" by (metis surj_pair)
    have lk: "getScope t' k = Some a" using p ka struct_look base by (simp add: base_inv_def)
    then have "k \<in> fst ` set built" using gnone by fastforce
    then obtain q where q: "q \<in> set built" "fst q = k" by auto
    obtain a' where a': "getScope t (fst q) = Some a'" "lastSeq (bufs t ! a') = r_lastSeq (snd q)"
      using at q(1) by blast
    have "unat (r_lastSeq (snd q)) \<le> m" using ok m q(1) by (simp add: batch_ok_def)
    moreover have "a' = a" using a'(1) lk look q(2) by simp
    ultimately show "unat (lastSeq (bufs t' ! snd p)) \<le> m" using a'(2) ka by (simp add: t'_def)
  qed
  have f': "totalBytes (score t') + reservedScopesOverhead \<le> maxStoreBytes (score t')"
    using fits by (simp add: t'_def)
  note I = initReserved_good [OF base res f' sq, where stamp = "\<lambda>s. lastWriteTS (score s)" and clk = rclk]
  let ?f = "initReservedScopesLocked rclk t'"
  have tot': "totalBytes (score t') = newTotal" by (simp add: t'_def)
  have f: "?f = initReserved (\<lambda>s. lastWriteTS (score s)) rclk t'" by (simp add: initReservedScopesLocked_def)
  show "good m ?f" "core_config (score ?f) = core_config (score s)" "totalBytes (score ?f) = newTotal + reservedScopesOverhead"
    using I(1,2,3) cfg(1) tot' by (simp_all add: f)
  obtain b1 b2 where bs: "bufs ?f = bufs t' @ [b1, b2]" using I(6) by (auto simp: f)
  have lenb: "length (bufs s) \<le> length (bufs t')" "\<forall>x < length (bufs s). detached (bufs t' ! x)"
    using R detachAll_detached(1) [OF st] by (simp_all add: rebuilt_def t'_def)
  have "\<exists>a. getScope ?f (fst q) = Some a \<and> items (bufs ?f ! a) = r_items (snd q) \<and>
        lastSeq (bufs ?f ! a) = r_lastSeq (snd q) \<and> idKeyBytes (bufs ?f ! a) = 0" if q: "q \<in> set built" for q
  proof -
    obtain a where a: "getScope t (fst q) = Some a" "items (bufs t ! a) = r_items (snd q)"
      "lastSeq (bufs t ! a) = r_lastSeq (snd q)" "idKeyBytes (bufs t ! a) = 0"
      using at q by blast
    have la: "getScope t' (fst q) = Some a" using look a(1) by simp
    have stt: "struct_inv t'" using base by (simp add: base_inv_def)
    have al: "a < length (bufs t')"
      using linked_less [OF stt] struct_look [OF stt, of "fst q" a] la by fastforce
    have "\<not> isReservedScope (fst q)" using ok q by (simp add: batch_ok_def)
    then have "getScope ?f (fst q) = Some a" using I(4) [of "fst q"] la by (simp add: f)
    moreover have "bufs ?f ! a = bufs t ! a" using al bs by (simp add: nth_append) (simp add: t'_def)
    ultimately show ?thesis using a by simp
  qed
  moreover have "getScope ?f j = None" if "j \<notin> fst ` set built" "\<not> isReservedScope j" for j
    using I(4) [OF that(2)] gnone [OF that(1)] by (simp add: f)
  ultimately show "rebuild_result built s ?f"
    using lenb bs by (simp add: rebuild_result_def nth_append)
qed

lemma rebuildAll_good:
  assumes g: "good m s" and cl: "client_batch grouped" and fits: "batch_bytes grouped + reservedScopesOverhead \<le> MaxInt64"
    and m: "defaultMaxItems (score s) \<le> int m" and run: "rebuildAll clk grouped s = (r, s')"
  shows "good m s'" "not_panic r" "core_config (score s') = core_config (score s)"
    "\<And>e. r = Inl e \<Longrightarrow> s' = s"
    "\<And>n k. r = Inr (n, k) \<Longrightarrow> n = int (length grouped) \<and>
       (\<exists>built. list_all2 built_from grouped built \<and> (\<forall>q \<in> set built. batch_ok (score s) q) \<and> rebuild_result built s s') \<and>
       totalBytes (score s') = batch_bytes grouped + reservedScopesOverhead"
proof -
  note inv = goodD(1) [OF g]
  have "good m s' \<and> not_panic r \<and> core_config (score s') = core_config (score s) \<and> (\<forall>e. r = Inl e \<longrightarrow> s' = s) \<and>
    (\<forall>n k. r = Inr (n, k) \<longrightarrow> n = int (length grouped) \<and>
       (\<exists>built. list_all2 built_from grouped built \<and> (\<forall>q \<in> set built. batch_ok (score s) q) \<and> rebuild_result built s s') \<and>
       totalBytes (score s') = batch_bytes grouped + reservedScopesOverhead)"
  proof (cases "buildBatch ''/rebuild'' (score s) clk grouped")
    case (Inl e)
    then show ?thesis using run buildBatch_Inl [OF Inl] g by (auto simp: rebuildAll_def)
  next
    case (Inr bo)
    obtain built offs where bo: "bo = (built, offs)" by (metis surj_pair)
    show ?thesis
    proof (cases "offs = []")
      case False
      then show ?thesis using run Inr bo g by (auto simp: rebuildAll_def not_panic_def)
    next
      case True
      have ci: "\<forall>p \<in> set grouped. \<forall>it \<in> set (snd p). client_item it" "distinct (map fst grouped)"
        using cl by (simp_all add: client_batch_def)
      note B = buildBatch_Inr [OF store_invD(3) [OF inv] ci(1) Inr [unfolded bo True]]
      have d: "distinct (map fst built)" using built_keys [OF B(1)] ci(2) by simp
      have bytes: "sum_list (map (\<lambda>q. total_size (r_items (snd q)) + scopeBufferOverhead) built) = batch_bytes grouped"
        by (rule built_bytes [OF B(1) ci(1)])
      have len: "\<forall>q \<in> set built. length (r_items (snd q)) \<le> m" using B(2) m by (auto simp: batch_ok_def)
      have leng: "length built = length grouped" using list_all2_lengthD [OF B(1)] by simp
      have nn: "0 \<le> batch_bytes grouped" unfolding batch_bytes_def
        by (rule sum_list_nonneg) (auto simp: scopeBufferOverhead_def intro: add_nonneg_nonneg total_size_nonneg)
      have tot: "rebuildBytes built = batch_bytes grouped"
        using bytes nn fits reservedScopesOverhead_eq
        by (simp add: rebuildBytes_def split_def sumItemBytes_eq wrap64_nonneg_id)
      have needed: "wrap64 (batch_bytes grouped + reservedScopesOverhead) = batch_bytes grouped + reservedScopesOverhead"
        by (rule wrap64_nonneg_id) (use nn fits reservedScopesOverhead_eq in simp_all)
      show ?thesis
      proof (cases "maxStoreBytes (score s) < batch_bytes grouped + reservedScopesOverhead")
        case full: True
        then show ?thesis using run Inr bo True g tot needed by (auto simp: rebuildAll_def Let_def not_panic_def)
      next
        case False
        have le: "batch_bytes grouped + reservedScopesOverhead \<le> maxStoreBytes (score s)" using False by simp
        note S = rebuild_swap [OF inv d B(2) bytes [symmetric] le len, where clk = "later (length grouped) clk"
            and now = "clk (2 * length grouped)" and rclk = "later (2 * length grouped + 1) clk"]
        have rs: "\<exists>k. r = Inr (int (length grouped), k)"
          "s' = initReservedScopesLocked (later (2 * length grouped + 1) clk)
             ((with_dir (detachAll s) (newShardMaps (later (length grouped) clk) s built (dir_clear (sdirectory s), bufs (detachAll s))))
              \<lparr>score := bumpLastWriteTS (clk (2 * length grouped)) ((score s)\<lparr>totalBytes := batch_bytes grouped,
                 totalItems := sum_list (map (\<lambda>q. int (length (r_items (snd q)))) built), scopeCount := int (length built)\<rparr>)\<rparr>)"
          using run Inr bo True False tot needed leng
          by (auto simp: rebuildAll_def Let_def with_dir_def split_def)
        show ?thesis using S [folded rs(2)] rs(1) B by auto
      qed
    qed
  qed
  then show "good m s'" "not_panic r" "core_config (score s') = core_config (score s)"
    "\<And>e. r = Inl e \<Longrightarrow> s' = s"
    "\<And>n k. r = Inr (n, k) \<Longrightarrow> n = int (length grouped) \<and>
       (\<exists>built. list_all2 built_from grouped built \<and> (\<forall>q \<in> set built. batch_ok (score s) q) \<and> rebuild_result built s s') \<and>
       totalBytes (score s') = batch_bytes grouped + reservedScopesOverhead"
    by blast+
qed

end
