(* ===== verification/StoreSpec.thy ===== *)
theory StoreSpec
  imports RebuildInv
begin

text \<open>
  What a client sees of the store: a map from scopes to the last seq and the items, counters shown as
  their values (\<open>view\<close>). Each write is a function on that map (\<open>spec_\<dots>\<close>); the lemmas say that a write
  which succeeds acts as its function does, at every scope but \<open>_events\<close>, where its event goes, and that
  a write which fails changes nothing a client can see.
\<close>

section \<open>The abstract store\<close>

type_synonym view = "bytestr \<rightharpoonup> u64 \<times> Item list"

definition buf_view :: "core \<Rightarrow> scopeBuffer \<Rightarrow> u64 \<times> Item list" where
  "buf_view c b = (lastSeq b, map (materialiseCounter c) (items b))"

definition view :: "store \<Rightarrow> view" where
  "view s k = map_option (\<lambda>a. buf_view (score s) (bufs s ! a)) (getScope s k)"

definition agree :: "view \<Rightarrow> view \<Rightarrow> bool" where
  \<comment> \<open>equal at every scope but \<open>_events\<close>\<close>
  "agree v w \<longleftrightarrow> (\<forall>k. k \<noteq> EventsScopeName \<longrightarrow> v k = w k)"

lemma agree_refl [simp]: "agree v v"
  by (simp add: agree_def)

lemma agree_trans: "agree u v \<Longrightarrow> agree v w \<Longrightarrow> agree u w"
  by (simp add: agree_def)

definition contents :: "view \<Rightarrow> bytestr \<Rightarrow> u64 \<times> Item list" where
  \<comment> \<open>a scope that is not there reads as an empty one\<close>
  "contents v k = (case v k of None \<Rightarrow> (0, []) | Some p \<Rightarrow> p)"

definition spec_append :: "int \<Rightarrow> Item \<Rightarrow> view \<Rightarrow> view" where
  "spec_append now it v =
     (case contents v (Scope it) of (sq, its) \<Rightarrow> v(Scope it \<mapsto> (sq + 1, its @ [fresh_item now (sq + 1) it])))"

definition overwritten :: "int \<Rightarrow> Item \<Rightarrow> Item \<Rightarrow> Item" where
  \<comment> \<open>the stored item with a new payload: seq and id stay, the rendered form follows, a counter ends\<close>
  "overwritten now it y = replaced (Payload it) now (precomputeRenderBytes (Payload it)) y"

definition spec_upsert :: "int \<Rightarrow> Item \<Rightarrow> view \<Rightarrow> view" where
  "spec_upsert now it v =
     (case contents v (Scope it) of (sq, its) \<Rightarrow>
        if \<exists>y \<in> set its. ID y = ID it
        then v(Scope it \<mapsto> (sq, map (\<lambda>y. if ID y = ID it then overwritten now it y else y) its))
        else spec_append now it v)"

definition spec_keep :: "(Item \<Rightarrow> bool) \<Rightarrow> bytestr \<Rightarrow> view \<Rightarrow> view" where
  \<comment> \<open>drop the items of a scope that fail the test\<close>
  "spec_keep P k v = (case v k of None \<Rightarrow> v | Some (sq, its) \<Rightarrow> v(k \<mapsto> (sq, filter P its)))"

section \<open>What moves the view and what does not\<close>

lemma materialiseCounter_cong:
  "cells c' = cells c \<Longrightarrow> materialiseCounter c' = materialiseCounter c"
  by (simp add: materialiseCounter_def fun_eq_iff split: option.splits)

lemma buf_view_cong: "cells c' = cells c \<Longrightarrow> buf_view c' b = buf_view c b"
  using materialiseCounter_cong [of c' c] by (simp add: buf_view_def)

lemma materialise_plain [simp]: "counter it = None \<Longrightarrow> materialiseCounter c it = it"
  by (simp add: materialiseCounter_def)

lemma quiet_buf:
  assumes inv: "store_inv s" and q: "quiet s s'" and look: "getScope s k = Some a" and k: "k \<noteq> EventsScopeName"
  shows "bufs s' ! a = bufs s ! a"
proof -
  have "inj_on snd (set (linked s))" using store_invD(6) [OF inv] by (simp add: bufs_ok_def)
  then have "getScope s EventsScopeName \<noteq> Some a"
    using inj_onD [of snd "set (linked s)" "(k, a)" "(EventsScopeName, a)"] getScope_linked [OF inv] look k by auto
  then show ?thesis using q linked_bufD(1) [OF inv look] by (simp add: quiet_def)
qed

lemma quiet_view:
  assumes "store_inv s" "quiet s s'"
  shows "agree (view s') (view s)"
  unfolding agree_def
proof (intro allI impI)
  fix k assume k: "k \<noteq> EventsScopeName"
  have "cells (score s') = cells (score s)" using assms(2) by (simp add: quiet_def)
  then show "view s' k = view s k"
    using quiet_buf [OF assms _ k] quiet_getScope [OF assms(2)] buf_view_cong [of "score s'" "score s"]
    by (cases "getScope s k") (simp_all add: view_def)
qed

lemma no_trace_view:
  assumes "store_inv s" "no_trace s s'"
  shows "view s' = view s"
proof
  fix k
  have f: "score s' = score s" "getScope s' = getScope s"
    using no_trace_fields [OF assms(2)] by (simp_all add: getScope_def fun_eq_iff)
  show "view s' k = view s k"
  proof (cases "getScope s k")
    case (Some a)
    then have "bufs s' ! a = bufs s ! a"
      using assms(2) linked_bufD(1) [OF assms(1) Some] by (auto simp: no_trace_def discarded_def nth_append)
    then show ?thesis using f Some by (simp add: view_def)
  qed (simp add: view_def f)
qed

lemma on_buf_view:
  assumes inv: "store_inv s" and look: "getScope s k = Some a" and cells: "cells c' = cells (score s)"
  shows "view (s\<lparr>score := c', bufs := (bufs s)[a := b']\<rparr>) = (view s)(k \<mapsto> buf_view c' b')"
proof
  fix j
  let ?s = "s\<lparr>score := c', bufs := (bufs s)[a := b']\<rparr>"
  have g: "getScope ?s = getScope s" by (simp add: getScope_def fun_eq_iff)
  show "view ?s j = ((view s)(k \<mapsto> buf_view c' b')) j"
  proof (cases "j = k")
    case True
    then show ?thesis using look linked_bufD(1) [OF inv look] g by (simp add: view_def)
  next
    case False
    have "x \<noteq> a" if "getScope s j = Some x" for x
    proof
      assume "x = a"
      moreover have "inj_on snd (set (linked s))" using store_invD(6) [OF inv] by (simp add: bufs_ok_def)
      ultimately show False
        using inj_onD [of snd "set (linked s)" "(j, a)" "(k, a)"] getScope_linked [OF inv] look that False by auto
    qed
    then show ?thesis using False g buf_view_cong [OF cells] by (cases "getScope s j") (simp_all add: view_def)
  qed
qed

lemma created_view:
  assumes g: "good m s" and run: "getOrCreateScopeTrackingCreated now k s = (Inr (a, created), s1)"
  shows "view s1 = (view s)(k \<mapsto> contents (view s) k)" "buf_view (score s1) (bufs s1 ! a) = contents (view s) k"
proof -
  note C = getOrCreate_Inr [OF g run]
  note inv = goodD(1) [OF g]
  have "view s1 = (view s)(k \<mapsto> contents (view s) k) \<and> buf_view (score s1) (bufs s1 ! a) = contents (view s) k"
  proof (cases created)
    case False
    then have "s1 = s" using C(6) by simp
    then show ?thesis using C(2) by (auto simp: view_def contents_def fun_eq_iff)
  next
    case True
    then have none: "getScope s k = None" and s1: "s1 = linkScope k (store_newscopeBuffer now s) (s\<lparr>score := created_core (score s)\<rparr>)"
      and a: "a = length (bufs s)" using C(7,8) by simp_all
    note nf = newscope_facts [OF store_invD(3) [OF inv] not_reserved_missing [OF inv none], of now]
    have bv: "buf_view c (store_newscopeBuffer now s) = (0, [])" for c using nf(3,6) by (simp add: buf_view_def)
    have "view s1 j = ((view s)(k \<mapsto> (0, []))) j" for j
    proof (cases "j = k")
      case True
      then show ?thesis using C(2) a bv by (simp add: view_def s1)
    next
      case False
      have "getScope s1 j = getScope s j" using False unfolding s1 by (simp add: linkScope_getScope [OF inv none])
      moreover have "x < length (bufs s)" if "getScope s j = Some x" for x using linked_bufD(1) [OF inv that] .
      ultimately show ?thesis
        using False buf_view_cong [OF C(4)] by (cases "getScope s j") (simp_all add: view_def s1 nth_append)
    qed
    then have "view s1 = (view s)(k \<mapsto> (0, []))" by (rule ext)
    moreover have "contents (view s) k = (0, [])" using none by (simp add: contents_def view_def)
    ultimately show ?thesis using a bv by (simp add: s1)
  qed
  then show "view s1 = (view s)(k \<mapsto> contents (view s) k)" "buf_view (score s1) (bufs s1 ! a) = contents (view s) k"
    by simp_all
qed

lemma score_view: "cells c = cells (score s) \<Longrightarrow> view (s\<lparr>score := c\<rparr>) = view s"
  using buf_view_cong [of c "score s"] by (simp add: view_def fun_eq_iff)

section \<open>Append\<close>

lemma contents_link: "getScope s k = Some a \<Longrightarrow> contents (view s) k = buf_view (score s) (bufs s ! a)"
  by (simp add: contents_def view_def)

lemma contents_filled [simp]: "contents (v(k \<mapsto> contents v k)) = contents v"
  by (simp add: contents_def fun_eq_iff)

lemma append_at:
  assumes g: "good m s" and room: "room m" and look: "getScope s (Scope it) = Some a" and cl: "client_item it"
    and pl: "plain_ok (score s) (Scope it) (fillRender it)"
    and ob: "on_buf a (appendItem now (fillRender it)) s = (Inr y, s2)"
  shows "view s2 = spec_append now it (view s)" "y = fresh_item now (fst (contents (view s) (Scope it)) + 1) it"
proof -
  obtain c' b' where ap: "appendItem now (fillRender it) (score s) (bufs s ! a) = (Inr y, c', b')"
    "s2 = s\<lparr>score := c', bufs := (bufs s)[a := b']\<rparr>"
    using ob by (auto simp: on_buf_def split: prod.splits)
  have rdy: "ready (score s) (Scope it) (bufs s ! a)"
    using linked_ready [OF goodD(1) [OF g] look goodD(2) [OF g]] room by (simp add: room_def)
  note A = appendItem_Inr [OF rdy pl ap(1)]
  have fr: "fresh_item t sq (fillRender it) = fresh_item t sq it" for t sq
    using cl by (simp add: fresh_item_def fillRender_def client_item_def)
  have cells: "cells c' = cells (score s)" by (rule appendItem_cells [OF ap(1)])
  obtain sq its where con: "contents (view s) (Scope it) = (sq, its)" by (metis surj_pair)
  then have sqs: "lastSeq (bufs s ! a) = sq" "map (materialiseCounter (score s)) (items (bufs s ! a)) = its"
    using contents_link [OF look] by (simp_all add: buf_view_def)
  have "buf_view c' b' = (sq + 1, its @ [fresh_item now (sq + 1) it])"
    using A sqs materialiseCounter_cong [OF cells] by (simp add: buf_view_def fr)
  then show "view s2 = spec_append now it (view s)"
    using on_buf_view [OF goodD(1) [OF g] look cells, of b'] con by (simp add: ap(2) spec_append_def)
  show "y = fresh_item now (fst (contents (view s) (Scope it)) + 1) it" using A sqs(1) con by (simp add: fr)
qed

lemma spec_append_filled [simp]: "spec_append now it (v(Scope it \<mapsto> contents v (Scope it))) = spec_append now it v"
  by (simp add: spec_append_def split: prod.split)

lemma commitAppend_view:
  assumes g: "good m s" and room: "room m" and cl: "client_item it"
    and ca: "commitAppend clk it s = (Inr y, s2)"
  shows "view s2 = spec_append (clk 1) it (view s)"
    "y = fresh_item (clk 1) (fst (contents (view s) (Scope it)) + 1) it"
proof -
  obtain it1 a created s1 where st: "validateWriteItem it ''/append'' (maxItemBytesFor (score s) (Scope it)) = Inr it1"
    "getOrCreateScopeTrackingCreated (clk 0) (Scope it1) s = (Inr (a, created), s1)"
    "on_buf a (appendItem (clk 1) it1) s1 = (Inr y, s2)"
    using ca by (auto simp: commitAppend_def split: sum.splits prod.splits)
  note V = validated_plain_ok [OF cl st(1)]
  have it1: "it1 = fillRender it" using st(1) by (simp only: validateWriteItem_Inr)
  note C = getOrCreate_Inr [OF g st(2)] and W = created_view [OF g st(2)]
  have pl: "plain_ok (score s1) (Scope it) (fillRender it)" using V(1,2) plain_ok_cong [OF C(3,4)] it1 by simp
  show "view s2 = spec_append (clk 1) it (view s)"
    "y = fresh_item (clk 1) (fst (contents (view s) (Scope it)) + 1) it"
    using append_at [OF C(1) room C(2) [unfolded V(2)] cl pl st(3) [unfolded it1]] W(1) V(2) by simp_all
qed

lemma append_commits:
  assumes g: "good m s" and room: "room (m + 1)" and cl: "client_item it"
    and run: "appendOne clk it s = (Inr x, s')"
  obtains s2 s3 where "commitAppend clk it s = (Inr x, s2)" "good (m + 1) s2" "good (m + 2) s3"
    "(if eventsEnabled s2 (Scope it) then emitWith (appendOne (later 2 clk)) (appendEvent x) s2 else (None, s2)) = (None, s3)"
    "s' = s3 \<or> (\<exists>h. s' = s3\<lparr>shub := h\<rparr>)" "quiet s2 s3" "quiet s3 s'"
proof -
  have room': "room m" using room by (rule room_less) simp
  obtain r1 s2 where ca: "commitAppend clk it s = (r1, s2)" by (metis surj_pair)
  obtain y where r1: "r1 = Inr y" using run ca by (cases r1) (simp_all add: appendOne_unfold [of clk it s])
  note CA = commitAppend_good [OF g room' cl ca]
  have sy: "Scope y = Scope it" using CA(5) r1 by simp
  obtain p s3 where em: "(if eventsEnabled s2 (Scope y)
      then emitWith (appendOne (later 2 clk)) (appendEvent y) s2 else (None, s2)) = (p, s3)" by (metis surj_pair)
  have E: "p = None \<and> good (m + 2) s3 \<and> quiet s2 s3"
    using emitWith_good [OF CA(1) room, of "later 2 clk" "appendEvent y" p s3]
      emitWith_quiet [OF CA(1) room, of "later 2 clk" "appendEvent y" p s3] em good_mono [OF CA(1), of "m + 2"]
    by (auto split: if_splits)
  obtain p' s4 where nt: "(if isReservedScope (Scope y) then notify (Scope y) s3 else (None, s3)) = (p', s4)"
    by (metis surj_pair)
  have N: "p' = None \<and> quiet s3 s4"
    using notify_good(1) [of "m + 2" s3 "Scope y" p' s4] notify_quiet [of "Scope y" s3 p' s4] E nt by (auto split: if_splits)
  have h: "s4 = s3 \<or> (\<exists>h. s4 = s3\<lparr>shub := h\<rparr>)" using nt by (auto simp: notify_def split: if_splits prod.splits)
  have fin: "x = y" "s' = s4" using run ca r1 em nt E N by (simp_all add: appendOne_unfold [of clk it s])
  show thesis
    by (rule that [of s2 s3]) (use ca r1 fin CA(1) E N h em sy in \<open>simp_all split: if_splits\<close>)
qed

lemma append_view:
  assumes g: "good m s" and room: "room (m + 1)" and cl: "client_item it"
    and run: "appendOne clk it s = (Inr x, s')"
  shows "agree (view s') (spec_append (clk 1) it (view s))"
    "x = fresh_item (clk 1) (fst (contents (view s) (Scope it)) + 1) it"
proof -
  have room': "room m" using room by (rule room_less) simp
  obtain s2 s3 where A: "commitAppend clk it s = (Inr x, s2)" "good (m + 1) s2" "quiet s2 s3" "quiet s3 s'"
    using append_commits [OF g room cl run] by metis
  note C = commitAppend_view [OF g room' cl A(1)]
  have "quiet s2 s'" using A(3,4) quiet_trans by blast
  then show "agree (view s') (spec_append (clk 1) it (view s))"
    unfolding C(1) [symmetric] by (rule quiet_view [OF goodD(1) [OF A(2)]])
  show "x = fresh_item (clk 1) (fst (contents (view s) (Scope it)) + 1) it" by (rule C(2))
qed

text \<open>An append to \<open>_events\<close> itself emits nothing, so the whole view moves as the function says.\<close>

lemma append_events_view:
  assumes g: "good m s" and room: "room (m + 1)" and cl: "client_item it" and ev: "Scope it = EventsScopeName"
    and run: "appendOne clk it s = (Inr x, s')"
  shows "view s' = spec_append (clk 1) it (view s)"
proof -
  have room': "room m" using room by (rule room_less) simp
  obtain s2 s3 where A: "commitAppend clk it s = (Inr x, s2)"
    "(if eventsEnabled s2 (Scope it) then emitWith (appendOne (later 2 clk)) (appendEvent x) s2 else (None, s2)) = (None, s3)"
    "s' = s3 \<or> (\<exists>h. s' = s3\<lparr>shub := h\<rparr>)"
    using append_commits [OF g room cl run] by metis
  have "s3 = s2" using A(2) ev by (simp add: eventsEnabled_def)
  then have "view s' = view s2" using A(3) by (auto simp: view_def getScope_def fun_eq_iff)
  then show ?thesis using commitAppend_view(1) [OF g room' cl A(1)] by simp
qed

section \<open>Events\<close>

lemma appendItem_drops: "appendItem now it c b = (r, c', b') \<Longrightarrow> eventsDropsTotal c' = eventsDropsTotal c"
  by (auto simp: appendItem_def insertNewItemLocked_def reserveFor_def reserveBytes_def Let_def
      split: if_splits prod.splits option.splits)

lemma reserve_drops: "reserveBytes d c = (r, c') \<Longrightarrow> eventsDropsTotal c' = eventsDropsTotal c"
  by (auto simp: reserveBytes_def Let_def split: if_splits)

lemma getOrCreate_drops:
  "getOrCreateScopeTrackingCreated now k s = (r, s') \<Longrightarrow> eventsDropsTotal (score s') = eventsDropsTotal (score s)"
  by (auto simp: getOrCreateScopeTrackingCreated_def Let_def dest: reserve_drops split: if_splits option.splits prod.splits)

lemma commitAppend_drops:
  assumes "commitAppend clk it s = (Inr x, s')"
  shows "eventsDropsTotal (score s') = eventsDropsTotal (score s)"
proof -
  obtain it1 a created s1 where st: "getOrCreateScopeTrackingCreated (clk 0) (Scope it1) s = (Inr (a, created), s1)"
    "on_buf a (appendItem (clk 1) it1) s1 = (Inr x, s')"
    using assms by (auto simp: commitAppend_def split: sum.splits prod.splits)
  then show ?thesis using getOrCreate_drops [OF st(1)]
    by (auto simp: on_buf_def dest: appendItem_drops split: prod.splits)
qed

lemma append_events_drops:
  assumes g: "good m s" and room: "room m" and cl: "client_item it" and ev: "Scope it = EventsScopeName"
    and run: "appendOne clk it s = (r, s')"
  shows "eventsDropsTotal (score s') = eventsDropsTotal (score s)"
proof (cases r)
  case (Inl e)
  then show ?thesis using appendOne_events [OF g room cl ev run] no_trace_fields [of s s'] by simp
next
  case (Inr x)
  obtain r1 s2 where ca: "commitAppend clk it s = (r1, s2)" by (metis surj_pair)
  obtain y where r1: "r1 = Inr y" using run Inr ca by (cases r1) (simp_all add: appendOne_unfold [of clk it s])
  obtain it1 a created s1 where st: "validateWriteItem it ''/append'' (maxItemBytesFor (score s) (Scope it)) = Inr it1"
    "getOrCreateScopeTrackingCreated (clk 0) (Scope it1) s = (Inr (a, created), s1)"
    "on_buf a (appendItem (clk 1) it1) s1 = (Inr y, s2)"
    using ca r1 by (auto simp: commitAppend_def split: sum.splits prod.splits)
  have sc: "Scope it1 = EventsScopeName" using validateWriteItem_Scope [OF st(1)] ev by simp
  note C = getOrCreate_Inr [OF g st(2)]
  have "s1 = s" using C(6,7) events_linked [OF g] sc by auto
  then have d2: "eventsDropsTotal (score s2) = eventsDropsTotal (score s)"
    using st(3) appendItem_drops by (fastforce simp: on_buf_def split: prod.splits)
  have sy: "Scope y = EventsScopeName" using commitAppend_good(5) [OF g room cl ca] r1 ev by simp
  obtain p s4 where n: "notify (Scope y) s2 = (p, s4)" by (metis surj_pair)
  note N = notify_good [OF commitAppend_good(1) [OF g room cl ca] n]
  have "s' = s4" using run ca r1 sy n N(1)
    by (simp add: appendOne_unfold [of clk it s] eventsEnabled_def isReservedScope_iff)
  then show ?thesis using N(4) d2 by simp
qed

definition event_item :: "writeEvent \<Rightarrow> bytestr \<Rightarrow> Item" where
  "event_item evt body = Item_zero\<lparr>Scope := EventsScopeName, Payload := Some body\<rparr>"

definition shown_event :: "core \<Rightarrow> writeEvent \<Rightarrow> writeEvent" where
  \<comment> \<open>what notify mode leaves of an event\<close>
  "shown_event c evt = (if eventsMode c = EventsModeNotify then evt\<lparr>ev_Payload := None\<rparr> else evt)"

lemma emit_outcome:
  assumes g: "good m s" and room: "room (m + 1)" and run: "emitWith (appendOne clk) evt s = (p, s')"
  shows "eventsDropsTotal (score s') = eventsDropsTotal (score s) + 1 \<and> view s' = view s \<or>
    (\<exists>body. marshal_writeEvent (shown_event (score s) evt) = Some body \<and>
      eventsDropsTotal (score s') = eventsDropsTotal (score s) \<and>
      view s' = spec_append (clk 1) (event_item evt body) (view s))"
proof (cases "marshal_writeEvent (shown_event (score s) evt)")
  case None
  then have "s' = dropEvent s" using run by (simp add: emitWith_def shown_event_def)
  then show ?thesis by (simp add: dropEvent_def score_view)
next
  case (Some body)
  let ?it = "event_item evt body"
  have it: "client_item ?it" "Scope ?it = EventsScopeName" by (simp_all add: event_item_def client_item_def Item_zero_def)
  have room': "room m" using room by (rule room_less) simp
  obtain r1 s1 where ap: "appendOne clk ?it s = (r1, s1)" by (metis surj_pair)
  note O = appendOne_events [OF g room' it ap]
  have drops: "eventsDropsTotal (score s1) = eventsDropsTotal (score s)"
    by (rule append_events_drops [OF g room' it ap])
  show ?thesis
  proof (cases r1)
    case (Inl e)
    then have "s' = dropEvent s1" using run Some ap O
      by (auto simp: emitWith_def shown_event_def event_item_def not_panic_def split: gerr.splits)
    moreover have "view s1 = view s" by (rule no_trace_view [OF goodD(1) [OF g]]) (use O Inl in blast)
    ultimately show ?thesis using drops by (simp add: dropEvent_def score_view)
  next
    case (Inr x)
    then have "s' = s1" using run Some ap by (simp add: emitWith_def shown_event_def event_item_def)
    then show ?thesis
      using append_events_view [OF g room it ap [unfolded Inr]] drops Some by simp
  qed
qed

section \<open>No write but a counter's touches a cell\<close>

lemma reserveFor_cells: "reserveFor d c b = (e, c') \<Longrightarrow> cells c' = cells c"
  by (auto simp: reserveFor_def reserveBytes_def Let_def split: if_splits prod.splits)

lemma reservePayloadDelta_cells: "reservePayloadDeltaLocked o1 n c b = (e, d, c') \<Longrightarrow> cells c' = cells c"
  by (auto simp: reservePayloadDeltaLocked_def Let_def dest: reserveFor_cells split: if_splits prod.splits option.splits)

lemma insertNew_cells: "insertNewItemLocked it now c b = (r, c', b') \<Longrightarrow> cells c' = cells c"
  by (auto simp: insertNewItemLocked_def Let_def dest: reserveFor_cells split: prod.splits option.splits)

lemma stamp_cells: "stampLocked ts c b = (c', b') \<Longrightarrow> cells c' = cells c"
  by (auto simp: stampLocked_def)

lemma upsertByID_cells:
  assumes "upsertByID now it c b = (r, c', b')"
  shows "cells c' = cells c"
proof (cases "gm_get (byID b) (ID it)")
  case None
  then show ?thesis using assms
    by (auto simp: upsertByID_def dest: insertNew_cells split: if_splits prod.splits sum.splits)
next
  case (Some x)
  let ?n = "rawlen (Payload it) + rawlen (newRenderOf (renderBytes it) (Payload it))"
  obtain e d c1 where res: "reservePayloadDeltaLocked (payloadAndRenderBytes x) ?n c b = (e, d, c1)" by (metis prod_cases3)
  have "cells c' = cells c1 \<or> c' = c" using assms Some res
    by (auto simp: upsertByID_def Let_def dest: stamp_cells split: if_splits option.splits prod.splits)
  then show ?thesis using reservePayloadDelta_cells [OF res] by auto
qed

lemma replaceItem_cells: "replaceItemAtIndexLocked i p ts r d c b = (e, c', b') \<Longrightarrow> cells c' = cells c"
  by (auto simp: replaceItemAtIndexLocked_def Let_def dest: stamp_cells split: option.splits prod.splits)

lemma replaceFound_cells:
  assumes "replaceFound now x sq p r c b = (e, c', b')"
  shows "cells c' = cells c"
proof -
  obtain e1 d c1 where res: "reservePayloadDeltaLocked (payloadAndRenderBytes x) (rawlen p + rawlen r) c b = (e1, d, c1)"
    by (metis prod_cases3)
  have "cells c' = cells c1" using assms res
    by (auto simp: replaceFound_def dest: replaceItem_cells split: option.splits prod.splits sum.splits)
  then show ?thesis using reservePayloadDelta_cells [OF res] by simp
qed

lemma updateByID_cells: "updateByID now i p pre c b = (r, c', b') \<Longrightarrow> cells c' = cells c"
  by (auto simp: updateByID_def dest: replaceFound_cells split: if_splits option.splits)

lemma updateBySeq_cells: "updateBySeq now sq p pre c b = (r, c', b') \<Longrightarrow> cells c' = cells c"
  by (auto simp: updateBySeq_def Let_def dest: replaceFound_cells split: if_splits option.splits)

lemma releaseLocked_cells: "releaseLocked f n now c b = (c', b') \<Longrightarrow> cells c' = cells c"
  by (auto simp: releaseLocked_def Let_def)

lemma deleteIndex_cells: "deleteIndexLocked i now c b = (c', b') \<Longrightarrow> cells c' = cells c"
  by (auto simp: deleteIndexLocked_def Let_def dest: releaseLocked_cells)

lemma deleteByID_cells: "deleteByID now i c b = (r, c', b') \<Longrightarrow> cells c' = cells c"
  by (auto simp: deleteByID_def dest: deleteIndex_cells split: if_splits option.splits)

lemma deleteBySeq_cells: "deleteBySeq now sq c b = (r, c', b') \<Longrightarrow> cells c' = cells c"
  by (auto simp: deleteBySeq_def dest: deleteIndex_cells split: if_splits option.splits)

lemma deleteUpToSeq_cells: "deleteUpToSeq now m c b = (r, c', b') \<Longrightarrow> cells c' = cells c"
  by (auto simp: deleteUpToSeq_def Let_def dest: releaseLocked_cells split: if_splits prod.splits)

section \<open>The view of one buffer\<close>

lemma map_overwrite:
  assumes "\<And>y. y \<in> set its \<Longrightarrow> P y \<longleftrightarrow> Q (materialiseCounter c y)"
    and "\<And>y. f (materialiseCounter c y) = f y" "\<And>y. counter (f y) = None"
  shows "map (materialiseCounter c) (map (\<lambda>y. if P y then f y else y) its) =
    map (\<lambda>y. if Q y then f y else y) (map (materialiseCounter c) its)"
  using assms by (induction its) auto

lemma replaced_materialise [simp]: "replaced p t r (materialiseCounter c y) = replaced p t r y"
  by (simp add: replaced_def materialiseCounter_def split: option.splits)

lemma filter_materialise:
  assumes "\<And>y. P (materialiseCounter c y) = P y"
  shows "map (materialiseCounter c) (filter P its) = filter P (map (materialiseCounter c) its)"
  using assms by (induction its) auto

definition spec_upsert1 :: "int \<Rightarrow> Item \<Rightarrow> u64 \<times> Item list \<Rightarrow> u64 \<times> Item list" where
  "spec_upsert1 now it p =
     (case p of (sq, its) \<Rightarrow>
        if \<exists>y \<in> set its. ID y = ID it
        then (sq, map (\<lambda>y. if ID y = ID it then overwritten now it y else y) its)
        else (sq + 1, its @ [fresh_item now (sq + 1) it]))"

lemma spec_upsert_eq: "spec_upsert now it v = v(Scope it \<mapsto> spec_upsert1 now it (contents v (Scope it)))"
  by (simp add: spec_upsert_def spec_upsert1_def spec_append_def split: prod.splits)

lemma id_member:
  assumes "buf_inv b" "i \<noteq> []"
  shows "gm_get (byID b) i = None \<longleftrightarrow> (\<forall>y \<in> set (items b). ID y \<noteq> i)"
    and "gm_get (byID b) i = Some x \<Longrightarrow> y \<in> set (items b) \<Longrightarrow> Seq y = Seq x \<longleftrightarrow> ID y = i"
proof -
  note ix = buf_invD(5) [OF assms(1)]
  have "gm_get (byID b) i = Some z \<longleftrightarrow> z \<in> set (items b) \<and> ID z = i" for z
    using indexesD [OF ix, of i z] assms(2) by (auto simp: id_key_def)
  then show "gm_get (byID b) i = None \<longleftrightarrow> (\<forall>y \<in> set (items b). ID y \<noteq> i)"
    and "gm_get (byID b) i = Some x \<Longrightarrow> y \<in> set (items b) \<Longrightarrow> Seq y = Seq x \<longleftrightarrow> ID y = i"
    using buf_inv_seq_inj [OF assms(1)] by (metis not_None_eq, metis option.inject)
qed

lemma upsert_buf_view:
  assumes rdy: "ready c k b" and pl: "plain_ok c k (fillRender it)" and cl: "client_item it" and ne: "ID it \<noteq> []"
    and run: "upsertByID now (fillRender it) c b = (Inr (r, created), c', b')"
  shows "buf_view c' b' = spec_upsert1 now it (buf_view c b)"
    and "created \<longleftrightarrow> (\<forall>y \<in> set (snd (buf_view c b)). ID y \<noteq> ID it)"
    and "\<not> created \<Longrightarrow> \<exists>y \<in> set (snd (buf_view c b)). ID y = ID it \<and> r = overwritten now it y"
    and "created \<Longrightarrow> r = fresh_item now (lastSeq b + 1) it"
proof -
  have inv: "buf_inv b" using readyD(5) [OF rdy] .
  have f: "ID (fillRender it) = ID it" "Payload (fillRender it) = Payload it"
    "renderBytes (fillRender it) = precomputeRenderBytes (Payload it)"
    "newRenderOf (renderBytes (fillRender it)) (Payload it) = precomputeRenderBytes (Payload it)"
    "\<And>t sq. fresh_item t sq (fillRender it) = fresh_item t sq it"
    using cl by (simp_all add: fillRender_def client_item_def newRenderOf_def fresh_item_def)
  have cells: "materialiseCounter c' = materialiseCounter c"
    by (rule materialiseCounter_cong [OF upsertByID_cells [OF run]])
  have ids: "(\<exists>y \<in> set (map (materialiseCounter c) (items b)). ID y = ID it) \<longleftrightarrow> (\<exists>y \<in> set (items b). ID y = ID it)"
    by auto
  have "buf_view c' b' = spec_upsert1 now it (buf_view c b) \<and>
    (created \<longleftrightarrow> (\<forall>y \<in> set (snd (buf_view c b)). ID y \<noteq> ID it)) \<and>
    (\<not> created \<longrightarrow> (\<exists>y \<in> set (snd (buf_view c b)). ID y = ID it \<and> r = overwritten now it y)) \<and>
    (created \<longrightarrow> r = fresh_item now (lastSeq b + 1) it)"
  proof (cases "gm_get (byID b) (ID it)")
    case None
    then have no: "\<forall>y \<in> set (items b). ID y \<noteq> ID it" using id_member(1) [OF inv ne] by simp
    have ins: "insertNewItemLocked (fillRender it) now c b = (Inr r, c', b')" "created"
      "\<not> itemCapExceeded b (int (length (items b)) + 1)"
      using run None upsertByID_create [OF rdy, of "fillRender it" now] f(1)
      by (auto split: if_splits prod.splits sum.splits)
    have "gm_get (byID b) (ID (fillRender it)) = None" using None f(1) by simp
    then have "items b' = items b @ [fresh_item now (lastSeq b + 1) it]" "lastSeq b' = lastSeq b + 1"
      "r = fresh_item now (lastSeq b + 1) it"
      using insert_step [OF rdy pl ins(3) _ ins(1)] f(5) by simp_all
    moreover have "counter (fresh_item now (lastSeq b + 1) it) = None" by simp
    ultimately show ?thesis using no ids ins(2) cells by (auto simp: buf_view_def spec_upsert1_def)
  next
    case (Some x)
    have h: "x \<in> set (items b)" "ID x = ID it" using byID_hit [OF inv Some] by simp_all
    have hit: "gm_get (byID b) (ID (fillRender it)) = Some x" using Some f(1) by simp
    have out: "r = overwritten now it x" "\<not> created" "lastSeq b' = lastSeq b"
      "items b' = map (\<lambda>y. if Seq y = Seq x then overwritten now it y else y) (items b)"
      using upsertByID_replace [OF rdy pl hit, of now] run f(2,4) by (auto simp: overwritten_def split: if_splits)
    have "map (materialiseCounter c) (items b') =
        map (\<lambda>y. if ID y = ID it then overwritten now it y else y) (map (materialiseCounter c) (items b))"
      unfolding out(4)
      by (rule map_overwrite) (use id_member(2) [OF inv ne Some] in \<open>simp_all add: overwritten_def\<close>)
    moreover have "overwritten now it (materialiseCounter c x) = overwritten now it x" by (simp add: overwritten_def)
    ultimately show ?thesis using out h cells
      by (auto simp: buf_view_def spec_upsert1_def intro!: bexI [of _ x])
  qed
  then show "buf_view c' b' = spec_upsert1 now it (buf_view c b)"
    "created \<longleftrightarrow> (\<forall>y \<in> set (snd (buf_view c b)). ID y \<noteq> ID it)"
    "\<not> created \<Longrightarrow> \<exists>y \<in> set (snd (buf_view c b)). ID y = ID it \<and> r = overwritten now it y"
    "created \<Longrightarrow> r = fresh_item now (lastSeq b + 1) it" by simp_all
qed

section \<open>Upsert\<close>

lemma upsert_at:
  assumes g: "good m s" and room: "room m" and look: "getScope s (Scope it) = Some a" and cl: "client_item it" and ne: "ID it \<noteq> []"
    and pl: "plain_ok (score s) (Scope it) (fillRender it)"
    and ob: "on_buf a (upsertByID now (fillRender it)) s = (Inr (x, created), s2)"
  shows "view s2 = spec_upsert now it (view s)"
    "created \<longleftrightarrow> (\<forall>y \<in> set (snd (contents (view s) (Scope it))). ID y \<noteq> ID it)"
    "\<not> created \<Longrightarrow> \<exists>y \<in> set (snd (contents (view s) (Scope it))). ID y = ID it \<and> x = overwritten now it y"
    "created \<Longrightarrow> x = fresh_item now (fst (contents (view s) (Scope it)) + 1) it"
proof -
  obtain c' b' where up: "upsertByID now (fillRender it) (score s) (bufs s ! a) = (Inr (x, created), c', b')"
    "s2 = s\<lparr>score := c', bufs := (bufs s)[a := b']\<rparr>"
    using ob by (auto simp: on_buf_def split: prod.splits)
  have rdy: "ready (score s) (Scope it) (bufs s ! a)"
    using linked_ready [OF goodD(1) [OF g] look goodD(2) [OF g]] room by (simp add: room_def)
  note U = upsert_buf_view [OF rdy pl cl ne up(1)] and con = contents_link [OF look, symmetric]
  show "view s2 = spec_upsert now it (view s)"
    using on_buf_view [OF goodD(1) [OF g] look upsertByID_cells [OF up(1)], of b'] U(1) con
    by (simp add: up(2) spec_upsert_eq)
  have sq: "lastSeq (bufs s ! a) = fst (contents (view s) (Scope it))" using arg_cong [OF con, of fst] by (simp add: buf_view_def)
  show "created \<longleftrightarrow> (\<forall>y \<in> set (snd (contents (view s) (Scope it))). ID y \<noteq> ID it)"
    "\<not> created \<Longrightarrow> \<exists>y \<in> set (snd (contents (view s) (Scope it))). ID y = ID it \<and> x = overwritten now it y"
    "created \<Longrightarrow> x = fresh_item now (fst (contents (view s) (Scope it)) + 1) it"
    using U(2-4) [unfolded con] unfolding sq [symmetric] by blast+
qed

lemma validated_upsert:
  assumes cl: "client_item it" and v: "validateUpsertItem it (maxItemBytes c) = Inr it1"
  shows "it1 = fillRender it" "ID it \<noteq> []" "\<not> isReservedScope (Scope it)" "plain_ok c (Scope it) (fillRender it)"
  using v client_plain_ok [OF cl, of c]
  by (auto simp: validateUpsertItem_Inr maxItemBytesFor_def isReservedScope_iff)

lemma upsert_view:
  assumes g: "good m s" and room: "room (m + 1)" and cl: "client_item it"
    and run: "upsertOne clk it s = (Inr (x, created), s')"
  shows "agree (view s') (spec_upsert (clk 1) it (view s))"
    "created \<longleftrightarrow> (\<forall>y \<in> set (snd (contents (view s) (Scope it))). ID y \<noteq> ID it)"
    "\<not> created \<Longrightarrow> \<exists>y \<in> set (snd (contents (view s) (Scope it))). ID y = ID it \<and> x = overwritten (clk 1) it y"
    "created \<Longrightarrow> x = fresh_item (clk 1) (fst (contents (view s) (Scope it)) + 1) it"
proof -
  have room': "room m" using room by (rule room_less) simp
  obtain it1 a sc s1 y s2 where st: "validateUpsertItem it (maxItemBytes (score s)) = Inr it1"
    "getOrCreateScopeTrackingCreated (clk 0) (Scope it1) s = (Inr (a, sc), s1)"
    "on_buf a (upsertByID (clk 1) it1) s1 = (Inr y, s2)"
    "returning y (emitUpsertEvent (later 2 clk) (fst y) s2) = (Inr (x, created), s')"
    using run by (auto simp: upsertOne_def split: sum.splits prod.splits)
  note V = validated_upsert [OF cl st(1)]
  have it1: "it1 = fillRender it" "Scope it1 = Scope it" "ID it1 = ID it" using V(1) by simp_all
  note C = getOrCreate_Inr [OF g st(2)] and W = created_view [OF g st(2)]
  have adm: "plain_ok c (Scope it1) it1 \<and> ID it1 \<noteq> []"
    if "core_config c = core_config (score s)" "cells c = cells (score s)" for c
    using V(2,4) plain_ok_cong [OF that, of "Scope it" it1] it1 by simp
  note R = upsert_op.create_and_run [OF g room' st(2), of "(clk 1, it1)", unfolded prod.case, OF adm st(3)]
  note Q = returning_emitFor [OF R(1) room st(4) [unfolded emit_defs]] returning_quiet [OF R(1) room st(4) [unfolded emit_defs]]
  have y: "y = (x, created)" using Q(1) by simp
  have pl: "plain_ok (score s1) (Scope it) (fillRender it)" using adm [OF C(3,4)] it1 by simp
  note U = upsert_at [OF C(1) room' C(2) [unfolded it1(2)] cl V(2) pl st(3) [unfolded it1(1) y]]
  have v2: "view s2 = spec_upsert (clk 1) it (view s)" using U(1) W(1) it1(2) by (simp add: spec_upsert_eq)
  show "agree (view s') (spec_upsert (clk 1) it (view s))" unfolding v2 [symmetric] by (rule quiet_view [OF goodD(1) [OF R(1)] Q(2)])
  have con: "contents (view s1) (Scope it) = contents (view s) (Scope it)" using W(1) it1(2) by simp
  show "created \<longleftrightarrow> (\<forall>y \<in> set (snd (contents (view s) (Scope it))). ID y \<noteq> ID it)"
    "\<not> created \<Longrightarrow> \<exists>y \<in> set (snd (contents (view s) (Scope it))). ID y = ID it \<and> x = overwritten (clk 1) it y"
    "created \<Longrightarrow> x = fresh_item (clk 1) (fst (contents (view s) (Scope it)) + 1) it"
    using U(2-4) unfolding con by blast+
qed

section \<open>Operations on an existing scope\<close>

lemma run_existing_quiet:
  assumes "good (m + 1) s2" "room (m + 1)"
    and run: "(case r2 of Inl e \<Rightarrow> (Inl e, s2)
      | Inr n \<Rightarrow> if 0 < n then returning n (emitFor k clk evt s2) else (Inr n, s2)) = (Inr n', s')"
  shows "quiet s2 s' \<and> r2 = Inr (n' :: int)"
proof (cases "\<exists>n. r2 = Inr n \<and> 0 < n")
  case True
  then obtain n where n: "r2 = Inr n" "returning n (emitFor k clk evt s2) = (Inr n', s')" using run by auto
  then show ?thesis using returning_emitFor [OF assms(1,2) n(2)] returning_quiet [OF assms(1,2) n(2)] by simp
next
  case False
  then show ?thesis using run by (auto split: sum.splits if_splits)
qed

lemma filter_at:
  \<comment> \<open>an operation that filters the items of a scope\<close>
  assumes g: "good m s" and look: "getScope s k = Some a"
    and b': "on_buf a f s = (r2, s2)" "f (score s) (bufs s ! a) = (Inr (int (length (items (bufs s ! a))) - int (length (items b'))), c', b')"
      "cells c' = cells (score s)" "lastSeq b' = lastSeq (bufs s ! a)" "items b' = filter P (items (bufs s ! a))"
    and P: "\<And>c y. P (materialiseCounter c y) = P y"
  shows "view s2 = spec_keep P k (view s)"
    "r2 = Inr (int (length (snd (contents (view s) k))) - int (length (filter P (snd (contents (view s) k)))))"
proof -
  let ?its = "map (materialiseCounter (score s)) (items (bufs s ! a))"
  have f: "map (materialiseCounter (score s)) (items b') = filter P ?its"
    using b'(5) filter_materialise [of P, OF P] by simp
  have con: "contents (view s) k = (lastSeq (bufs s ! a), ?its)" using contents_link [OF look] by (simp add: buf_view_def)
  have "buf_view c' b' = (lastSeq (bufs s ! a), filter P ?its)"
    using b'(4) f materialiseCounter_cong [OF b'(3)] by (simp add: buf_view_def)
  moreover have "view s k = Some (lastSeq (bufs s ! a), ?its)" using look by (simp add: view_def buf_view_def)
  moreover have "s2 = s\<lparr>score := c', bufs := (bufs s)[a := b']\<rparr>" using b'(1,2) by (simp add: on_buf_def)
  ultimately show "view s2 = spec_keep P k (view s)"
    using on_buf_view [OF goodD(1) [OF g] look b'(3), of b'] by (simp add: spec_keep_def)
  show "r2 = Inr (int (length (snd (contents (view s) k))) - int (length (filter P (snd (contents (view s) k)))))"
    using b'(1,2) con arg_cong [OF f, of length] by (simp add: on_buf_def)
qed

definition other_than :: "bytestr \<Rightarrow> u64 \<Rightarrow> Item \<Rightarrow> bool" where
  \<comment> \<open>what a delete by id, or by seq when there is none, leaves\<close>
  "other_than i sq y \<longleftrightarrow> (if i \<noteq> [] then ID y \<noteq> i else Seq y \<noteq> sq)"

lemma delete_at:
  assumes g: "good m s" and room: "room m" and look: "getScope s k = Some a"
    and ob: "on_buf a (if i \<noteq> [] then deleteByID now i else deleteBySeq now sq) s = (r2, s2)"
  shows "view s2 = spec_keep (other_than i sq) k (view s)"
    "r2 = Inr (int (length (snd (contents (view s) k))) - int (length (filter (other_than i sq) (snd (contents (view s) k)))))"
    "good (m + 1) s2"
proof -
  have rdy: "ready (score s) k (bufs s ! a)"
    using linked_ready [OF goodD(1) [OF g] look goodD(2) [OF g]] room by (simp add: room_def)
  let ?f = "if i \<noteq> [] then deleteByID now i else deleteBySeq now sq"
  have P: "other_than i sq (materialiseCounter c y) = other_than i sq y" for c y by (simp add: other_than_def)
  obtain c' b' where st: "?f (score s) (bufs s ! a) = (Inr (int (length (items (bufs s ! a))) - int (length (items b'))), c', b')"
    "lastSeq b' = lastSeq (bufs s ! a)" "items b' = filter (other_than i sq) (items (bufs s ! a))"
    using deleteByID_ready [OF rdy, of now i] deleteBySeq_ready [OF rdy, of now sq]
    by (cases "i \<noteq> []") (auto simp: other_than_def [abs_def])
  have cells: "cells c' = cells (score s)"
    using st(1) by (cases "i \<noteq> []") (auto dest: deleteByID_cells deleteBySeq_cells)
  show "view s2 = spec_keep (other_than i sq) k (view s)"
    "r2 = Inr (int (length (snd (contents (view s) k))) - int (length (filter (other_than i sq) (snd (contents (view s) k)))))"
    using filter_at [OF g look ob st(1) cells st(2,3) P] by simp_all
  show "good (m + 1) s2"
    using delete_id_op.on_store [OF g look room, of "(now, i)" r2 s2]
      delete_seq_op.on_store [OF g look room, of "(now, sq)" r2 s2] ob by (cases "i \<noteq> []") simp_all
qed

lemma deleteUpTo_at:
  assumes g: "good m s" and room: "room m" and look: "getScope s k = Some a"
    and ob: "on_buf a (deleteUpToSeq now sq) s = (r2, s2)"
  shows "view s2 = spec_keep (\<lambda>y. sq < Seq y) k (view s)"
    "r2 = Inr (int (length (snd (contents (view s) k))) - int (length (filter (\<lambda>y. sq < Seq y) (snd (contents (view s) k)))))"
    "good (m + 1) s2"
proof -
  have rdy: "ready (score s) k (bufs s ! a)"
    using linked_ready [OF goodD(1) [OF g] look goodD(2) [OF g]] room by (simp add: room_def)
  have P: "(sq < Seq (materialiseCounter c y)) = (sq < Seq y)" for c y by simp
  obtain c' b' where st: "deleteUpToSeq now sq (score s) (bufs s ! a) =
      (Inr (int (length (items (bufs s ! a))) - int (length (items b'))), c', b')"
    "lastSeq b' = lastSeq (bufs s ! a)" "items b' = filter (\<lambda>y. sq < Seq y) (items (bufs s ! a))"
    using deleteUpToSeq_ready [OF rdy, of now sq] by blast
  show "view s2 = spec_keep (\<lambda>y. sq < Seq y) k (view s)"
    "r2 = Inr (int (length (snd (contents (view s) k))) - int (length (filter (\<lambda>y. sq < Seq y) (snd (contents (view s) k)))))"
    using filter_at [OF g look ob st(1) deleteUpToSeq_cells [OF st(1)] st(2,3) P] by simp_all
  show "good (m + 1) s2" using drain_op.on_store [OF g look room, of "(now, sq)" r2 s2] ob by simp
qed

lemma delete_view:
  assumes g: "good m s" and room: "room (m + 1)" and run: "deleteOne clk k i sq s = (Inr n, s')"
  shows "agree (view s') (spec_keep (other_than i sq) k (view s))"
    "n = int (length (snd (contents (view s) k))) - int (length (filter (other_than i sq) (snd (contents (view s) k))))"
proof -
  have room': "room m" using room by (rule room_less) simp
  obtain u where v: "validateDeleteRequest \<lparr>dr_Scope = k, dr_ID = i, dr_Seq = sq\<rparr> = Inr u"
    using run by (cases "validateDeleteRequest \<lparr>dr_Scope = k, dr_ID = i, dr_Seq = sq\<rparr>") (simp_all add: deleteOne_def)
  have "agree (view s') (spec_keep (other_than i sq) k (view s)) \<and>
    n = int (length (snd (contents (view s) k))) - int (length (filter (other_than i sq) (snd (contents (view s) k))))"
  proof (cases "getScope s k")
    case None
    then show ?thesis using run v by (auto simp: deleteOne_def spec_keep_def view_def contents_def)
  next
    case (Some a)
    obtain r2 s2 where ob: "on_buf a (if i \<noteq> [] then deleteByID (clk 0) i else deleteBySeq (clk 0) sq) s = (r2, s2)"
      by (metis surj_pair)
    note D = delete_at [OF g room' Some ob]
    have ob': "(if i \<noteq> [] then on_buf a (deleteByID (clk 0) i) s else on_buf a (deleteBySeq (clk 0) sq) s) = (r2, s2)"
      using ob by (simp split: if_splits)
    have "quiet s2 s' \<and> r2 = Inr n"
      using run v Some ob' unfolding deleteOne_def emit_defs by simp (erule run_existing_quiet [OF D(3) room])
    then show ?thesis using quiet_view [OF goodD(1) [OF D(3)]] D(1,2) by (metis sum.inject(2))
  qed
  then show "agree (view s') (spec_keep (other_than i sq) k (view s))"
    "n = int (length (snd (contents (view s) k))) - int (length (filter (other_than i sq) (snd (contents (view s) k))))"
    by simp_all
qed

lemma deleteUpTo_view:
  assumes g: "good m s" and room: "room (m + 1)" and run: "deleteUpTo clk k sq s = (Inr n, s')"
  shows "agree (view s') (spec_keep (\<lambda>y. sq < Seq y) k (view s))"
    "n = int (length (snd (contents (view s) k))) - int (length (filter (\<lambda>y. sq < Seq y) (snd (contents (view s) k))))"
proof -
  have room': "room m" using room by (rule room_less) simp
  obtain u where v: "validateDeleteUpToRequest \<lparr>dur_Scope = k, dur_MaxSeq = sq\<rparr> = Inr u"
    using run by (cases "validateDeleteUpToRequest \<lparr>dur_Scope = k, dur_MaxSeq = sq\<rparr>") (simp_all add: deleteUpTo_def)
  have "agree (view s') (spec_keep (\<lambda>y. sq < Seq y) k (view s)) \<and>
    n = int (length (snd (contents (view s) k))) - int (length (filter (\<lambda>y. sq < Seq y) (snd (contents (view s) k))))"
  proof (cases "getScope s k")
    case None
    then show ?thesis using run v by (auto simp: deleteUpTo_def spec_keep_def view_def contents_def)
  next
    case (Some a)
    obtain r2 s2 where ob: "on_buf a (deleteUpToSeq (clk 0) sq) s = (r2, s2)" by (metis surj_pair)
    note D = deleteUpTo_at [OF g room' Some ob]
    have "quiet s2 s' \<and> r2 = Inr n"
      using run v Some ob unfolding deleteUpTo_def emit_defs by simp (erule run_existing_quiet [OF D(3) room])
    then show ?thesis using quiet_view [OF goodD(1) [OF D(3)]] D(1,2) by (metis sum.inject(2))
  qed
  then show "agree (view s') (spec_keep (\<lambda>y. sq < Seq y) k (view s))"
    "n = int (length (snd (contents (view s) k))) - int (length (filter (\<lambda>y. sq < Seq y) (snd (contents (view s) k))))"
    by simp_all
qed

definition addressed :: "Item \<Rightarrow> Item \<Rightarrow> bool" where
  \<comment> \<open>the stored item an update request means: by id when it has one, by seq otherwise\<close>
  "addressed it y \<longleftrightarrow> (if ID it \<noteq> [] then ID y = ID it else Seq y = Seq it)"

definition spec_update :: "int \<Rightarrow> Item \<Rightarrow> view \<Rightarrow> view" where
  "spec_update now it v =
     (case v (Scope it) of
        None \<Rightarrow> v
      | Some (sq, its) \<Rightarrow> v(Scope it \<mapsto> (sq, map (\<lambda>y. if addressed it y then overwritten now it y else y) its)))"

lemma update_buf_view:
  assumes rdy: "ready c k b" and ok: "update_ok (Payload it1) (renderBytes it1)"
    and sz: "update_size k (ID it1) (Payload it1) (renderBytes it1) \<le> maxItemBytesFor c k"
    and it1: "it1 = fillRender it" "client_item it"
    and run: "(if ID it1 \<noteq> [] then updateByID now (ID it1) (Payload it1) (renderBytes it1)
        else updateBySeq now (Seq it1) (Payload it1) (renderBytes it1)) c b = (Inr n, c', b')"
  shows "cells c' = cells c" "n = (if \<exists>y \<in> set (items b). addressed it y then 1 else 0)"
    "lastSeq b' = lastSeq b" "items b' = map (\<lambda>y. if addressed it y then overwritten now it y else y) (items b)"
proof -
  have inv: "buf_inv b" using readyD(5) [OF rdy] .
  have f: "ID it1 = ID it" "Seq it1 = Seq it" "Payload it1 = Payload it" "renderBytes it1 = precomputeRenderBytes (Payload it)"
    "newRenderOf (renderBytes it1) (Payload it1) = precomputeRenderBytes (Payload it)"
    using it1 by (simp_all add: fillRender_def client_item_def newRenderOf_def)
  have ov: "replaced (Payload it1) now (newRenderOf (renderBytes it1) (Payload it1)) y = overwritten now it y" for y
    using f by (simp add: overwritten_def)
  have none: "map (\<lambda>y. if addressed it y then overwritten now it y else y) (items b) = items b"
    if "\<forall>y \<in> set (items b). \<not> addressed it y" using that by (induction "items b") (auto intro: map_idI)
  have "cells c' = cells c \<and> n = (if \<exists>y \<in> set (items b). addressed it y then 1 else 0) \<and> lastSeq b' = lastSeq b \<and>
    items b' = map (\<lambda>y. if addressed it y then overwritten now it y else y) (items b)"
  proof (cases "ID it1 \<noteq> []")
    case True
    then have ne: "ID it \<noteq> []" and run1: "updateByID now (ID it1) (Payload it1) (renderBytes it1) c b = (Inr n, c', b')"
      and ad: "addressed it y \<longleftrightarrow> ID y = ID it" for y using run f by (simp_all add: addressed_def)
    show ?thesis
    proof (cases "gm_get (byID b) (ID it1)")
      case None
      then have "\<forall>y \<in> set (items b). \<not> addressed it y" using id_member(1) [OF inv ne] f ad by simp
      then show ?thesis using updateByID_miss [OF rdy None, of now "Payload it1" "renderBytes it1"] run1 none by simp
    next
      case (Some x)
      have x: "x \<in> set (items b)" "addressed it x" using byID_hit [OF inv Some] ad f by simp_all
      have same: "Seq y = Seq x \<longleftrightarrow> addressed it y" if "y \<in> set (items b)" for y
        using id_member(2) [OF inv ne Some [unfolded f(1)] that] ad by simp
      have "n = 1 \<and> lastSeq b' = lastSeq b \<and> items b' = map (\<lambda>y. if Seq y = Seq x then overwritten now it y else y) (items b)"
        using updateByID_ready [OF rdy ok sz Some, of now] run1 unfolding ov by (auto split: if_splits)
      moreover have "map (\<lambda>y. if Seq y = Seq x then overwritten now it y else y) (items b) =
          map (\<lambda>y. if addressed it y then overwritten now it y else y) (items b)"
        by (rule map_cong) (simp_all add: same)
      ultimately show ?thesis using x updateByID_cells [OF run1] by auto
    qed
  next
    case False
    then have run1: "updateBySeq now (Seq it1) (Payload it1) (renderBytes it1) c b = (Inr n, c', b')"
      and ad: "addressed it y \<longleftrightarrow> Seq y = Seq it1" for y using run f by (simp_all add: addressed_def)
    show ?thesis
    proof (cases "gm_get (bySeq b) (Seq it1)")
      case None
      then have "\<forall>y \<in> set (items b). \<not> addressed it y"
        using indexes_None [OF buf_invD(4) [OF inv], of "Seq it1"] ad by (auto simp: seq_key_def)
      then show ?thesis using updateBySeq_miss [OF rdy None, of now "Payload it1" "renderBytes it1"] run1 none by simp
    next
      case (Some x)
      have x: "x \<in> set (items b)" "addressed it x" using bySeq_hit [OF inv Some] ad by simp_all
      have "n = 1 \<and> lastSeq b' = lastSeq b \<and> items b' = map (\<lambda>y. if Seq y = Seq it1 then overwritten now it y else y) (items b)"
        using updateBySeq_ready [OF rdy ok Some, of now] run1 unfolding ov by (auto split: if_splits)
      then show ?thesis using x ad updateBySeq_cells [OF run1] by auto
    qed
  qed
  then show "cells c' = cells c" "n = (if \<exists>y \<in> set (items b). addressed it y then 1 else 0)"
    "lastSeq b' = lastSeq b" "items b' = map (\<lambda>y. if addressed it y then overwritten now it y else y) (items b)"
    by simp_all
qed

lemma update_at:
  assumes g: "good m s" and room: "room m" and look: "getScope s (Scope it1) = Some a"
    and cl: "client_item it" and it1: "it1 = fillRender it" "Scope it1 = Scope it"
    and ok: "update_ok (Payload it1) (renderBytes it1)"
    and sz: "update_size (Scope it1) (ID it1) (Payload it1) (renderBytes it1) \<le> maxItemBytesFor (score s) (Scope it1)"
    and ob: "on_buf a (if ID it1 \<noteq> [] then updateByID now (ID it1) (Payload it1) (renderBytes it1)
      else updateBySeq now (Seq it1) (Payload it1) (renderBytes it1)) s = (r2, s2)"
  shows "good (m + 1) s2" "r2 = Inr n \<Longrightarrow> view s2 = spec_update now it (view s)"
    "r2 = Inr n \<Longrightarrow> n = (if \<exists>y \<in> set (snd (contents (view s) (Scope it))). addressed it y then 1 else 0)"
proof -
  let ?f = "if ID it1 \<noteq> [] then updateByID now (ID it1) (Payload it1) (renderBytes it1)
    else updateBySeq now (Seq it1) (Payload it1) (renderBytes it1)"
  let ?h = "\<lambda>y. if addressed it y then overwritten now it y else y"
  have rdy: "ready (score s) (Scope it1) (bufs s ! a)"
    using linked_ready [OF goodD(1) [OF g] look goodD(2) [OF g]] room by (simp add: room_def)
  show "good (m + 1) s2"
    using update_id_op.on_store [OF g look room, of "(now, ID it1, Payload it1, renderBytes it1)" r2 s2]
      update_seq_op.on_store [OF g look room, of "(now, Seq it1, Payload it1, renderBytes it1)" r2 s2] ok sz ob
    by (cases "ID it1 \<noteq> []") simp_all
  have "view s2 = spec_update now it (view s) \<and>
      n = (if \<exists>y \<in> set (snd (contents (view s) (Scope it))). addressed it y then 1 else 0)" if r2: "r2 = Inr n"
  proof -
    obtain c' b' where st: "?f (score s) (bufs s ! a) = (Inr n, c', b')" "s2 = s\<lparr>score := c', bufs := (bufs s)[a := b']\<rparr>"
      using ob r2 by (auto simp: on_buf_def split: prod.splits)
    note U = update_buf_view [OF rdy ok sz it1(1) cl st(1)]
    have ad: "addressed it (materialiseCounter c y) = addressed it y" for c y by (simp add: addressed_def)
    have "map (materialiseCounter (score s)) (map ?h (items (bufs s ! a))) = map ?h (map (materialiseCounter (score s)) (items (bufs s ! a)))"
      by (rule map_overwrite) (simp_all add: ad overwritten_def)
    then have bv: "buf_view c' b' = (lastSeq (bufs s ! a), map ?h (map (materialiseCounter (score s)) (items (bufs s ! a))))"
      using U(3,4) materialiseCounter_cong [OF U(1)] by (simp add: buf_view_def)
    have vk: "view s (Scope it) = Some (lastSeq (bufs s ! a), map (materialiseCounter (score s)) (items (bufs s ! a)))"
      using look it1(2) by (simp add: view_def buf_view_def)
    have "view s2 = spec_update now it (view s)"
      using on_buf_view [OF goodD(1) [OF g] look U(1), of b'] bv vk it1(2) by (simp add: st(2) spec_update_def)
    then show ?thesis using U(2) vk ad by (simp add: contents_def)
  qed
  then show "r2 = Inr n \<Longrightarrow> view s2 = spec_update now it (view s)"
    "r2 = Inr n \<Longrightarrow> n = (if \<exists>y \<in> set (snd (contents (view s) (Scope it))). addressed it y then 1 else 0)" by simp_all
qed

lemma update_view:
  assumes g: "good m s" and room: "room (m + 1)" and cl: "client_item it" and run: "updateOne clk it s = (Inr n, s')"
  shows "agree (view s') (spec_update (clk 0) it (view s))"
    "n = (if \<exists>y \<in> set (snd (contents (view s) (Scope it))). addressed it y then 1 else 0)"
proof -
  have room': "room m" using room by (rule room_less) simp
  obtain it1 where v: "validateUpdateItem it (maxItemBytes (score s)) = Inr it1"
    using run by (cases "validateUpdateItem it (maxItemBytes (score s))") (simp_all add: updateOne_def)
  note V = validated_update [OF cl v]
  have "agree (view s') (spec_update (clk 0) it (view s)) \<and>
    n = (if \<exists>y \<in> set (snd (contents (view s) (Scope it))). addressed it y then 1 else 0)"
  proof (cases "getScope s (Scope it1)")
    case None
    then show ?thesis using run v V(4) by (auto simp: updateOne_def spec_update_def view_def contents_def)
  next
    case (Some a)
    obtain r2 s2 where ob: "on_buf a (if ID it1 \<noteq> [] then updateByID (clk 0) (ID it1) (Payload it1) (renderBytes it1)
      else updateBySeq (clk 0) (Seq it1) (Payload it1) (renderBytes it1)) s = (r2, s2)" by (metis surj_pair)
    note U = update_at [OF g room' Some cl V(3,4,1,2) ob]
    have ob': "(if ID it1 \<noteq> [] then on_buf a (updateByID (clk 0) (ID it1) (Payload it1) (renderBytes it1)) s
        else on_buf a (updateBySeq (clk 0) (Seq it1) (Payload it1) (renderBytes it1)) s) = (r2, s2)"
      using ob by (simp split: if_splits)
    have "quiet s2 s' \<and> r2 = Inr n"
      using run v Some ob' unfolding updateOne_def emit_defs by simp (erule run_existing_quiet [OF U(1) room])
    then show ?thesis using quiet_view [OF goodD(1) [OF U(1)]] U(2,3) by metis
  qed
  then show "agree (view s') (spec_update (clk 0) it (view s))"
    "n = (if \<exists>y \<in> set (snd (contents (view s) (Scope it))). addressed it y then 1 else 0)" by simp_all
qed

section \<open>Deleting a scope\<close>

lemma unlink_view:
  assumes inv: "store_inv s" and look: "getScope s k = Some a" and c: "cells c = cells (score s)"
  shows "view (unlinkScope k a (s\<lparr>score := c\<rparr>)) = (view s)(k := None)"
proof
  fix j
  let ?s = "unlinkScope k a (s\<lparr>score := c\<rparr>)"
  have g: "getScope ?s j = (if j = k then None else getScope s j)"
    using sdir.look_del [OF store_invD(1) [OF inv], of k a j] look by (simp add: getScope_def unlinkScope_def)
  show "view ?s j = ((view s)(k := None)) j"
  proof (cases "j = k")
    case False
    have "x \<noteq> a" if "getScope s j = Some x" for x
    proof
      assume "x = a"
      moreover have "inj_on snd (set (linked s))" using store_invD(6) [OF inv] by (simp add: bufs_ok_def)
      ultimately show False
        using inj_onD [of snd "set (linked s)" "(j, a)" "(k, a)"] getScope_linked [OF inv] look that False by auto
    qed
    then show ?thesis using False g buf_view_cong [OF c]
      by (cases "getScope s j") (simp_all add: view_def unlinkScope_def)
  next
    case True
    then show ?thesis using g by (simp add: view_def)
  qed
qed

lemma deleteScope_view:
  assumes g: "good m s" and room: "room (m + 1)" and run: "deleteScope clk k s = (Inr (n, found), s')"
  shows "agree (view s') ((view s)(k := None))" "found \<longleftrightarrow> view s k \<noteq> None" "n = int (length (snd (contents (view s) k)))"
proof -
  obtain u where v: "validateDeleteScopeRequest \<lparr>dsr_Scope = k\<rparr> = Inr u"
    using run by (cases "validateDeleteScopeRequest \<lparr>dsr_Scope = k\<rparr>") (simp_all add: deleteScope_def)
  have res: "\<not> isReservedScope k"
    using v by (auto simp: validateDeleteScopeRequest_def first_err_None rejectReserved_def split: if_splits)
  have "agree (view s') ((view s)(k := None)) \<and> (found \<longleftrightarrow> view s k \<noteq> None) \<and> n = int (length (snd (contents (view s) k)))"
  proof (cases "getScope s k")
    case None
    then have "view s k = None" by (simp add: view_def)
    moreover from this have "(view s)(k := None) = view s" by (simp add: fun_upd_idem)
    moreover have "s' = s \<and> n = 0 \<and> \<not> found" using None run v by (auto simp: deleteScope_def)
    ultimately show ?thesis by (simp add: contents_def)
  next
    case (Some a)
    note inv = goodD(1) [OF g]
    let ?c = "released_core (clk 0) (bufs s ! a) (score s)"
    let ?s = "unlinkScope k a (s\<lparr>score := ?c\<rparr>)"
    have out: "returning (int (length (items (bufs s ! a))), True) (emitDeleteScopeEvent (later 1 clk) k ?s) = (Inr (n, found), s')"
      using run v Some released_core_eq [OF inv Some, of "clk 0"] by (simp add: deleteScope_def Let_def)
    have "store_inv ?s"
      by (rule unlinkScope_inv [OF inv Some res]) (simp_all add: released_core_def core_config_def bumpLastWriteTS_def add_scopeCount_def add_totalItems_def)
    then have gs: "good (m + 1) ?s"
      using unlinkScope_seqs [OF inv Some goodD(2) [OF g], of ?c] seqs_below_mono [of m ?s "m + 1"] by (simp add: good_def)
    note E = returning_emitFor [OF gs room out [unfolded emit_defs]]
    note Q = returning_quiet [OF gs room out [unfolded emit_defs]]
    have "cells ?c = cells (score s)" by (simp add: released_core_def)
    note vw = unlink_view [OF inv Some this]
    have "agree (view s') ((view s)(k := None))" unfolding vw [symmetric] by (rule quiet_view [OF goodD(1) [OF gs] Q])
    then show ?thesis using E Some by (simp add: view_def contents_def buf_view_def)
  qed
  then show "agree (view s') ((view s)(k := None))" "found \<longleftrightarrow> view s k \<noteq> None" "n = int (length (snd (contents (view s) k)))"
    by simp_all
qed

section \<open>Failure\<close>

lemma failed_view: "good m s \<Longrightarrow> op_ok m s (Inl e) s' \<Longrightarrow> view s' = view s"
  by (rule no_trace_view [OF goodD(1)]) (simp_all add: op_ok_def)

end
