(* ===== verification/Reach.thy ===== *)
theory Reach
  imports StoreSpec
begin

text \<open>
  The store as a state machine: it boots from a configuration and then serves requests one at a time,
  whatever their arguments and the clock readings they take. Every state it can reach is in order.
\<close>

section \<open>Steps\<close>

datatype request =
    Append Item
  | Upsert Item
  | Update Item
  | CounterAdd bytestr bytestr int
  | Delete bytestr bytestr u64
  | DeleteUpTo bytestr u64
  | DeleteScope bytestr
  | Warm grouped
  | Rebuild grouped
  | Wipe
  | EnsureScope bytestr
  | Head bytestr u64 int
  | Tail bytestr int int
  | Get bytestr bytestr u64
  | Render bytestr bytestr u64
  | SubscribeTo bytestr
  | Unsubscribe bytestr

fun serve :: "clock \<Rightarrow> request \<Rightarrow> store \<Rightarrow> store" where
  "serve clk (Append it) s = snd (appendOne clk it s)"
| "serve clk (Upsert it) s = snd (upsertOne clk it s)"
| "serve clk (Update it) s = snd (updateOne clk it s)"
| "serve clk (CounterAdd k i by) s = snd (counterAddOne clk k i by s)"
| "serve clk (Delete k i sq) s = snd (deleteOne clk k i sq s)"
| "serve clk (DeleteUpTo k sq) s = snd (deleteUpTo clk k sq s)"
| "serve clk (DeleteScope k) s = snd (deleteScope clk k s)"
| "serve clk (Warm g) s = snd (replaceScopes clk g s)"
| "serve clk (Rebuild g) s = snd (rebuildAll clk g s)"
| "serve clk Wipe s = snd (wipe clk s)"
| "serve clk (EnsureScope k) s = snd (ensureScope (clk 0) k s)"
| "serve clk (Head k sq l) s = snd (head (clk 0) k sq l s)"
| "serve clk (Tail k l off) s = snd (tail (clk 0) k l off s)"
| "serve clk (Get k i sq) s = snd (store_get (clk 0) k i sq s)"
| "serve clk (Render k i sq) s = snd (render (clk 0) k i sq s)"
| "serve clk (SubscribeTo k) s = snd (store_Subscribe k s)"
| "serve clk (Unsubscribe k) s = snd (store_unsubscribe k s)"

text \<open>
  What a request can be: items whose unexported fields are not set, batches that are maps and that a
  process can hold; a scope is made ahead of use under a name.
\<close>

fun request_ok :: "request \<Rightarrow> bool" where
  "request_ok (Append it) = client_item it"
| "request_ok (Upsert it) = client_item it"
| "request_ok (Update it) = client_item it"
| "request_ok (Warm g) \<longleftrightarrow> client_batch g \<and> batch_bytes g + reservedScopesOverhead \<le> MaxInt64"
| "request_ok (Rebuild g) \<longleftrightarrow> client_batch g \<and> batch_bytes g + reservedScopesOverhead \<le> MaxInt64"
| "request_ok (EnsureScope k) \<longleftrightarrow> k \<noteq> []"
| "request_ok _ = True"

inductive reaches :: "Config \<Rightarrow> nat \<Rightarrow> store \<Rightarrow> bool" for cfg where
  boot: "config_i64 cfg \<Longrightarrow> reaches cfg 0 (newStore seed clk cfg)"
| step: "reaches cfg n s \<Longrightarrow> request_ok rq \<Longrightarrow> reaches cfg (Suc n) (serve clk rq s)"

inductive_cases reaches_SucE: "reaches cfg (Suc n) s"

lemma reaches_boot_cfg: "reaches cfg n s \<Longrightarrow> config_i64 cfg"
  by (induction rule: reaches.induct)

section \<open>Every request keeps the invariant\<close>

definition half :: nat where "half = 2 ^ 63"

lemma half_ge: "defaultMaxItems c \<le> MaxInt64 \<Longrightarrow> half \<le> m \<Longrightarrow> defaultMaxItems c \<le> int m"
  by (simp add: half_def MaxInt64_def)

lemma op_ok_good: "op_ok m s r s' \<Longrightarrow> good (m + 2) s' \<and> core_config (score s') = core_config (score s)"
  by (simp add: op_ok_def)

lemma good_same: "good m s \<Longrightarrow> good (m + 2) s"
  by (rule good_mono, assumption) simp

lemma touch_score [simp]: "score (touch now a s) = score s"
  by (simp add: touch_def)

lemma read_scores:
  "score (snd (head now k sq l s)) = score s" "score (snd (tail now k l off s)) = score s"
  "score (snd (store_get now k i sq s)) = score s" "score (snd (render now k i sq s)) = score s"
  by (auto simp: head_def tail_def store_get_def render_def split: option.splits prod.splits)

lemma serve_good:
  assumes g: "good m s" and room: "room (m + 1)" and big: "half \<le> m" and ok: "request_ok rq"
  shows "good (m + 2) (serve clk rq s) \<and> core_config (score (serve clk rq s)) = core_config (score s)"
proof -
  have room': "room m" using room by (rule room_less) simp
  have mx: "defaultMaxItems (score s) \<le> int m"
    by (rule half_ge [OF _ big]) (use store_invD(3) [OF goodD(1) [OF g]] in \<open>simp add: config_ok_def\<close>)
  show ?thesis
  proof (cases rq)
    case (Append it)
    then show ?thesis
      using appendOne_good(1,4) [OF g room, of it clk] ok by (metis request_ok.simps(1) serve.simps(1) surjective_pairing)
  next
    case (Upsert it)
    then show ?thesis
      using op_ok_good [OF upsertOne_good [OF g room, of it clk]] ok by (metis request_ok.simps(2) serve.simps(2) surjective_pairing)
  next
    case (Update it)
    then show ?thesis
      using op_ok_good [OF updateOne_good [OF g room, of it clk]] ok by (metis request_ok.simps(3) serve.simps(3) surjective_pairing)
  next
    case (CounterAdd k i n)
    then show ?thesis
      using op_ok_good [OF counterAddOne_good [OF g room, of clk k i n]] by (metis serve.simps(4) surjective_pairing)
  next
    case (Delete k i sq)
    then show ?thesis
      using op_ok_good [OF deleteOne_good [OF g room, of clk k i sq]] by (metis serve.simps(5) surjective_pairing)
  next
    case (DeleteUpTo k sq)
    then show ?thesis
      using op_ok_good [OF deleteUpTo_good [OF g room, of clk k sq]] by (metis serve.simps(6) surjective_pairing)
  next
    case (DeleteScope k)
    then show ?thesis
      using op_ok_good [OF deleteScope_good [OF g room, of clk k]] by (metis serve.simps(7) surjective_pairing)
  next
    case (Warm gr)
    obtain r s' where run: "replaceScopes clk gr s = (r, s')" by (metis surj_pair)
    have w: "client_batch gr" "batch_bytes gr \<le> MaxInt64" using ok Warm reservedScopesOverhead_eq by simp_all
    show ?thesis
      using replaceScopes_good(1,3) [OF g room' w mx run] good_mono [of "m + 1" s' "m + 2"] Warm run by simp
  next
    case (Rebuild gr)
    obtain r s' where run: "rebuildAll clk gr s = (r, s')" by (metis surj_pair)
    have w: "client_batch gr" "batch_bytes gr + reservedScopesOverhead \<le> MaxInt64" using ok Rebuild by simp_all
    show ?thesis using rebuildAll_good(1,3) [OF g w mx run] good_same Rebuild run by simp
  next
    case Wipe
    obtain r s' where run: "wipe clk s = (r, s')" by (metis surj_pair)
    show ?thesis
      using wipe_good(1,6) [OF goodD(1) [OF g] run] good_mono [of 0 s' "m + 2"] Wipe run by simp
  next
    case (EnsureScope k)
    obtain r s' where run: "ensureScope (clk 0) k s = (r, s')" by (metis surj_pair)
    have "k \<noteq> []" using ok EnsureScope by simp
    from ensureScope_good(1,2) [OF g this run] show ?thesis using good_same EnsureScope run by simp
  next
    case (Head k sq l)
    then show ?thesis using good_same [OF head_good [OF g, of "clk 0" k sq l]] by (simp add: read_scores)
  next
    case (Tail k l off)
    then show ?thesis using good_same [OF tail_good [OF g, of "clk 0" k l off]] by (simp add: read_scores)
  next
    case (Get k i sq)
    then show ?thesis using good_same [OF store_get_good [OF g, of "clk 0" k i sq]] by (simp add: read_scores)
  next
    case (Render k i sq)
    then show ?thesis using good_same [OF render_good [OF g, of "clk 0" k i sq]] by (simp add: read_scores)
  next
    case (SubscribeTo k)
    then show ?thesis using good_same [OF store_Subscribe_good [OF g, of k]]
      by (cases "Subscribe k (shub s)") (simp add: store_Subscribe_def)
  next
    case (Unsubscribe k)
    then show ?thesis using store_unsubscribe_good [OF g, of k] good_same
      by (cases "unsubscribe k (shub s)") (simp add: store_unsubscribe_def)
  qed
qed

text \<open>
  Each request assigns at most two seqs, and a bulk request restarts a scope below \<open>half\<close>; so the seqs
  last for \<open>2 ^ 62\<close> requests.
\<close>

lemma reaches_good:
  "reaches cfg n s \<Longrightarrow> n < 2 ^ 62 \<Longrightarrow> good (half + 2 * n) s"
proof (induction rule: reaches.induct)
  case (boot seed clk)
  then show ?case using good_mono [OF newStore_good(1) [OF boot(1)], of half] by simp
next
  case (step n s rq clk)
  have "good (half + 2 * n) s" using step by simp
  moreover have "room (half + 2 * n + 1)" using step.prems by (simp add: room_def half_def)
  ultimately show ?case using serve_good [of "half + 2 * n" s rq clk] step.hyps(2) by simp
qed

lemma reaches_config:
  "reaches cfg n s \<Longrightarrow> n < 2 ^ 62 \<Longrightarrow>
     maxStoreBytes (score s) = cMaxStoreBytes (WithDefaults cfg) \<and> defaultMaxItems (score s) = cScopeMaxItems (WithDefaults cfg)"
proof (induction rule: reaches.induct)
  case (boot seed clk)
  show ?case using newStore_good(4,5) [OF boot(1), of seed clk] by simp
next
  case (step n s rq clk)
  have "good (half + 2 * n) s" using reaches_good [OF step.hyps(1)] step.prems by simp
  moreover have "room (half + 2 * n + 1)" using step.prems by (simp add: room_def half_def)
  ultimately have c: "core_config (score (serve clk rq s)) = core_config (score s)"
    using serve_good [of "half + 2 * n" s rq clk] step.hyps(2) by simp
  then show ?case using step.IH step.prems core_config_eqD(1,2) [OF c] by simp
qed

section \<open>A live store\<close>

definition live :: "Config \<Rightarrow> store \<Rightarrow> bool" where
  \<comment> \<open>a store that has served fewer than \<open>2 ^ 62\<close> requests since it booted\<close>
  "live cfg s \<longleftrightarrow> (\<exists>n. Suc n < 2 ^ 62 \<and> reaches cfg n s)"

lemma live_boot: "config_i64 cfg \<Longrightarrow> live cfg (newStore seed clk cfg)"
  unfolding live_def by (rule exI [of _ 0]) (simp add: reaches.boot)

lemma live_good:
  assumes "live cfg s"
  obtains m where "good m s" "room (m + 1)" "half \<le> m"
proof -
  obtain n where n: "Suc n < 2 ^ 62" "reaches cfg n s" using assms by (auto simp: live_def)
  then have "good (half + 2 * n) s" using reaches_good by simp
  moreover have "room (half + 2 * n + 1)" using n(1) by (simp add: room_def half_def)
  ultimately show thesis using that by simp
qed

lemma live_good2:
  assumes "live cfg s"
  obtains m where "good m s" "room (m + 2)"
proof -
  obtain n where n: "Suc n < 2 ^ 62" "reaches cfg n s" using assms by (auto simp: live_def)
  then have "good (half + 2 * n) s" using reaches_good by simp
  moreover have "room (half + 2 * n + 2)" using n(1) by (simp add: room_def half_def)
  ultimately show thesis using that by simp
qed

lemma live_config:
  "live cfg s \<Longrightarrow> maxStoreBytes (score s) = cMaxStoreBytes (WithDefaults cfg) \<and>
     defaultMaxItems (score s) = cScopeMaxItems (WithDefaults cfg)"
  unfolding live_def using reaches_config by force

lemma live_ready:
  assumes "live cfg s" "getScope s k = Some a"
  shows "ready (score s) k (bufs s ! a)"
proof -
  obtain m where "good m s" "room (m + 1)" using live_good [OF assms(1)] by blast
  then show ?thesis using linked_ready [OF goodD(1) assms(2) goodD(2)] by (simp add: room_def)
qed

section \<open>One request at most\<close>

definition steps_to :: "store \<Rightarrow> store \<Rightarrow> bool" where
  \<comment> \<open>nothing, or one legal request\<close>
  "steps_to s s' \<longleftrightarrow> s' = s \<or> (\<exists>clk q. request_ok q \<and> s' = serve clk q s)"

lemma steps_toI: "request_ok q \<Longrightarrow> steps_to s (serve clk q s)"
  by (auto simp: steps_to_def)

lemma steps_to_refl [simp]: "steps_to s s"
  by (simp add: steps_to_def)

lemma steps_to_config:
  assumes "reaches cfg n s" "Suc n < 2 ^ 62" "steps_to s s'"
  shows "core_config (score s') = core_config (score s)"
proof -
  have "good (half + 2 * n) s" "room (half + 2 * n + 1)"
    using reaches_good [OF assms(1)] assms(2) by (simp_all add: room_def half_def)
  then show ?thesis using assms(3) serve_good [of "half + 2 * n" s] by (auto simp: steps_to_def)
qed

text \<open>
  The interface every client of the store keeps to: a call is nothing or one legal request. What follows holds
  for each of them: the Go interface, the HTTP endpoints and the start of a subscriber.
\<close>

locale store_client =
  fixes call :: "store \<Rightarrow> store \<Rightarrow> bool"
  assumes call_steps: "call s s' \<Longrightarrow> steps_to s s'"
begin

lemma call_reaches:
  assumes "reaches cfg n s" "call s s'"
  shows "\<exists>m \<le> Suc n. reaches cfg m s'"
  using call_steps [OF assms(2)] assms(1) step [OF assms(1)]
  by (auto simp: steps_to_def intro: exI [of _ n] exI [of _ "Suc n"])

lemma call_config:
  assumes "reaches cfg n s" "Suc n < 2 ^ 62" "call s s'"
  shows "core_config (score s') = core_config (score s)"
  using steps_to_config [OF assms(1,2) call_steps [OF assms(3)]] .

lemma runs_reach:
  assumes "reaches cfg n s" "(call ^^ k) s s'"
  shows "\<exists>m \<le> n + k. reaches cfg m s'"
  using assms(2)
proof (induction k arbitrary: s')
  case 0
  then show ?case using assms(1) by (auto intro: exI [of _ n])
next
  case (Suc k)
  then obtain s1 where s1: "(call ^^ k) s s1" "call s1 s'" by auto
  obtain m where m: "m \<le> n + k" "reaches cfg m s1" using Suc.IH [OF s1(1)] by blast
  obtain m' where "m' \<le> Suc m" "reaches cfg m' s'" using call_reaches [OF m(2) s1(2)] by blast
  then show ?case using m(1) by (intro exI [of _ m']) simp
qed

lemma call_live_good:
  assumes "live cfg s" "call s s'"
  shows "\<exists>m. good m s'"
proof -
  obtain n where n: "Suc n < 2 ^ 62" "reaches cfg n s" using assms(1) by (auto simp: live_def)
  obtain m where "m \<le> Suc n" "reaches cfg m s'" using call_reaches [OF n(2) assms(2)] by blast
  then show ?thesis using n(1) reaches_good by (metis le_less_trans)
qed

end

end
