(* ===== verification/Samples.thy ===== *)
theory Samples
  imports Reach
begin

text \<open>
  Concrete stores, requests and clocks at which the witnesses evaluate: the default configuration, with events
  off and full, a store just booted, and the stores a few requests later.
\<close>

definition cfg0 :: Config where
  "cfg0 = Config_zero"

definition cfg_full :: Config where
  "cfg_full = Config_zero\<lparr>cEventsMode := EventsModeFull\<rparr>"

definition clk0 :: clock where
  "clk0 n = 1000 + int n"

definition boot0 :: store where
  "boot0 = newStore (\<lambda>_. 0) clk0 cfg0"

definition boot_full :: store where
  "boot_full = newStore (\<lambda>_. 0) clk0 cfg_full"

definition item1 :: Item where
  "item1 = Item_zero\<lparr>Scope := ''s'', ID := ''a'', Payload := Some ''1''\<rparr>"

definition item2 :: Item where
  "item2 = Item_zero\<lparr>Scope := ''s'', ID := ''b'', Payload := Some ''[2]''\<rparr>"

definition update1 :: Item where
  "update1 = Item_zero\<lparr>Scope := ''s'', Seq := 1, Payload := Some ''7''\<rparr>"

definition store1 :: store where
  "store1 = serve clk0 (Append item1) boot0"

definition store2 :: store where
  "store2 = serve clk0 (Append item2) store1"

definition batch1 :: grouped where
  "batch1 = [(''s'', [item2]), (''t'', [item1\<lparr>Scope := ''t''\<rparr>, item1\<lparr>Scope := ''t'', ID := []\<rparr>])]"

lemma cfg0_i64: "config_i64 cfg0"
  by (simp add: config_i64_def cfg0_def Config_zero_def MinInt64_def MaxInt64_def)

lemma live_full: "live cfg_full boot_full"
  unfolding boot_full_def
  by (rule live_boot) (simp add: config_i64_def cfg_full_def Config_zero_def MinInt64_def MaxInt64_def)

lemma items_client: "client_item item1" "client_item item2" "client_item update1"
  by (simp_all add: client_item_def item1_def item2_def update1_def Item_zero_def)

lemma reaches0: "reaches cfg0 0 boot0"
  unfolding boot0_def by (rule boot [OF cfg0_i64])

lemma reaches1: "reaches cfg0 1 store1"
  using step [OF reaches0, of "Append item1" clk0] items_client by (simp add: store1_def)

lemma reaches2: "reaches cfg0 2 store2"
  using step [OF reaches1, of "Append item2" clk0] items_client by (simp add: store2_def numeral_2_eq_2)

lemma live_reaches: "reaches cfg n s \<Longrightarrow> Suc n < 2 ^ 62 \<Longrightarrow> live cfg s"
  by (auto simp: live_def)

lemma live0: "live cfg0 boot0"
  by (rule live_reaches [OF reaches0]) simp

lemma live1: "live cfg0 store1"
  by (rule live_reaches [OF reaches1]) simp

lemma live2: "live cfg0 store2"
  by (rule live_reaches [OF reaches2]) simp

lemma batch1_ok: "client_batch batch1" "batch_bytes batch1 + reservedScopesOverhead \<le> MaxInt64"
  by (simp_all add: client_batch_def batch1_def items_client client_item_def item1_def item2_def Item_zero_def) code_simp

end
