(* ===== verification/StoreProps.thy ===== *)
theory StoreProps
  imports Samples
begin

text \<open>
  The properties of the store, over every state it can reach. \<open>live cfg s\<close> is a store that booted from
  the configuration \<open>cfg\<close> and has served requests since.
\<close>

section \<open>Accounting\<close>

lemma sum_linked: "sdir.total f d = sum_list (map f (dir_entries d))"
  by (simp add: sdir.total_def)

lemma accounted:
  assumes inv: "store_inv s"
  shows "totalBytes (score s) =
      sum_list (map (\<lambda>(_, a). sum_list (map approxItemSize (items (bufs s ! a))) + scopeBufferOverhead) (linked s))"
    "totalItems (score s) = sum_list (map (\<lambda>(_, a). int (length (items (bufs s ! a)))) (linked s))"
    "scopeCount (score s) = int (length (linked s))" "totalBytes (score s) \<le> maxStoreBytes (score s)"
proof -
  note I = store_invD [OF inv]
  have "scope_charge (bufs s) p = sum_list (map approxItemSize (items (bufs s ! snd p))) + scopeBufferOverhead"
    if "p \<in> set (linked s)" for p
  proof -
    have "buf_inv (bufs s ! snd p)" using I(6) that by (auto simp: bufs_ok_def linked_ok_def buf_ok_def)
    then show ?thesis by (simp add: scope_charge_def buf_invD(6) total_size_def)
  qed
  then have "totalBytes (score s) =
      sum_list (map (\<lambda>p. sum_list (map approxItemSize (items (bufs s ! snd p))) + scopeBufferOverhead) (linked s))"
    unfolding I(7) sum_linked by (metis (no_types, lifting) map_cong)
  then show "totalBytes (score s) =
      sum_list (map (\<lambda>(_, a). sum_list (map approxItemSize (items (bufs s ! a))) + scopeBufferOverhead) (linked s))"
    by (simp add: split_def)
  have "totalItems (score s) = sum_list (map (\<lambda>p. int (length (items (bufs s ! snd p)))) (linked s))"
    unfolding I(8) sum_linked by (simp add: scope_items_def [abs_def])
  then show "totalItems (score s) = sum_list (map (\<lambda>(_, a). int (length (items (bufs s ! a)))) (linked s))"
    by (simp add: split_def)
  show "scopeCount (score s) = int (length (linked s))" by (rule I(9))
  show "totalBytes (score s) \<le> maxStoreBytes (score s)" using I(4) by (simp add: within_cap_def)
qed

text \<open>
  C1. Byte accounting and the cap. In every reachable store the byte counter is what the linked
  buffers account for, a fixed overhead each plus the approximate size of their items, item for item,
  and it never exceeds the configured cap. The item and scope counters are exact too.
\<close>

theorem bytes_accounted:
  assumes "live cfg s"
  shows "totalBytes (score s) =
      sum_list (map (\<lambda>(_, a). sum_list (map approxItemSize (items (bufs s ! a))) + scopeBufferOverhead) (linked s)) \<and>
    totalBytes (score s) \<le> cMaxStoreBytes (WithDefaults cfg) \<and>
    totalItems (score s) = sum_list (map (\<lambda>(_, a). int (length (items (bufs s ! a)))) (linked s)) \<and>
    scopeCount (score s) = int (length (linked s))"
proof -
  obtain m where g: "good m s" using live_good [OF assms] by blast
  note A = accounted [OF goodD(1) [OF g]]
  have "totalBytes (score s) \<le> cMaxStoreBytes (WithDefaults cfg)" using A(4) live_config [OF assms] by simp
  then show ?thesis using A(1-3) by blast
qed

theorem bytes_accounted_witness:
  "totalBytes (score store2) \<le> cMaxStoreBytes (WithDefaults cfg0) \<and> totalItems (score store2) = 2"
proof -
  have "totalItems (score store2) = 2" by code_simp
  then show ?thesis using bytes_accounted [OF live2] by simp
qed

text \<open>
  C2. The indexes agree with the items. In every reachable store each linked buffer holds items of its
  own scope with strictly increasing seqs up to its last seq, looks an item up by seq and by non-empty
  id exactly when it holds it, and holds no more items than its scope allows.
\<close>

theorem indexes_agree:
  assumes "live cfg s" and "getScope s k = Some a"
  shows "sorted_wrt (<) (map Seq (items (bufs s ! a))) \<and>
    (\<forall>it \<in> set (items (bufs s ! a)). Scope it = k \<and> Seq it \<le> lastSeq (bufs s ! a) \<and>
       approxItemSize it \<le> maxItemBytesFor (score s) k) \<and>
    (\<forall>sq it. gm_get (bySeq (bufs s ! a)) sq = Some it \<longleftrightarrow> it \<in> set (items (bufs s ! a)) \<and> Seq it = sq) \<and>
    (\<forall>i it. gm_get (byID (bufs s ! a)) i = Some it \<longleftrightarrow> it \<in> set (items (bufs s ! a)) \<and> ID it = i \<and> i \<noteq> []) \<and>
    (0 < maxItemsFor (score s) k \<longrightarrow> int (length (items (bufs s ! a))) \<le> maxItemsFor (score s) k)"
proof -
  obtain m where g: "good m s" using live_good [OF assms(1)] by blast
  note L = linked_bufD [OF goodD(1) [OF g] assms(2)]
  have it: "item_ok (score s) k x" if "x \<in> set (items (bufs s ! a))" for x using L(5) that by (simp add: buf_ok_def)
  have sq: "gm_get (bySeq (bufs s ! a)) sq = Some x \<longleftrightarrow> x \<in> set (items (bufs s ! a)) \<and> Seq x = sq" for sq x
    using indexesD [OF buf_invD(4) [OF L(6)], of sq x] by (auto simp: seq_key_def)
  have id: "gm_get (byID (bufs s ! a)) i = Some x \<longleftrightarrow> x \<in> set (items (bufs s ! a)) \<and> ID x = i \<and> i \<noteq> []" for i x
    using indexesD [OF buf_invD(5) [OF L(6)], of i x] by (auto simp: id_key_def)
  have "sorted_wrt (<) (map Seq (items (bufs s ! a)))" "\<forall>x \<in> set (items (bufs s ! a)). Seq x \<le> lastSeq (bufs s ! a)"
    "0 < maxItems (bufs s ! a) \<longrightarrow> int (length (items (bufs s ! a))) \<le> maxItems (bufs s ! a)"
    using L(6) by (simp_all add: buf_inv_def)
  then show ?thesis using it sq id L(7) by (simp add: item_ok_def)
qed

theorem indexes_agree_witness: "\<exists>a. getScope store2 ''s'' = Some a \<and> sorted_wrt (<) (map Seq (items (bufs store2 ! a)))"
proof -
  have "getScope store2 ''s'' = Some 2" by code_simp
  with indexes_agree [OF live2 this] show ?thesis by blast
qed

section \<open>Single-item writes\<close>

lemma failed_shows:
  assumes "good m s" "op_ok m s (Inl e :: 'a res) s'"
  shows "view s' = view s \<and> score s' = score s \<and> (\<forall>p. e \<noteq> GoPanic p)"
  using failed_view [OF assms] no_trace_fields [of s s'] assms(2) by (simp add: op_ok_def not_panic_def)

text \<open>
  C3. Append refines its specification. On every reachable store an append that succeeds adds one item
  with the next seq of its scope, stamped, with its rendered form, as the last item of the scope, and
  returns it; every other scope but \<open>_events\<close> reads as before. One that fails leaves every scope as it
  was, also when it had created the scope before it failed.
\<close>

theorem append_refines:
  assumes "live cfg s" "client_item it"
  shows "case appendOne clk it s of
      (Inl e, s') \<Rightarrow> view s' = view s \<and> score s' = score s \<and> (\<forall>p. e \<noteq> GoPanic p)
    | (Inr x, s') \<Rightarrow> agree (view s') (spec_append (clk 1) it (view s)) \<and>
        x = fresh_item (clk 1) (fst (contents (view s) (Scope it)) + 1) it"
proof -
  obtain m where g: "good m s" "room (m + 1)" using live_good [OF assms(1)] by blast
  obtain r s' where run: "appendOne clk it s = (r, s')" by (metis surj_pair)
  show ?thesis
  proof (cases r)
    case (Inl e)
    have "op_ok m s r s'" using appendOne_good [OF g assms(2) run] by (simp add: op_ok_def)
    then show ?thesis using run Inl failed_shows [OF g(1)] by simp
  next
    case (Inr x)
    then show ?thesis using run append_view [OF g assms(2) run [unfolded Inr]] by simp
  qed
qed

theorem append_refines_witness:
  "\<exists>x s'. appendOne clk0 item2 store1 = (Inr x, s') \<and> Seq x = 2 \<and> agree (view s') (spec_append (clk0 1) item2 (view store1))"
proof -
  have ok: "(case appendOne clk0 item2 store1 of (Inr x, _) \<Rightarrow> Seq x = 2 | _ \<Rightarrow> False)" by code_simp
  obtain r s' where run: "appendOne clk0 item2 store1 = (r, s')" by (metis surj_pair)
  then show ?thesis using ok append_refines [OF live1 items_client(2), of clk0] by (cases r) auto
qed

text \<open>
  C4. Upsert refines its specification: on an id the scope holds it replaces the payload in place and
  keeps seq and id, on a new id it appends; the flag says which. One that fails changes nothing.
\<close>

theorem upsert_refines:
  assumes "live cfg s" "client_item it"
  shows "case upsertOne clk it s of
      (Inl e, s') \<Rightarrow> view s' = view s \<and> score s' = score s \<and> (\<forall>p. e \<noteq> GoPanic p)
    | (Inr (x, created), s') \<Rightarrow> agree (view s') (spec_upsert (clk 1) it (view s)) \<and> ID x = ID it \<and>
        (created \<longleftrightarrow> (\<forall>y \<in> set (snd (contents (view s) (Scope it))). ID y \<noteq> ID it))"
proof -
  obtain m where g: "good m s" "room (m + 1)" using live_good [OF assms(1)] by blast
  obtain r s' where run: "upsertOne clk it s = (r, s')" by (metis surj_pair)
  note ok = upsertOne_good [OF g assms(2) run]
  show ?thesis
  proof (cases r)
    case (Inl e)
    then show ?thesis using run failed_shows [OF g(1)] ok by simp
  next
    case (Inr xc)
    obtain x created where xc: "xc = (x, created)" by (metis surj_pair)
    note U = upsert_view [OF g assms(2) run [unfolded Inr xc]]
    have "ID x = ID it" using U(3,4) by (cases created) (auto simp: overwritten_def)
    then show ?thesis using run Inr xc U(1,2) by simp
  qed
qed

theorem upsert_refines_witness:
  "\<exists>x s'. upsertOne clk0 (item1\<lparr>Payload := Some ''9''\<rparr>) store2 = (Inr (x, False), s') \<and> Seq x = 1 \<and>
     agree (view s') (spec_upsert (clk0 1) (item1\<lparr>Payload := Some ''9''\<rparr>) (view store2))"
proof -
  let ?it = "item1\<lparr>Payload := Some ''9''\<rparr>"
  have ok: "(case upsertOne clk0 ?it store2 of (Inr (x, False), _) \<Rightarrow> Seq x = 1 | _ \<Rightarrow> False)" by code_simp
  have "client_item ?it" by (simp add: client_item_def item1_def Item_zero_def)
  from upsert_refines [OF live2 this, of clk0] show ?thesis using ok
    by (cases "upsertOne clk0 ?it store2") (auto split: sum.splits prod.splits bool.splits)
qed

text \<open>
  C5. Update refines its specification: it overwrites the payload of the one item the request addresses,
  by id or by seq, and returns 1, or returns 0 and changes nothing a client can see; it never creates
  an item and never moves the last seq.
\<close>

theorem update_refines:
  assumes "live cfg s" "client_item it"
  shows "case updateOne clk it s of
      (Inl e, s') \<Rightarrow> view s' = view s \<and> score s' = score s \<and> (\<forall>p. e \<noteq> GoPanic p)
    | (Inr n, s') \<Rightarrow> agree (view s') (spec_update (clk 0) it (view s)) \<and>
        n = (if \<exists>y \<in> set (snd (contents (view s) (Scope it))). addressed it y then 1 else 0)"
proof -
  obtain m where g: "good m s" "room (m + 1)" using live_good [OF assms(1)] by blast
  obtain r s' where run: "updateOne clk it s = (r, s')" by (metis surj_pair)
  note ok = updateOne_good [OF g assms(2) run]
  show ?thesis
  proof (cases r)
    case (Inl e)
    then show ?thesis using run failed_shows [OF g(1)] ok by simp
  next
    case (Inr n)
    then show ?thesis using run update_view [OF g assms(2) run [unfolded Inr]] by simp
  qed
qed

theorem update_refines_witness:
  "\<exists>s'. updateOne clk0 update1 store2 = (Inr 1, s') \<and> agree (view s') (spec_update (clk0 0) update1 (view store2))"
proof -
  have ok: "(case updateOne clk0 update1 store2 of (Inr n, _) \<Rightarrow> n = 1 | _ \<Rightarrow> False)" by code_simp
  obtain r s' where run: "updateOne clk0 update1 store2 = (r, s')" by (metis surj_pair)
  then show ?thesis using ok update_refines [OF live2 items_client(3), of clk0] by (cases r) auto
qed

section \<open>Deletes\<close>

text \<open>
  C6. Delete removes exactly the addressed items and returns how many there were; the last seq stays, so
  no seq is handed out twice.
\<close>

theorem delete_refines:
  assumes "live cfg s"
  shows "case deleteOne clk k i sq s of
      (Inl e, s') \<Rightarrow> view s' = view s \<and> score s' = score s \<and> (\<forall>p. e \<noteq> GoPanic p)
    | (Inr n, s') \<Rightarrow> agree (view s') (spec_keep (\<lambda>y. if i \<noteq> [] then ID y \<noteq> i else Seq y \<noteq> sq) k (view s)) \<and>
        n = int (length (filter (\<lambda>y. if i \<noteq> [] then ID y = i else Seq y = sq) (snd (contents (view s) k))))"
proof -
  obtain m where g: "good m s" "room (m + 1)" using live_good [OF assms(1)] by blast
  obtain r s' where run: "deleteOne clk k i sq s = (r, s')" by (metis surj_pair)
  note ok = deleteOne_good [OF g run]
  show ?thesis
  proof (cases r)
    case (Inl e)
    then show ?thesis using run failed_shows [OF g(1)] ok by simp
  next
    case (Inr n)
    let ?xs = "snd (contents (view s) k)" and ?P = "\<lambda>y. if i \<noteq> [] then ID y = i else Seq y = sq"
    note D = delete_view [OF g run [unfolded Inr], unfolded other_than_def [abs_def]]
    have "length (filter ?P ?xs) + length (filter (\<lambda>y. if i \<noteq> [] then ID y \<noteq> i else Seq y \<noteq> sq) ?xs) = length ?xs"
      using sum_length_filter_compl [of ?P ?xs] by (simp add: if_distrib cong: if_cong)
    then have "n = int (length (filter ?P ?xs))" using D(2) by linarith
    then show ?thesis using run Inr D(1) by simp
  qed
qed

theorem delete_refines_witness:
  "\<exists>s'. deleteOne clk0 ''s'' ''a'' 0 store2 = (Inr 1, s') \<and>
     agree (view s') (spec_keep (\<lambda>y. ID y \<noteq> ''a'') ''s'' (view store2))"
proof -
  have ok: "(case deleteOne clk0 ''s'' ''a'' 0 store2 of (Inr n, _) \<Rightarrow> n = 1 | _ \<Rightarrow> False)" by code_simp
  obtain r s' where run: "deleteOne clk0 ''s'' ''a'' 0 store2 = (r, s')" by (metis surj_pair)
  then show ?thesis using ok delete_refines [OF live2, where clk = clk0 and k = "''s''" and i = "''a''" and sq = 0] by (cases r) auto
qed

text \<open>
  C7. A drain (\<open>/delete_up_to\<close>) keeps exactly the items past its seq: the binary search, the walk over the
  removed prefix and the compaction amount to a filter.
\<close>

theorem drain_refines:
  assumes "live cfg s"
  shows "case deleteUpTo clk k sq s of
      (Inl e, s') \<Rightarrow> view s' = view s \<and> score s' = score s \<and> (\<forall>p. e \<noteq> GoPanic p)
    | (Inr n, s') \<Rightarrow> agree (view s') (spec_keep (\<lambda>y. sq < Seq y) k (view s)) \<and>
        n = int (length (filter (\<lambda>y. Seq y \<le> sq) (snd (contents (view s) k))))"
proof -
  obtain m where g: "good m s" "room (m + 1)" using live_good [OF assms(1)] by blast
  obtain r s' where run: "deleteUpTo clk k sq s = (r, s')" by (metis surj_pair)
  note ok = deleteUpTo_good [OF g run]
  show ?thesis
  proof (cases r)
    case (Inl e)
    then show ?thesis using run failed_shows [OF g(1)] ok by simp
  next
    case (Inr n)
    let ?xs = "snd (contents (view s) k)"
    note D = deleteUpTo_view [OF g run [unfolded Inr]]
    have "length (filter (\<lambda>y. Seq y \<le> sq) ?xs) + length (filter (\<lambda>y. sq < Seq y) ?xs) = length ?xs"
      using sum_length_filter_compl [of "\<lambda>y. Seq y \<le> sq" ?xs] by (simp add: not_le)
    then have "n = int (length (filter (\<lambda>y. Seq y \<le> sq) ?xs))" using D(2) by linarith
    then show ?thesis using run Inr D(1) by simp
  qed
qed

theorem drain_refines_witness:
  "\<exists>s'. deleteUpTo clk0 ''s'' 1 store2 = (Inr 1, s') \<and> agree (view s') (spec_keep (\<lambda>y. 1 < Seq y) ''s'' (view store2))"
proof -
  have ok: "(case deleteUpTo clk0 ''s'' 1 store2 of (Inr n, _) \<Rightarrow> n = 1 | _ \<Rightarrow> False)" by code_simp
  obtain r s' where run: "deleteUpTo clk0 ''s'' 1 store2 = (r, s')" by (metis surj_pair)
  then show ?thesis using ok drain_refines [OF live2, where clk = clk0 and k = "''s''" and sq = 1] by (cases r) auto
qed

text \<open>
  C8. Deleting a scope removes it from the view as a whole and returns whether it was there and how many
  items went; a reserved scope is refused.
\<close>

theorem deleteScope_refines:
  assumes "live cfg s"
  shows "case deleteScope clk k s of
      (Inl e, s') \<Rightarrow> view s' = view s \<and> score s' = score s \<and> (\<exists>r. e = InvalidInput r)
    | (Inr (n, found), s') \<Rightarrow> \<not> isReservedScope k \<and> agree (view s') ((view s)(k := None)) \<and>
        (found \<longleftrightarrow> view s k \<noteq> None) \<and> n = int (length (snd (contents (view s) k)))"
proof -
  obtain m where g: "good m s" "room (m + 1)" using live_good [OF assms(1)] by blast
  obtain r s' where run: "deleteScope clk k s = (r, s')" by (metis surj_pair)
  note ok = deleteScope_good [OF g run]
  show ?thesis
  proof (cases "validateDeleteScopeRequest \<lparr>dsr_Scope = k\<rparr>")
    case (Inl e)
    then have "r = Inl e" "s' = s" "\<exists>q. e = InvalidInput q" using run
      by (auto simp: deleteScope_def validateDeleteScopeRequest_def wrapValidation_def split: option.splits)
    then show ?thesis using run by simp
  next
    case (Inr u)
    then have "\<not> isReservedScope k"
      by (auto simp: validateDeleteScopeRequest_def first_err_None rejectReserved_def split: if_splits)
    moreover obtain n found where r: "r = Inr (n, found)"
    proof (cases r)
      case (Inl e)
      then have False using run Inr ok
        by (auto simp: deleteScope_def Let_def returning_def op_ok_def not_panic_def split: option.splits prod.splits)
      then show thesis ..
    next
      case (Inr x)
      then show thesis using that by (cases x) simp
    qed
    ultimately show ?thesis using run deleteScope_view [OF g run [unfolded r]] by simp
  qed
qed

theorem deleteScope_refines_witness:
  "\<exists>s'. deleteScope clk0 ''s'' store2 = (Inr (2, True), s') \<and> agree (view s') ((view store2)(''s'' := None))"
proof -
  have ok: "(case deleteScope clk0 ''s'' store2 of (Inr (n, f), _) \<Rightarrow> n = 2 \<and> f | _ \<Rightarrow> False)" by code_simp
  obtain r s' where run: "deleteScope clk0 ''s'' store2 = (r, s')" by (metis surj_pair)
  then show ?thesis using ok deleteScope_refines [OF live2, where clk = clk0 and k = "''s''"] by (cases r) auto
qed

section \<open>Events\<close>

text \<open>
  C9. An event never changes the outcome of its write, and none gets lost unseen. When events are on, an
  append that succeeds outside \<open>_events\<close> either adds one item to \<open>_events\<close>, whose payload is the
  marshalled event (without the payload in notify mode), or counts one dropped event.
\<close>

theorem append_emits_event:
  assumes "live cfg s" "client_item it" "Scope it \<noteq> EventsScopeName" "eventsMode (score s) \<noteq> EventsModeOff"
    and run: "appendOne clk it s = (Inr x, s')"
  shows "eventsDropsTotal (score s') = eventsDropsTotal (score s) + 1 \<and>
      view s' EventsScopeName = view s EventsScopeName \<or>
    eventsDropsTotal (score s') = eventsDropsTotal (score s) \<and>
      (\<exists>body. marshal_writeEvent (shown_event (score s) (appendEvent x)) = Some body \<and>
         view s' EventsScopeName = spec_append (clk 3) (event_item (appendEvent x) body) (view s) EventsScopeName)"
proof -
  obtain m where g: "good m s" "room (m + 2)" using live_good2 [OF assms(1)] by blast
  have room: "room (m + 1)" "room m" using g(2) by (simp_all add: room_def)
  obtain s2 s3 where A: "commitAppend clk it s = (Inr x, s2)" "good (m + 1) s2"
    "(if eventsEnabled s2 (Scope it) then emitWith (appendOne (later 2 clk)) (appendEvent x) s2 else (None, s2)) = (None, s3)"
    "s' = s3 \<or> (\<exists>h. s' = s3\<lparr>shub := h\<rparr>)"
    using append_commits [OF g(1) room(1) assms(2) run] by metis
  have cfg: "core_config (score s2) = core_config (score s)"
    using commitAppend_good(3) [OF g(1) room(2) assms(2) A(1)] .
  have d2: "eventsDropsTotal (score s2) = eventsDropsTotal (score s)"
    by (rule commitAppend_drops [OF A(1)])
  have v2: "view s2 EventsScopeName = view s EventsScopeName"
    using commitAppend_view(1) [OF g(1) room(2) assms(2) A(1)] assms(3) by (simp add: spec_append_def split: prod.splits)
  have em: "emitWith (appendOne (later 2 clk)) (appendEvent x) s2 = (None, s3)"
    using A(3) assms(3,4) core_config_eqD(7) [OF cfg] by (simp add: eventsEnabled_def)
  have sh: "shown_event (score s2) (appendEvent x) = shown_event (score s) (appendEvent x)"
    using core_config_eqD(7) [OF cfg] by (simp add: shown_event_def)
  have con: "contents (view s2) EventsScopeName = contents (view s) EventsScopeName" using v2 by (simp add: contents_def)
  have sp: "spec_append now (event_item e b) (view s2) EventsScopeName = spec_append now (event_item e b) (view s) EventsScopeName"
    for now e b using con by (simp add: spec_append_def event_item_def split: prod.splits)
  have s': "view s' = view s3" "eventsDropsTotal (score s') = eventsDropsTotal (score s3)"
    using A(4) by (auto simp: view_def getScope_def fun_eq_iff)
  have r1: "room (m + 1 + 1)" using g(2) by (simp add: room_def)
  have clk: "later 2 clk 1 = clk 3" by (simp add: later_def eval_nat_numeral)
  have "eventsDropsTotal (score s3) = eventsDropsTotal (score s) + 1 \<and> view s3 = view s2 \<or>
    (\<exists>body. marshal_writeEvent (shown_event (score s) (appendEvent x)) = Some body \<and>
      eventsDropsTotal (score s3) = eventsDropsTotal (score s) \<and>
      view s3 = spec_append (clk 3) (event_item (appendEvent x) body) (view s2))"
    using emit_outcome [OF A(2) r1 em] unfolding clk sh d2 .
  then show ?thesis using v2 sp unfolding s' by metis
qed

theorem append_emits_event_witness:
  "\<exists>x s'. appendOne clk0 item1 boot_full = (Inr x, s') \<and> eventsDropsTotal (score s') = 0 \<and>
     (\<exists>body. marshal_writeEvent (appendEvent x) = Some body \<and>
        view s' EventsScopeName = spec_append (clk0 3) (event_item (appendEvent x) body) (view boot_full) EventsScopeName)"
proof -
  have ok: "(case appendOne clk0 item1 boot_full of (Inr x, s') \<Rightarrow> eventsDropsTotal (score s') = 0 | _ \<Rightarrow> False)" by code_simp
  have m: "eventsMode (score boot_full) = EventsModeFull" "eventsDropsTotal (score boot_full) = 0" "Scope item1 \<noteq> EventsScopeName"
    by code_simp+
  obtain r s' where run: "appendOne clk0 item1 boot_full = (r, s')" by (metis surj_pair)
  then obtain x where r: "r = Inr x" "eventsDropsTotal (score s') = 0" using ok by (cases r) auto
  from append_emits_event [OF live_full items_client(1) m(3) _ run [unfolded r(1)]] m r run show ?thesis
    by (simp add: shown_event_def)
qed

section \<open>Bulk operations\<close>

lemma numbered_shown: "map (materialiseCounter c) (numbered t sq its) = numbered t sq its"
  by (induction its arbitrary: sq) simp_all

lemma built_shown:
  assumes "list_all2 built_from g built" "p \<in> set g"
  obtains q now where "q \<in> set built" "fst q = fst p" "r_items (snd q) = numbered now 0 (map fillRender (snd p))"
proof -
  obtain i where i: "i < length g" "p = g ! i" using assms(2) by (auto simp: in_set_conv_nth)
  then have "built_from p (built ! i)" "i < length built" using assms(1) by (simp_all add: list_all2_conv_all_nth)
  then show thesis using that [of "built ! i"] by (auto simp: built_from_def)
qed

text \<open>
  C10. Warm is all or nothing. A warm that fails, for a bad item, an oversized scope or the byte cap,
  leaves the store exactly as it was. One that succeeds leaves each scope of the batch with precisely the
  batch's items, numbered from 1, and every scope outside the batch and \<open>_events\<close> as it read before.
\<close>

theorem warm_all_or_nothing:
  assumes "live cfg s" "client_batch g" "batch_bytes g + reservedScopesOverhead \<le> MaxInt64"
  shows "case replaceScopes clk g s of
      (Inl e, s') \<Rightarrow> s' = s \<and> (\<forall>p. e \<noteq> GoPanic p)
    | (Inr n, s') \<Rightarrow> n = int (length g) \<and>
        (\<forall>(k, its) \<in> set g. \<exists>now sq. view s' k = Some (sq, numbered now 0 (map fillRender its)) \<and> unat sq = length its) \<and>
        (\<forall>k. k \<notin> fst ` set g \<longrightarrow> k \<noteq> EventsScopeName \<longrightarrow> view s' k = view s k)"
proof -
  obtain m where g: "good m s" "room (m + 1)" "half \<le> m" using live_good [OF assms(1)] by blast
  note inv = goodD(1) [OF g(1)]
  have room: "room m" using g(2) by (rule room_less) simp
  have mx: "defaultMaxItems (score s) \<le> int m"
    by (rule half_ge [OF _ g(3)]) (use store_invD(3) [OF inv] in \<open>simp add: config_ok_def\<close>)
  have fits: "batch_bytes g \<le> MaxInt64" using assms(3) reservedScopesOverhead_eq by simp
  obtain r s' where run: "replaceScopes clk g s = (r, s')" by (metis surj_pair)
  note R = replaceScopes_good [OF g(1) room assms(2) fits mx run]
  show ?thesis
  proof (cases r)
    case (Inl e)
    then show ?thesis using run R(2,4) by (simp add: not_panic_def)
  next
    case (Inr n)
    obtain built s1 where W: "list_all2 built_from g built" "\<forall>q \<in> set built. batch_ok (score s) q"
      "warm_result built s s1" "quiet s1 s'" "store_inv s1" "n = int (length g)"
      using R(5) [OF Inr] by blast
    have keys: "fst ` set built = fst ` set g" using built_keys [OF W(1)] by (metis set_map)
    have ag: "agree (view s') (view s1)" by (rule quiet_view [OF W(5,4)])
    have "\<exists>now sq. view s' k = Some (sq, numbered now 0 (map fillRender its)) \<and> unat sq = length its"
      if mem: "(k, its) \<in> set g" for k its
    proof -
      obtain q now where q: "q \<in> set built" "fst q = k" "r_items (snd q) = numbered now 0 (map fillRender its)"
        using built_shown [OF W(1) mem] by auto
      obtain a where a: "getScope s1 k = Some a" "items (bufs s1 ! a) = r_items (snd q)" "lastSeq (bufs s1 ! a) = r_lastSeq (snd q)"
        using W(3) q(1,2) by (auto simp: warm_result_def)
      have b: "k \<noteq> EventsScopeName" "unat (r_lastSeq (snd q)) = length its"
        using W(2) q by (auto simp: batch_ok_def isReservedScope_iff)
      have "view s1 k = Some (r_lastSeq (snd q), numbered now 0 (map fillRender its))"
        using a q(3) by (simp add: view_def buf_view_def numbered_shown)
      then show ?thesis using ag b by (auto simp: agree_def)
    qed
    moreover have "view s' k = view s k" if "k \<notin> fst ` set g" "k \<noteq> EventsScopeName" for k
    proof -
      have "getScope s1 k = getScope s k" "\<forall>a. getScope s k = Some a \<longrightarrow> bufs s1 ! a = bufs s ! a"
        "cells (score s1) = cells (score s)"
        using W(3) that(1) keys by (simp_all add: warm_result_def)
      then have "view s1 k = view s k" using buf_view_cong [of "score s1" "score s"]
        by (cases "getScope s k") (simp_all add: view_def)
      then show ?thesis using ag that(2) by (simp add: agree_def)
    qed
    ultimately show ?thesis using run Inr W(6) by auto
  qed
qed

theorem warm_all_or_nothing_witness:
  "\<exists>s'. replaceScopes clk0 batch1 store1 = (Inr 2, s') \<and>
     (\<forall>k. k \<notin> {''s'', ''t''} \<longrightarrow> k \<noteq> EventsScopeName \<longrightarrow> view s' k = view store1 k)"
proof -
  have ok: "(case replaceScopes clk0 batch1 store1 of (Inr n, _) \<Rightarrow> n = 2 | _ \<Rightarrow> False)" by code_simp
  have keys: "fst ` set batch1 = {''s'', ''t''}" by (simp add: batch1_def)
  obtain r s' where run: "replaceScopes clk0 batch1 store1 = (r, s')" by (metis surj_pair)
  then show ?thesis using ok warm_all_or_nothing [OF live1 batch1_ok, of clk0] by (cases r) (auto simp: keys)
qed

text \<open>
  C11. Rebuild replaces the whole store or nothing. A rebuild that fails leaves the store exactly as it
  was. One that succeeds leaves precisely the batch's scopes, each with the batch's items numbered from
  1, and the reserved ones, with the byte counter at what the new content costs; every buffer of the
  old store is detached.
\<close>

theorem rebuild_all_or_nothing:
  assumes "live cfg s" "client_batch g" "batch_bytes g + reservedScopesOverhead \<le> MaxInt64"
  shows "case rebuildAll clk g s of
      (Inl e, s') \<Rightarrow> s' = s \<and> (\<forall>p. e \<noteq> GoPanic p)
    | (Inr (n, _), s') \<Rightarrow> n = int (length g) \<and>
        (\<forall>(k, its) \<in> set g. \<exists>now sq. view s' k = Some (sq, numbered now 0 (map fillRender its)) \<and> unat sq = length its) \<and>
        (\<forall>k. k \<notin> fst ` set g \<longrightarrow> \<not> isReservedScope k \<longrightarrow> view s' k = None) \<and>
        totalBytes (score s') = batch_bytes g + reservedScopesOverhead \<and>
        (\<forall>a < length (bufs s). detached (bufs s' ! a))"
proof -
  obtain m where g: "good m s" "room (m + 1)" "half \<le> m" using live_good [OF assms(1)] by blast
  note inv = goodD(1) [OF g(1)]
  have mx: "defaultMaxItems (score s) \<le> int m"
    by (rule half_ge [OF _ g(3)]) (use store_invD(3) [OF inv] in \<open>simp add: config_ok_def\<close>)
  obtain r s' where run: "rebuildAll clk g s = (r, s')" by (metis surj_pair)
  note R = rebuildAll_good [OF g(1) assms(2,3) mx run]
  show ?thesis
  proof (cases r)
    case (Inl e)
    then show ?thesis using run R(2,4) by (simp add: not_panic_def)
  next
    case (Inr nk)
    obtain n j where nk: "nk = (n, j)" by (metis surj_pair)
    obtain built where W: "list_all2 built_from g built" "\<forall>q \<in> set built. batch_ok (score s) q"
      "rebuild_result built s s'" "n = int (length g)" "totalBytes (score s') = batch_bytes g + reservedScopesOverhead"
      using R(5) [OF Inr [unfolded nk]] by blast
    have keys: "fst ` set built = fst ` set g" using built_keys [OF W(1)] by (metis set_map)
    have "\<exists>now sq. view s' k = Some (sq, numbered now 0 (map fillRender its)) \<and> unat sq = length its"
      if mem: "(k, its) \<in> set g" for k its
    proof -
      obtain q now where q: "q \<in> set built" "fst q = k" "r_items (snd q) = numbered now 0 (map fillRender its)"
        using built_shown [OF W(1) mem] by auto
      obtain a where a: "getScope s' k = Some a" "items (bufs s' ! a) = r_items (snd q)" "lastSeq (bufs s' ! a) = r_lastSeq (snd q)"
        using W(3) q(1,2) by (auto simp: rebuild_result_def)
      have "unat (r_lastSeq (snd q)) = length its" using W(2) q by (auto simp: batch_ok_def)
      then show ?thesis using a q(3) by (auto simp: view_def buf_view_def numbered_shown)
    qed
    moreover have "view s' k = None" if "k \<notin> fst ` set g" "\<not> isReservedScope k" for k
      using W(3) that keys by (simp add: rebuild_result_def view_def)
    moreover have "\<forall>a < length (bufs s). detached (bufs s' ! a)" using W(3) by (simp add: rebuild_result_def)
    ultimately show ?thesis using run Inr nk W(4,5) by auto
  qed
qed

theorem rebuild_all_or_nothing_witness:
  "\<exists>s'. rebuildAll clk0 batch1 store1 = (Inr (2, 3), s') \<and>
     (\<forall>k. k \<notin> {''s'', ''t''} \<longrightarrow> \<not> isReservedScope k \<longrightarrow> view s' k = None)"
proof -
  have ok: "(case rebuildAll clk0 batch1 store1 of (Inr (n, j), _) \<Rightarrow> n = 2 \<and> j = 3 | _ \<Rightarrow> False)" by code_simp
  have keys: "fst ` set batch1 = {''s'', ''t''}" by (simp add: batch1_def)
  obtain r s' where run: "rebuildAll clk0 batch1 store1 = (r, s')" by (metis surj_pair)
  then show ?thesis using ok rebuild_all_or_nothing [OF live1 batch1_ok, of clk0] by (cases r) (auto simp: keys)
qed

text \<open>
  C12. Wipe reports what the store held and leaves the two reserved scopes empty and nothing else; the
  buffers there were are detached.
\<close>

theorem wipe_resets:
  assumes "live cfg s"
  shows "case wipe clk s of ((nScopes, nItems, freed), s') \<Rightarrow>
    nScopes = scopeCount (score s) \<and> nItems = totalItems (score s) \<and> freed = totalBytes (score s) \<and>
    totalBytes (score s') = reservedScopesOverhead \<and> totalItems (score s') = 0 \<and>
    (\<forall>k. view s' k = (if isReservedScope k then Some (0, []) else None)) \<and>
    (\<forall>a < length (bufs s). detached (bufs s' ! a))"
proof -
  obtain m where g: "good m s" using live_good [OF assms(1)] by blast
  obtain r s' where run: "wipe clk s = (r, s')" by (metis surj_pair)
  note W = wipe_good [OF goodD(1) [OF g] run]
  have inv: "store_inv s'" and sq: "seqs_below 0 s'" using W(1) by (simp_all add: good_def)
  have "view s' k = (if isReservedScope k then Some (0, []) else None)" for k
  proof (cases "isReservedScope k")
    case False
    then show ?thesis using W(8) by (simp add: view_def)
  next
    case True
    then have "k \<in> set reservedScopeNames" by (simp add: isReservedScope_def)
    then obtain a where a: "getScope s' k = Some a" using store_invD(10) [OF inv] by blast
    have mem: "(k, a) \<in> set (linked s')" using getScope_linked [OF inv] a by simp
    have "scope_items (bufs s') (k, a) \<le> held s'"
      unfolding held_def
      by (rule sdir.total_member [OF store_invD(1) [OF inv]]) (use a in \<open>simp_all add: getScope_def scope_items_def\<close>)
    then have "items (bufs s' ! a) = []" using store_invD(8) [OF inv] W(4) by (simp add: held_def scope_items_def)
    moreover have "unat (lastSeq (bufs s' ! snd (k, a))) \<le> 0" using sq mem unfolding seqs_below_def by (rule bspec)
    then have "lastSeq (bufs s' ! a) = 0" by (simp add: unat_eq_0)
    ultimately show ?thesis using True a by (simp add: view_def buf_view_def)
  qed
  then show ?thesis using W(2,3,4,9) run by simp
qed

theorem wipe_resets_witness:
  "case wipe clk0 store2 of ((nScopes, nItems, freed), s') \<Rightarrow> nScopes = 3 \<and> nItems = 2 \<and> view s' ''s'' = None"
proof -
  have ok: "scopeCount (score store2) = 3" "totalItems (score store2) = 2" "\<not> isReservedScope ''s''" by code_simp+
  show ?thesis using wipe_resets [OF live2, of clk0] ok by (auto split: prod.splits)
qed

end
