(* ===== verification/Sections.thy ===== *)
theory Sections
  imports Reach
begin

text \<open>
  The operations of the store as they run beside each other. A request is a program of sections: what it
  does under one mutex, or in one access of the store's atomics, is a section and a single step; between two
  sections any other request may run. A section that writes a buffer holds that buffer's mutex, one that
  changes the directory its shard's; two that hold different mutexes share only the store's counters, which
  they add to, take the maximum with, or reserve from in one compare-and-swap. \<open>replaceScopes\<close> is left
  out: it keeps its shards locked from one section to the next.
\<close>

section \<open>Programs\<close>

datatype 'r prog = Ret 'r | Sec "store \<Rightarrow> 'r prog \<times> store"

primrec seq :: "'q prog \<Rightarrow> ('q \<Rightarrow> 'r prog) \<Rightarrow> 'r prog" where
  "seq (Ret x) g = g x"
| "seq (Sec f) g = Sec (\<lambda>s. map_prod (\<lambda>p. seq p g) (\<lambda>s'. s') (f s))"

definition call :: "(store \<Rightarrow> 'r \<times> store) \<Rightarrow> 'r prog" where
  \<comment> \<open>one section\<close>
  "call f = Sec (\<lambda>s. case f s of (x, s') \<Rightarrow> (Ret x, s'))"

primrec run_alone :: "'r prog \<Rightarrow> store \<Rightarrow> 'r \<times> store" where
  "run_alone (Ret x) = (\<lambda>s. (x, s))"
| "run_alone (Sec f) = (\<lambda>s. case map_prod run_alone (\<lambda>s'. s') (f s) of (h, s') \<Rightarrow> h s')"

lemma alone_seq: "run_alone (seq p g) s = (case run_alone p s of (x, s') \<Rightarrow> run_alone (g x) s')"
proof (induction p arbitrary: s)
  case (Sec f)
  obtain q s1 where f: "f s = (q, s1)" by (metis surj_pair)
  then have "run_alone (seq q g) s1 = (case run_alone q s1 of (x, s') \<Rightarrow> run_alone (g x) s')"
    using Sec [of "(q, s1)" q s1] by (metis rangeI fst_conv fsts.intros)
  then show ?case using f by simp
qed simp

lemma alone_call [simp]: "run_alone (call f) s = f s"
  by (simp add: call_def split: prod.split)

inductive within :: "nat \<Rightarrow> 'r prog \<Rightarrow> bool" where
  \<comment> \<open>a program has returned after at most so many sections, whatever it finds in them\<close>
  returned: "within n (Ret r)"
| at_section: "(\<And>s. within n (fst (f s))) \<Longrightarrow> within (Suc n) (Sec f)"

inductive_cases within_SecE: "within n (Sec f)"

lemma within_mono: "within m p \<Longrightarrow> m \<le> n \<Longrightarrow> within n p"
proof (induction arbitrary: n rule: within.induct)
  case (at_section m f)
  then obtain k where "n = Suc k" "m \<le> k" by (cases n) simp_all
  then show ?case using at_section by (auto intro: within.at_section)
qed (rule within.returned)

lemma within_seq: "within m p \<Longrightarrow> (\<And>x. within n (g x)) \<Longrightarrow> within (m + n) (seq p g)"
proof (induction rule: within.induct)
  case (returned m r)
  then show ?case using within_mono [of n "g r" "m + n"] by simp
next
  case (at_section m f)
  then show ?case by (auto intro!: within.at_section)
qed

lemma within_call: "0 < b \<Longrightarrow> within b (call f)"
  by (cases b) (auto simp: call_def intro!: within.intros split: prod.split)

lemma within_then: "within m p \<Longrightarrow> m \<le> b \<Longrightarrow> (\<And>x. within (b - m) (g x)) \<Longrightarrow> within b (seq p g)"
  using within_seq [of m p "b - m" g] by simp

lemma within_call_then: "0 < b \<Longrightarrow> (\<And>x. within (b - 1) (g x)) \<Longrightarrow> within b (seq (call f) g)"
  by (rule within_then [OF within_call [of 1]]) simp_all

lemmas within_rules = within.returned within_call within_call_then

section \<open>The operations\<close>

definition getScope_task :: "bytestr \<Rightarrow> nat option prog" where
  "getScope_task k = call (\<lambda>s. (getScope s k, s))"

definition getOrCreate_task :: "int \<Rightarrow> bytestr \<Rightarrow> (nat \<times> bool) res prog" where
  \<comment> \<open>the lookup under the read lock; then, under the write lock, the lookup again and the insertion\<close>
  "getOrCreate_task now k =
     (if k = [] then Ret (Inl ScopeNameRequired)
      else seq (getScope_task k) (\<lambda>hit. case hit of
          Some a \<Rightarrow> Ret (Inr (a, False))
        | None \<Rightarrow> call (getOrCreateScopeTrackingCreated now k)))"

definition undo_task :: "bool \<Rightarrow> bytestr \<Rightarrow> nat \<Rightarrow> gerr \<Rightarrow> unit prog" where
  "undo_task created k a e =
     (case e of GoPanic _ \<Rightarrow> Ret ()
      | _ \<Rightarrow> if created then call (\<lambda>s. ((), cleanupIfEmptyAndUnused k a s)) else Ret ())"

definition on_demand_task :: "int \<Rightarrow> bytestr \<Rightarrow> 'a bufop \<Rightarrow> ('a \<times> bool) res prog" where
  \<comment> \<open>a write that makes its scope: the result and whether it made the scope\<close>
  "on_demand_task now k body =
     seq (getOrCreate_task now k) (\<lambda>r. case r of
         Inl e \<Rightarrow> Ret (Inl e)
       | Inr (a, created) \<Rightarrow> seq (call (on_buf a body)) (\<lambda>r. case r of
             Inl e \<Rightarrow> seq (undo_task created k a e) (\<lambda>_. Ret (Inl e))
           | Inr x \<Rightarrow> Ret (Inr (x, created))))"

definition append_task :: "(Item \<Rightarrow> panic option prog) \<Rightarrow> clock \<Rightarrow> Item \<Rightarrow> Item res prog" where
  \<comment> \<open>\<open>appendOne\<close>, with what it emits as an argument\<close>
  "append_task emit clk it =
     seq (call (\<lambda>s. (validateWriteItem it ''/append'' (maxItemBytesFor (score s) (Scope it)), s))) (\<lambda>v. case v of
         Inl e \<Rightarrow> Ret (Inl e)
       | Inr it1 \<Rightarrow> seq (on_demand_task (clk 0) (Scope it1) (appendItem (clk 1) it1)) (\<lambda>r. case r of
             Inl e \<Rightarrow> Ret (Inl e)
           | Inr (result, created) \<Rightarrow> seq (emit result) (\<lambda>p. case p of
                 Some p \<Rightarrow> Ret (Inl (GoPanic p))
               | None \<Rightarrow>
                   if isReservedScope (Scope result)
                   then seq (call (notify (Scope result))) (\<lambda>p. case p of
                       Some p \<Rightarrow> Ret (Inl (GoPanic p)) | None \<Rightarrow> Ret (Inr result))
                   else Ret (Inr result))))"

definition event_task :: "clock \<Rightarrow> writeEvent \<Rightarrow> panic option prog" where
  \<comment> \<open>\<open>emitEvent\<close>: its append to \<open>_events\<close> emits nothing\<close>
  "event_task clk evt =
     seq (call (\<lambda>s. let evt' = (if eventsMode (score s) = EventsModeNotify then evt\<lparr>ev_Payload := None\<rparr> else evt)
                    in case marshal_writeEvent evt' of None \<Rightarrow> (None, dropEvent s) | Some body \<Rightarrow> (Some body, s)))
       (\<lambda>b. case b of
           None \<Rightarrow> Ret None
         | Some body \<Rightarrow>
             seq (append_task (\<lambda>_. Ret None) clk (Item_zero\<lparr>Scope := EventsScopeName, Payload := Some body\<rparr>))
               (\<lambda>r. case r of
                   Inr _ \<Rightarrow> Ret None
                 | Inl (GoPanic p) \<Rightarrow> Ret (Some p)
                 | Inl _ \<Rightarrow> call (\<lambda>s. (None, dropEvent s))))"

definition emit_task :: "bytestr \<Rightarrow> clock \<Rightarrow> writeEvent \<Rightarrow> panic option prog" where
  "emit_task k clk evt =
     seq (call (\<lambda>s. (eventsEnabled s k, s))) (\<lambda>on. if on then event_task clk evt else Ret None)"

definition answer_task :: "'r \<Rightarrow> panic option prog \<Rightarrow> 'r res prog" where
  \<comment> \<open>the value an operation returns once its event is out\<close>
  "answer_task x p = seq p (\<lambda>p. case p of Some p \<Rightarrow> Ret (Inl (GoPanic p)) | None \<Rightarrow> Ret (Inr x))"

definition appendOne_task :: "clock \<Rightarrow> Item \<Rightarrow> Item res prog" where
  "appendOne_task clk it =
     append_task (\<lambda>result. emit_task (Scope result) (later 2 clk) (appendEvent result)) clk it"

definition upsertOne_task :: "clock \<Rightarrow> Item \<Rightarrow> (Item \<times> bool) res prog" where
  "upsertOne_task clk it =
     seq (call (\<lambda>s. (validateUpsertItem it (maxItemBytes (score s)), s))) (\<lambda>v. case v of
         Inl e \<Rightarrow> Ret (Inl e)
       | Inr it1 \<Rightarrow> seq (on_demand_task (clk 0) (Scope it1) (upsertByID (clk 1) it1)) (\<lambda>r. case r of
             Inl e \<Rightarrow> Ret (Inl e)
           | Inr ((result, itemCreated), scopeCreated) \<Rightarrow>
               answer_task (result, itemCreated) (emit_task (Scope result) (later 2 clk)
                 (writeEvent_zero\<lparr>ev_Op := ''upsert'', ev_Scope := Scope result, ev_ID := ID result, ev_Seq := Seq result,
                    ev_Ts := Ts result, ev_Payload := Payload result\<rparr>))))"

definition counterAddOne_task :: "clock \<Rightarrow> bytestr \<Rightarrow> bytestr \<Rightarrow> int \<Rightarrow> (int \<times> bool) res prog" where
  "counterAddOne_task clk k i d =
     seq (call (\<lambda>s. (validateCounterAddRequest \<lparr>car_Scope = k, car_ID = i, car_By = Some d\<rparr> (maxItemBytesFor (score s) k), s)))
       (\<lambda>v. case v of
         Inl e \<Rightarrow> Ret (Inl e)
       | Inr _ \<Rightarrow> seq (on_demand_task (clk 0) k (counterAdd (clk 1) k i d)) (\<lambda>r. case r of
             Inl e \<Rightarrow> Ret (Inl e)
           | Inr ((n, counterCreated), scopeCreated) \<Rightarrow>
               seq (if scopeCreated then call (\<lambda>s. ((), s\<lparr>score := bumpLastWriteTS (clk 2) (score s)\<rparr>)) else Ret ())
                 (\<lambda>_. answer_task (n, counterCreated) (emit_task k (later 3 clk)
                    (writeEvent_zero\<lparr>ev_Op := ''counter_add'', ev_Scope := k, ev_ID := i, ev_By := Some d\<rparr>)))))"

definition edit_task :: "bytestr \<Rightarrow> int bufop \<Rightarrow> panic option prog \<Rightarrow> int res prog" where
  \<comment> \<open>an operation on a scope that is there: the number of items it changed, and its event if there are any\<close>
  "edit_task k body emit =
     seq (getScope_task k) (\<lambda>hit. case hit of
         None \<Rightarrow> Ret (Inr 0)
       | Some a \<Rightarrow> seq (call (on_buf a body)) (\<lambda>r. case r of
             Inl e \<Rightarrow> Ret (Inl e)
           | Inr n \<Rightarrow> if 0 < n then answer_task n emit else Ret (Inr n)))"

definition updateOne_task :: "clock \<Rightarrow> Item \<Rightarrow> int res prog" where
  "updateOne_task clk it =
     seq (call (\<lambda>s. (validateUpdateItem it (maxItemBytes (score s)), s))) (\<lambda>v. case v of
         Inl e \<Rightarrow> Ret (Inl e)
       | Inr it1 \<Rightarrow> edit_task (Scope it1)
           (if ID it1 \<noteq> [] then updateByID (clk 0) (ID it1) (Payload it1) (renderBytes it1)
            else updateBySeq (clk 0) (Seq it1) (Payload it1) (renderBytes it1))
           (emit_task (Scope it1) (later 1 clk)
             (writeEvent_zero\<lparr>ev_Op := ''update'', ev_Scope := Scope it1, ev_ID := ID it1, ev_Seq := Seq it1,
                ev_Payload := Payload it1\<rparr>)))"

definition deleteOne_task :: "clock \<Rightarrow> bytestr \<Rightarrow> bytestr \<Rightarrow> u64 \<Rightarrow> int res prog" where
  "deleteOne_task clk k i sq =
     (case validateDeleteRequest \<lparr>dr_Scope = k, dr_ID = i, dr_Seq = sq\<rparr> of
        Inl e \<Rightarrow> Ret (Inl e)
      | Inr _ \<Rightarrow> edit_task k (if i \<noteq> [] then deleteByID (clk 0) i else deleteBySeq (clk 0) sq)
          (emit_task k (later 1 clk)
             (writeEvent_zero\<lparr>ev_Op := ''delete'', ev_Scope := k, ev_ID := i, ev_Seq := sq\<rparr>)))"

definition deleteUpTo_task :: "clock \<Rightarrow> bytestr \<Rightarrow> u64 \<Rightarrow> int res prog" where
  "deleteUpTo_task clk k maxSeq =
     (case validateDeleteUpToRequest \<lparr>dur_Scope = k, dur_MaxSeq = maxSeq\<rparr> of
        Inl e \<Rightarrow> Ret (Inl e)
      | Inr _ \<Rightarrow> edit_task k (deleteUpToSeq (clk 0) maxSeq)
          (emit_task k (later 1 clk)
             (writeEvent_zero\<lparr>ev_Op := ''delete_up_to'', ev_Scope := k, ev_MaxSeq := maxSeq\<rparr>)))"

definition removeScope :: "int \<Rightarrow> bytestr \<Rightarrow> store \<Rightarrow> (int \<times> bool) \<times> store" where
  \<comment> \<open>the locked part of \<open>deleteScope\<close>\<close>
  "removeScope now k s =
     (case getScope s k of
        None \<Rightarrow> ((0, False), s)
      | Some a \<Rightarrow>
          (let b = bufs s ! a; itemCount = int (length (items b)) in
           ((itemCount, True), unlinkScope k a
              (s\<lparr>score := bumpLastWriteTS now (add_scopeCount (- 1) (add_totalItems (- itemCount)
                 (add_totalBytes (- (bytes b + scopeBufferOverhead)) (score s))))\<rparr>))))"

definition deleteScope_task :: "clock \<Rightarrow> bytestr \<Rightarrow> (int \<times> bool) res prog" where
  "deleteScope_task clk k =
     (case validateDeleteScopeRequest \<lparr>dsr_Scope = k\<rparr> of
        Inl e \<Rightarrow> Ret (Inl e)
      | Inr _ \<Rightarrow> seq (call (removeScope (clk 0) k)) (\<lambda>(n, hit).
          if hit then answer_task (n, True) (emit_task k (later 1 (later 1 clk))
             (writeEvent_zero\<lparr>ev_Op := ''delete_scope'', ev_Scope := k, ev_Ts := later 1 clk 0\<rparr>))
          else Ret (Inr (n, False))))"

definition page_task :: "int \<Rightarrow> bytestr \<Rightarrow> (core \<Rightarrow> scopeBuffer \<Rightarrow> Item list \<times> bool) \<Rightarrow> (Item list \<times> bool \<times> bool) prog" where
  \<comment> \<open>\<open>head\<close> and \<open>tail\<close>\<close>
  "page_task now k window =
     seq (getScope_task k) (\<lambda>hit. case hit of
         None \<Rightarrow> Ret ([], False, False)
       | Some a \<Rightarrow> seq (call (\<lambda>s. (window (score s) (bufs s ! a), s))) (\<lambda>(its, truncated).
             if its \<noteq> [] then seq (call (\<lambda>s. ((), touch now a s))) (\<lambda>_. Ret (its, truncated, True))
             else Ret (its, truncated, True)))"

definition get_task :: "int \<Rightarrow> bytestr \<Rightarrow> bytestr \<Rightarrow> u64 \<Rightarrow> Item option prog" where
  "get_task now k i sq =
     seq (getScope_task k) (\<lambda>hit. case hit of
         None \<Rightarrow> Ret None
       | Some a \<Rightarrow>
           seq (call (\<lambda>s. (if i \<noteq> [] then getByID i (score s) (bufs s ! a) else getBySeq sq (score s) (bufs s ! a), s)))
             (\<lambda>x. case x of
                 None \<Rightarrow> Ret None
               | Some it \<Rightarrow> seq (call (\<lambda>s. ((), touch now a s))) (\<lambda>_. Ret (Some it))))"

section \<open>Requests\<close>

datatype reply =
    Stored Item
  | Upserted Item bool
  | Added int bool
  | Changed int
  | Removed int bool
  | Wiped int int int
  | Rebuilt int int
  | Page "Item list" bool bool
  | Got "Item option"
  | Rendered "raw option"
  | Channel nat
  | Released

definition replying :: "('a \<Rightarrow> reply) \<Rightarrow> 'a res prog \<Rightarrow> reply res prog" where
  "replying h p = seq p (\<lambda>r. Ret (map_sum (\<lambda>e. e) h r))"

fun rendered :: "Item option \<Rightarrow> raw option" where
  "rendered None = None"
| "rendered (Some it) = Some (if renderBytes it \<noteq> None then renderBytes it else Payload it)"

fun task_of :: "clock \<Rightarrow> request \<Rightarrow> reply res prog option" where
  "task_of clk (Append it) = Some (replying Stored (appendOne_task clk it))"
| "task_of clk (Upsert it) = Some (replying (\<lambda>(x, c). Upserted x c) (upsertOne_task clk it))"
| "task_of clk (Update it) = Some (replying Changed (updateOne_task clk it))"
| "task_of clk (CounterAdd k i d) = Some (replying (\<lambda>(n, c). Added n c) (counterAddOne_task clk k i d))"
| "task_of clk (Delete k i sq) = Some (replying Changed (deleteOne_task clk k i sq))"
| "task_of clk (DeleteUpTo k sq) = Some (replying Changed (deleteUpTo_task clk k sq))"
| "task_of clk (DeleteScope k) = Some (replying (\<lambda>(n, c). Removed n c) (deleteScope_task clk k))"
| "task_of clk (Rebuild g) = Some (replying (\<lambda>(n, j). Rebuilt n j) (call (rebuildAll clk g)))"
| "task_of clk Wipe = Some (seq (call (wipe clk)) (\<lambda>(a, b, c). Ret (Inr (Wiped a b c))))"
| "task_of clk (Head k sq l) = Some (seq (page_task (clk 0) k (sinceSeq sq l)) (\<lambda>(a, b, c). Ret (Inr (Page a b c))))"
| "task_of clk (Tail k l off) = Some (seq (page_task (clk 0) k (tailOffset l off)) (\<lambda>(a, b, c). Ret (Inr (Page a b c))))"
| "task_of clk (Get k i sq) = Some (seq (get_task (clk 0) k i sq) (\<lambda>x. Ret (Inr (Got x))))"
| "task_of clk (Render k i sq) = Some (seq (get_task (clk 0) k i sq) (\<lambda>x. Ret (Inr (Rendered (rendered x)))))"
| "task_of clk (SubscribeTo k) = Some (replying Channel (call (store_Subscribe k)))"
| "task_of clk (Unsubscribe k) =
     Some (seq (call (store_unsubscribe k)) (\<lambda>p. case p of Some p \<Rightarrow> Ret (Inl (GoPanic p)) | None \<Rightarrow> Ret (Inr Released)))"
| "task_of clk (Warm g) = None"
| "task_of clk (EnsureScope k) = None"

section \<open>Alone\<close>

text \<open>
  A request that nothing runs beside is the operation of \<open>Store\<close>: the sections in their order do what the
  operation does, and the second lookup finds what the first found.
\<close>

lemma alone_getOrCreate: "run_alone (getOrCreate_task now k) s = getOrCreateScopeTrackingCreated now k s"
  by (simp add: getOrCreate_task_def getScope_task_def alone_seq getOrCreateScopeTrackingCreated_def split: option.split)

lemma alone_undo: "run_alone (undo_task created k a e) s = ((), undoCreate created k a e s)"
  by (simp add: undo_task_def undoCreate_def split: gerr.split)

lemma alone_on_demand:
  "run_alone (on_demand_task now k body) s =
     (case getOrCreateScopeTrackingCreated now k s of
        (Inl e, s1) \<Rightarrow> (Inl e, s1)
      | (Inr (a, created), s1) \<Rightarrow>
          (case on_buf a body s1 of
             (Inl e, s2) \<Rightarrow> (Inl e, undoCreate created k a e s2)
           | (Inr x, s2) \<Rightarrow> (Inr (x, created), s2)))"
  by (simp add: on_demand_task_def alone_seq alone_getOrCreate alone_undo split: prod.split sum.split)

lemma alone_append:
  assumes "\<And>x s. commitAppend clk it s0 = (Inr x, s) \<Longrightarrow> run_alone (emit x) s =
     (if eventsEnabled s (Scope x) then emitWith (appendOne (later 2 clk)) (appendEvent x) s else (None, s))"
  shows "run_alone (append_task emit clk it) s0 = appendOne clk it s0"
  unfolding append_task_def appendOne_unfold [of clk it s0]
  using assms
  by (simp add: alone_seq alone_on_demand commitAppend_def split: prod.split sum.split option.split)

lemma alone_event: "run_alone (event_task clk evt) s = emitWith (appendOne clk) evt s"
proof -
  have ev: "run_alone (append_task (\<lambda>_. Ret None) clk (Item_zero\<lparr>Scope := EventsScopeName, Payload := Some b\<rparr>)) s =
      appendOne clk (Item_zero\<lparr>Scope := EventsScopeName, Payload := Some b\<rparr>) s" for b
  proof (rule alone_append)
    fix x t assume "commitAppend clk (Item_zero\<lparr>Scope := EventsScopeName, Payload := Some b\<rparr>) s = (Inr x, t)"
    then have "Scope x = EventsScopeName"
      by (auto simp: commitAppend_def split: sum.splits prod.splits dest!: on_buf_append_Scope validateWriteItem_Scope)
    then show "run_alone (Ret None) t = (if eventsEnabled t (Scope x) then emitWith (appendOne (later 2 clk)) (appendEvent x) t else (None, t))"
      by (simp add: eventsEnabled_def)
  qed
  show ?thesis
    by (simp add: event_task_def emitWith_def alone_seq ev Let_def split: option.split prod.split sum.split gerr.split)
qed

lemma alone_emit: "run_alone (emit_task k clk evt) s = emitFor k clk evt s"
  by (simp add: emit_task_def emitFor_def emitEvent_def alone_seq alone_event)

lemma alone_answer: "run_alone (answer_task x p) s = returning x (run_alone p s)"
  by (simp add: answer_task_def returning_def alone_seq split: prod.split option.split)

lemma alone_edit:
  "run_alone (edit_task k body (emit_task k clk evt)) s =
     (case getScope s k of
        None \<Rightarrow> (Inr 0, s)
      | Some a \<Rightarrow> (case on_buf a body s of
            (Inl e, s1) \<Rightarrow> (Inl e, s1)
          | (Inr n, s1) \<Rightarrow> if 0 < n then returning n (emitFor k clk evt s1) else (Inr n, s1)))"
  by (simp add: edit_task_def getScope_task_def alone_seq alone_answer alone_emit split: option.split prod.split sum.split)

lemmas alone_simps = alone_seq alone_on_demand alone_edit alone_answer alone_emit

lemma alone_appendOne: "run_alone (appendOne_task clk it) s = appendOne clk it s"
  unfolding appendOne_task_def by (rule alone_append) (simp add: alone_emit emitFor_def emitEvent_def)

lemma alone_upsertOne: "run_alone (upsertOne_task clk it) s = upsertOne clk it s"
  by (simp add: upsertOne_task_def upsertOne_def emitUpsertEvent_def alone_simps split: sum.split prod.split)

lemma alone_counterAddOne: "run_alone (counterAddOne_task clk k i d) s = counterAddOne clk k i d s"
  by (simp add: counterAddOne_task_def counterAddOne_def emitCounterAddEvent_def alone_simps Let_def split: sum.split prod.split)

lemma alone_updateOne: "run_alone (updateOne_task clk it) s = updateOne clk it s"
  by (simp add: updateOne_task_def updateOne_def emitUpdateEvent_def alone_simps split: sum.split prod.split option.split)

lemma alone_deleteOne: "run_alone (deleteOne_task clk k i sq) s = deleteOne clk k i sq s"
  by (simp add: deleteOne_task_def deleteOne_def emitDeleteEvent_def alone_simps split: sum.split prod.split option.split)

lemma alone_deleteUpTo: "run_alone (deleteUpTo_task clk k sq) s = deleteUpTo clk k sq s"
  by (simp add: deleteUpTo_task_def deleteUpTo_def emitDeleteUpToEvent_def alone_simps split: sum.split prod.split option.split)

lemma alone_deleteScope: "run_alone (deleteScope_task clk k) s = deleteScope clk k s"
  by (simp add: deleteScope_task_def deleteScope_def removeScope_def emitDeleteScopeEvent_def alone_simps Let_def
      split: sum.split prod.split option.split)

lemma alone_head: "run_alone (page_task now k (sinceSeq sq l)) s = head now k sq l s"
  by (simp add: page_task_def getScope_task_def head_def alone_seq split: option.split prod.split)

lemma alone_tail: "run_alone (page_task now k (tailOffset l off)) s = tail now k l off s"
  by (simp add: page_task_def getScope_task_def tail_def alone_seq split: option.split prod.split)

lemma alone_get: "run_alone (get_task now k i sq) s = store_get now k i sq s"
  by (simp add: get_task_def getScope_task_def store_get_def alone_seq split: option.split prod.split)

lemma alone_replying: "run_alone (replying h p) s = (case run_alone p s of (r, s') \<Rightarrow> (map_sum (\<lambda>e. e) h r, s'))"
  by (simp add: replying_def alone_seq)

lemmas alone_ops = alone_appendOne alone_upsertOne alone_counterAddOne alone_updateOne alone_deleteOne alone_deleteUpTo
  alone_deleteScope alone_head alone_tail alone_get

lemma render_rendered: "render now k i sq s = (case store_get now k i sq s of (x, s') \<Rightarrow> (rendered x, s'))"
  by (simp add: render_def split: prod.split option.split)

fun reply_to :: "clock \<Rightarrow> request \<Rightarrow> store \<Rightarrow> reply res" where
  \<comment> \<open>what the operations of the store answer, run one at a time\<close>
  "reply_to clk (Append it) s = map_sum (\<lambda>e. e) Stored (fst (appendOne clk it s))"
| "reply_to clk (Upsert it) s = map_sum (\<lambda>e. e) (\<lambda>(x, c). Upserted x c) (fst (upsertOne clk it s))"
| "reply_to clk (Update it) s = map_sum (\<lambda>e. e) Changed (fst (updateOne clk it s))"
| "reply_to clk (CounterAdd k i d) s = map_sum (\<lambda>e. e) (\<lambda>(n, c). Added n c) (fst (counterAddOne clk k i d s))"
| "reply_to clk (Delete k i sq) s = map_sum (\<lambda>e. e) Changed (fst (deleteOne clk k i sq s))"
| "reply_to clk (DeleteUpTo k sq) s = map_sum (\<lambda>e. e) Changed (fst (deleteUpTo clk k sq s))"
| "reply_to clk (DeleteScope k) s = map_sum (\<lambda>e. e) (\<lambda>(n, c). Removed n c) (fst (deleteScope clk k s))"
| "reply_to clk (Rebuild g) s = map_sum (\<lambda>e. e) (\<lambda>(n, j). Rebuilt n j) (fst (rebuildAll clk g s))"
| "reply_to clk Wipe s = (case wipe clk s of ((a, b, c), _) \<Rightarrow> Inr (Wiped a b c))"
| "reply_to clk (Head k sq l) s = (case head (clk 0) k sq l s of ((a, b, c), _) \<Rightarrow> Inr (Page a b c))"
| "reply_to clk (Tail k l off) s = (case tail (clk 0) k l off s of ((a, b, c), _) \<Rightarrow> Inr (Page a b c))"
| "reply_to clk (Get k i sq) s = Inr (Got (fst (store_get (clk 0) k i sq s)))"
| "reply_to clk (Render k i sq) s = Inr (Rendered (fst (render (clk 0) k i sq s)))"
| "reply_to clk (SubscribeTo k) s = map_sum (\<lambda>e. e) Channel (fst (store_Subscribe k s))"
| "reply_to clk (Unsubscribe k) s = (case fst (store_unsubscribe k s) of Some p \<Rightarrow> Inl (GoPanic p) | None \<Rightarrow> Inr Released)"
| "reply_to clk _ s = Inr Released"

lemma alone_serve:
  assumes "task_of clk rq = Some p"
  shows "run_alone p s = (reply_to clk rq s, serve clk rq s)"
  using assms
  by (cases rq) (auto simp: alone_replying alone_seq alone_ops render_rendered split: prod.splits option.splits)

section \<open>How many sections a request has\<close>

lemma within_getOrCreate: "within 2 (getOrCreate_task now k)"
  unfolding getOrCreate_task_def getScope_task_def by (auto intro!: within_rules split: option.split)

lemma within_on_demand: "within 4 (on_demand_task now k body)"
  unfolding on_demand_task_def undo_task_def
  by (rule within_then [OF within_getOrCreate])
    (auto intro!: within_rules within_then [of 0 "Ret ()"] split: sum.split gerr.split)

lemma within_append:
  assumes "\<And>x. within n (emit x)"
  shows "within (n + 6) (append_task emit clk it)"
  unfolding append_task_def
  by (auto intro!: within_rules within_then [OF within_on_demand] within_then [OF assms] split: option.split sum.split)

lemma within_emit: "within 9 (emit_task k clk evt)"
proof -
  have app: "within 6 (append_task (\<lambda>_. Ret None) clk it)" for it
    using within_append [of 0 "\<lambda>_. Ret None" clk it] by (simp add: within.returned)
  have "within 8 (event_task clk evt)"
    unfolding event_task_def
    by (auto intro!: within_rules within_then [OF app] split: option.split sum.split gerr.split)
  then show ?thesis unfolding emit_task_def by (auto intro!: within_rules)
qed

lemma within_answer: "within 9 (answer_task x (emit_task k clk evt))"
  unfolding answer_task_def by (auto intro!: within_rules within_then [OF within_emit] split: option.split)

lemma within_edit: "within 11 (edit_task k body (emit_task j clk evt))"
  unfolding edit_task_def getScope_task_def
  by (auto intro!: within_rules within_mono [OF within_answer] split: option.split sum.split)

lemma within_ops:
  "within 15 (appendOne_task clk it)" "within 14 (upsertOne_task clk it)" "within 15 (counterAddOne_task clk k i n)"
  "within 12 (updateOne_task clk it)" "within 11 (deleteOne_task clk k i sq)" "within 11 (deleteUpTo_task clk k sq)"
  "within 10 (deleteScope_task clk k)" "within 3 (page_task now k f)" "within 3 (get_task now k i sq)"
proof -
  show "within 15 (appendOne_task clk it)"
    unfolding appendOne_task_def using within_append [of 9 "\<lambda>x. emit_task (Scope x) (later 2 clk) (appendEvent x)" clk it, OF within_emit] by simp
  show "within 14 (upsertOne_task clk it)" unfolding upsertOne_task_def
    by (auto intro!: within_rules within_then [OF within_on_demand] within_mono [OF within_answer] split: sum.split)
  show "within 15 (counterAddOne_task clk k i n)" unfolding counterAddOne_task_def
    by (auto intro!: within_rules within_then [OF within_on_demand] within_mono [OF within_answer] split: sum.split)
  show "within 12 (updateOne_task clk it)" unfolding updateOne_task_def
    by (auto intro!: within_rules within_edit within_mono [OF within_edit] split: sum.split)
  show "within 11 (deleteOne_task clk k i sq)" unfolding deleteOne_task_def
    by (auto intro!: within_rules within_edit split: sum.split)
  show "within 11 (deleteUpTo_task clk k sq)" unfolding deleteUpTo_task_def
    by (auto intro!: within_rules within_edit split: sum.split)
  show "within 10 (deleteScope_task clk k)" unfolding deleteScope_task_def
    by (auto intro!: within_rules within_answer within_mono [OF within_answer] split: sum.split prod.split)
  show "within 3 (page_task now k f)" "within 3 (get_task now k i sq)"
    unfolding page_task_def get_task_def getScope_task_def
    by (auto intro!: within_rules split: option.split prod.split)
qed

lemma within_task:
  assumes "task_of clk rq = Some p"
  shows "within 15 p"
proof -
  have r: "within 15 (replying h q)" if "within 15 q" for h and q :: "'x res prog"
    unfolding replying_def by (rule within_then [OF that]) (auto intro: within.returned)
  note ops = within_ops [THEN within_mono [where n = 15]]
  show ?thesis using assms
    by (cases rq) (auto intro!: r ops within_rules within_then [OF within_ops(8)] within_then [OF within_ops(9)]
      split: prod.split option.split)
qed

end
