(* ===== verification/CounterSpec.thy ===== *)
theory CounterSpec
  imports StoreSpec
begin

text \<open>
  \<open>counterAddOne\<close> against addition on the integers a client reads: the value at one id of one scope moves,
  the values at the scope's other ids and every other scope stay. The event of the increment is quiet.
\<close>

section \<open>Cells outside a buffer stay\<close>

definition same_cells_outside :: "nat set \<Rightarrow> core \<Rightarrow> core \<Rightarrow> bool" where
  "same_cells_outside R c c' \<longleftrightarrow> (\<forall>a < length (cells c). a \<notin> R \<longrightarrow> cells c' ! a = cells c ! a)"

lemma reserve_same_cells:
  "cells (snd (reserveFor d c b)) = cells c" "cells (snd (snd (reservePayloadDeltaLocked m n c b))) = cells c"
  using reserveFor_cells [of d c b] reservePayloadDelta_cells [of m n c b] by (metis prod.collapse)+

lemma promote_same_cells: "promoteLocked now x i d c b = (r, c', b') \<Longrightarrow> same_cells_outside R c c'"
  by (auto simp: promoteLocked_def same_cells_outside_def newCell_def Let_def nth_append
      dest!: reservePayloadDelta_cells split: sum.splits if_splits option.splits prod.splits)

lemma create_same_cells: "createCounterLocked now k i d c b = (r, c', b') \<Longrightarrow> same_cells_outside R c c'"
  by (auto simp: createCounterLocked_def same_cells_outside_def newCell_def Let_def nth_append add_totalItems_def
      dest!: reserveFor_cells split: if_splits option.splits prod.splits)

lemma addToCell_same_cells: "addToCell now d a c = (r, c') \<Longrightarrow> a \<in> R \<Longrightarrow> same_cells_outside R c c'"
  unfolding same_cells_outside_def
  by (auto simp: addToCell_def split: sum.splits prod.splits) (metis nth_list_update_neq)

lemma same_cells_refl [simp]: "same_cells_outside R c c"
  by (simp add: same_cells_outside_def)

lemma counterAdd_same_cells:
  assumes inv: "buf_inv b" and run: "counterAdd now k i d c b = (r, c', b')"
  shows "same_cells_outside (set (cell_refs (items b))) c c'"
proof -
  have ref: "a \<in> set (cell_refs (items b))" if "gm_get (byID b) i = Some x" "counter x = Some a" for x a
    using byID_hit(1) [OF inv that(1)] that(2) by (auto simp: cell_refs_set)
  show ?thesis
    using run ref promote_same_cells create_same_cells addToCell_same_cells
    by (auto simp: counterAdd_def counterAddSlow_def split: if_splits option.splits prod.splits)
qed

section \<open>Other scopes\<close>

lemma other_view:
  assumes inv: "store_inv s" and look: "getScope s k = Some a" and jk: "j \<noteq> k"
    and cells: "same_cells_outside (set (cell_refs (items (bufs s ! a)))) (score s) c'"
  shows "view (s\<lparr>score := c', bufs := (bufs s)[a := b']\<rparr>) j = view s j"
proof (cases "getScope s j")
  case None
  then show ?thesis by (simp add: view_def getScope_def)
next
  case (Some x)
  have mem: "(j, x) \<in> set (linked s)" "(k, a) \<in> set (linked s)" using getScope_linked [OF inv] Some look by auto
  have ok: "bufs_ok (score s) (set (linked s)) (bufs s)" by (rule store_invD(6) [OF inv])
  have "inj_on snd (set (linked s))" using ok by (simp add: bufs_ok_def)
  from inj_onD [OF this _ mem] have xa: "x \<noteq> a" using jk by auto
  have sep: "set (cell_refs (items (bufs s ! x))) \<inter> set (cell_refs (items (bufs s ! a))) = {}"
    using ok mem jk unfolding bufs_ok_def by fastforce
  have "materialiseCounter c' it = materialiseCounter (score s) it" if it: "it \<in> set (items (bufs s ! x))" for it
  proof (cases "counter it")
    case Some': (Some y)
    have "y \<in> set (cell_refs (items (bufs s ! x)))" using it Some' by (auto simp: cell_refs_set)
    moreover have "y < length (cells (score s))"
      using linked_bufD(5) [OF inv Some] it Some' by (auto simp: buf_ok_def item_ok_def)
    ultimately have "cells c' ! y = cells (score s) ! y" using cells sep by (auto simp: same_cells_outside_def)
    then show ?thesis using Some' by (simp add: materialiseCounter_def)
  qed simp
  then show ?thesis using Some xa by (auto simp: view_def getScope_def buf_view_def)
qed

section \<open>The value a client reads\<close>

definition store_counter :: "store \<Rightarrow> bytestr \<Rightarrow> bytestr \<Rightarrow> cview" where
  "store_counter s k i =
     (case getScope s k of None \<Rightarrow> Absent | Some a \<Rightarrow> counter_value (score s) (bufs s ! a) i)"

lemma counter_value_cong: "cells c' = cells c \<Longrightarrow> counter_value c' b i = counter_value c b i"
  by (simp add: counter_value_def split: option.splits)

lemma quiet_counter:
  assumes "store_inv s" "quiet s s'" "k \<noteq> EventsScopeName"
  shows "store_counter s' k i = store_counter s k i"
proof (cases "getScope s k")
  case None
  then show ?thesis using quiet_getScope [OF assms(2)] by (simp add: store_counter_def)
next
  case (Some a)
  have "cells (score s') = cells (score s)" using assms(2) by (simp add: quiet_def)
  from counter_value_cong [OF this] show ?thesis
    using quiet_getScope [OF assms(2)] Some quiet_buf [OF assms(1,2) Some assms(3)] by (simp add: store_counter_def)
qed

lemma created_counter:
  assumes g: "good m s" and run: "getOrCreateScopeTrackingCreated now k s = (Inr (a, created), s1)"
  shows "store_counter s1 k i = store_counter s k i"
proof (cases created)
  case False
  then show ?thesis using getOrCreate_Inr(6) [OF g run] by simp
next
  case True
  note C = getOrCreate_Inr [OF g run]
  have "store_counter s1 k i = Absent"
    using C(2) C(8) [OF True]
    by (auto simp: store_counter_def counter_value_def linkScope_def store_newscopeBuffer_def newscopeBuffer_def nth_append gm_get_def)
  then show ?thesis using C(7) True by (simp add: store_counter_def)
qed

lemma counter_at:
  assumes g: "good m s" and room: "room m" and look: "getScope s k = Some a" and adm: "counter_admissible k i d (score s) k"
    and ob: "on_buf a (counterAdd now k i d) s = (Inr (v, created), s2)"
  shows "\<bar>v\<bar> \<le> MaxCounterValue"
    "case store_counter s k i of Absent \<Rightarrow> created \<and> v = d | Value old \<Rightarrow> \<not> created \<and> v = old + d | NotACounter _ \<Rightarrow> False"
    "store_counter s2 k i = Value v" "j \<noteq> i \<Longrightarrow> store_counter s2 k j = store_counter s k j"
    "l \<noteq> k \<Longrightarrow> view s2 l = view s l"
proof -
  obtain c' b' where op: "counterAdd now k i d (score s) (bufs s ! a) = (Inr (v, created), c', b')"
    "s2 = s\<lparr>score := c', bufs := (bufs s)[a := b']\<rparr>"
    using ob by (auto simp: on_buf_def split: prod.splits)
  have rdy: "ready (score s) k (bufs s ! a)"
    using linked_ready [OF goodD(1) [OF g] look goodD(2) [OF g]] room by (simp add: room_def)
  have ok: "counter_ok d i (score s) k (bufs s ! a) (Inr (v, created), c', b')"
    using counterAdd_refines [OF rdy adm, of now] op(1) by simp
  then have post: "counter_post d i (score s) k (bufs s ! a) v c' b'" "\<bar>v\<bar> \<le> MaxCounterValue" by (simp_all add: counter_ok_def)
  have "a < length (bufs s)" using linked_bufD(1) [OF goodD(1) [OF g] look] .
  then have c2: "store_counter s2 k x = counter_value c' b' x" and c0: "store_counter s k x = counter_value (score s) (bufs s ! a) x" for x
    using look by (simp_all add: store_counter_def getScope_def op(2))
  show "\<bar>v\<bar> \<le> MaxCounterValue" by (rule post(2))
  show "case store_counter s k i of Absent \<Rightarrow> created \<and> v = d | Value old \<Rightarrow> \<not> created \<and> v = old + d | NotACounter _ \<Rightarrow> False"
    using ok c0 by (simp add: counter_ok_def)
  show "store_counter s2 k i = Value v" "j \<noteq> i \<Longrightarrow> store_counter s2 k j = store_counter s k j"
    using post(1) c2 c0 by (simp_all add: counter_post_def)
  show "view s2 l = view s l" if "l \<noteq> k" unfolding op(2)
    by (rule other_view [OF goodD(1) [OF g] look that counterAdd_same_cells [OF readyD(5) [OF rdy] op(1)]])
qed

lemma counter_request_admissible:
  assumes "validateCounterAddRequest \<lparr>car_Scope = k, car_ID = i, car_By = Some d\<rparr> (maxItemBytesFor c k) = Inr n"
    "0 < maxItemBytes c" "core_config c' = core_config c"
  shows "counter_admissible k i d c' k" "\<not> isReservedScope k"
  using assms core_config_eqD [OF assms(3)]
  by (auto simp: validateCounterAddRequest_Inr counter_admissible_def maxItemBytesFor_def isReservedScope_iff)

lemma counterAdd_view:
  assumes g: "good m s" and room: "room (m + 1)" and run: "counterAddOne clk k i d s = (Inr (v, created), s')"
  shows "\<bar>v\<bar> \<le> MaxCounterValue"
    "case store_counter s k i of Absent \<Rightarrow> created \<and> v = d | Value old \<Rightarrow> \<not> created \<and> v = old + d | NotACounter _ \<Rightarrow> False"
    "store_counter s' k i = Value v" "j \<noteq> i \<Longrightarrow> store_counter s' k j = store_counter s k j"
    "l \<noteq> k \<Longrightarrow> l \<noteq> EventsScopeName \<Longrightarrow> view s' l = view s l"
proof -
  have room': "room m" using room by (rule room_less) simp
  have cfg: "0 < maxItemBytes (score s)" using store_invD(3) [OF goodD(1) [OF g]] by (simp add: config_ok_def)
  obtain n a sc s1 s2 where st:
    "validateCounterAddRequest \<lparr>car_Scope = k, car_ID = i, car_By = Some d\<rparr> (maxItemBytesFor (score s) k) = Inr n"
    "getOrCreateScopeTrackingCreated (clk 0) k s = (Inr (a, sc), s1)"
    "on_buf a (counterAdd (clk 1) k i d) s1 = (Inr (v, created), s2)"
    "returning (v, created) (emitCounterAddEvent (later 3 clk) k i d
       (if sc then s2\<lparr>score := bumpLastWriteTS (clk 2) (score s2)\<rparr> else s2)) = (Inr (v, created), s')"
    using run
    by (auto simp: counterAddOne_def Let_def returning_def split: sum.splits prod.splits option.splits)
  note adm = counter_request_admissible [OF st(1) cfg]
  have ke: "k \<noteq> EventsScopeName" using adm(2) [OF refl] by (auto simp: isReservedScope_iff)
  note C = getOrCreate_Inr [OF g st(2)]
  note R = counter_op.create_and_run [OF g room' st(2), of "(clk 1, k, i, d)", unfolded prod.case, OF adm(1) st(3)]
  note A = counter_at [OF C(1) room' C(2) adm(1) [OF C(3)] st(3)] and old = created_counter [OF g st(2)]
  let ?s3 = "if sc then s2\<lparr>score := bumpLastWriteTS (clk 2) (score s2)\<rparr> else s2"
  have g3: "good (m + 1) ?s3" using R(1) bump_inv [of s2 "clk 2"] by (auto simp: good_def seqs_below_def)
  have q: "quiet ?s3 s'" using returning_quiet [OF g3 room st(4) [unfolded emit_defs]] .
  have same: "store_counter ?s3 k x = store_counter s2 k x" "view ?s3 = view s2" for x
    using score_view [of "bumpLastWriteTS (clk 2) (score s2)" s2] counter_value_cong [of "bumpLastWriteTS (clk 2) (score s2)" "score s2"]
    by (simp_all add: store_counter_def getScope_def split: option.split)
  have after: "store_counter s' k x = store_counter s2 k x" for x using quiet_counter [OF goodD(1) [OF g3] q ke] same(1) by simp
  show "\<bar>v\<bar> \<le> MaxCounterValue" by (rule A(1))
  show "case store_counter s k i of Absent \<Rightarrow> created \<and> v = d | Value old \<Rightarrow> \<not> created \<and> v = old + d | NotACounter _ \<Rightarrow> False"
    using A(2) old by simp
  show "store_counter s' k i = Value v" "j \<noteq> i \<Longrightarrow> store_counter s' k j = store_counter s k j"
    using A(3,4) after old by simp_all
  show "view s' l = view s l" if "l \<noteq> k" "l \<noteq> EventsScopeName"
  proof -
    have "view s' l = view s2 l" using quiet_view [OF goodD(1) [OF g3] q] that(2) same(2) by (simp add: agree_def)
    also have "\<dots> = view s1 l" using A(5) that(1) by blast
    also have "\<dots> = view s l" using created_view(1) [OF g st(2)] that(1) by simp
    finally show ?thesis .
  qed
qed

end
