(* ===== verification/Interleave.thy ===== *)
theory Interleave
  imports Sections CounterSpec
begin

text \<open>
  Requests beside each other. \<open>lin\<close> says of a program that each of its sections keeps the store in order
  whatever ran before it, that one of them takes effect and the others show nothing, and what holds when
  it returns; what others may do in between is \<open>evolves\<close>. Programs for which it holds can be run in any
  interleaving (\<open>runs_explained\<close>). The rest of the theory proves it of every request.
\<close>

section \<open>What others may do\<close>

definition evolves :: "store \<Rightarrow> store \<Rightarrow> bool" where
  \<comment> \<open>buffers are only added, one that was unlinked is not linked again, nor under another name\<close>
  "evolves s s' \<longleftrightarrow> length (bufs s) \<le> length (bufs s') \<and> core_config (score s') = core_config (score s) \<and>
     (\<forall>k a. a < length (bufs s) \<longrightarrow> getScope s' k = Some a \<longrightarrow> getScope s k = Some a)"

lemma evolves_refl [simp]: "evolves s s"
  by (simp add: evolves_def)

lemma evolves_trans: "evolves s t \<Longrightarrow> evolves t u \<Longrightarrow> evolves s u"
  unfolding evolves_def by (metis le_trans order_less_le_trans)

lemma evolves_config: "evolves s s' \<Longrightarrow> core_config (score s') = core_config (score s)"
  by (simp add: evolves_def)

lemma evolves_stays: "stays s s' \<Longrightarrow> length (bufs s') = length (bufs s) \<Longrightarrow> evolves s s'"
  by (simp add: evolves_def stays_def getScope_def)

definition holds :: "bytestr \<Rightarrow> nat \<Rightarrow> store \<Rightarrow> bool" where
  \<comment> \<open>a buffer pointer once found under a name: still linked there, or nowhere\<close>
  "holds k a s \<longleftrightarrow> a < length (bufs s) \<and> (\<forall>j. getScope s j = Some a \<longrightarrow> j = k)"

lemma holds_evolves: "holds k a s \<Longrightarrow> evolves s s' \<Longrightarrow> holds k a s'"
  by (auto simp: holds_def evolves_def)

lemma good_distinct:
  assumes "good m s" "getScope s k = Some a" "getScope s j = Some a"
  shows "j = k"
proof -
  have "inj_on snd (set (linked s))" using store_invD(6) [OF goodD(1) [OF assms(1)]] by (simp add: bufs_ok_def)
  moreover have "(k, a) \<in> set (linked s)" "(j, a) \<in> set (linked s)"
    using getScope_linked [OF goodD(1) [OF assms(1)]] assms(2,3) by auto
  ultimately show ?thesis using inj_onD [of snd "set (linked s)" "(j, a)" "(k, a)"] by simp
qed

lemma holds_link: "good m s \<Longrightarrow> getScope s k = Some a \<Longrightarrow> holds k a s"
  using linked_bufD(1) [OF goodD(1)] good_distinct by (auto simp: holds_def)

lemma holds_cases:
  assumes "good m s" "holds k a s"
  obtains "getScope s k = Some a"
    | "detached (bufs s ! a)" "\<not> attached (bufs s ! a)" "a \<notin> snd ` set (linked s)" "\<And>j. getScope s j \<noteq> Some a"
proof (cases "a \<in> snd ` set (linked s)")
  case True
  then obtain j where "(j, a) \<in> set (linked s)" by force
  then have "getScope s j = Some a" using getScope_linked [OF goodD(1) [OF assms(1)]] by simp
  then show ?thesis using assms(2) that(1) by (auto simp: holds_def)
next
  case False
  moreover have "detached (bufs s ! a)" "\<not> attached (bufs s ! a)"
    using store_invD(6) [OF goodD(1) [OF assms(1)]] False assms(2) by (auto simp: bufs_ok_def holds_def)
  moreover have "getScope s j \<noteq> Some a" for j
    using False getScope_linked [OF goodD(1) [OF assms(1)]] by force
  ultimately show ?thesis using that(2) by blast
qed

section \<open>One effect\<close>

definition silent :: "store \<Rightarrow> store \<Rightarrow> bool" where
  \<comment> \<open>nothing a client sees but an empty scope that comes or goes, or an event\<close>
  "silent s s' \<longleftrightarrow> view s' = view s \<or>
     (\<exists>k. view s k = None \<and> view s' = (view s)(k \<mapsto> (0, []))) \<or>
     (\<exists>k sq. \<not> isReservedScope k \<and> view s k = Some (sq, []) \<and> view s' = (view s)(k := None)) \<or>
     (\<exists>now it. Scope it = EventsScopeName \<and> view s' = spec_append now it (view s))"

lemma silent_view: "view s' = view s \<Longrightarrow> silent s s'"
  by (simp add: silent_def)

definition moves :: "('c \<Rightarrow> store \<Rightarrow> store \<Rightarrow> bool) \<Rightarrow> 'c option \<Rightarrow> 'c option \<Rightarrow> store \<Rightarrow> store \<Rightarrow> bool" where
  \<comment> \<open>the effect that has been taken, before and after a section\<close>
  "moves C d d' s s' \<longleftrightarrow> d' = d \<and> silent s s' \<or> d = None \<and> (\<exists>c. d' = Some c \<and> C c s s')"

lemma moves_silent: "silent s s' \<Longrightarrow> moves C d d s s'"
  by (simp add: moves_def)

lemma moves_view: "view s' = view s \<Longrightarrow> moves C d d s s'"
  by (simp add: moves_def silent_view)

lemma moves_effect: "C c s s' \<Longrightarrow> moves C None (Some c) s s'"
  by (simp add: moves_def)

inductive lin ::
  "('c \<Rightarrow> store \<Rightarrow> store \<Rightarrow> bool) \<Rightarrow> ('c option \<Rightarrow> 'r \<Rightarrow> store \<Rightarrow> bool) \<Rightarrow> 'c option \<Rightarrow> 'r prog \<Rightarrow> store \<Rightarrow> bool"
  for C Q where
  returned: "Q d r s \<Longrightarrow> lin C Q d (Ret r) s"
| at_section: "(\<And>m t p u. evolves s t \<Longrightarrow> good m t \<Longrightarrow> room m \<Longrightarrow> half \<le> m \<Longrightarrow> f t = (p, u) \<Longrightarrow>
      good (m + 1) u \<and> evolves t u \<and> (\<exists>d'. moves C d d' t u \<and> lin C Q d' p u)) \<Longrightarrow> lin C Q d (Sec f) s"

inductive_cases lin_RetE: "lin C Q d (Ret r) s"
inductive_cases lin_SecE: "lin C Q d (Sec f) s"

lemma lin_seq:
  "lin C Q d p s \<Longrightarrow> (\<And>d r t. Q d r t \<Longrightarrow> lin C R d (g r) t) \<Longrightarrow> lin C R d (seq p g) s"
proof (induction rule: lin.induct)
  case (at_section s f d)
  have "good (m + 1) u \<and> evolves t u \<and> (\<exists>d'. moves C d d' t u \<and> lin C R d' p u)"
    if h: "evolves s t" "good m t" "room m" "half \<le> m" "map_prod (\<lambda>p. seq p g) (\<lambda>s'. s') (f t) = (p, u)" for m t p u
  proof -
    obtain q where q: "f t = (q, u)" "p = seq q g" using h(5) by (cases "f t") simp
    show ?thesis using at_section.IH [OF h(1-4) q(1)] at_section.prems q(2) by blast
  qed
  then show ?case by (auto intro: lin.at_section)
qed simp

lemma lin_call:
  assumes "\<And>m t r u. evolves s t \<Longrightarrow> good m t \<Longrightarrow> room m \<Longrightarrow> half \<le> m \<Longrightarrow> f t = (r, u) \<Longrightarrow>
    good (m + 1) u \<and> evolves t u \<and> (\<exists>d'. moves C d d' t u \<and> Q d' r u)"
  shows "lin C Q d (call f) s"
  unfolding call_def
proof (rule lin.at_section)
  fix m t p u
  assume h: "evolves s t" "good m t" "room m" "half \<le> m" "(case f t of (x, s') \<Rightarrow> (Ret x, s')) = (p, u)"
  obtain r where "f t = (r, u)" "p = Ret r" using h(5) by (cases "f t") simp
  then show "good (m + 1) u \<and> evolves t u \<and> (\<exists>d'. moves C d d' t u \<and> lin C Q d' p u)"
    using assms [OF h(1-4)] lin.returned by metis
qed

lemma lin_look:
  assumes "\<And>m t. evolves s t \<Longrightarrow> good m t \<Longrightarrow> Q d (h t) t"
  shows "lin C Q d (call (\<lambda>s. (h s, s))) s"
  by (rule lin_call) (use assms good_mono in \<open>auto intro!: exI [of _ d] moves_view\<close>)

section \<open>Interleavings\<close>

type_synonym ('q, 'r) system = "store \<times> ('q \<times> 'r prog) list"

inductive sys_step :: "('q \<Rightarrow> 'r prog option) \<Rightarrow> ('q, 'r) system \<Rightarrow> ('q, 'r) system \<Rightarrow> bool" for task where
  \<comment> \<open>a request arrives, or one of those there are runs its next section\<close>
  arrive: "task q = Some p \<Longrightarrow> sys_step task (s, cs) (s, cs @ [(q, p)])"
| run: "i < length cs \<Longrightarrow> cs ! i = (q, Sec f) \<Longrightarrow> f s = (p, s') \<Longrightarrow> sys_step task (s, cs) (s', cs[i := (q, p)])"

inductive explains :: "('q \<Rightarrow> 'c \<Rightarrow> store \<Rightarrow> store \<Rightarrow> bool) \<Rightarrow> store \<Rightarrow> (nat \<times> 'q \<times> 'c) list \<Rightarrow> store \<Rightarrow> bool" for C s where
  \<comment> \<open>a history: the effects taken, by which request, in their order, and nothing visible besides\<close>
  at_first: "explains C s [] s"
| quietly: "explains C s h t \<Longrightarrow> silent t u \<Longrightarrow> explains C s h u"
| effect: "explains C s h t \<Longrightarrow> C q c t u \<Longrightarrow> explains C s (h @ [(i, q, c)]) u"

definition under_way :: "('c \<Rightarrow> store \<Rightarrow> store \<Rightarrow> bool) \<Rightarrow> ('c option \<Rightarrow> 'r \<Rightarrow> store \<Rightarrow> bool) \<Rightarrow> store \<Rightarrow> ('c \<Rightarrow> bool) \<Rightarrow> 'r prog \<Rightarrow> bool" where
  \<comment> \<open>one request: what it has still to do, given the effect it has taken\<close>
  "under_way C Q s took p \<longleftrightarrow> (\<exists>t d. evolves t s \<and> lin C Q d p t \<and> (\<forall>c. d = Some c \<longleftrightarrow> took c))"

definition explained :: "('q \<Rightarrow> 'c \<Rightarrow> store \<Rightarrow> store \<Rightarrow> bool) \<Rightarrow> ('c option \<Rightarrow> 'r \<Rightarrow> store \<Rightarrow> bool) \<Rightarrow>
    store \<Rightarrow> (nat \<times> 'q \<times> 'c) list \<Rightarrow> ('q, 'r) system \<Rightarrow> bool" where
  "explained C Q s h S \<longleftrightarrow> explains C s h (fst S) \<and> distinct (map fst h) \<and>
     (\<forall>e \<in> set h. fst e < length (snd S) \<and> fst (snd e) = fst (snd S ! fst e)) \<and>
     (\<forall>i < length (snd S). under_way (C (fst (snd S ! i))) Q (fst S) (\<lambda>c. (i, fst (snd S ! i), c) \<in> set h) (snd (snd S ! i)))"

lemma explained_start: "explained C Q s [] (s, [])"
  by (simp add: explained_def explains.at_first)

lemma under_way_evolves: "under_way C Q s took p \<Longrightarrow> evolves s s' \<Longrightarrow> under_way C Q s' took p"
  unfolding under_way_def using evolves_trans by blast

lemma explained_arrive:
  assumes ex: "explained C Q s h (t, cs)" and new: "lin (C q) Q None p t"
  shows "explained C Q s h (t, cs @ [(q, p)])"
proof -
  have "(length cs, x) \<notin> set h" for x using ex by (fastforce simp: explained_def)
  then have "under_way (C q) Q t (\<lambda>c. (length cs, q, c) \<in> set h) p"
    unfolding under_way_def using new by (intro exI [of _ t] exI [of _ None]) simp
  then show ?thesis using ex by (auto simp: explained_def nth_append less_Suc_eq)
qed

lemma explained_run:
  assumes ex: "explained C Q s h (t, cs)" and i: "i < length cs" "cs ! i = (q, Sec f)" "f t = (p, t')"
    and g: "good m t" "room m" "half \<le> m"
  shows "good (m + 1) t' \<and> (\<exists>h'. explained C Q s (h @ h') (t', cs[i := (q, p)]))"
proof -
  obtain u d where u: "evolves u t" "lin (C q) Q d (Sec f) u" "\<And>c. d = Some c \<longleftrightarrow> (i, q, c) \<in> set h"
    using ex i(1,2) by (fastforce simp: explained_def under_way_def)
  from u(2) have "good (m + 1) t' \<and> evolves t t' \<and> (\<exists>d'. moves (C q) d d' t t' \<and> lin (C q) Q d' p t')"
    by (rule lin_SecE) (use u(1) g i(3) in auto)
  then obtain d' where d': "moves (C q) d d' t t'" "lin (C q) Q d' p t'" "good (m + 1) t'" "evolves t t'" by blast
  let ?cs = "cs[i := (q, p)]"
  have kept: "fst (?cs ! j) = fst (cs ! j)" for j using i(1,2) by (cases "j = i") simp_all
  have others: "under_way (C (fst (cs ! j))) Q t' (\<lambda>c. (j, fst (cs ! j), c) \<in> set h) (snd (cs ! j))" if "j < length cs" for j
    by (rule under_way_evolves [OF _ d'(4)]) (use ex that in \<open>simp add: explained_def\<close>)
  have this_one: "under_way (C q) Q t' took p" if "\<And>c. d' = Some c \<longleftrightarrow> took c" for took
    unfolding under_way_def using d'(2) that by (intro exI [of _ t'] exI [of _ d']) simp
  have old: "explains C s h t" "distinct (map fst h)" "\<And>e. e \<in> set h \<Longrightarrow> fst e < length cs \<and> fst (snd e) = fst (cs ! fst e)"
    using ex by (auto simp: explained_def)
  show ?thesis
  proof (cases "d' = d \<and> silent t t'")
    case True
    have "under_way (C (fst (cs ! j))) Q t' (\<lambda>c. (j, fst (cs ! j), c) \<in> set h) (snd (?cs ! j))" if "j < length cs" for j
      using others [OF that] this_one [of "\<lambda>c. (i, q, c) \<in> set h"] True u(3) i(1,2) by (cases "j = i") simp_all
    then have "explained C Q s (h @ []) (t', ?cs)"
      using old kept explains.quietly [OF old(1)] True by (simp add: explained_def)
    then show ?thesis using d'(3) by blast
  next
    case False
    then obtain c where c: "d = None" "d' = Some c" "C q c t t'" using d'(1) by (auto simp: moves_def)
    have new: "(i, q, x) \<notin> set h" for x using u(3) c(1) by simp
    have fresh: "i \<notin> fst ` set h" using new old(3) i(2) by force
    have "under_way (C (fst (cs ! j))) Q t' (\<lambda>x. (j, fst (cs ! j), x) \<in> set (h @ [(i, q, c)])) (snd (?cs ! j))"
      if "j < length cs" for j
    proof (cases "j = i")
      case True
      then show ?thesis using this_one [of "\<lambda>x. (i, q, x) \<in> set (h @ [(i, q, c)])"] c(2) new i(1,2) by auto
    qed (use others [OF that] in simp)
    then have "explained C Q s (h @ [(i, q, c)]) (t', ?cs)"
      using old kept explains.effect [OF old(1) c(3), of i] fresh i(1,2) by (auto simp: explained_def)
    then show ?thesis using d'(3) by blast
  qed
qed

lemma runs_explained:
  assumes "(sys_step task ^^ n) S T" "explained C Q s h S" "good m (fst S)" "room (m + n)" "half \<le> m"
    and task: "\<And>q p t. task q = Some p \<Longrightarrow> lin (C q) Q None p t"
  shows "good (m + n) (fst T) \<and> (\<exists>h'. explained C Q s (h @ h') T)"
  using assms(1,4)
proof (induction n arbitrary: T)
  case 0
  then show ?case using assms(2,3) by (auto intro!: exI [of _ "[]"])
next
  case (Suc n)
  then obtain U where U: "(sys_step task ^^ n) S U" "sys_step task U T" by auto
  have r: "room (m + n)" using Suc.prems(2) by (rule room_less) simp
  obtain h1 where h1: "good (m + n) (fst U)" "explained C Q s (h @ h1) U" using Suc.IH [OF U(1) r] by blast
  from U(2) show ?case
  proof cases
    case (arrive q p t cs)
    then show ?thesis
      using explained_arrive [OF h1(2) [unfolded arrive(1)] task [OF arrive(3)]] h1(1) good_mono [of "m + n" t "m + Suc n"] by auto
  next
    case (run i cs q f t p t')
    have g: "good (m + n) t" using h1(1) run(1) by simp
    have big: "half \<le> m + n" using assms(5) by simp
    obtain h2 where "good (m + n + 1) t'" "explained C Q s ((h @ h1) @ h2) (t', cs[i := (q, p)])"
      using explained_run [OF h1(2) [unfolded run(1)] run(3,4,5) g r big] by blast
    then show ?thesis using run(2) by (auto intro: exI [of _ "h1 @ h2"])
  qed
qed

section \<open>Every interleaving ends\<close>

lemma steps_bounded:
  assumes "(sys_step task ^^ n) (s, []) S" and task: "\<And>q p. task q = Some p \<Longrightarrow> within b p"
  shows "n \<le> (b + 1) * length (snd S)"
proof -
  have "\<exists>left. length left = length (snd S) \<and> n + sum_list left \<le> (b + 1) * length (snd S) \<and>
      (\<forall>i < length (snd S). within (left ! i) (snd (snd S ! i)))"
    using assms(1)
  proof (induction n arbitrary: S)
    case (Suc n)
    then obtain T where T: "(sys_step task ^^ n) (s, []) T" "sys_step task T S" by auto
    from Suc.IH [OF T(1)] obtain left where left: "length left = length (snd T)" "n + sum_list left \<le> (b + 1) * length (snd T)"
      "\<And>i. i < length (snd T) \<Longrightarrow> within (left ! i) (snd (snd T ! i))" by blast
    from T(2) show ?case
    proof cases
      case (arrive q p t cs)
      then show ?thesis using left task [OF arrive(3)]
        by (intro exI [of _ "left @ [b]"]) (auto simp: nth_append less_Suc_eq)
    next
      case (run i cs q f t p t')
      have "within (left ! i) (Sec f)" using left(3) [of i] run by simp
      then obtain k where k: "left ! i = Suc k" "within k p"
        by (rule within_SecE) (use run(5) in \<open>metis fst_conv\<close>)
      have i: "i < length left" using run left(1) by simp
      have "left ! i \<le> sum_list left" by (rule elem_le_sum_list [OF i])
      then have "Suc (sum_list (left[i := k])) = sum_list left" using sum_list_update [OF i, of k] k(1) by simp
      then show ?thesis using left k(2) run i by (intro exI [of _ "left[i := k]"]) (auto simp: nth_list_update)
    qed
  qed simp
  then show ?thesis by (metis le_add1 le_trans)
qed

lemma alone_steps:
  \<comment> \<open>a request that has the system to itself\<close>
  "within b p \<Longrightarrow> \<exists>n \<le> b. (sys_step task ^^ n) (s, [(q, p)]) (snd (run_alone p s), [(q, Ret (fst (run_alone p s)))])"
proof (induction b p arbitrary: s rule: within.induct)
  case (at_section b f)
  obtain p s' where f: "f s = (p, s')" by (metis surj_pair)
  from at_section.IH [of s' s] obtain n where n: "n \<le> b"
    "(sys_step task ^^ n) (s', [(q, p)]) (snd (run_alone p s'), [(q, Ret (fst (run_alone p s')))])" using f by auto
  have "sys_step task (s, [(q, Sec f)]) (s', [(q, p)])" using sys_step.run [of 0 "[(q, Sec f)]" q f s p s' task] f by simp
  from relpowp_Suc_I2 [OF this n(2)] n(1) show ?case using f by (intro exI [of _ "Suc n"]) simp
qed (auto intro!: exI [of _ 0])

section \<open>Schedules\<close>

datatype 'q move = Arrival 'q | Turn nat

fun play :: "('q \<Rightarrow> 'r prog option) \<Rightarrow> 'q move list \<Rightarrow> ('q, 'r) system \<Rightarrow> ('q, 'r) system option" where
  \<comment> \<open>a schedule; none when it names a request that has returned\<close>
  "play task [] S = Some S"
| "play task (Arrival q # ms) (s, cs) = (case task q of None \<Rightarrow> None | Some p \<Rightarrow> play task ms (s, cs @ [(q, p)]))"
| "play task (Turn i # ms) (s, cs) =
     (if i < length cs then
        (case cs ! i of
           (q, Ret r) \<Rightarrow> None
         | (q, Sec f) \<Rightarrow> (case f s of (p, s') \<Rightarrow> play task ms (s', cs[i := (q, p)])))
      else None)"

lemma play_steps: "play task ms S = Some T \<Longrightarrow> (sys_step task ^^ length ms) S T"
proof (induction task ms S rule: play.induct)
  case (2 task q ms s cs)
  then obtain p where p: "task q = Some p" "play task ms (s, cs @ [(q, p)]) = Some T" by (auto split: option.splits)
  have "sys_step task (s, cs) (s, cs @ [(q, p)])" by (rule sys_step.arrive [where task = task, OF p(1)])
  from relpowp_Suc_I2 [OF this "2.IH" [OF p]] show ?case by simp
next
  case (3 task i ms s cs)
  then obtain q f p s' where r: "i < length cs" "cs ! i = (q, Sec f)" "f s = (p, s')" "play task ms (s', cs[i := (q, p)]) = Some T"
    by (auto split: if_splits prod.splits prog.splits)
  have "(sys_step task ^^ length ms) (s', cs[i := (q, p)]) T"
    by (rule "3.IH" [OF r(1) r(2) [symmetric] refl r(3) [symmetric] r(4)])
  moreover have "sys_step task (s, cs) (s', cs[i := (q, p)])" by (rule sys_step.run [OF r(1,2,3)])
  ultimately have "(sys_step task ^^ Suc (length ms)) (s, cs) T" by (rule relpowp_Suc_I2 [rotated])
  then show ?case by simp
qed simp

end
