(* ===== verification/InterleaveOps.thy ===== *)
theory InterleaveOps
  imports Interleave
begin

text \<open>
  Every request takes effect in one of its sections: at the commit to its buffer, at the lookup that finds
  no scope, or in the only section it has; or it fails and shows nothing. The lemmas go up from the pieces the
  requests share to the requests.
\<close>

section \<open>Finding and making a scope\<close>

definition no_panic :: "gerr \<Rightarrow> bool" where
  "no_panic e \<longleftrightarrow> (\<forall>p. e \<noteq> GoPanic p)"

lemma not_panic_Inl [simp]: "not_panic (Inl e :: 'a res) \<longleftrightarrow> no_panic e"
  by (simp add: not_panic_def no_panic_def)

lemma lin_getScope:
  "lin C (\<lambda>d' hit t. d' = d \<and> evolves s t \<and> (case hit of None \<Rightarrow> True | Some a \<Rightarrow> holds k a t)) d (getScope_task k) s"
  unfolding getScope_task_def by (rule lin_look) (auto simp: holds_link split: option.split)

lemma created_evolves:
  assumes g: "good m s" and run: "getOrCreateScopeTrackingCreated now k s = (Inr (a, created), s')"
  shows "evolves s s'" "silent s s'" "holds k a s'" "created \<Longrightarrow> \<not> isReservedScope k"
proof -
  note C = getOrCreate_Inr [OF g run]
  show "holds k a s'" using holds_link [OF C(1,2)] .
  show "\<not> isReservedScope k" if created using C(7) that not_reserved_missing [OF goodD(1) [OF g]] by simp
  show "evolves s s'"
  proof (cases created)
    case True
    then have none: "getScope s k = None" using C(7) by simp
    show ?thesis
      using C(3) C(8) [OF True] linkScope_getScope [OF goodD(1) [OF g] none]
      by (auto simp: evolves_def linkScope_def split: if_splits)
  qed (use C(6) in simp)
  show "silent s s'"
    using created_view(1) [OF g run] by (auto simp: silent_def contents_def fun_upd_idem split: option.splits)
qed

lemma lin_getOrCreate:
  "lin C (\<lambda>d' r t. d' = d \<and> evolves s t \<and>
      (case r of Inl e \<Rightarrow> no_panic e | Inr (a, created) \<Rightarrow> holds k a t \<and> (created \<longrightarrow> \<not> isReservedScope k))) d
    (getOrCreate_task now k) s"
proof (cases "k = []")
  case True
  then show ?thesis by (simp add: getOrCreate_task_def lin.returned no_panic_def)
next
  case False
  have again: "lin C (\<lambda>d' r t. d' = d \<and> evolves s t \<and>
      (case r of Inl e \<Rightarrow> no_panic e | Inr (a, created) \<Rightarrow> holds k a t \<and> (created \<longrightarrow> \<not> isReservedScope k))) d
    (call (getOrCreateScopeTrackingCreated now k)) t" if st: "evolves s t" for t
  proof (rule lin_call)
    fix m u r w
    assume h: "evolves t u" "good m u" "getOrCreateScopeTrackingCreated now k u = (r, w)"
    note su = evolves_trans [OF st h(1)]
    show "good (m + 1) w \<and> evolves u w \<and> (\<exists>d'. moves C d d' u w \<and> d' = d \<and> evolves s w \<and>
      (case r of Inl e \<Rightarrow> no_panic e | Inr (a, created) \<Rightarrow> holds k a w \<and> (created \<longrightarrow> \<not> isReservedScope k)))"
    proof (cases r)
      case (Inl e)
      then show ?thesis
        using getOrCreate_Inl [OF goodD(1) [OF h(2)] h(3) [unfolded Inl]] good_mono [OF h(2), of "m + 1"] su
        by (auto simp: no_panic_def moves_view)
    next
      case (Inr x)
      obtain a created where x: "x = (a, created)" by (metis surj_pair)
      note E = created_evolves [OF h(2) h(3) [unfolded Inr x]]
      show ?thesis
        using E getOrCreate_Inr(1) [OF h(2) h(3) [unfolded Inr x]] good_mono [of m w "m + 1"] evolves_trans [OF su E(1)] Inr x
        by (simp add: moves_silent)
    qed
  qed
  show ?thesis
    unfolding getOrCreate_task_def using False
    by (auto intro!: lin_seq [OF lin_getScope] lin.returned again split: option.splits)
qed

lemma unlink_evolves:
  assumes "store_inv s" "getScope s k = Some a" "core_config c = core_config (score s)"
  shows "evolves s (unlinkScope k a (s\<lparr>score := c\<rparr>))"
  using sdir.look_del [OF store_invD(1) [OF assms(1)], of k a] assms(2,3)
  by (auto simp: evolves_def unlinkScope_def getScope_def split: if_splits)

lemma cleanup_silent:
  assumes g: "good m s" and h: "holds k a s" and res: "\<not> isReservedScope k"
  shows "good m (cleanupIfEmptyAndUnused k a s) \<and> evolves s (cleanupIfEmptyAndUnused k a s) \<and>
    silent s (cleanupIfEmptyAndUnused k a s)"
proof (cases "getScope s k = Some a \<and> items (bufs s ! a) = []")
  case False
  then show ?thesis using g by (auto simp: cleanupIfEmptyAndUnused_def silent_view split: option.splits)
next
  case True
  note inv = goodD(1) [OF g]
  let ?c = "add_scopeCount (- 1) (add_totalBytes (- scopeBufferOverhead) (score s))"
  have out: "cleanupIfEmptyAndUnused k a s = unlinkScope k a (s\<lparr>score := ?c\<rparr>)"
    using True by (simp add: cleanupIfEmptyAndUnused_def)
  have b: "bytes (bufs s ! a) = 0" using buf_invD(6) [OF linked_bufD(6) [OF inv conjunct1 [OF True]]] True by simp
  have "0 \<le> totalBytes (score s) - scopeBufferOverhead" "totalBytes (score s) \<le> MaxInt64"
    using charge_le_total [OF inv conjunct1 [OF True]] b store_invD(4) [OF inv] by (auto simp: within_cap_def)
  then have c: "totalBytes ?c = totalBytes (score s) - scopeBufferOverhead"
    using wrap64_nonneg_id [of "totalBytes (score s) - scopeBufferOverhead"] scopeBufferOverhead_pos
    by (simp add: add_scopeCount_def add_totalBytes_def)
  have f: "core_config ?c = core_config (score s)" "cells ?c = cells (score s)"
    "totalItems ?c = totalItems (score s)" "scopeCount ?c = scopeCount (score s) - 1"
    by (simp_all add: add_scopeCount_def add_totalBytes_def core_config_def)
  have "store_inv (unlinkScope k a (s\<lparr>score := ?c\<rparr>))"
    by (rule unlinkScope_inv [OF inv conjunct1 [OF True] res]) (use b c f True in simp_all)
  then have "good m (unlinkScope k a (s\<lparr>score := ?c\<rparr>))"
    using unlinkScope_seqs [OF inv conjunct1 [OF True] goodD(2) [OF g], of ?c] by (simp add: good_def)
  moreover have "evolves s (unlinkScope k a (s\<lparr>score := ?c\<rparr>))"
    by (rule unlink_evolves [OF inv conjunct1 [OF True] f(1)])
  moreover have "view s k = Some (lastSeq (bufs s ! a), [])" using True by (simp add: view_def buf_view_def)
  ultimately show ?thesis
    unfolding out using unlink_view [OF inv conjunct1 [OF True] f(2)] res by (auto simp: silent_def)
qed

lemma lin_undo:
  assumes "holds k a s" "created \<longrightarrow> \<not> isReservedScope k"
  shows "lin C (\<lambda>d' _ t. d' = d \<and> evolves s t) d (undo_task created k a e) s"
proof (cases "created \<and> no_panic e")
  case False
  then show ?thesis by (auto simp: undo_task_def no_panic_def lin.returned split: gerr.splits)
next
  case True
  have "lin C (\<lambda>d' _ t. d' = d \<and> evolves s t) d (call (\<lambda>s. ((), cleanupIfEmptyAndUnused k a s))) s"
  proof (rule lin_call)
    fix m t r u assume h: "evolves s t" "good m t" "((), cleanupIfEmptyAndUnused k a t) = (r, u)"
    have "good m u \<and> evolves t u \<and> silent t u"
      using cleanup_silent [OF h(2) holds_evolves [OF assms(1) h(1)]] assms(2) True h(3) by simp
    then show "good (m + 1) u \<and> evolves t u \<and> (\<exists>d'. moves C d d' t u \<and> d' = d \<and> evolves s u)"
      using good_mono [of m u "m + 1"] evolves_trans [OF h(1)] by (simp add: moves_silent)
  qed
  moreover have "undo_task created k a e = call (\<lambda>s. ((), cleanupIfEmptyAndUnused k a s))"
    using True by (auto simp: undo_task_def no_panic_def split: gerr.splits)
  ultimately show ?thesis by simp
qed

section \<open>A section on a buffer\<close>

context buffer_op
begin

lemma lin_on_buf:
  assumes h: "holds k a s" and adm: "\<And>m t. evolves s t \<Longrightarrow> good m t \<Longrightarrow> admissible p (score t) k"
    and eff: "\<And>m t x u. evolves s t \<Longrightarrow> good m t \<Longrightarrow> room m \<Longrightarrow> getScope t k = Some a \<Longrightarrow>
        on_buf a (operation p) t = (Inr x, u) \<Longrightarrow> \<exists>d'. moves C d d' t u \<and> Q d' (Inr x)"
    and err: "\<And>e. no_panic e \<Longrightarrow> Q d (Inl e)"
  shows "lin C (\<lambda>d' r t. Q d' r \<and> evolves s t) d (call (on_buf a (operation p))) s"
proof (rule lin_call)
  fix m t r u
  assume t: "evolves s t" "good m t" "room m" "on_buf a (operation p) t = (r, u)"
  show "good (m + 1) u \<and> evolves t u \<and> (\<exists>d'. moves C d d' t u \<and> Q d' r \<and> evolves s u)"
    using t(2) holds_evolves [OF h t(1)]
  proof (cases rule: holds_cases)
    case 1
    have st: "good (m + 1) u \<and> stays t u \<and> not_panic r \<and> (\<forall>e. r = Inl e \<longrightarrow> u = t)"
      by (rule on_store [OF t(2) 1 t(3) adm [OF t(1,2)] t(4)])
    have "length (bufs u) = length (bufs t)" using t(4) by (auto simp: on_buf_def split: prod.splits)
    then have ev: "evolves t u" using st evolves_stays by blast
    show ?thesis
    proof (cases r)
      case (Inl e)
      then show ?thesis using st t(1) err [of e] moves_view [of t t C d] by auto
    next
      case (Inr x)
      then show ?thesis using eff [OF t(1,2,3) 1, of x u] t(4) st ev evolves_trans [OF t(1) ev] by blast
    qed
  next
    case 2
    then have "r = Inl ScopeDetachedError" "u = t"
      using t(4) detached_refused [of "bufs t ! a" p "score t"] by (simp_all add: on_buf_def)
    then show ?thesis
      using good_mono [OF t(2), of "m + 1"] t(1) err [of ScopeDetachedError] moves_view [of t t C d]
      by (auto simp: no_panic_def)
  qed
qed

lemma lin_on_demand:
  assumes adm: "\<And>m t. evolves s t \<Longrightarrow> good m t \<Longrightarrow> admissible p (score t) k"
    and eff: "\<And>m t a x c u. evolves s t \<Longrightarrow> good m t \<Longrightarrow> room m \<Longrightarrow> getScope t k = Some a \<Longrightarrow>
        on_buf a (operation p) t = (Inr x, u) \<Longrightarrow> \<exists>d'. moves C d d' t u \<and> (\<forall>c. Q d' (Inr (x, c)))"
    and err: "\<And>e. no_panic e \<Longrightarrow> Q d (Inl e)"
  shows "lin C (\<lambda>d' r t. Q d' r \<and> evolves s t) d (on_demand_task now k (operation p)) s"
  unfolding on_demand_task_def
proof (rule lin_seq [OF lin_getOrCreate [where s = s and k = k and d = d]])
  fix d' r t
  assume r: "d' = d \<and> evolves s t \<and> (case r of Inl e \<Rightarrow> no_panic e | Inr (a, created) \<Rightarrow> holds k a t \<and> (created \<longrightarrow> \<not> isReservedScope k))"
  show "lin C (\<lambda>d' r t. Q d' r \<and> evolves s t) d'
    (case r of Inl e \<Rightarrow> Ret (Inl e) | Inr (a, created) \<Rightarrow> seq (call (on_buf a (operation p))) (\<lambda>r. case r of
        Inl e \<Rightarrow> seq (undo_task created k a e) (\<lambda>_. Ret (Inl e)) | Inr x \<Rightarrow> Ret (Inr (x, created)))) t"
  proof (cases r)
    case (Inl e)
    then show ?thesis using r err by (simp add: lin.returned)
  next
    case (Inr ac)
    obtain a created where ac: "ac = (a, created)" by (metis surj_pair)
    have t: "evolves s t" "holds k a t" "created \<longrightarrow> \<not> isReservedScope k" "d' = d" using r Inr ac by simp_all
    let ?Q = "\<lambda>d1 r1. case r1 of Inl e \<Rightarrow> d1 = d \<and> no_panic e | Inr x \<Rightarrow> \<forall>c. Q d1 (Inr (x, c))"
    have "lin C (\<lambda>d1 r1 u. ?Q d1 r1 \<and> evolves t u) d (call (on_buf a (operation p))) t"
    proof (rule lin_on_buf [OF t(2)])
      show "admissible p (score u) k" if "evolves t u" "good m u" for m u
        by (rule adm [OF evolves_trans [OF t(1) that(1)] that(2)])
      show "\<exists>d1. moves C d d1 u w \<and> ?Q d1 (Inr x)"
        if "evolves t u" "good m u" "room m" "getScope u k = Some a" "on_buf a (operation p) u = (Inr x, w)" for m u x w
        using eff [OF evolves_trans [OF t(1) that(1)] that(2-5)] by simp
      show "?Q d (Inl e)" if "no_panic e" for e using that by simp
    qed
    then show ?thesis
      unfolding Inr ac sum.case prod.case t(4)
    proof (rule lin_seq)
      fix d1 r1 u assume u: "?Q d1 r1 \<and> evolves t u"
      note su = evolves_trans [OF t(1) conjunct2 [OF u]]
      show "lin C (\<lambda>d' r t. Q d' r \<and> evolves s t) d1
        (case r1 of Inl e \<Rightarrow> seq (undo_task created k a e) (\<lambda>_. Ret (Inl e)) | Inr x \<Rightarrow> Ret (Inr (x, created))) u"
      proof (cases r1)
        case (Inl e)
        have hu: "holds k a u" using holds_evolves [OF t(2)] u by blast
        show ?thesis using u Inl err su evolves_trans
          by (auto intro!: lin_seq [OF lin_undo [OF hu t(3)]] lin.returned)
      qed (use u su in \<open>simp add: lin.returned\<close>)
    qed
  qed
qed

end

section \<open>Append and events\<close>

lemma notify_view: "view (snd (notify k s)) = view s"
  by (cases "notifySubscriber k (shub s)") (simp add: notify_def view_def getScope_def fun_eq_iff)

lemma lin_notify: "lin C (\<lambda>d' p t. d' = d \<and> p = None) d (call (notify k)) s"
proof (rule lin_call)
  fix m t r u assume t: "good m t" "notify k t = (r, u)"
  have "length (bufs u) = length (bufs t)" using t(2) by (auto simp: notify_def split: prod.splits)
  then show "good (m + 1) u \<and> evolves t u \<and> (\<exists>d'. moves C d d' t u \<and> d' = d \<and> r = None)"
    using notify_good [OF t] good_mono [of m u "m + 1"] evolves_stays [of t u] notify_view [of k t] t(2)
    by (simp add: moves_view)
qed

lemma config_cap: "evolves s t \<Longrightarrow> maxItemBytesFor (score t) k = maxItemBytesFor (score s) k"
  by (rule maxItemBytesFor_cong) (rule evolves_config)

definition appended :: "Item \<Rightarrow> int \<Rightarrow> Item \<Rightarrow> store \<Rightarrow> store \<Rightarrow> bool" where
  "appended it now x s s' \<longleftrightarrow> view s' = spec_append now it (view s) \<and>
     x = fresh_item now (fst (contents (view s) (Scope it)) + 1) it"

lemma fresh_item_Scope [simp]: "Scope (fresh_item now sq it) = Scope it"
  by (simp add: fresh_item_def)

lemma lin_append:
  assumes cl: "client_item it"
    and eff: "\<And>x t u. appended it (clk 1) x t u \<Longrightarrow> moves C d (D x) t u"
    and emit: "\<And>x t. Scope x = Scope it \<Longrightarrow> lin C (\<lambda>d' p _. d' = D x \<and> p = None) (D x) (emit x) t"
  shows "lin C (\<lambda>d' r _. case r of Inl e \<Rightarrow> d' = d \<and> no_panic e | Inr x \<Rightarrow> d' = D x) d (append_task emit clk it) s"
  unfolding append_task_def
proof (rule lin_seq [OF lin_look [where
    Q = "\<lambda>d' v t. d' = d \<and> v = validateWriteItem it ''/append'' (maxItemBytesFor (score t) (Scope it))"]])
  let ?v = "\<lambda>s :: store. validateWriteItem it ''/append'' (maxItemBytesFor (score s) (Scope it))"
  let ?R = "\<lambda>d' r. case r of Inl e \<Rightarrow> d' = d \<and> no_panic e | Inr (x, c) \<Rightarrow> d' = D x \<and> Scope x = Scope it"
  show "d = d \<and> ?v t = ?v t" for t by simp
  fix d0 v and t :: store assume "d0 = d \<and> v = ?v t"
  then have v: "v = ?v t" "d0 = d" by simp_all
  show "lin C (\<lambda>d' r _. case r of Inl e \<Rightarrow> d' = d \<and> no_panic e | Inr x \<Rightarrow> d' = D x) d0
     (case v of Inl e \<Rightarrow> Ret (Inl e)
       | Inr it1 \<Rightarrow> seq (on_demand_task (clk 0) (Scope it1) (appendItem (clk 1) it1)) (\<lambda>r. case r of
             Inl e \<Rightarrow> Ret (Inl e)
           | Inr (result, created) \<Rightarrow> seq (emit result) (\<lambda>p. case p of
                 Some p \<Rightarrow> Ret (Inl (GoPanic p))
               | None \<Rightarrow> if isReservedScope (Scope result)
                   then seq (call (notify (Scope result))) (\<lambda>p. case p of
                       Some p \<Rightarrow> Ret (Inl (GoPanic p)) | None \<Rightarrow> Ret (Inr result))
                   else Ret (Inr result)))) t"
  proof (cases v)
    case (Inl e)
    then have "no_panic e" using v(1)
      by (auto simp: validateWriteItem_def wrapValidation_def no_panic_def split: prod.splits option.splits)
    then show ?thesis using Inl v(2) by (simp add: lin.returned)
  next
    case (Inr it1)
    have v1: "?v t = Inr it1" using v(1) Inr by simp
    note V = validated_plain_ok [OF cl v1]
    have it1: "it1 = fillRender it" using v1 by (simp only: validateWriteItem_Inr)
    have pl: "plain_ok (score u) (Scope it) (fillRender it)" if "evolves t u" for u
      using v1 client_plain_ok [OF cl, of "score u"] config_cap [OF that, of "Scope it"] by (simp add: validateWriteItem_Inr)
    have "lin C (\<lambda>d' r u. ?R d' r \<and> evolves t u) d (on_demand_task (clk 0) (Scope it1) (appendItem (clk 1) it1)) t"
    proof (rule append_op.lin_on_demand [of _ "(clk 1, it1)", unfolded prod.case])
      show "plain_ok (score u) (Scope it1) it1" if "evolves t u" for u using pl [OF that] it1 by simp
      fix m u a x c w
      assume u: "evolves t u" "good m u" "room m" "getScope u (Scope it1) = Some a" "on_buf a (appendItem (clk 1) it1) u = (Inr x, w)"
      have "appended it (clk 1) x u w"
        using append_at [OF u(2,3) u(4) [unfolded V(2)] cl pl [OF u(1)] u(5) [unfolded it1]] by (simp add: appended_def)
      then show "\<exists>d'. moves C d d' u w \<and> (\<forall>c. ?R d' (Inr (x, c)))" using eff by (auto simp: appended_def)
    qed simp
    then show ?thesis
      unfolding Inr sum.case v(2)
    proof (rule lin_seq)
      fix d1 r u assume r: "?R d1 r \<and> evolves t u"
      show "lin C (\<lambda>d' r _. case r of Inl e \<Rightarrow> d' = d \<and> no_panic e | Inr x \<Rightarrow> d' = D x) d1
        (case r of Inl e \<Rightarrow> Ret (Inl e)
           | Inr (result, created) \<Rightarrow> seq (emit result) (\<lambda>p. case p of
                 Some p \<Rightarrow> Ret (Inl (GoPanic p))
               | None \<Rightarrow> if isReservedScope (Scope result)
                   then seq (call (notify (Scope result))) (\<lambda>p. case p of
                       Some p \<Rightarrow> Ret (Inl (GoPanic p)) | None \<Rightarrow> Ret (Inr result))
                   else Ret (Inr result))) u"
      proof (cases r)
        case (Inr y)
        obtain x c where y: "y = (x, c)" by (metis surj_pair)
        have x: "d1 = D x" "Scope x = Scope it" using r Inr y by simp_all
        show ?thesis
          unfolding Inr y x(1) sum.case prod.case
          by (rule lin_seq [OF emit [OF x(2)]]) (auto intro!: lin_seq [OF lin_notify] lin.returned)
      qed (use r in \<open>simp add: lin.returned\<close>)
    qed
  qed
qed

lemma drop_silent: "good m s \<Longrightarrow> good (m + 1) (dropEvent s) \<and> evolves s (dropEvent s) \<and> view (dropEvent s) = view s"
  using dropEvent_good [of "m + 1" s] dropEvent_good [of m s] good_mono [of m s "m + 1"]
    evolves_stays [of s "dropEvent s"] score_view [of "(score s)\<lparr>eventsDropsTotal := eventsDropsTotal (score s) + 1\<rparr>" s]
  by (simp add: dropEvent_def)

lemma lin_drop: "lin C (\<lambda>d' p _. d' = d \<and> p = None) d (call (\<lambda>s. (None, dropEvent s))) s"
  by (rule lin_call) (use drop_silent in \<open>auto intro: moves_view\<close>)

lemma lin_event: "lin C (\<lambda>d' p _. d' = d \<and> p = None) d (event_task clk evt) s"
  unfolding event_task_def
proof (rule lin_seq [where Q = "\<lambda>d' _ _. d' = d"])
  show "lin C (\<lambda>d' _ _. d' = d) d (call (\<lambda>s. let evt' = (if eventsMode (score s) = EventsModeNotify then evt\<lparr>ev_Payload := None\<rparr> else evt)
      in case marshal_writeEvent evt' of None \<Rightarrow> (None, dropEvent s) | Some body \<Rightarrow> (Some body, s))) s"
  proof (rule lin_call)
    fix m t r u
    assume t: "good m t" "(let evt' = (if eventsMode (score t) = EventsModeNotify then evt\<lparr>ev_Payload := None\<rparr> else evt)
      in case marshal_writeEvent evt' of None \<Rightarrow> (None, dropEvent t) | Some body \<Rightarrow> (Some body, t)) = (r, u)"
    then have "u = dropEvent t \<or> u = t" by (auto simp: Let_def split: option.splits)
    then show "good (m + 1) u \<and> evolves t u \<and> (\<exists>d'. moves C d d' t u \<and> d' = d)"
      using drop_silent [OF t(1)] good_mono [OF t(1), of "m + 1"] by (auto intro: moves_view)
  qed
  fix d' b t assume d: "d' = d"
  show "lin C (\<lambda>d' p _. d' = d \<and> p = None) d' (case b of
           None \<Rightarrow> Ret None
         | Some body \<Rightarrow>
             seq (append_task (\<lambda>_. Ret None) clk (Item_zero\<lparr>Scope := EventsScopeName, Payload := Some body\<rparr>))
               (\<lambda>r. case r of Inr _ \<Rightarrow> Ret None | Inl (GoPanic p) \<Rightarrow> Ret (Some p) | Inl _ \<Rightarrow> call (\<lambda>s. (None, dropEvent s)))) t"
  proof (cases b)
    case (Some body)
    let ?it = "Item_zero\<lparr>Scope := EventsScopeName, Payload := Some body\<rparr>"
    have "client_item ?it" by (simp add: client_item_def Item_zero_def)
    then have "lin C (\<lambda>d' r _. case r of Inl e \<Rightarrow> d' = d \<and> no_panic e | Inr x \<Rightarrow> d' = d) d (append_task (\<lambda>_. Ret None) clk ?it) t"
    proof (rule lin_append)
      show "moves C d d t u" if "appended ?it (clk 1) x t u" for x t u
        using that by (intro moves_silent) (auto simp: appended_def silent_def intro!: exI [of _ "clk 1"] exI [of _ ?it])
    qed (simp add: lin.returned)
    then show ?thesis
      unfolding Some option.case d
      by (rule lin_seq) (auto simp: no_panic_def lin.returned lin_drop split: sum.splits gerr.splits)
  qed (simp add: lin.returned d)
qed

lemma lin_emit: "lin C (\<lambda>d' p _. d' = d \<and> p = None) d (emit_task k clk evt) s"
  unfolding emit_task_def
  by (rule lin_seq [OF lin_look [where Q = "\<lambda>d' _ _. d' = d"]]) (auto intro: lin_event lin.returned)

definition finished :: "('a \<Rightarrow> 'c) \<Rightarrow> 'c option \<Rightarrow> 'a res \<Rightarrow> bool" where
  \<comment> \<open>a success has taken the effect it answers with, a failure none\<close>
  "finished h d r \<longleftrightarrow> (case r of Inl e \<Rightarrow> d = None \<and> no_panic e | Inr x \<Rightarrow> d = Some (h x))"

lemma finished_simps [simp]:
  "finished h d (Inl e) \<longleftrightarrow> d = None \<and> no_panic e" "finished h d (Inr x) \<longleftrightarrow> d = Some (h x)"
  by (simp_all add: finished_def)

lemma lin_answer: "lin C (\<lambda>d r _. finished h d r) (Some (h x)) (answer_task x (emit_task k clk evt)) s"
  unfolding answer_task_def by (rule lin_seq [OF lin_emit]) (auto intro: lin.returned)

end
