(* ===== verification/ReadSpec.thy ===== *)
theory ReadSpec
  imports StoreSpec
begin

text \<open>
  The reads of the store against the view: which items a call returns, that it moves nothing a client can
  read, and that a client paging with the cursor gets every item exactly once.
\<close>

section \<open>A read moves the heat counters only\<close>

lemma touch_view:
  assumes "store_inv s" "getScope s k = Some a"
  shows "view (touch now a s) = view s"
proof -
  have e: "touch now a s = s\<lparr>score := score s, bufs := (bufs s)[a := recordRead now (bufs s ! a)]\<rparr>"
    by (simp add: touch_def)
  have "buf_view (score s) (recordRead now (bufs s ! a)) = buf_view (score s) (bufs s ! a)"
    by (simp add: buf_view_def recordRead_def)
  then have "(view s)(k \<mapsto> buf_view (score s) (recordRead now (bufs s ! a))) = view s"
    using assms(2) by (auto simp: view_def fun_eq_iff)
  then show ?thesis unfolding e using on_buf_view [OF assms refl] by simp
qed

lemma contents_look: "getScope s k = Some a \<Longrightarrow> contents (view s) k = (lastSeq (bufs s ! a), map (materialiseCounter (score s)) (items (bufs s ! a)))"
  by (simp add: contents_def view_def buf_view_def)

lemma contents_none: "getScope s k = None \<Longrightarrow> contents (view s) k = (0, [])"
  by (simp add: contents_def view_def)

lemma view_none: "view s k = None \<longleftrightarrow> getScope s k = None"
  by (simp add: view_def)

section \<open>Windows\<close>

definition past :: "u64 \<Rightarrow> bytestr \<Rightarrow> store \<Rightarrow> Item list" where
  \<comment> \<open>the items of a scope with a seq after the cursor\<close>
  "past after k s = filter (\<lambda>y. after < Seq y) (snd (contents (view s) k))"

lemma past_look:
  "getScope s k = Some a \<Longrightarrow>
     past after k s = map (materialiseCounter (score s)) (filter (\<lambda>y. after < Seq y) (items (bufs s ! a)))"
  by (simp add: past_def contents_look filter_map comp_def)

lemma head_run:
  assumes inv: "store_inv s" and limit: "0 < limit"
  obtains s' where
    "head now k after limit s = ((take (nat limit) (past after k s), limit < int (length (past after k s)), view s k \<noteq> None), s')"
    "view s' = view s"
proof (cases "getScope s k")
  case None
  then show thesis using that limit by (simp add: head_def past_def contents_none view_none)
next
  case (Some a)
  note win = sinceSeq_window [OF linked_bufD(6) [OF inv Some] limit, of after "score s"]
  show thesis
    using that Some touch_view [OF inv Some, of now]
    by (auto simp: head_def win past_look [OF Some] take_map view_none split: if_splits)
qed

lemma tail_run:
  fixes k :: bytestr
  assumes inv: "store_inv s" and limit: "0 < limit" "0 \<le> offset"
  defines "xs \<equiv> snd (contents (view s) k)"
  obtains s' where
    "tail now k limit offset s =
      ((rev (take (nat limit) (drop (nat offset) (rev xs))), limit + offset < int (length xs), view s k \<noteq> None), s')"
    "view s' = view s"
proof (cases "getScope s k")
  case None
  then show thesis using that limit by (simp add: tail_def contents_none view_none xs_def)
next
  case (Some a)
  have xs: "xs = map (materialiseCounter (score s)) (items (bufs s ! a))" by (simp add: xs_def contents_look [OF Some])
  note win = tailOffset_window [OF limit, of "score s" "bufs s ! a"]
  show thesis
    using that Some touch_view [OF inv Some, of now]
    by (auto simp: tail_def win xs view_none rev_map take_map drop_map split: if_splits)
qed

section \<open>Single items\<close>

lemma find_SomeD: "find P xs = Some r \<Longrightarrow> r \<in> set xs \<and> P r"
  by (induction xs) (auto split: if_splits)

lemma filter_le_one:
  assumes "distinct xs" "\<And>x y. x \<in> set xs \<Longrightarrow> y \<in> set xs \<Longrightarrow> P x \<Longrightarrow> P y \<Longrightarrow> x = y"
  shows "length (filter P xs) \<le> 1"
  using assms
proof (induction xs)
  case (Cons x xs)
  have "filter P xs = []" if "P x"
  proof -
    have "\<not> P y" if "y \<in> set xs" for y using Cons.prems(2) [of x y] Cons.prems(1) that \<open>P x\<close> by auto
    then show ?thesis by simp
  qed
  moreover have "length (filter P xs) \<le> 1" using Cons.prems by (intro Cons.IH) auto
  ultimately show ?case by simp
qed simp

definition found :: "bytestr \<Rightarrow> bytestr \<Rightarrow> u64 \<Rightarrow> store \<Rightarrow> Item list" where
  \<comment> \<open>the items of a scope a lookup names\<close>
  "found k i sq s = filter (\<lambda>y. if i \<noteq> [] then ID y = i else Seq y = sq) (snd (contents (view s) k))"

lemma get_run:
  assumes inv: "store_inv s"
  obtains s' where "store_get now k i sq s = (find (\<lambda>y. if i \<noteq> [] then ID y = i else Seq y = sq) (snd (contents (view s) k)), s')"
    "view s' = view s" "length (found k i sq s) \<le> 1"
proof (cases "getScope s k")
  case None
  then show thesis using that by (simp add: store_get_def contents_none found_def)
next
  case (Some a)
  let ?b = "bufs s ! a" and ?c = "score s"
  let ?P = "\<lambda>y. if i \<noteq> [] then ID y = i else Seq y = sq"
  note bi = linked_bufD(6) [OF inv Some]
  have uniq: "x = y" if "x \<in> set (items ?b)" "y \<in> set (items ?b)" "?P x" "?P y" for x y
    using that buf_inv_seq_inj [OF bi] indexes_unique [OF buf_invD(5) [OF bi], of x y] by (auto simp: id_key_def split: if_splits)
  have get: "(if i \<noteq> [] then getByID i ?c ?b else getBySeq sq ?c ?b) = Some r \<longleftrightarrow>
      (\<exists>it \<in> set (items ?b). ?P it \<and> r = materialiseCounter ?c it)" for r
    using getByID_iff [OF bi, of i ?c r] getBySeq_iff [OF bi, of sq ?c r] by auto
  have "find ?P (map (materialiseCounter ?c) (items ?b)) = (if i \<noteq> [] then getByID i ?c ?b else getBySeq sq ?c ?b)"
  proof (cases "find ?P (map (materialiseCounter ?c) (items ?b))")
    case None
    then have "\<forall>x \<in> set (items ?b). \<not> ?P x" by (auto simp: find_None_iff)
    then show ?thesis using get None by (metis option.exhaust)
  next
    case found: (Some r)
    then obtain x where "x \<in> set (items ?b)" "r = materialiseCounter ?c x" "?P (materialiseCounter ?c x)"
      using find_SomeD [OF found] by auto
    then have "\<exists>it \<in> set (items ?b). ?P it \<and> r = materialiseCounter ?c it" by (intro bexI [of _ x]) (simp_all split: if_split_asm)
    then show ?thesis using get found by metis
  qed
  moreover have "length (filter ?P (items ?b)) \<le> 1"
    by (rule filter_le_one [OF buf_inv_distinct [OF bi]]) (rule uniq)
  then have "length (found k i sq s) \<le> 1"
    by (cases "i = []") (simp_all add: found_def contents_look [OF Some] filter_map comp_def)
  ultimately show thesis using that touch_view [OF inv Some, of now]
    by (cases "if i \<noteq> [] then getByID i ?c ?b else getBySeq sq ?c ?b")
      (auto simp: store_get_def Some contents_look [OF Some])
qed

section \<open>Paging\<close>

fun page_all :: "nat \<Rightarrow> clock \<Rightarrow> bytestr \<Rightarrow> u64 \<Rightarrow> int \<Rightarrow> store \<Rightarrow> Item list option" where
  \<comment> \<open>a client that asks for pages until one is not truncated; the fuel bounds their number\<close>
  "page_all 0 clk k after limit s = None"
| "page_all (Suc n) clk k after limit s =
     (case head (clk 0) k after limit s of ((page, truncated, _), s') \<Rightarrow>
        if truncated then map_option ((@) page) (page_all n (later 1 clk) k (Seq (last page)) limit s')
        else Some page)"

lemma past_sorted:
  assumes "store_inv s"
  shows "sorted_wrt (<) (map Seq (past after k s))"
proof (cases "getScope s k")
  case (Some a)
  show ?thesis using buf_invD(1) [OF linked_bufD(6) [OF assms Some]]
    by (simp add: past_look [OF Some] sorted_wrt_map sorted_wrt_filter)
qed (simp add: past_def contents_none)

lemma page_all_complete:
  assumes "good m s" "0 < limit" "length (past after k s) < fuel"
  shows "page_all fuel clk k after limit s = Some (past after k s)"
  using assms(1,3)
proof (induction fuel arbitrary: clk after s)
  case (Suc n)
  let ?xs = "past after k s" and ?l = "nat limit"
  note inv = goodD(1) [OF Suc.prems(1)]
  obtain s' where h: "head (clk 0) k after limit s = ((take ?l ?xs, limit < int (length ?xs), view s k \<noteq> None), s')" "view s' = view s"
    by (rule head_run [OF inv assms(2)])
  show ?case
  proof (cases "limit < int (length ?xs)")
    case False
    then show ?thesis using assms(2) by (simp add: h)
  next
    case True
    then have l: "0 < ?l" "?l < length ?xs" using assms(2) by auto
    let ?a = "Seq (last (take ?l ?xs))"
    have "last (take ?l ?xs) \<in> set ?xs" using l by (intro in_set_takeD [OF last_in_set]) auto
    then have "after < ?a" by (simp add: past_def)
    then have "past ?a k s' = filter (\<lambda>y. ?a < Seq y) ?xs"
      by (auto simp: past_def h(2) intro!: filter_cong)
    also have "\<dots> = drop ?l ?xs" by (rule filter_after_last [OF past_sorted [OF inv] l])
    finally have rest: "past ?a k s' = drop ?l ?xs" .
    have "good m s'" using head_good [OF Suc.prems(1), of "clk 0" k after limit] by (simp add: h(1))
    then have "page_all n (later 1 clk) k ?a limit s' = Some (drop ?l ?xs)"
      using Suc.IH [of s' ?a "later 1 clk"] Suc.prems(2) l rest by simp
    then show ?thesis using True by (simp add: h(1))
  qed
qed simp

section \<open>The scope list\<close>

lemma scopeList_names:
  fixes pre after :: string
  assumes inv: "store_inv s" and limit: "0 < limit"
  defines "names \<equiv> {k. view s k \<noteq> None \<and> has_prefix k pre \<and> (after = [] \<or> after < k)}"
  shows "map sle_Scope (fst (scopeList pre after limit s)) = take (nat limit) (sorted_list_of_set names)"
    "snd (scopeList pre after limit s) \<longleftrightarrow> limit < int (card names)"
proof -
  let ?P = "\<lambda>(name, a). \<not> (pre \<noteq> [] \<and> \<not> has_prefix name pre) \<and> \<not> (after \<noteq> [] \<and> name \<le> after)"
  let ?refs = "concat (map (filter ?P) (dshards (sdirectory s)))"
  have refs: "?refs = filter ?P (linked s)" by (simp add: dir_entries_def filter_concat)
  have P: "?P p \<longleftrightarrow> has_prefix (fst p) pre \<and> (after = [] \<or> after < fst p)" for p
    by (cases p; cases "pre = []") (auto simp: has_prefix_def not_le)
  have dist: "distinct (map fst (linked s))" using sdir.keys_distinct [OF store_invD(1) [OF inv]] .
  have "k \<in> names \<longleftrightarrow> k \<in> fst ` set (filter ?P (linked s))" for k
  proof -
    have "k \<in> names \<longleftrightarrow> (\<exists>a. (k, a) \<in> set (linked s)) \<and> has_prefix k pre \<and> (after = [] \<or> after < k)"
      using getScope_linked [OF inv, of k] by (auto simp: names_def view_none)
    also have "\<dots> \<longleftrightarrow> (\<exists>p \<in> set (linked s). ?P p \<and> fst p = k)" unfolding P by force
    finally show ?thesis by auto
  qed
  then have names: "names = set (map fst ?refs)" unfolding refs by auto
  have d: "distinct (map fst ?refs)" unfolding refs by (rule distinct_map_filter [OF dist])
  have "sorted_list_of_set (set (map fst (sort_key fst ?refs))) = map fst (sort_key fst ?refs)"
    using d by (intro sorted_list_of_set.idem_if_sorted_distinct) (simp_all add: distinct_map)
  then have srt: "map fst (sort_key fst ?refs) = sorted_list_of_set names" by (simp only: names set_map set_sort)
  have card: "card names = length ?refs" unfolding names distinct_card [OF d] by simp
  show "map sle_Scope (fst (scopeList pre after limit s)) = take (nat limit) (sorted_list_of_set names)"
    using limit by (simp add: scopeList_def Let_def comp_def split_def flip: take_map srt [unfolded split_def])
  show "snd (scopeList pre after limit s) \<longleftrightarrow> limit < int (card names)"
    using limit by (simp add: scopeList_def Let_def card)
qed

end
