(* ===== verification/Effects.thy ===== *)
theory Effects
  imports InterleaveOps ReadSpec
begin

text \<open>
  What each request does to the abstract store in the one step it takes effect (\<open>takes_effect\<close>), and that the
  program of every request is linear in this sense.
\<close>

section \<open>The effect of a request\<close>

definition read_at :: "bytestr \<Rightarrow> (core \<Rightarrow> scopeBuffer \<Rightarrow> 'a) \<Rightarrow> 'a option \<Rightarrow> store \<Rightarrow> bool" where
  \<comment> \<open>a read of the scope as it is, of one that is not there, or of a buffer deleted under the reader\<close>
  "read_at k f x s \<longleftrightarrow>
     (case x of
        None \<Rightarrow> getScope s k = None
      | Some y \<Rightarrow> \<exists>a < length (bufs s). y = f (score s) (bufs s ! a) \<and> (getScope s k = Some a \<or> detached (bufs s ! a)))"

definition by_key :: "bytestr \<Rightarrow> u64 \<Rightarrow> core \<Rightarrow> scopeBuffer \<Rightarrow> Item option" where
  "by_key i sq c b = (if i \<noteq> [] then getByID i c b else getBySeq sq c b)"

fun takes_effect :: "clock \<Rightarrow> request \<Rightarrow> reply \<Rightarrow> store \<Rightarrow> store \<Rightarrow> bool" where
  "takes_effect clk (Append it) r s s' \<longleftrightarrow> (\<exists>x. r = Stored x \<and> appended it (clk 1) x s s')"
| "takes_effect clk (Upsert it) r s s' \<longleftrightarrow> (\<exists>x c. r = Upserted x c \<and> view s' = spec_upsert (clk 1) it (view s) \<and>
     (c \<longleftrightarrow> (\<forall>y \<in> set (snd (contents (view s) (Scope it))). ID y \<noteq> ID it)))"
| "takes_effect clk (Update it) r s s' \<longleftrightarrow> view s' = spec_update (clk 0) it (view s) \<and>
     r = Changed (if \<exists>y \<in> set (snd (contents (view s) (Scope it))). addressed it y then 1 else 0)"
| "takes_effect clk (CounterAdd k i d) r s s' \<longleftrightarrow> (\<exists>n c. r = Added n c \<and> \<bar>n\<bar> \<le> MaxCounterValue \<and>
     (case store_counter s k i of Absent \<Rightarrow> c \<and> n = d | Value old \<Rightarrow> \<not> c \<and> n = old + d | NotACounter _ \<Rightarrow> False) \<and>
     store_counter s' k i = Value n \<and> (\<forall>j. j \<noteq> i \<longrightarrow> store_counter s' k j = store_counter s k j) \<and>
     (\<forall>l. l \<noteq> k \<longrightarrow> view s' l = view s l))"
| "takes_effect clk (Delete k i sq) r s s' \<longleftrightarrow> view s' = spec_keep (other_than i sq) k (view s) \<and>
     r = Changed (int (length (snd (contents (view s) k))) - int (length (filter (other_than i sq) (snd (contents (view s) k)))))"
| "takes_effect clk (DeleteUpTo k sq) r s s' \<longleftrightarrow> view s' = spec_keep (\<lambda>y. sq < Seq y) k (view s) \<and>
     r = Changed (int (length (snd (contents (view s) k))) - int (length (filter (\<lambda>y. sq < Seq y) (snd (contents (view s) k)))))"
| "takes_effect clk (DeleteScope k) r s s' \<longleftrightarrow> view s' = (view s)(k := None) \<and>
     r = Removed (int (length (snd (contents (view s) k)))) (view s k \<noteq> None)"
| "takes_effect clk (Rebuild g) r s s' \<longleftrightarrow> (\<exists>n j. r = Rebuilt n j \<and> rebuildAll clk g s = (Inr (n, j), s'))"
| "takes_effect clk Wipe r s s' \<longleftrightarrow> (\<exists>a b c. r = Wiped a b c \<and> wipe clk s = ((a, b, c), s'))"
| "takes_effect clk (Head k sq l) r s s' \<longleftrightarrow> view s' = view s \<and>
     (\<exists>x. read_at k (sinceSeq sq l) x s \<and> r = (case x of None \<Rightarrow> Page [] False False | Some (its, t) \<Rightarrow> Page its t True))"
| "takes_effect clk (Tail k l off) r s s' \<longleftrightarrow> view s' = view s \<and>
     (\<exists>x. read_at k (tailOffset l off) x s \<and> r = (case x of None \<Rightarrow> Page [] False False | Some (its, t) \<Rightarrow> Page its t True))"
| "takes_effect clk (Get k i sq) r s s' \<longleftrightarrow> view s' = view s \<and>
     (\<exists>x. read_at k (by_key i sq) x s \<and> r = Got (case x of None \<Rightarrow> None | Some y \<Rightarrow> y))"
| "takes_effect clk (Render k i sq) r s s' \<longleftrightarrow> view s' = view s \<and>
     (\<exists>x. read_at k (by_key i sq) x s \<and> r = Rendered (rendered (case x of None \<Rightarrow> None | Some y \<Rightarrow> y)))"
| "takes_effect clk (SubscribeTo k) r s s' \<longleftrightarrow> (\<exists>i. r = Channel i \<and> store_Subscribe k s = (Inr i, s'))"
| "takes_effect clk (Unsubscribe k) r s s' \<longleftrightarrow> r = Released \<and> store_unsubscribe k s = (None, s')"
| "takes_effect clk (Warm g) r s s' \<longleftrightarrow> False"
| "takes_effect clk (EnsureScope k) r s s' \<longleftrightarrow> False"

section \<open>Answers\<close>

lemma lin_replying:
  assumes "lin C (\<lambda>d r _. finished h d r) None p s"
  shows "lin C (\<lambda>d r _. finished (\<lambda>x. x) d r) None (replying h p) s"
  unfolding replying_def by (rule lin_seq [OF assms]) (auto simp: finished_def intro!: lin.returned split: sum.splits)

lemma lin_replied:
  assumes "lin C (\<lambda>d r _. d = Some (h r)) None p s"
  shows "lin C (\<lambda>d r _. finished (\<lambda>x. x) d r) None (seq p (\<lambda>r. Ret (Inr (h r)))) s"
  by (rule lin_seq [OF assms]) (auto intro!: lin.returned)

section \<open>Writes\<close>

lemma lin_appendOne:
  assumes "client_item it"
  shows "lin (takes_effect clk (Append it)) (\<lambda>d r _. finished Stored d r) None (appendOne_task clk it) s"
proof -
  have "lin (takes_effect clk (Append it)) (\<lambda>d r _. case r of Inl e \<Rightarrow> d = None \<and> no_panic e | Inr x \<Rightarrow> d = Some (Stored x)) None
      (appendOne_task clk it) s"
    unfolding appendOne_task_def
    by (rule lin_append [OF assms]) (auto intro!: moves_effect lin_emit)
  then show ?thesis by (simp add: finished_def)
qed

lemma lin_upsertOne:
  assumes cl: "client_item it"
  shows "lin (takes_effect clk (Upsert it)) (\<lambda>d r _. finished (\<lambda>(x, c). Upserted x c) d r) None (upsertOne_task clk it) s"
  unfolding upsertOne_task_def
proof (rule lin_seq [OF lin_look [where Q = "\<lambda>d v t. d = None \<and> v = validateUpsertItem it (maxItemBytes (score t))"]])
  let ?C = "takes_effect clk (Upsert it)" and ?h = "\<lambda>(x, c). Upserted x c"
  let ?R = "\<lambda>d r. case r of Inl e \<Rightarrow> d = None \<and> no_panic e | Inr ((x, c), _) \<Rightarrow> d = Some (Upserted x c)"
  show "None = None \<and> validateUpsertItem it (maxItemBytes (score t)) = validateUpsertItem it (maxItemBytes (score t))" for t by simp
  fix d :: "reply option" and v and t :: store assume v: "d = None \<and> v = validateUpsertItem it (maxItemBytes (score t))"
  show "lin ?C (\<lambda>d r _. finished ?h d r) d (case v of
         Inl e \<Rightarrow> Ret (Inl e)
       | Inr it1 \<Rightarrow> seq (on_demand_task (clk 0) (Scope it1) (upsertByID (clk 1) it1)) (\<lambda>r. case r of
             Inl e \<Rightarrow> Ret (Inl e)
           | Inr ((result, itemCreated), scopeCreated) \<Rightarrow>
               answer_task (result, itemCreated) (emit_task (Scope result) (later 2 clk)
                 (writeEvent_zero\<lparr>ev_Op := ''upsert'', ev_Scope := Scope result, ev_ID := ID result, ev_Seq := Seq result,
                    ev_Ts := Ts result, ev_Payload := Payload result\<rparr>)))) t"
  proof (cases v)
    case (Inl e)
    then have "no_panic e" using v validated_not_panic(1) [of it "maxItemBytes (score t)" e] by simp
    then show ?thesis using Inl v by (simp add: lin.returned)
  next
    case (Inr it1)
    have v1: "validateUpsertItem it (maxItemBytes (score t)) = Inr it1" using v Inr by simp
    have V: "it1 = fillRender it" "Scope it1 = Scope it" "ID it1 = ID it" "ID it \<noteq> []"
      using validated_upsert [OF cl v1] by simp_all
    have pl: "plain_ok (score u) (Scope it) (fillRender it)" if "evolves t u" for u
      using validated_upsert(4) [OF cl, of "score u" it1] v1 core_config_eqD [OF evolves_config [OF that]] by simp
    have "lin ?C (\<lambda>d r u. ?R d r \<and> evolves t u) None (on_demand_task (clk 0) (Scope it1) (upsertByID (clk 1) it1)) t"
    proof (rule upsert_op.lin_on_demand [of _ "(clk 1, it1)", unfolded prod.case])
      show "plain_ok (score u) (Scope it1) it1 \<and> ID it1 \<noteq> []" if "evolves t u" for u using pl [OF that] V by simp
      fix m u a y c w
      assume u: "evolves t u" "good m u" "room m" "getScope u (Scope it1) = Some a" "on_buf a (upsertByID (clk 1) it1) u = (Inr y, w)"
      obtain x created where y: "y = (x, created)" by (metis surj_pair)
      note U = upsert_at [OF u(2,3) u(4) [unfolded V(2)] cl V(4) pl [OF u(1)] u(5) [unfolded V(1) y]]
      then have "?C (Upserted x created) u w" unfolding takes_effect.simps by blast
      then have "moves ?C None (Some (Upserted x created)) u w" by (rule moves_effect)
      then show "\<exists>d'. moves ?C None d' u w \<and> (\<forall>c. ?R d' (Inr (y, c)))" using y by auto
    qed simp
    then show ?thesis
      unfolding Inr sum.case conjunct1 [OF v]
      by (rule lin_seq) (auto intro!: lin.returned lin_answer [where h = "\<lambda>(x, c). Upserted x c", of _ "(x, c)" for x c, simplified]
          split: sum.splits)
  qed
qed

lemma lin_bump: "lin C (\<lambda>d' _ _. d' = d) d (call (\<lambda>s. ((), s\<lparr>score := bumpLastWriteTS now (score s)\<rparr>))) s"
proof (rule lin_call)
  fix m t r u
  assume t: "good m t" "((), t\<lparr>score := bumpLastWriteTS now (score t)\<rparr>) = (r, u)"
  have u: "u = t\<lparr>score := bumpLastWriteTS now (score t)\<rparr>" using t(2) by simp
  have "good m u" using bump_inv [OF goodD(1) [OF t(1)], of now] goodD(2) [OF t(1)] by (simp add: u good_def seqs_below_def)
  moreover have "evolves t u" by (simp add: u evolves_def)
  moreover have "view u = view t" unfolding u by (rule score_view) simp
  ultimately show "good (m + 1) u \<and> evolves t u \<and> (\<exists>d'. moves C d d' t u \<and> d' = d)"
    using good_mono [of m u "m + 1"] by (simp add: moves_view)
qed

lemma lin_counterAddOne:
  "lin (takes_effect clk (CounterAdd k i n)) (\<lambda>d r _. finished (\<lambda>(v, c). Added v c) d r) None (counterAddOne_task clk k i n) s"
  unfolding counterAddOne_task_def
proof (rule lin_seq [OF lin_look [where Q = "\<lambda>d v t. d = None \<and> 0 < maxItemBytes (score t) \<and>
    v = validateCounterAddRequest \<lparr>car_Scope = k, car_ID = i, car_By = Some n\<rparr> (maxItemBytesFor (score t) k)"]])
  let ?C = "takes_effect clk (CounterAdd k i n)" and ?h = "\<lambda>(v, c). Added v c"
  let ?v = "\<lambda>s :: store. validateCounterAddRequest \<lparr>car_Scope = k, car_ID = i, car_By = Some n\<rparr> (maxItemBytesFor (score s) k)"
  let ?R = "\<lambda>d r. case r of Inl e \<Rightarrow> d = None \<and> no_panic e | Inr ((v, c), _) \<Rightarrow> d = Some (Added v c)"
  show "None = None \<and> 0 < maxItemBytes (score t) \<and> ?v t = ?v t" if "good m t" for m t
    using store_invD(3) [OF goodD(1) [OF that]] by (simp add: config_ok_def)
  fix d :: "reply option" and v and t :: store
  assume v: "d = None \<and> 0 < maxItemBytes (score t) \<and> v = ?v t"
  show "lin ?C (\<lambda>d r _. finished ?h d r) d (case v of
         Inl e \<Rightarrow> Ret (Inl e)
       | Inr _ \<Rightarrow> seq (on_demand_task (clk 0) k (counterAdd (clk 1) k i n)) (\<lambda>r. case r of
             Inl e \<Rightarrow> Ret (Inl e)
           | Inr ((x, counterCreated), scopeCreated) \<Rightarrow>
               seq (if scopeCreated then call (\<lambda>s. ((), s\<lparr>score := bumpLastWriteTS (clk 2) (score s)\<rparr>)) else Ret ())
                 (\<lambda>_. answer_task (x, counterCreated) (emit_task k (later 3 clk)
                    (writeEvent_zero\<lparr>ev_Op := ''counter_add'', ev_Scope := k, ev_ID := i, ev_By := Some n\<rparr>))))) t"
  proof (cases v)
    case (Inl e)
    then have "no_panic e" using v validated_not_panic(3) [of _ _ e] not_panic_Inl by metis
    then show ?thesis using Inl v by (simp add: lin.returned)
  next
    case (Inr z)
    have adm: "counter_admissible k i n (score u) k" if "evolves t u" for u
      using counter_request_admissible(1) [of k i n "score t" z "score u"] v Inr evolves_config [OF that] by simp
    have "lin ?C (\<lambda>d r u. ?R d r \<and> evolves t u) None (on_demand_task (clk 0) k (counterAdd (clk 1) k i n)) t"
    proof (rule counter_op.lin_on_demand [of _ "(clk 1, k, i, n)", unfolded prod.case])
      show "counter_admissible k i n (score u) k" if "evolves t u" for u by (rule adm [OF that])
      fix m u a y c w
      assume u: "evolves t u" "good m u" "room m" "getScope u k = Some a" "on_buf a (counterAdd (clk 1) k i n) u = (Inr y, w)"
      obtain x created where y: "y = (x, created)" by (metis surj_pair)
      note A = counter_at [OF u(2,3,4) adm [OF u(1)] u(5) [unfolded y]]
      then have "?C (Added x created) u w" unfolding takes_effect.simps by blast
      then have "moves ?C None (Some (Added x created)) u w" by (rule moves_effect)
      then show "\<exists>d'. moves ?C None d' u w \<and> (\<forall>c. ?R d' (Inr (y, c)))" using y by auto
    qed simp
    then show ?thesis
      unfolding Inr sum.case conjunct1 [OF v]
      by (rule lin_seq) (auto intro!: lin.returned lin_seq [OF lin_bump]
          lin_answer [where h = "\<lambda>(x, c). Added x c", of _ "(x, c)" for x c, simplified] split: sum.splits)
  qed
qed

lemma lin_edit:
  assumes miss: "\<And>t. getScope t k = None \<Longrightarrow> C (h 0) t t"
    and hit: "\<And>a t. evolves s t \<Longrightarrow> holds k a t \<Longrightarrow> lin C (\<lambda>d r u. finished h d r \<and> evolves t u) None (call (on_buf a body)) t"
  shows "lin C (\<lambda>d r _. finished h d r) None (edit_task k body (emit_task j clk evt)) s"
  unfolding edit_task_def
proof (rule lin_seq)
  let ?Q = "\<lambda>d hit t. case hit of None \<Rightarrow> d = Some (h 0) | Some a \<Rightarrow> d = None \<and> evolves s t \<and> holds k a t"
  show "lin C ?Q None (getScope_task k) s"
    unfolding getScope_task_def
  proof (rule lin_call)
    fix m t r u assume t: "evolves s t" "good m t" "(getScope t k, t) = (r, u)"
    have g: "good (m + 1) t" using good_mono [OF t(2)] by simp
    show "good (m + 1) u \<and> evolves t u \<and> (\<exists>d'. moves C None d' t u \<and> ?Q d' r u)"
    proof (cases r)
      case None
      then show ?thesis using t g moves_effect [of C "h 0" t t] miss [of t] by auto
    next
      case (Some a)
      then show ?thesis using t g moves_view [of t t C None] holds_link [OF t(2), of k a] by auto
    qed
  qed
  fix d hit t assume q: "?Q d hit t"
  show "lin C (\<lambda>d r _. finished h d r) d (case hit of
         None \<Rightarrow> Ret (Inr 0)
       | Some a \<Rightarrow> seq (call (on_buf a body)) (\<lambda>r. case r of
             Inl e \<Rightarrow> Ret (Inl e)
           | Inr n \<Rightarrow> if 0 < n then answer_task n (emit_task j clk evt) else Ret (Inr n))) t"
  proof (cases hit)
    case None
    then show ?thesis using q by (simp add: lin.returned)
  next
    case (Some a)
    show ?thesis using q Some
      by (auto intro!: lin_seq [OF assms(2)] lin.returned lin_answer split: sum.splits)
  qed
qed

lemma lin_updateOne:
  assumes cl: "client_item it"
  shows "lin (takes_effect clk (Update it)) (\<lambda>d r _. finished Changed d r) None (updateOne_task clk it) s"
  unfolding updateOne_task_def
proof (rule lin_seq [OF lin_look [where Q = "\<lambda>d v t. d = None \<and> v = validateUpdateItem it (maxItemBytes (score t))"]])
  let ?C = "takes_effect clk (Update it)"
  show "None = None \<and> validateUpdateItem it (maxItemBytes (score t)) = validateUpdateItem it (maxItemBytes (score t))" for t by simp
  fix d :: "reply option" and v and t :: store assume v: "d = None \<and> v = validateUpdateItem it (maxItemBytes (score t))"
  show "lin ?C (\<lambda>d r _. finished Changed d r) d (case v of
         Inl e \<Rightarrow> Ret (Inl e)
       | Inr it1 \<Rightarrow> edit_task (Scope it1)
           (if ID it1 \<noteq> [] then updateByID (clk 0) (ID it1) (Payload it1) (renderBytes it1)
            else updateBySeq (clk 0) (Seq it1) (Payload it1) (renderBytes it1))
           (emit_task (Scope it1) (later 1 clk)
             (writeEvent_zero\<lparr>ev_Op := ''update'', ev_Scope := Scope it1, ev_ID := ID it1, ev_Seq := Seq it1,
                ev_Payload := Payload it1\<rparr>))) t"
  proof (cases v)
    case (Inl e)
    then have "no_panic e" using v validated_not_panic(2) [of it _ e] not_panic_Inl by metis
    then show ?thesis using Inl v by (simp add: lin.returned)
  next
    case (Inr it1)
    have v1: "validateUpdateItem it (maxItemBytes (score t)) = Inr it1" using v Inr by simp
    note V = validated_update [OF cl v1]
    let ?f = "if ID it1 \<noteq> [] then updateByID (clk 0) (ID it1) (Payload it1) (renderBytes it1)
            else updateBySeq (clk 0) (Seq it1) (Payload it1) (renderBytes it1)"
    have sz: "update_size (Scope it1) (ID it1) (Payload it1) (renderBytes it1) \<le> maxItemBytesFor (score u) (Scope it1)"
      if "evolves t u" for u using V(2) config_cap [OF that, of "Scope it1"] by simp
    have eff: "\<exists>d'. moves ?C None d' u w \<and> finished Changed d' (Inr n)"
      if u: "evolves t u" "good m u" "room m" "getScope u (Scope it1) = Some a" "on_buf a ?f u = (Inr n, w)" for m u a n w
    proof -
      have "?C (Changed n) u w"
        using update_at(2,3) [OF u(2,3,4) cl V(3,4,1) sz [OF u(1)] u(5) refl] unfolding takes_effect.simps by blast
      from moves_effect [of ?C, OF this] show ?thesis by (intro exI [of _ "Some (Changed n)"]) simp
    qed
    have "lin ?C (\<lambda>d r _. finished Changed d r) None (edit_task (Scope it1) ?f (emit_task (Scope it1) (later 1 clk)
             (writeEvent_zero\<lparr>ev_Op := ''update'', ev_Scope := Scope it1, ev_ID := ID it1, ev_Seq := Seq it1,
                ev_Payload := Payload it1\<rparr>))) t"
    proof (rule lin_edit)
      show "?C (Changed 0) u u" if "getScope u (Scope it1) = None" for u
        using that V(4) by (simp add: spec_update_def view_def contents_def)
      show "lin ?C (\<lambda>d r w. finished Changed d r \<and> evolves u w) None (call (on_buf a ?f)) u"
        if tu: "evolves t u" "holds (Scope it1) a u" for a u
      proof (cases "ID it1 \<noteq> []")
        case True
        have "lin ?C (\<lambda>d r w. finished Changed d r \<and> evolves u w) None
            (call (on_buf a (updateByID (clk 0) (ID it1) (Payload it1) (renderBytes it1)))) u"
        proof (rule update_id_op.lin_on_buf [of _ _ _ "(clk 0, ID it1, Payload it1, renderBytes it1)", unfolded prod.case, OF tu(2)])
          show "update_ok (Payload it1) (renderBytes it1) \<and>
              update_size (Scope it1) (ID it1) (Payload it1) (renderBytes it1) \<le> maxItemBytesFor (score w) (Scope it1)"
            if "evolves u w" for w using V(1) sz [OF evolves_trans [OF tu(1) that]] by simp
        qed (use eff [OF evolves_trans [OF tu(1)]] True in auto)
        then show ?thesis using True by simp
      next
        case False
        have "lin ?C (\<lambda>d r w. finished Changed d r \<and> evolves u w) None
            (call (on_buf a (updateBySeq (clk 0) (Seq it1) (Payload it1) (renderBytes it1)))) u"
          by (rule update_seq_op.lin_on_buf [of _ _ _ "(clk 0, Seq it1, Payload it1, renderBytes it1)", unfolded prod.case, OF tu(2)])
            (use V(1) eff [OF evolves_trans [OF tu(1)]] False in auto)
        then show ?thesis using False by simp
      qed
    qed
    then show ?thesis using Inr v by simp
  qed
qed

lemma lin_deleteOne:
  "lin (takes_effect clk (Delete k i sq)) (\<lambda>d r _. finished Changed d r) None (deleteOne_task clk k i sq) s"
proof (cases "validateDeleteRequest \<lparr>dr_Scope = k, dr_ID = i, dr_Seq = sq\<rparr>")
  case (Inl e)
  then have "no_panic e" using validated_not_panic(4) [of _ e] not_panic_Inl by metis
  then show ?thesis using Inl by (simp add: deleteOne_task_def lin.returned)
next
  case (Inr z)
  let ?C = "takes_effect clk (Delete k i sq)" and ?f = "if i \<noteq> [] then deleteByID (clk 0) i else deleteBySeq (clk 0) sq"
  have eff: "\<exists>d'. moves ?C None d' u w \<and> finished Changed d' (Inr n)"
    if u: "good m u" "room m" "getScope u k = Some a" "on_buf a ?f u = (Inr n, w)" for m u a n w
  proof -
    have "?C (Changed n) u w" using delete_at(1,2) [OF u] unfolding takes_effect.simps by simp
    from moves_effect [of ?C, OF this] show ?thesis by (intro exI [of _ "Some (Changed n)"]) simp
  qed
  have "lin ?C (\<lambda>d r _. finished Changed d r) None (edit_task k ?f (emit_task k (later 1 clk)
      (writeEvent_zero\<lparr>ev_Op := ''delete'', ev_Scope := k, ev_ID := i, ev_Seq := sq\<rparr>))) s"
  proof (rule lin_edit)
    show "?C (Changed 0) u u" if "getScope u k = None" for u using that by (simp add: spec_keep_def view_def contents_def)
    show "lin ?C (\<lambda>d r w. finished Changed d r \<and> evolves u w) None (call (on_buf a ?f)) u" if h: "holds k a u" for a u
    proof (cases "i \<noteq> []")
      case True
      have "lin ?C (\<lambda>d r w. finished Changed d r \<and> evolves u w) None (call (on_buf a (deleteByID (clk 0) i))) u"
        by (rule delete_id_op.lin_on_buf [of _ _ _ "(clk 0, i)", unfolded prod.case, OF h]) (use eff True in auto)
      then show ?thesis using True by simp
    next
      case False
      have "lin ?C (\<lambda>d r w. finished Changed d r \<and> evolves u w) None (call (on_buf a (deleteBySeq (clk 0) sq))) u"
        by (rule delete_seq_op.lin_on_buf [of _ _ _ "(clk 0, sq)", unfolded prod.case, OF h]) (use eff False in auto)
      then show ?thesis using False by simp
    qed
  qed
  then show ?thesis using Inr by (simp add: deleteOne_task_def)
qed

lemma lin_deleteUpTo:
  "lin (takes_effect clk (DeleteUpTo k sq)) (\<lambda>d r _. finished Changed d r) None (deleteUpTo_task clk k sq) s"
proof (cases "validateDeleteUpToRequest \<lparr>dur_Scope = k, dur_MaxSeq = sq\<rparr>")
  case (Inl e)
  then have "no_panic e" using validated_not_panic(6) [of _ e] not_panic_Inl by metis
  then show ?thesis using Inl by (simp add: deleteUpTo_task_def lin.returned)
next
  case (Inr z)
  let ?C = "takes_effect clk (DeleteUpTo k sq)"
  have eff: "\<exists>d'. moves ?C None d' u w \<and> finished Changed d' (Inr n)"
    if u: "good m u" "room m" "getScope u k = Some a" "on_buf a (deleteUpToSeq (clk 0) sq) u = (Inr n, w)" for m u a n w
  proof -
    have "?C (Changed n) u w" using deleteUpTo_at(1,2) [OF u] unfolding takes_effect.simps by simp
    from moves_effect [of ?C, OF this] show ?thesis by (intro exI [of _ "Some (Changed n)"]) simp
  qed
  have "lin ?C (\<lambda>d r _. finished Changed d r) None (edit_task k (deleteUpToSeq (clk 0) sq) (emit_task k (later 1 clk)
      (writeEvent_zero\<lparr>ev_Op := ''delete_up_to'', ev_Scope := k, ev_MaxSeq := sq\<rparr>))) s"
  proof (rule lin_edit)
    show "?C (Changed 0) u u" if "getScope u k = None" for u using that by (simp add: spec_keep_def view_def contents_def)
    show "lin ?C (\<lambda>d r w. finished Changed d r \<and> evolves u w) None (call (on_buf a (deleteUpToSeq (clk 0) sq))) u"
      if h: "holds k a u" for a u
      by (rule drain_op.lin_on_buf [of _ _ _ "(clk 0, sq)", unfolded prod.case, OF h]) (use eff in auto)
  qed
  then show ?thesis using Inr by (simp add: deleteUpTo_task_def)
qed

lemma lin_deleteScope:
  "lin (takes_effect clk (DeleteScope k)) (\<lambda>d r _. finished (\<lambda>(n, c). Removed n c) d r) None (deleteScope_task clk k) s"
proof (cases "validateDeleteScopeRequest \<lparr>dsr_Scope = k\<rparr>")
  case (Inl e)
  then have "no_panic e" using validated_not_panic(5) [of _ e] not_panic_Inl by metis
  then show ?thesis using Inl by (simp add: deleteScope_task_def lin.returned)
next
  case (Inr z)
  then have res: "\<not> isReservedScope k"
    by (auto simp: validateDeleteScopeRequest_def first_err_None rejectReserved_def split: if_splits)
  let ?C = "takes_effect clk (DeleteScope k)"
  have sec: "lin ?C (\<lambda>d r _. d = Some (Removed (fst r) (snd r))) None (call (removeScope (clk 0) k)) s"
  proof (rule lin_call)
    fix m t r u assume t: "good m t" "removeScope (clk 0) k t = (r, u)"
    note inv = goodD(1) [OF t(1)]
    obtain n hit where r: "r = (n, hit)" by (metis surj_pair)
    have "good m u \<and> evolves t u \<and> ?C (Removed n hit) t u"
    proof (cases "getScope t k")
      case None
      then have "view t k = None" by (simp add: view_def)
      moreover from this have "(view t)(k := None) = view t" by (simp add: fun_upd_idem)
      ultimately show ?thesis using None t r by (simp add: removeScope_def contents_def)
    next
      case (Some a)
      let ?c = "released_core (clk 0) (bufs t ! a) (score t)"
      have u: "u = unlinkScope k a (t\<lparr>score := ?c\<rparr>)" "n = int (length (items (bufs t ! a)))" hit
        using t(2) unfolding r removeScope_def Some option.case Let_def released_core_eq [OF inv Some] by simp_all
      have cfg: "core_config ?c = core_config (score t)" "cells ?c = cells (score t)"
        by (simp_all add: released_core_def core_config_def bumpLastWriteTS_def add_scopeCount_def add_totalItems_def)
      have "store_inv u" unfolding u(1)
        by (rule unlinkScope_inv [OF inv Some res]) (simp_all add: released_core_def core_config_def bumpLastWriteTS_def add_scopeCount_def add_totalItems_def)
      then have "good m u" using unlinkScope_seqs [OF inv Some goodD(2) [OF t(1)], of ?c] by (simp add: good_def u(1))
      moreover have "evolves t u" unfolding u(1) by (rule unlink_evolves [OF inv Some cfg(1)])
      moreover have "view u = (view t)(k := None)" unfolding u(1) by (rule unlink_view [OF inv Some cfg(2)])
      ultimately show ?thesis using u(2,3) Some by (simp add: view_def contents_def buf_view_def)
    qed
    then show "good (m + 1) u \<and> evolves t u \<and> (\<exists>d'. moves ?C None d' t u \<and> d' = Some (Removed (fst r) (snd r)))"
      using good_mono [of m u "m + 1"] moves_effect [of ?C "Removed n hit" t u] r by simp
  qed
  have "lin ?C (\<lambda>d r _. finished (\<lambda>(n, c). Removed n c) d r) None (seq (call (removeScope (clk 0) k)) (\<lambda>(n, hit).
          if hit then answer_task (n, True) (emit_task k (later 1 (later 1 clk))
             (writeEvent_zero\<lparr>ev_Op := ''delete_scope'', ev_Scope := k, ev_Ts := later 1 clk 0\<rparr>))
          else Ret (Inr (n, False)))) s"
    by (rule lin_seq [OF sec]) (auto intro!: lin.returned
        lin_answer [where h = "\<lambda>(n, c). Removed n c", of _ "(n, True)" for n, simplified] split: prod.splits)
  then show ?thesis using Inr by (simp add: deleteScope_task_def)
qed

section \<open>Bulk operations and subscriptions\<close>

lemma swapped_evolves:
  assumes "good m s'" "core_config (score s') = core_config (score s)" "length (bufs s) \<le> length (bufs s')"
    "\<And>a. a < length (bufs s) \<Longrightarrow> detached (bufs s' ! a)"
  shows "evolves s s'"
  using assms linked_bufD(4) [OF goodD(1) [OF assms(1)]] by (auto simp: evolves_def)

lemma lin_wipe: "lin (takes_effect clk Wipe) (\<lambda>d r _. d = Some ((\<lambda>(a, b, c). Wiped a b c) r)) None (call (wipe clk)) s"
proof (rule lin_call)
  let ?C = "takes_effect clk Wipe"
  fix m t r u assume t: "good m t" "wipe clk t = (r, u)"
  obtain a b c where r: "r = (a, b, c)" by (metis prod_cases3)
  note W = wipe_good [OF goodD(1) [OF t(1)] t(2)]
  have "evolves t u" by (rule swapped_evolves [OF W(1,6,11,9)])
  moreover have "moves ?C None (Some (Wiped a b c)) t u" by (rule moves_effect) (use t(2) r in simp)
  ultimately show "good (m + 1) u \<and> evolves t u \<and> (\<exists>d'. moves ?C None d' t u \<and> d' = Some ((\<lambda>(a, b, c). Wiped a b c) r))"
    using good_mono [OF W(1), of "m + 1"] r by simp
qed

lemma lin_rebuildAll:
  assumes "request_ok (Rebuild g)"
  shows "lin (takes_effect clk (Rebuild g)) (\<lambda>d r _. finished (\<lambda>(n, j). Rebuilt n j) d r) None (call (rebuildAll clk g)) s"
proof (rule lin_call)
  let ?C = "takes_effect clk (Rebuild g)"
  fix m t r u assume t: "good m t" "half \<le> m" "rebuildAll clk g t = (r, u)"
  have cl: "client_batch g" "batch_bytes g + reservedScopesOverhead \<le> MaxInt64" using assms by simp_all
  have mx: "defaultMaxItems (score t) \<le> int m"
    by (rule half_ge [OF _ t(2)]) (use store_invD(3) [OF goodD(1) [OF t(1)]] in \<open>simp add: config_ok_def\<close>)
  note R = rebuildAll_good [OF t(1) cl mx t(3)]
  have "evolves t u \<and> (\<exists>d'. moves ?C None d' t u \<and> finished (\<lambda>(n, j). Rebuilt n j) d' r)"
  proof (cases r)
    case (Inl e)
    then show ?thesis using R(2) R(4) [OF Inl] moves_view [of t t ?C None] by auto
  next
    case (Inr x)
    obtain n j where x: "x = (n, j)" by (metis surj_pair)
    have res: "length (bufs t) \<le> length (bufs u)" "\<And>a. a < length (bufs t) \<Longrightarrow> detached (bufs u ! a)"
      using R(5) [OF Inr [unfolded x]] by (auto simp: rebuild_result_def)
    have "evolves t u" by (rule swapped_evolves [OF R(1,3) res])
    moreover have "moves ?C None (Some (Rebuilt n j)) t u" by (rule moves_effect) (use t(3) Inr x in simp)
    ultimately show ?thesis using Inr x by auto
  qed
  then show "good (m + 1) u \<and> evolves t u \<and> (\<exists>d'. moves ?C None d' t u \<and> finished (\<lambda>(n, j). Rebuilt n j) d' r)"
    using good_mono [OF R(1), of "m + 1"] by simp
qed

lemma lin_Subscribe: "lin (takes_effect clk (SubscribeTo k)) (\<lambda>d r _. finished Channel d r) None (call (store_Subscribe k)) s"
proof (rule lin_call)
  let ?C = "takes_effect clk (SubscribeTo k)"
  fix m t r u assume t: "good m t" "store_Subscribe k t = (r, u)"
  have g: "good (m + 1) u" using store_Subscribe_good [OF t(1), of k] t(2) good_mono [of m u "m + 1"] by simp
  have u: "evolves t u" "view u = view t"
    using t(2) by (auto simp: store_Subscribe_def evolves_def view_def getScope_def fun_eq_iff split: prod.splits)
  show "good (m + 1) u \<and> evolves t u \<and> (\<exists>d'. moves ?C None d' t u \<and> finished Channel d' r)"
  proof (cases r)
    case (Inl e)
    then have "no_panic e" using t(2) by (auto simp: store_Subscribe_def Subscribe_def no_panic_def Let_def split: prod.splits if_splits)
    then show ?thesis using g u Inl by (auto intro: moves_view)
  next
    case (Inr i)
    have "moves ?C None (Some (Channel i)) t u" by (rule moves_effect) (use t(2) Inr in simp)
    then show ?thesis using g u(1) Inr by auto
  qed
qed

lemma lin_unsubscribe:
  "lin (takes_effect clk (Unsubscribe k)) (\<lambda>d r _. r = None \<and> d = Some Released) None (call (store_unsubscribe k)) s"
proof (rule lin_call)
  let ?C = "takes_effect clk (Unsubscribe k)"
  fix m t r u assume t: "good m t" "store_unsubscribe k t = (r, u)"
  have g: "good (m + 1) u" "r = None"
    using store_unsubscribe_good [OF t(1), of k] t(2) good_mono [of m u "m + 1"] by simp_all
  have "evolves t u" using t(2) by (auto simp: store_unsubscribe_def evolves_def getScope_def split: prod.splits)
  moreover have "moves ?C None (Some Released) t u" by (rule moves_effect) (use t(2) g(2) in simp)
  ultimately show "good (m + 1) u \<and> evolves t u \<and> (\<exists>d'. moves ?C None d' t u \<and> r = None \<and> d' = Some Released)"
    using g by auto
qed

section \<open>Reads\<close>

lemma touch_held:
  assumes g: "good m s" and h: "holds k a s"
  shows "good m (touch now a s) \<and> evolves s (touch now a s) \<and> view (touch now a s) = view s"
proof -
  have ev: "evolves s (touch now a s)" by (simp add: evolves_def touch_def getScope_def)
  show ?thesis
    using g h
  proof (cases rule: holds_cases)
    case 1
    then show ?thesis using touch_good [OF g] touch_view [OF goodD(1) [OF g]] ev by blast
  next
    case 2
    let ?bs = "(bufs s)[a := recordRead now (bufs s ! a)]"
    have away: "?bs ! snd p = bufs s ! snd p" if "p \<in> set (linked s)" for p
      using 2(3) that by (metis imageI nth_list_update_neq)
    have "bufs_ok (score s) (set (linked s)) ?bs"
      unfolding bufs_ok_def
    proof (intro conjI ballI allI impI)
      note ok = store_invD(6) [OF goodD(1) [OF g], unfolded bufs_ok_def]
      show "inj_on snd (set (linked s))" using ok by simp
      show "linked_ok (score s) ?bs p" if "p \<in> set (linked s)" for p using ok that away [OF that] by (simp add: linked_ok_def)
      show "detached (?bs ! x)" "\<not> attached (?bs ! x)" if "x < length ?bs" "x \<notin> snd ` set (linked s)" for x
        using ok that 2(1,2) by (cases "x = a"; simp add: recordRead_def)+
      show "set (cell_refs (items (?bs ! snd p))) \<inter> set (cell_refs (items (?bs ! snd q))) = {}"
        if "p \<in> set (linked s)" "q \<in> set (linked s)" "p \<noteq> q" for p q
        using ok that away [OF that(1)] away [OF that(2)] by simp
    qed
    moreover have "sdir.total (scope_charge ?bs) (sdirectory s) = sdir.total (scope_charge (bufs s)) (sdirectory s)"
      "sdir.total (scope_items ?bs) (sdirectory s) = sdir.total (scope_items (bufs s)) (sdirectory s)"
      using away by (auto intro!: sdir.total_cong simp: scope_charge_def scope_items_def)
    ultimately have "store_inv (touch now a s)"
      using goodD(1) [OF g] by (simp add: inv_defs touch_def getScope_def)
    moreover have "seqs_below m (touch now a s)"
      using goodD(2) [OF g] away by (simp add: seqs_below_def touch_def)
    moreover have "view (touch now a s) j = view s j" for j
    proof (cases "getScope s j")
      case (Some x)
      moreover from this have "x \<noteq> a" using 2(4) [of j] by auto
      ultimately show ?thesis by (simp add: view_def touch_def getScope_def)
    qed (simp add: view_def touch_def getScope_def)
    ultimately show ?thesis using ev by (simp add: good_def fun_eq_iff)
  qed
qed

lemma lin_touch:
  assumes "holds k a s"
  shows "lin C (\<lambda>d' _ _. d' = d) d (call (\<lambda>s. ((), touch now a s))) s"
proof (rule lin_call)
  fix m t r u assume t: "evolves s t" "good m t" "((), touch now a t) = (r, u)"
  show "good (m + 1) u \<and> evolves t u \<and> (\<exists>d'. moves C d d' t u \<and> d' = d)"
    using touch_held [OF t(2) holds_evolves [OF assms t(1)], of now] good_mono [of m u "m + 1"] t(3) by (auto intro: moves_view)
qed

lemma lin_lookup:
  \<comment> \<open>a read: the lookup of the scope and, when there is one, the read of its buffer\<close>
  assumes eff: "\<And>x t. read_at k f x t \<Longrightarrow> C (h x) t t"
    and miss: "\<And>t. lin C R (Some (h None)) g0 t"
    and hit: "\<And>a y t. holds k a t \<Longrightarrow> lin C R (Some (h (Some y))) (g a y) t"
  shows "lin C R None (seq (getScope_task k) (\<lambda>r. case r of None \<Rightarrow> g0
    | Some a \<Rightarrow> seq (call (\<lambda>s. (f (score s) (bufs s ! a), s))) (g a))) s"
proof (rule lin_seq)
  let ?Q = "\<lambda>d hit t. case hit of None \<Rightarrow> d = Some (h None) | Some a \<Rightarrow> d = None \<and> holds k a t"
  show "lin C ?Q None (getScope_task k) s"
    unfolding getScope_task_def
  proof (rule lin_call)
    fix m t r u assume t: "good m t" "(getScope t k, t) = (r, u)"
    have g: "good (m + 1) t" using good_mono [OF t(1)] by simp
    show "good (m + 1) u \<and> evolves t u \<and> (\<exists>d'. moves C None d' t u \<and> ?Q d' r u)"
    proof (cases r)
      case None
      then have "getScope t k = None" "u = t" using t(2) by auto
      moreover from this have "C (h None) t t" by (intro eff) (simp add: read_at_def)
      ultimately show ?thesis using g None moves_effect [of C "h None" t t] by auto
    next
      case (Some a)
      then show ?thesis using t g moves_view [of t t C None] holds_link [OF t(1), of k a] by auto
    qed
  qed
  fix d r t assume q: "?Q d r t"
  show "lin C R d (case r of None \<Rightarrow> g0
    | Some a \<Rightarrow> seq (call (\<lambda>s. (f (score s) (bufs s ! a), s))) (g a)) t"
  proof (cases r)
    case None
    then show ?thesis using q miss by simp
  next
    case (Some a)
    have d: "d = None" "holds k a t" using q Some by simp_all
    have "lin C (\<lambda>d y u. d = Some (h (Some y)) \<and> holds k a u) None (call (\<lambda>s. (f (score s) (bufs s ! a), s))) t"
    proof (rule lin_call)
      fix m u y w assume u: "evolves t u" "good m u" "(f (score u) (bufs u ! a), u) = (y, w)"
      have hu: "holds k a u" by (rule holds_evolves [OF d(2) u(1)])
      from u(2) hu have "getScope u k = Some a \<or> detached (bufs u ! a)" by (cases rule: holds_cases) simp_all
      then have "read_at k f (Some y) u" using u(3) hu by (auto simp: read_at_def holds_def)
      then have "moves C None (Some (h (Some y))) u u" by (intro moves_effect eff)
      then show "good (m + 1) w \<and> evolves u w \<and> (\<exists>d'. moves C None d' u w \<and> d' = Some (h (Some y)) \<and> holds k a w)"
        using u hu good_mono [OF u(2), of "m + 1"] by auto
    qed
    then show ?thesis
      unfolding Some option.case d(1) by (rule lin_seq) (auto intro: hit)
  qed
qed

lemma lin_page:
  assumes "\<And>x t. read_at k f x t \<Longrightarrow> C (case x of None \<Rightarrow> Page [] False False | Some (its, b) \<Rightarrow> Page its b True) t t"
  shows "lin C (\<lambda>d r _. finished (\<lambda>x. x) d r) None (seq (page_task now k f) (\<lambda>(a, b, c). Ret (Inr (Page a b c)))) s"
proof (rule lin_seq)
  show "lin C (\<lambda>d r _. d = Some ((\<lambda>(a, b, c). Page a b c) r)) None (page_task now k f) s"
    unfolding page_task_def
    by (rule lin_lookup [where f = f and h = "\<lambda>x. case x of None \<Rightarrow> Page [] False False | Some (its, b) \<Rightarrow> Page its b True"])
      (use assms in \<open>auto intro!: lin.returned lin_seq [OF lin_touch] split: prod.splits\<close>)
qed (auto intro: lin.returned)

lemma lin_get:
  assumes "\<And>x t. read_at k (by_key i sq) x t \<Longrightarrow> C (h (case x of None \<Rightarrow> None | Some y \<Rightarrow> y)) t t"
  shows "lin C (\<lambda>d r _. finished (\<lambda>x. x) d r) None (seq (get_task now k i sq) (\<lambda>x. Ret (Inr (h x)))) s"
proof (rule lin_replied)
  show "lin C (\<lambda>d r _. d = Some (h r)) None (get_task now k i sq) s"
    unfolding get_task_def by_key_def [symmetric]
    by (rule lin_lookup [where f = "by_key i sq" and h = "\<lambda>x. h (case x of None \<Rightarrow> None | Some y \<Rightarrow> y)"])
      (use assms in \<open>auto intro!: lin.returned lin_seq [OF lin_touch] split: option.splits\<close>)
qed

section \<open>Every request\<close>

lemma lin_request:
  assumes ok: "request_ok rq" and task: "task_of clk rq = Some p"
  shows "lin (takes_effect clk rq) (\<lambda>d r _. finished (\<lambda>x. x) d r) None p s"
proof (cases rq)
  case (Append it)
  then show ?thesis using ok task lin_appendOne [of it clk s] by (auto intro: lin_replying)
next
  case (Upsert it)
  then show ?thesis using ok task lin_upsertOne [of it clk s] by (auto intro: lin_replying)
next
  case (Update it)
  then show ?thesis using ok task lin_updateOne [of it clk s] by (auto intro: lin_replying)
next
  case (CounterAdd k i n)
  then show ?thesis using task lin_counterAddOne [of clk k i n s] by (auto intro: lin_replying)
next
  case (Delete k i sq)
  then show ?thesis using task lin_deleteOne [of clk k i sq s] by (auto intro: lin_replying)
next
  case (DeleteUpTo k sq)
  then show ?thesis using task lin_deleteUpTo [of clk k sq s] by (auto intro: lin_replying)
next
  case (DeleteScope k)
  then show ?thesis using task lin_deleteScope [of clk k s] by (auto intro: lin_replying)
next
  case (Rebuild g)
  then show ?thesis using ok task lin_rebuildAll [of g clk s] by (auto intro: lin_replying)
next
  case Wipe
  then show ?thesis using task by (auto intro!: lin_seq [OF lin_wipe] lin.returned split: prod.splits)
next
  case (Head k sq l)
  then show ?thesis using task by (auto intro!: lin_page)
next
  case (Tail k l off)
  then show ?thesis using task by (auto intro!: lin_page)
next
  case (Get k i sq)
  then show ?thesis using task by (auto intro!: lin_get)
next
  case (Render k i sq)
  then show ?thesis using task by (auto intro!: lin_get)
next
  case (SubscribeTo k)
  then show ?thesis using task lin_Subscribe [of clk k s] by (auto intro: lin_replying)
next
  case (Unsubscribe k)
  then show ?thesis using task by (auto intro!: lin_seq [OF lin_unsubscribe] lin.returned)
qed (use task in simp_all)

end
