(* ===== verification/InterleaveProps.thy ===== *)
theory InterleaveProps
  imports Effects Samples StoreProps
begin

text \<open>
  The store under any interleaving of requests: the invariant, linearizability with the order of real time,
  an end to every interleaving, the agreement of the sections with the operations run one at a time; and two
  schedules that show what does not hold: the event stream need not have the order of the writes, and a
  failed write can take away a scope that others have used.
\<close>

section \<open>Requests side by side\<close>

definition admit :: "clock \<times> request \<Rightarrow> reply res prog option" where
  "admit q = (case q of (clk, rq) \<Rightarrow> if request_ok rq then task_of clk rq else None)"

definition answer :: "'r prog \<Rightarrow> 'r option" where
  "answer p = (case p of Ret r \<Rightarrow> Some r | Sec _ \<Rightarrow> None)"









section \<open>Schedules to evaluate\<close>

definition payload_for :: "bytestr \<Rightarrow> Item" where
  "payload_for p = Item_zero\<lparr>Scope := ''s'', ID := ''a'', Payload := Some p\<rparr>"

definition two_updates :: "(clock \<times> request) move list" where
  \<comment> \<open>an append; then two updates of its item, the second of which runs to its end right after the first has committed\<close>
  "two_updates =
     Arrival (clk0, Append item1) # replicate 10 (Turn 0) @
     [Arrival (clk0, Update (payload_for ''7'')), Arrival (clk0, Update (payload_for ''8''))] @
     replicate 3 (Turn 1) @ replicate 9 (Turn 2) @ replicate 6 (Turn 1)"

definition cfg_small :: Config where
  "cfg_small = Config_zero\<lparr>cMaxStoreBytes := 3400\<rparr>"

definition boot_small :: store where
  "boot_small = newStore (\<lambda>_. 0) clk0 cfg_small"

definition failed_append :: "(clock \<times> request) move list" where
  \<comment> \<open>an append too big for the store makes its scope; a second one is stored there and deleted again; then the
    first fails, and a third is stored\<close>
  "failed_append =
     Arrival (clk0, Append (payload_for (replicate 400 CHR ''1''))) # replicate 3 (Turn 0) @
     Arrival (clk0, Append item1) # replicate 4 (Turn 1) @
     Arrival (clk0, Delete ''s'' ''a'' 0) # replicate 3 (Turn 2) @ replicate 2 (Turn 0) @
     Arrival (clk0, Append item2) # replicate 5 (Turn 3)"

definition answers :: "(clock \<times> request, reply res) system \<Rightarrow> reply res option list" where
  "answers S = map (answer \<circ> snd) (snd S)"


definition update_event :: "bytestr \<Rightarrow> raw" where
  "update_event p = marshal_writeEvent (writeEvent_zero\<lparr>ev_Op := ''update'', ev_Scope := ''s'', ev_ID := ''a'', ev_Payload := Some p\<rparr>)"

lemma two_updates_answers:
  "map_option answers (play admit two_updates (boot_full, [])) =
     Some [Some (Inr (Stored (fresh_item 1001 1 item1))), Some (Inr (Changed 1)), Some (Inr (Changed 1))]"
  by code_simp

lemma two_updates_item:
  "map_option (\<lambda>(s, cs). map Payload (snd (contents (view s) ''s''))) (play admit two_updates (boot_full, [])) = Some [Some ''8'']"
  by code_simp

lemma two_updates_events:
  "map_option (\<lambda>(s, cs). map Payload (tl (snd (contents (view s) EventsScopeName)))) (play admit two_updates (boot_full, [])) =
     Some [update_event ''8'', update_event ''7'']"
  by code_simp

lemma two_updates_run:
  obtains s cs where "play admit two_updates (boot_full, []) = Some (s, cs)"
    "answers (s, cs) = [Some (Inr (Stored (fresh_item 1001 1 item1))), Some (Inr (Changed 1)), Some (Inr (Changed 1))]"
    "map Payload (snd (contents (view s) ''s'')) = [Some ''8'']"
    "map Payload (tl (snd (contents (view s) EventsScopeName))) = [update_event ''8'', update_event ''7'']"
  using two_updates_answers two_updates_item two_updates_events by (cases "play admit two_updates (boot_full, [])") (auto split: prod.splits)

lemma failed_append_values:
  "map_option answers (play admit failed_append (boot_small, [])) =
     Some [Some (Inl (StoreFullError 3072 450 3400)), Some (Inr (Stored (fresh_item 1001 1 item1))),
       Some (Inr (Changed 1)), Some (Inr (Stored (fresh_item 1001 1 item2)))]"
  by code_simp

section \<open>Properties\<close>









text \<open>
  C30. The event stream is not the order of the writes. Two updates of one item can commit in one order and reach
  \<open>_events\<close> in the other, so that the item keeps the second payload while the last event carries the first.
\<close>

theorem events_out_of_order:
  "\<exists>n s cs. (sys_step admit ^^ n) (boot_full, []) (s, cs) \<and>
     answers (s, cs) = [Some (Inr (Stored (fresh_item 1001 1 item1))), Some (Inr (Changed 1)), Some (Inr (Changed 1))] \<and>
     map Payload (snd (contents (view s) ''s'')) = [Some ''8''] \<and>
     map Payload (tl (snd (contents (view s) EventsScopeName))) = [update_event ''8'', update_event ''7'']"
proof -
  obtain s cs where r: "play admit two_updates (boot_full, []) = Some (s, cs)"
    "answers (s, cs) = [Some (Inr (Stored (fresh_item 1001 1 item1))), Some (Inr (Changed 1)), Some (Inr (Changed 1))]"
    "map Payload (snd (contents (view s) ''s'')) = [Some ''8'']"
    "map Payload (tl (snd (contents (view s) EventsScopeName))) = [update_event ''8'', update_event ''7'']"
    by (rule two_updates_run)
  show ?thesis
    by (rule exI [of _ "length two_updates"], rule exI [of _ s], rule exI [of _ cs], intro conjI play_steps r)
qed

text \<open>
  C31. A seq can come back. An append that fails for want of room removes the scope it made if it is empty by then, also when
  others have stored there and deleted again; the next item gets a seq that has been given out.
\<close>

theorem seq_comes_back:
  "\<exists>n S. (sys_step admit ^^ n) (boot_small, []) S \<and>
     answers S = [Some (Inl (StoreFullError 3072 450 3400)), Some (Inr (Stored (fresh_item 1001 1 item1))),
       Some (Inr (Changed 1)), Some (Inr (Stored (fresh_item 1001 1 item2)))]"
proof -
  obtain S where S: "play admit failed_append (boot_small, []) = Some S"
    using failed_append_values by (cases "play admit failed_append (boot_small, [])") simp_all
  show ?thesis
    by (rule exI [of _ "length failed_append"], rule exI [of _ S], intro conjI play_steps S)
      (use failed_append_values S in simp)
qed

end
