(* ===== verification/ClientProps.thy ===== *)
theory ClientProps
  imports Samples CounterSpec ReadSpec
begin

text \<open>
  Further properties of the store's operations over every reachable state: counters, the reads, paging and
  the scope list.
\<close>

section \<open>Counters\<close>

text \<open>
  C23. A counter increment is addition. \<open>/counter_add\<close> on an id that is not there creates it with the
  increment; on an item that reads as an integer, a counter already or not, it adds to that integer; the
  values at every other id of the scope, and every other scope but \<open>_events\<close>, stay. The value never leaves
  the range a JSON number carries exactly. A refused increment changes nothing a client can see.
\<close>

theorem counter_refines:
  assumes "live cfg s"
  shows "case counterAddOne clk k i d s of
      (Inl e, s') \<Rightarrow> view s' = view s \<and> score s' = score s \<and> (\<forall>p. e \<noteq> GoPanic p)
    | (Inr (v, created), s') \<Rightarrow>
        \<bar>v\<bar> \<le> MaxCounterValue \<and>
        (case store_counter s k i of
           Absent \<Rightarrow> created \<and> v = d
         | Value old \<Rightarrow> \<not> created \<and> v = old + d
         | NotACounter _ \<Rightarrow> False) \<and>
        store_counter s' k i = Value v \<and>
        (\<forall>j. j \<noteq> i \<longrightarrow> store_counter s' k j = store_counter s k j) \<and>
        (\<forall>l. l \<noteq> k \<longrightarrow> l \<noteq> EventsScopeName \<longrightarrow> view s' l = view s l)"
proof -
  obtain m where g: "good m s" "room (m + 1)" using live_good [OF assms] by blast
  obtain r s' where run: "counterAddOne clk k i d s = (r, s')" by (metis surj_pair)
  show ?thesis
  proof (cases r)
    case (Inl e)
    note ok = counterAddOne_good [OF g run [unfolded Inl]]
    then show ?thesis using run Inl failed_view [OF g(1) ok] no_trace_fields [of s s']
      by (simp add: op_ok_def not_panic_def)
  next
    case (Inr x)
    obtain v created where x: "x = (v, created)" by (metis surj_pair)
    note A = counterAdd_view [OF g run [unfolded Inr x]]
    show ?thesis unfolding run Inr x prod.case sum.case using A(1-3) A(4) A(5) by blast
  qed
qed

theorem counter_refines_witness:
  "\<exists>s'. counterAddOne clk0 ''s'' ''a'' 5 store1 = (Inr (6, False), s') \<and> store_counter s' ''s'' ''a'' = Value 6"
proof -
  have ok: "(case counterAddOne clk0 ''s'' ''a'' 5 store1 of (Inr (v, c), _) \<Rightarrow> v = 6 \<and> \<not> c | _ \<Rightarrow> False)" by code_simp
  obtain r s' where run: "counterAddOne clk0 ''s'' ''a'' 5 store1 = (r, s')" by (metis surj_pair)
  then show ?thesis using ok counter_refines [OF live1, where clk = clk0 and k = "''s''" and i = "''a''" and d = 5]
    by (cases r) auto
qed

section \<open>Reads\<close>

text \<open>
  The head window. \<open>/head\<close> returns the first \<open>limit\<close> items past the cursor in seq order, says
  whether there are more and whether the scope exists, and moves nothing a client can read.
\<close>

lemma head_window:
  assumes "live cfg s" "0 < limit"
  shows "case head now k after limit s of ((its, truncated, scopeFound), s') \<Rightarrow>
    its = take (nat limit) (past after k s) \<and> (truncated \<longleftrightarrow> limit < int (length (past after k s))) \<and>
    (scopeFound \<longleftrightarrow> view s k \<noteq> None) \<and> view s' = view s"
proof -
  obtain m where "good m s" using live_good [OF assms(1)] by blast
  then obtain s' where
    "head now k after limit s = ((take (nat limit) (past after k s), limit < int (length (past after k s)), view s k \<noteq> None), s')"
    "view s' = view s"
    using head_run [OF goodD(1) assms(2)] by blast
  then show ?thesis by simp
qed

lemma head_window_witness: "fst (head 0 ''s'' 1 1 store2) = (past 1 ''s'' store2, False, True)"
proof -
  have p: "length (past 1 ''s'' store2) = 1" "view store2 ''s'' \<noteq> None" by code_simp+
  then have "take (nat 1) (past 1 ''s'' store2) = past 1 ''s'' store2" by simp
  then show ?thesis using head_window [OF live2, where now = 0 and k = "''s''" and after = 1 and limit = 1] p
    by (auto split: prod.splits)
qed

text \<open>
  C24. Paging ends and misses nothing. A client that asks for pages of any positive size, each time from
  the last seq it got, until a page is not truncated, ends after at most one request per item and one
  more, and has then seen every item past its first cursor exactly once, in order.
\<close>

theorem paging_complete:
  assumes "live cfg s" "0 < limit"
  shows "page_all (Suc (length (past after k s))) clk k after limit s = Some (past after k s)"
proof -
  obtain m where "good m s" using live_good [OF assms(1)] by blast
  then show ?thesis by (rule page_all_complete [OF _ assms(2)]) simp
qed

theorem paging_complete_witness:
  "\<exists>its. page_all 3 clk0 ''s'' 0 1 store2 = Some its \<and> map ID its = [''a'', ''b'']"
proof -
  have "length (past 0 ''s'' store2) = 2" "map ID (past 0 ''s'' store2) = [''a'', ''b'']" by code_simp+
  then show ?thesis using paging_complete [OF live2, where limit = 1 and after = 0 and k = "''s''" and clk = clk0]
    by (simp add: numeral_3_eq_3 numeral_2_eq_2)
qed

text \<open>
  The tail window. \<open>/tail\<close> skips the newest \<open>offset\<close> items, returns the \<open>limit\<close> before them,
  oldest first, and says whether older ones remain.
\<close>

lemma tail_window:
  assumes "live cfg s" "0 < limit" "0 \<le> offset"
  shows "case tail now k limit offset s of ((its, truncated, scopeFound), s') \<Rightarrow>
    its = rev (take (nat limit) (drop (nat offset) (rev (snd (contents (view s) k))))) \<and>
    (truncated \<longleftrightarrow> limit + offset < int (length (snd (contents (view s) k)))) \<and>
    (scopeFound \<longleftrightarrow> view s k \<noteq> None) \<and> view s' = view s"
proof -
  obtain m where "good m s" using live_good [OF assms(1)] by blast
  then obtain s' where
    "tail now k limit offset s = ((rev (take (nat limit) (drop (nat offset) (rev (snd (contents (view s) k))))),
       limit + offset < int (length (snd (contents (view s) k))), view s k \<noteq> None), s')"
    "view s' = view s"
    using tail_run [OF goodD(1) assms(2,3)] by blast
  then show ?thesis by simp
qed

lemma tail_window_witness: "map ID (fst (fst (tail 0 ''s'' 1 1 store2))) = [''a'']"
proof -
  have "map ID (snd (contents (view store2) ''s'')) = [''a'', ''b'']" by code_simp
  then obtain x y where "snd (contents (view store2) ''s'') = [x, y]" "ID x = ''a''" by (auto simp: map_eq_Cons_conv)
  then show ?thesis using tail_window [OF live2, where now = 0 and k = "''s''" and limit = 1 and offset = 1]
    by (auto split: prod.splits)
qed

text \<open>
  A lookup returns the one item its id or seq names, nothing else, and a miss is a miss; \<open>/render\<close>
  finds the same item and returns its rendered form, or its payload when it has none.
\<close>

theorem lookup_exact:
  assumes "live cfg s"
  shows "fst (store_get now k i sq s) = find (\<lambda>y. if i \<noteq> [] then ID y = i else Seq y = sq) (snd (contents (view s) k)) \<and>
    length (found k i sq s) \<le> 1 \<and> view (snd (store_get now k i sq s)) = view s \<and>
    fst (render now k i sq s) =
      map_option (\<lambda>y. if renderBytes y \<noteq> None then renderBytes y else Payload y) (fst (store_get now k i sq s)) \<and>
    view (snd (render now k i sq s)) = view s"
proof -
  obtain m where g: "good m s" using live_good [OF assms] by blast
  obtain s' where r: "store_get now k i sq s = (find (\<lambda>y. if i \<noteq> [] then ID y = i else Seq y = sq) (snd (contents (view s) k)), s')"
    "view s' = view s" "length (found k i sq s) \<le> 1"
    by (rule get_run [OF goodD(1) [OF g]])
  have "fst (render now k i sq s) =
      map_option (\<lambda>y. if renderBytes y \<noteq> None then renderBytes y else Payload y) (fst (store_get now k i sq s))"
    "snd (render now k i sq s) = snd (store_get now k i sq s)"
    by (auto simp: render_def split: option.splits prod.splits)
  then show ?thesis using r by simp
qed

theorem lookup_exact_witness: "map_option Seq (fst (store_get 0 ''s'' ''b'' 0 store2)) = Some 2"
proof -
  have "map_option Seq (find (\<lambda>y. if ''b'' \<noteq> [] then ID y = ''b'' else Seq y = 0) (snd (contents (view store2) ''s''))) = Some 2"
    by code_simp
  then show ?thesis using lookup_exact [OF live2, where now = 0 and k = "''s''" and i = "''b''" and sq = 0] by argo
qed

text \<open>
  The scope list is a page of the existing scopes in name order: those with the prefix and after the
  cursor, cut at the limit, with the truncation flag set exactly when there are more.
\<close>

lemma scope_list_page:
  assumes "live cfg s" "0 < limit"
  shows "map sle_Scope (fst (scopeList pre after limit s)) =
      take (nat limit) (sorted_list_of_set {k. view s k \<noteq> None \<and> has_prefix k pre \<and> (after = [] \<or> after < k)}) \<and>
    (snd (scopeList pre after limit s) \<longleftrightarrow>
      limit < int (card {k. view s k \<noteq> None \<and> has_prefix k pre \<and> (after = [] \<or> after < k)}))"
proof -
  obtain m where "good m s" using live_good [OF assms(1)] by blast
  from scopeList_names [OF goodD(1) [OF this] assms(2)] show ?thesis by blast
qed

lemma scope_list_page_witness:
  "1 < int (card {k. view store2 k \<noteq> None \<and> has_prefix k ''_'' \<and> ([] = ([] :: string) \<or> [] < k)})"
proof -
  have "snd (scopeList ''_'' [] 1 store2)" by code_simp
  then show ?thesis using scope_list_page [OF live2, where pre = "''_''" and after = "[]" and limit = 1] by simp
qed

end
