(* ===== verification/LocalProps.thy ===== *)
theory LocalProps
  imports Samples
begin

text \<open>
  Properties of the single components: the buffer's guards and its binary search, the size estimate, the
  byte budget, the parsers and printers, the shards, the subscriptions, and the two size formulas and the
  two bulk commits that do not do what their comments say.
\<close>

section \<open>The buffer\<close>

text \<open>
  A detached buffer refuses every write. Once a scope is deleted, wiped or rebuilt away, each of the
  eight write operations on its old buffer returns \<open>ScopeDetachedError\<close> and changes neither the buffer
  nor the store's counters, whatever its arguments.
\<close>

theorem detached_refuses:
  assumes "detached b"
  shows "appendItem now it c b = (Inl ScopeDetachedError, c, b) \<and>
    upsertByID now it c b = (Inl ScopeDetachedError, c, b) \<and>
    updateByID now i p pre c b = (Inl ScopeDetachedError, c, b) \<and>
    updateBySeq now sq p pre c b = (Inl ScopeDetachedError, c, b) \<and>
    deleteByID now i c b = (Inl ScopeDetachedError, c, b) \<and>
    deleteBySeq now sq c b = (Inl ScopeDetachedError, c, b) \<and>
    deleteUpToSeq now sq c b = (Inl ScopeDetachedError, c, b) \<and>
    counterAdd now k i d c b = (Inl ScopeDetachedError, c, b)"
  using append_op.detached_refused [OF assms, of "(now, it)"] upsert_op.detached_refused [OF assms, of "(now, it)"]
    update_id_op.detached_refused [OF assms, of "(now, i, p, pre)"]
    update_seq_op.detached_refused [OF assms, of "(now, sq, p, pre)"]
    delete_id_op.detached_refused [OF assms, of "(now, i)"] delete_seq_op.detached_refused [OF assms, of "(now, sq)"]
    drain_op.detached_refused [OF assms, of "(now, sq)"] counter_op.detached_refused [OF assms, of "(now, k, i, d)"]
  by simp

theorem detached_refuses_witness:
  "\<exists>b c. bufs (serve clk0 Wipe store2) ! 2 = b \<and> items b \<noteq> [] \<and> appendItem 0 item1 c b = (Inl ScopeDetachedError, c, b)"
proof -
  have b: "items (bufs (serve clk0 Wipe store2) ! 2) \<noteq> []" "detached (bufs (serve clk0 Wipe store2) ! 2)" by code_simp+
  show ?thesis using b(1) detached_refuses [OF b(2), where now = 0 and it = item1] by blast
qed

fun linear_index :: "u64 \<Rightarrow> Item list \<Rightarrow> nat option" where
  "linear_index sq [] = None"
| "linear_index sq (it # its) = (if Seq it = sq then Some 0 else map_option Suc (linear_index sq its))"

lemma linear_index_Some:
  "linear_index sq its = Some i \<longleftrightarrow> i < length its \<and> Seq (its ! i) = sq \<and> (\<forall>j < i. Seq (its ! j) \<noteq> sq)"
proof (induction its arbitrary: i)
  case (Cons x xs)
  then show ?case by (cases i) (auto simp: less_Suc_eq_0_disj)
qed simp

text \<open>
  The binary search is a linear search. On every buffer a reachable store links, \<open>indexBySeqLocked\<close>
  returns the position a scan from the front finds, and nothing when the scan finds nothing.
\<close>

theorem index_search_linear:
  assumes "live cfg s" "getScope s k = Some a"
  shows "indexBySeqLocked (bufs s ! a) sq = linear_index sq (items (bufs s ! a))"
proof -
  let ?b = "bufs s ! a"
  have inv: "buf_inv ?b" using readyD(5) [OF live_ready [OF assms]] .
  have first: "Seq (items ?b ! j) \<noteq> sq" if "i < length (items ?b)" "Seq (items ?b ! i) = sq" "j < i" for i j
    using buf_inv_nth_less [OF inv that(3,1)] that(2) by simp
  have "indexBySeqLocked ?b sq = Some i \<longleftrightarrow> linear_index sq (items ?b) = Some i" for i
    unfolding indexBySeqLocked_Some [OF inv] linear_index_Some using first by blast
  then show ?thesis by (metis not_Some_eq)
qed

theorem index_search_linear_witness: "indexBySeqLocked (bufs store2 ! 2) 2 = Some 1"
proof -
  have "getScope store2 ''s'' = Some 2" "linear_index 2 (items (bufs store2 ! 2)) = Some 1" by code_simp+
  then show ?thesis using index_search_linear [OF live2, where sq = 2] by simp
qed

text \<open>
  The constant-time size estimate equals the walk it replaces, on every linked buffer whose count of
  id bytes is exact, and an append to such a buffer keeps the count exact.
\<close>

theorem approx_size_walk:
  assumes "live cfg s" "getScope s k = Some a" "id_acct (bufs s ! a)"
  shows "approxSizeBytesLocked (bufs s ! a) = 64 + sum_list (map item_footprint (items (bufs s ! a))) \<and>
    (plain_ok (score s) k it \<longrightarrow> id_acct (snd (snd (appendItem now it (score s) (bufs s ! a)))))"
proof -
  note rdy = live_ready [OF assms(1,2)]
  obtain r c' b' where run: "appendItem now it (score s) (bufs s ! a) = (r, c', b')" by (metis surj_pair)
  have "id_acct b'" if "plain_ok (score s) k it"
    using append_op.safe [OF rdy, of "(now, it)"] run that assms(3) by (simp add: step_ok_def moved_def)
  then show ?thesis using approxSizeBytes_walk [OF readyD(5) [OF rdy] assms(3)] run by simp
qed

theorem approx_size_walk_witness: "approxSizeBytesLocked (bufs store2 ! 2) = 330"
proof -
  have h: "getScope store2 ''s'' = Some 2" "id_acct (bufs store2 ! 2)"
    "64 + sum_list (map item_footprint (items (bufs store2 ! 2))) = 330" by code_simp+
  show ?thesis using approx_size_walk [OF live2 h(1,2), THEN conjunct1] unfolding h(3) .
qed

text \<open>
  After a rebuild the estimate is short. \<open>rebuildAll\<close> fills its buffers without setting the count of
  id bytes, so each scope it built reports less than the walk, by the length of its ids.
\<close>

theorem rebuild_underreports:
  assumes "live cfg s" "client_batch g" "batch_bytes g + reservedScopesOverhead \<le> MaxInt64"
    and run: "rebuildAll clk g s = (Inr r, s')" and k: "(k, its) \<in> set g"
  shows "\<exists>a. getScope s' k = Some a \<and> idKeyBytes (bufs s' ! a) = 0 \<and>
    approxSizeBytesLocked (bufs s' ! a) = 64 + sum_list (map item_footprint (items (bufs s' ! a))) - id_bytes (items (bufs s' ! a))"
proof -
  obtain m where g: "good m s" "room (m + 1)" "half \<le> m" using live_good [OF assms(1)] by blast
  have mx: "defaultMaxItems (score s) \<le> int m"
    by (rule half_ge [OF _ g(3)]) (use store_invD(3) [OF goodD(1) [OF g(1)]] in \<open>simp add: config_ok_def\<close>)
  obtain n j where r: "r = (n, j)" by (metis surj_pair)
  note R = rebuildAll_good [OF g(1) assms(2,3) mx run]
  obtain built where W: "list_all2 built_from g built" "rebuild_result built s s'" using R(5) [OF arg_cong [OF r, of Inr]] by blast
  have "k \<in> fst ` set built" using built_keys [OF W(1)] k by (metis image_eqI set_map fst_conv)
  then obtain a where a: "getScope s' k = Some a" "idKeyBytes (bufs s' ! a) = 0" using W(2) by (auto simp: rebuild_result_def)
  show ?thesis using a approxSizeBytes_exact [OF linked_bufD(6) [OF goodD(1) [OF R(1)] a(1)]] by simp
qed

theorem rebuild_underreports_witness:
  "\<exists>s' a. getScope s' ''s'' = Some a \<and> id_bytes (items (bufs s' ! a)) = 1 \<and>
     approxSizeBytesLocked (bufs s' ! a) < 64 + sum_list (map item_footprint (items (bufs s' ! a)))"
proof -
  obtain r s' where run: "rebuildAll clk0 batch1 store1 = (r, s')" by (metis surj_pair)
  have ok: "(case rebuildAll clk0 batch1 store1 of
      (Inr _, t) \<Rightarrow> (case getScope t ''s'' of Some a \<Rightarrow> id_bytes (items (bufs t ! a)) = 1 | None \<Rightarrow> False) | _ \<Rightarrow> False)" by code_simp
  then obtain x where x: "r = Inr x" using run by (cases r) auto
  have "(''s'', [item2]) \<in> set batch1" by (simp add: batch1_def)
  then obtain a where "getScope s' ''s'' = Some a" "approxSizeBytesLocked (bufs s' ! a) =
      64 + sum_list (map item_footprint (items (bufs s' ! a))) - id_bytes (items (bufs s' ! a))"
    using rebuild_underreports [OF live1 batch1_ok run [unfolded x]] by blast
  then show ?thesis using ok run x by (intro exI [of _ s'] exI [of _ a]) simp
qed

section \<open>The byte budget\<close>

text \<open>
  The reservation admits a request exactly when it fits under the cap, moves the total by exactly
  what it admits, leaves no trace of what it refuses, and a granted reservation that is released again
  restores the total. No arithmetic in it wraps, also with a cap at the top of the range, where the
  check written as a sum (\<open>naive_fits\<close>) would admit a request past the cap.
\<close>

theorem reserve_exact:
  assumes "within_cap c" "- totalBytes c \<le> d"
  shows "(fst (fst (reserveBytes d c)) \<longleftrightarrow> totalBytes c + d \<le> maxStoreBytes c) \<and>
    totalBytes (snd (reserveBytes d c)) = (if fst (fst (reserveBytes d c)) then totalBytes c + d else totalBytes c) \<and>
    (\<not> fst (fst (reserveBytes d c)) \<longrightarrow> snd (reserveBytes d c) = c) \<and>
    within_cap (snd (reserveBytes d c)) \<and>
    (0 \<le> d \<longrightarrow> fst (fst (reserveBytes d c)) \<longrightarrow>
       totalBytes (snd (reserveBytes (- d) (snd (reserveBytes d c)))) = totalBytes c) \<and>
    (MaxInt64 < totalBytes c + d \<longrightarrow> d \<le> MaxInt64 \<longrightarrow> naive_fits d c \<and> maxStoreBytes c < totalBytes c + d)"
  using store_budget.granted_iff [OF assms] store_budget.granted_used [OF assms] store_budget.refused_same [of d c]
    store_budget.sound_reserve [OF assms] store_budget.reserve_release [OF assms(1), of d] naive_check_fails_open [OF assms(1), of d]
  by auto

theorem reserve_exact_witness:
  "fst (fst (reserveBytes 5 (score store1))) \<and> totalBytes (snd (reserveBytes 5 (score store1))) = totalBytes (score store1) + 5"
proof -
  have "within_cap (score store1)" "- totalBytes (score store1) \<le> 5" "totalBytes (score store1) + 5 \<le> maxStoreBytes (score store1)"
    by code_simp+
  with reserve_exact [OF this(1,2)] show ?thesis by simp
qed

text \<open>
  The saturating sum behind the \<open>_events\<close> cap is the true sum clamped to the 64-bit range.
\<close>

theorem addClamped_saturates:
  assumes "MinInt64 \<le> a" "a \<le> MaxInt64" "MinInt64 \<le> b" "b \<le> MaxInt64"
  shows "addClampedInt64 a b = max MinInt64 (min MaxInt64 (a + b))"
  using assms by (rule addClampedInt64_saturates)

theorem addClamped_saturates_witness: "addClampedInt64 MaxInt64 1 = MaxInt64"
  using addClamped_saturates [of MaxInt64 1] by (simp add: MaxInt64_def MinInt64_def)

text \<open>
  The request body caps wrap. For a byte cap or item cap near the top of the range, which the
  configuration accepts, the sums overflow and the cap comes out negative, so that every body is refused;
  below that they are positive and the true sums.
\<close>

theorem body_caps_wrap:
  assumes "0 \<le> m" "m \<le> MaxInt64"
  shows "(if m + m div 10 + bulkRequestBytesOverhead \<le> MaxInt64
     then bulkRequestBytesFor m = m + m div 10 + bulkRequestBytesOverhead else bulkRequestBytesFor m < 0) \<and>
    (if m + singleRequestBytesOverhead \<le> MaxInt64
     then singleRequestBytesFor m = m + singleRequestBytesOverhead else singleRequestBytesFor m < 0)"
proof -
  have sd: "m sdiv 10 = m div 10" using assms(1) by (simp add: signed_divide_int_def sgn_if)
  have d: "0 \<le> m div 10" "m div 10 \<le> MaxInt64 div 10" using assms by (simp_all add: zdiv_mono1)
  note defs = bulkRequestBytesFor_def singleRequestBytesFor_def sd
  note nums = bulkRequestBytesOverhead_def singleRequestBytesOverhead_def MaxInt64_def
  have single: "wrap64 (m + singleRequestBytesOverhead) =
      (if m + singleRequestBytesOverhead \<le> MaxInt64 then m + singleRequestBytesOverhead else m + singleRequestBytesOverhead - 2 ^ 64)"
    using assms by (intro wrap64_sum) (simp_all add: nums)
  have sum: "wrap64 (m + m div 10) = (if m + m div 10 \<le> MaxInt64 then m + m div 10 else m + m div 10 - 2 ^ 64)"
    using assms d by (intro wrap64_sum) (simp_all add: nums)
  have bulk: "wrap64 (wrap64 (m + m div 10) + bulkRequestBytesOverhead) =
      (if m + m div 10 + bulkRequestBytesOverhead \<le> MaxInt64 then m + m div 10 + bulkRequestBytesOverhead
       else m + m div 10 + bulkRequestBytesOverhead - 2 ^ 64)"
  proof (cases "m + m div 10 \<le> MaxInt64")
    case True
    then have "wrap64 (m + m div 10) = m + m div 10" unfolding sum by simp
    then show ?thesis using True assms d wrap64_sum [of "m + m div 10 + bulkRequestBytesOverhead"] by (simp add: nums)
  next
    case False
    then have "wrap64 (m + m div 10 - 2 ^ 64 + bulkRequestBytesOverhead) = m + m div 10 - 2 ^ 64 + bulkRequestBytesOverhead"
      using assms d by (intro wrap64_id) (auto simp: nums MinInt64_def)
    then show ?thesis using False unfolding sum by (simp add: nums)
  qed
  show ?thesis unfolding defs single bulk using assms d by (auto simp: nums)
qed

theorem body_caps_wrap_witness: "bulkRequestBytesFor MaxInt64 < 0 \<and> singleRequestBytesFor MaxInt64 < 0"
  using body_caps_wrap [of MaxInt64] by (simp add: MaxInt64_def bulkRequestBytesOverhead_def singleRequestBytesOverhead_def)

section \<open>Parsing and printing\<close>

text \<open>
  C25. Printing a value and parsing it back gives the value: a counter through its JSON payload, an events
  mode through its name; what the counter parser accepts is within the counter range.
\<close>

theorem parse_print:
  "(\<bar>v\<bar> \<le> MaxCounterValue \<longrightarrow> parseCounterValue (renderCounterPayload \<lparr>cell_value = v, cell_ts = t\<rparr>) = Inr v) \<and>
   (\<forall>p n. parseCounterValue p = Inr n \<longrightarrow> \<bar>n\<bar> \<le> MaxCounterValue) \<and>
   ((\<forall>j. m \<noteq> EventsModeOther j) \<longrightarrow> ParseEventsMode (EventsMode_String m) = Some m)"
  using parseCounterValue_show parseCounterValue_bounds ParseEventsMode_String
  by (auto simp: renderCounterPayload_def)

theorem parse_print_witness:
  "parseCounterValue (renderCounterPayload \<lparr>cell_value = - 42, cell_ts = 7\<rparr>) = Inr (- 42) \<and>
   ParseEventsMode (EventsMode_String EventsModeNotify) = Some EventsModeNotify"
  using parse_print [of "- 42" 7 EventsModeNotify] by (simp add: MaxCounterValue_def)

text \<open>
  The query parameters come out in range: a limit between 1 and the ceiling, an offset that is not
  negative, an hours value whose conversion to microseconds does not overflow.
\<close>

theorem params_in_range:
  "(normalizeLimit q = Inr n \<longrightarrow> 1 \<le> n \<and> n \<le> MaxLimit) \<and>
   (normalizeOffset q = Inr n \<longrightarrow> 0 \<le> n) \<and>
   (normalizeHours q = Inr n \<longrightarrow> 0 \<le> n \<and> n * usPerHour \<le> MaxInt64)"
  using normalizeLimit_bounds normalizeOffset_bounds normalizeHours_no_overflow by blast

theorem params_in_range_witness: "normalizeLimit ''7'' = Inr 7 \<and> (7 :: int) \<le> MaxLimit"
proof -
  have "normalizeLimit ''7'' = Inr 7" by code_simp
  with params_in_range [of "''7''" 7] have "(7 :: int) \<le> MaxLimit" by argo
  then show ?thesis using \<open>normalizeLimit ''7'' = Inr 7\<close> by simp
qed

text \<open>
  The defaults are idempotent, leave a configuration alone whose caps are positive and whose byte cap
  holds the reserved scopes, and give every configuration such values.
\<close>

theorem defaults_complete:
  "WithDefaults (WithDefaults c) = WithDefaults c \<and>
   0 < cScopeMaxItems (WithDefaults c) \<and> reservedScopesOverhead \<le> cMaxStoreBytes (WithDefaults c) \<and>
   0 < cMaxItemBytes (WithDefaults c) \<and> 0 < cInboxMaxItems (WithDefaults c) \<and> 0 < cInboxMaxItemBytes (WithDefaults c) \<and>
   (0 < cScopeMaxItems c \<longrightarrow> reservedScopesOverhead \<le> cMaxStoreBytes c \<longrightarrow> 0 < cMaxItemBytes c \<longrightarrow>
      0 < cInboxMaxItems c \<longrightarrow> 0 < cInboxMaxItemBytes c \<longrightarrow> WithDefaults c = c)"
  by (intro conjI impI WithDefaults_idem WithDefaults_positive WithDefaults_id)

theorem defaults_complete_witness:
  "WithDefaults \<lparr>cScopeMaxItems = 1, cMaxStoreBytes = 4096, cMaxItemBytes = 1, cEventsMode = EventsModeFull, cInboxMaxItems = 1,
     cInboxMaxItemBytes = 1\<rparr> = \<lparr>cScopeMaxItems = 1, cMaxStoreBytes = 4096, cMaxItemBytes = 1, cEventsMode = EventsModeFull,
     cInboxMaxItems = 1, cInboxMaxItemBytes = 1\<rparr>"
  using defaults_complete [of "\<lparr>cScopeMaxItems = 1, cMaxStoreBytes = 4096, cMaxItemBytes = 1, cEventsMode = EventsModeFull,
     cInboxMaxItems = 1, cInboxMaxItemBytes = 1\<rparr>"] by (simp add: reservedScopesOverhead_eq)

section \<open>Bulk helpers\<close>

text \<open>
  Grouping a bulk request keeps every item once, under its own scope, in the order it came.
\<close>

theorem grouping_exact:
  "distinct (map fst (groupItemsByScope its)) \<and> fst ` set (groupItemsByScope its) = Scope ` set its \<and>
   group_of (groupItemsByScope its) k = filter (\<lambda>it. Scope it = k) its"
  by (rule groupItemsByScope_spec)

text \<open>
  A replacement is built exactly when no non-empty id occurs twice; the error names an id. A built
  replacement numbers the items from 1 and stamps them.
\<close>

theorem build_unless_duplicate:
  "if distinct (nonempty_ids its)
   then (case buildReplacementState t its of Inr r \<Rightarrow> r_items r = numbered t 0 its \<and> r_idKeyBytes r = id_bytes (r_items r) | Inl _ \<Rightarrow> False)
   else (case buildReplacementState t its of Inl _ \<Rightarrow> True | Inr _ \<Rightarrow> False)"
  using buildReplacementState_cases [of its t] by (auto split: if_splits)

section \<open>Shards and subscriptions\<close>

text \<open>
  Multi-scope operations lock in ascending shard order, each shard once, and exactly the shards their
  scopes fall in; every scope falls in one of the shards there are.
\<close>

theorem lock_order:
  "sorted_wrt (<) (shardsForScopes d scopes) \<and> set (shardsForScopes d scopes) = shardIdxFor d ` set scopes \<and>
   shardIdxFor d k < numShards"
  using shardsForScopes_sorted shardsForScopes_set shardIdxFor_less by blast

text \<open>
  No wake-up is lost and none queues up. In every reachable store, a notification of a subscribed
  scope leaves the subscriber's next receive ready, without a panic; a second one before the receive
  changes nothing; after \<open>unsubscribe\<close> a subscriber with nothing left to receive leaves its loop.
\<close>

theorem wakeups:
  assumes "live cfg s" "sub_at (shub s) k = Some i"
  shows "fst (notifySubscriber k (shub s)) = None \<and>
    fst (receive i (snd (notifySubscriber k (shub s)))) = Wake \<and>
    snd (notifySubscriber k (snd (notifySubscriber k (shub s)))) = snd (notifySubscriber k (shub s)) \<and>
    (\<not> ch_full (chans (shub s) ! i) \<longrightarrow> fst (receive i (snd (unsubscribe k (shub s)))) = LoopExit)"
proof -
  obtain m where "good m s" using live_good [OF assms(1)] by blast
  then have inv: "hub_inv (shub s)" using store_invD(2) [OF goodD(1)] by blast
  have "\<not> ch_full (chans (shub s) ! i) \<longrightarrow> fst (receive i (snd (unsubscribe k (shub s)))) = LoopExit"
    using sub_at_open [OF inv assms(2)] assms(2) by (auto simp: unsubscribe_def close_chan_def receive_def)
  then show ?thesis using notify_wakes(2) [OF inv assms(2)] notify_coalesces [OF inv] notifySubscriber_inv [OF inv] by simp
qed

theorem wakeups_witness:
  "fst (receive 0 (snd (notifySubscriber EventsScopeName (shub (serve clk0 (SubscribeTo EventsScopeName) boot0))))) = Wake"
proof -
  have "reaches cfg0 1 (serve clk0 (SubscribeTo EventsScopeName) boot0)"
    using step [OF reaches0, of "SubscribeTo EventsScopeName" clk0] by simp
  then have live: "live cfg0 (serve clk0 (SubscribeTo EventsScopeName) boot0)" by (rule live_reaches) simp
  have "sub_at (shub (serve clk0 (SubscribeTo EventsScopeName) boot0)) EventsScopeName = Some 0" by code_simp
  with wakeups [OF live this] show ?thesis by blast
qed

text \<open>
  The release function of a subscription is keyed by the scope. Called a second time, after somebody
  else has subscribed, it closes the newer subscriber's channel.
\<close>

theorem stale_release:
  assumes "hub_inv h" "isReservedScope k" "sub_at h k = None"
  shows "\<exists>i. fst (Subscribe k (snd (unsubscribe k (snd (Subscribe k h))))) = Inr i \<and>
    ch_closed (chans (snd (unsubscribe k (snd (Subscribe k (snd (unsubscribe k (snd (Subscribe k h)))))))) ! i)"
  using stale_unsubscribe [OF assms] by blast

theorem stale_release_witness:
  "\<exists>i. ch_closed (chans (snd (unsubscribe EventsScopeName (snd (Subscribe EventsScopeName
     (snd (unsubscribe EventsScopeName (snd (Subscribe EventsScopeName hub_empty)))))))) ! i)"
  using stale_release [OF hub_empty_inv, of EventsScopeName] by (auto simp: isReservedScope_iff sub_at_def hub_empty_def)

end
