(* ===== verification/CasBudget.thy ===== *)
theory CasBudget
  imports Admission "HOL-Library.Multiset"
begin

text \<open>
  The loop of \<open>reserveBytes\<close> with other callers in between. A caller has not loaded the total yet, has
  loaded it, or has returned; a step is one atomic access of one caller. The trace of a run lists the
  calls in the order they take effect: a grant at its compare-and-swap, a release at its add, a refusal
  at the load that dooms it. Replaying the trace one call at a time with the sequential \<open>reserveBytes\<close>
  gives the same answers and the same total, and the steps run out.
\<close>

section \<open>Steps\<close>

datatype caller = Idle int | Loaded int int | Returned int bool

definition doomed :: "core \<Rightarrow> int \<Rightarrow> int \<Rightarrow> bool" where
  "doomed c d current \<longleftrightarrow> wrap64 (maxStoreBytes c - current) < d"

type_synonym budget = "core \<times> caller list"

inductive cas_step :: "budget \<Rightarrow> (int \<times> bool) list \<Rightarrow> budget \<Rightarrow> bool" where
  release: "i < length ts \<Longrightarrow> ts ! i = Idle d \<Longrightarrow> d \<le> 0 \<Longrightarrow>
    cas_step (c, ts) [(d, True)] (c\<lparr>totalBytes := wrap64 (totalBytes c + d)\<rparr>, ts[i := Returned d True])"
| load: "i < length ts \<Longrightarrow> ts ! i = Idle d \<Longrightarrow> 0 < d \<Longrightarrow>
    cas_step (c, ts) (if doomed c d (totalBytes c) then [(d, False)] else []) (c, ts[i := Loaded d (totalBytes c)])"
| refuse: "i < length ts \<Longrightarrow> ts ! i = Loaded d current \<Longrightarrow> doomed c d current \<Longrightarrow>
    cas_step (c, ts) [] (c, ts[i := Returned d False])"
| swap: "i < length ts \<Longrightarrow> ts ! i = Loaded d current \<Longrightarrow> \<not> doomed c d current \<Longrightarrow> totalBytes c = current \<Longrightarrow>
    cas_step (c, ts) [(d, True)] (c\<lparr>totalBytes := wrap64 (current + d)\<rparr>, ts[i := Returned d True])"
| retry: "i < length ts \<Longrightarrow> ts ! i = Loaded d current \<Longrightarrow> \<not> doomed c d current \<Longrightarrow> totalBytes c \<noteq> current \<Longrightarrow>
    cas_step (c, ts) [] (c, ts[i := Idle d])"

inductive cas_run :: "budget \<Rightarrow> (int \<times> bool) list \<Rightarrow> budget \<Rightarrow> bool" where
  stop: "cas_run s [] s"
| more_steps: "cas_run s tr t \<Longrightarrow> cas_step t e u \<Longrightarrow> cas_run s (tr @ e) u"

section \<open>A run is a sequence of whole calls\<close>

fun replay :: "core \<Rightarrow> (int \<times> bool) list \<Rightarrow> core option" where
  "replay c [] = Some c"
| "replay c ((d, ok) # tr) =
     (if fst (fst (reserveBytes d c)) = ok then replay (snd (reserveBytes d c)) tr else None)"

lemma replay_append: "replay c (tr @ tr') = (case replay c tr of None \<Rightarrow> None | Some c' \<Rightarrow> replay c' tr')"
  by (induction c tr rule: replay.induct) auto

lemma cas_step_replay: "cas_step (c, ts) e (c', ts') \<Longrightarrow> replay c e = Some c' \<and> maxStoreBytes c' = maxStoreBytes c"
  by (cases rule: cas_step.cases, assumption) (auto simp: reserveBytes_def Let_def doomed_def)

text \<open>Well-formed callers: only a positive delta is ever loaded.\<close>

fun wf_caller :: "caller \<Rightarrow> bool" where
  "wf_caller (Loaded d current) \<longleftrightarrow> 0 < d"
| "wf_caller _ \<longleftrightarrow> True"

fun delta :: "caller \<Rightarrow> int" where
  "delta (Idle d) = d" | "delta (Loaded d current) = d" | "delta (Returned d ok) = d"

fun effect :: "core \<Rightarrow> caller \<Rightarrow> (int \<times> bool) list" where
  "effect c (Idle d) = []"
| "effect c (Loaded d current) = (if doomed c d current then [(d, False)] else [])"
| "effect c (Returned d ok) = [(d, ok)]"

lemma mset_effects_upd:
  "i < length ts \<Longrightarrow> mset (concat (map f (ts[i := x]))) + mset (f (ts ! i)) = mset (concat (map f ts)) + mset (f x)"
proof (induction ts arbitrary: i)
  case (Cons t ts)
  then show ?case by (cases i) (simp_all add: ac_simps)
qed simp

lemma deltas_upd: "i < length ts \<Longrightarrow> delta x = delta (ts ! i) \<Longrightarrow> map delta (ts[i := x]) = map delta ts"
  by (metis list_update_id map_update)

lemma effect_cong: "maxStoreBytes c' = maxStoreBytes c \<Longrightarrow> effect c' = effect c"
proof
  fix x assume "maxStoreBytes c' = maxStoreBytes c"
  then show "effect c' x = effect c x" by (cases x) (simp_all add: doomed_def)
qed

lemma cas_step_effects:
  "cas_step (c, ts) e (c', ts') \<Longrightarrow>
     mset (concat (map (effect c') ts')) = mset (concat (map (effect c) ts)) + mset e \<and> map delta ts' = map delta ts"
proof -
  assume step: "cas_step (c, ts) e (c', ts')"
  have eff: "effect c' = effect c" using effect_cong cas_step_replay [OF step] by blast
  have upd: "mset (concat (map (effect c) (ts[i := x]))) = mset (concat (map (effect c) ts)) + M"
    if "i < length ts" "mset (effect c x) = mset (effect c (ts ! i)) + M" for i x M
    using mset_effects_upd [OF that(1), of "effect c" x] that(2) by (simp add: ac_simps)
  from step have "mset (concat (map (effect c) ts')) = mset (concat (map (effect c) ts)) + mset e \<and> map delta ts' = map delta ts"
  proof (cases rule: cas_step.cases)
    case (release i d)
    then show ?thesis using upd [of i "Returned d True" "mset e"] deltas_upd [of i ts "Returned d True"] by simp
  next
    case (load i d)
    then show ?thesis using upd [of i "Loaded d (totalBytes c)" "mset e"] deltas_upd [of i ts "Loaded d (totalBytes c)"] by simp
  next
    case (refuse i d current)
    then show ?thesis using upd [of i "Returned d False" "mset e"] deltas_upd [of i ts "Returned d False"] by simp
  next
    case (swap i d current)
    then show ?thesis using upd [of i "Returned d True" "mset e"] deltas_upd [of i ts "Returned d True"] by simp
  next
    case (retry i d current)
    then show ?thesis using upd [of i "Idle d" "mset e"] deltas_upd [of i ts "Idle d"] by simp
  qed
  then show ?thesis by (simp add: eff)
qed

lemma cas_run_replay:
  "cas_run s tr u \<Longrightarrow> replay (fst s) tr = Some (fst u) \<and> maxStoreBytes (fst u) = maxStoreBytes (fst s)"
proof (induction rule: cas_run.induct)
  case (more_steps s tr t e u)
  then show ?case using cas_step_replay [of "fst t" "snd t" e "fst u" "snd u"] by (simp add: replay_append)
qed simp

lemma cas_run_effects:
  "cas_run s tr u \<Longrightarrow>
     mset (concat (map (effect (fst u)) (snd u))) = mset (concat (map (effect (fst s)) (snd s))) + mset tr \<and>
     map delta (snd u) = map delta (snd s)"
proof (induction rule: cas_run.induct)
  case (more_steps s tr t e u)
  then show ?case using cas_step_effects [of "fst t" "snd t" e "fst u" "snd u"] by simp
qed simp

section \<open>The cap\<close>

definition released :: "int list \<Rightarrow> int" where
  "released ds = sum_list (map (\<lambda>d. min d 0) ds)"

definition granted :: "(int \<times> bool) list \<Rightarrow> int" where
  "granted tr = sum_list (map (\<lambda>(d, ok). if ok then d else 0) tr)"

lemma replay_within:
  assumes "within_cap c" "0 \<le> totalBytes c + released (map fst tr)" "replay c tr = Some c'"
  shows "within_cap c' \<and> totalBytes c' = totalBytes c + granted tr"
  using assms
proof (induction c tr rule: replay.induct)
  case (2 c d ok tr)
  let ?c = "snd (reserveBytes d c)"
  have neg: "released xs \<le> 0" for xs by (induction xs) (simp_all add: released_def)
  have d: "- totalBytes c \<le> d" using "2.prems"(1,2) neg [of "map fst tr"] by (simp add: released_def within_cap_def)
  have step: "fst (fst (reserveBytes d c)) = ok" "replay ?c tr = Some c'" using "2.prems"(3) by (auto split: if_splits)
  have tot: "totalBytes ?c = totalBytes c + (if ok then d else 0)"
    using step(1) store_budget.granted_used [OF "2.prems"(1) d] store_budget.refused_same [of d c] by auto
  have "0 \<le> totalBytes ?c + released (map fst tr)"
  proof (cases ok)
    case True
    then show ?thesis using "2.prems"(2) tot by (simp add: released_def)
  next
    case False
    have "0 < d" using False step(1) store_budget.release_granted [OF "2.prems"(1) d] by (rule_tac ccontr) simp
    then show ?thesis using "2.prems"(2) tot False by (simp add: released_def)
  qed
  with "2.IH" [OF step(1) store_budget.sound_reserve [OF "2.prems"(1) d] _ step(2)] tot
  show ?case by (simp add: granted_def)
qed (simp add: granted_def)

lemma released_sub:
  assumes "mset xs \<subseteq># mset ys"
  shows "released ys \<le> released xs"
proof -
  obtain Z where Z: "mset ys = mset xs + Z" using assms by (metis subset_mset.add_diff_inverse)
  have "released zs = sum_mset (image_mset (\<lambda>d. min d 0) (mset zs))" for zs
    by (metis released_def mset_map sum_mset_sum_list)
  then have "released ys = released xs + sum_mset (image_mset (\<lambda>d. min d 0) Z)" by (simp add: Z)
  moreover have "sum_mset (image_mset (\<lambda>d. min d 0) Z) \<le> 0" by (induction Z) simp_all
  ultimately show ?thesis by simp
qed

lemma effects_deltas: "mset (map fst (concat (map (effect c) ts))) \<subseteq># mset (map delta ts)"
proof (induction ts)
  case (Cons t ts)
  have "mset (map fst (effect c t)) \<subseteq># {#delta t#}" by (cases t) simp_all
  have "mset (map fst (effect c t)) \<subseteq># {#delta t#}" by (cases t) simp_all
  from subset_mset.add_mono [OF this Cons.IH] show ?case by simp
qed simp

section \<open>Runs end\<close>

fun pending :: "caller \<Rightarrow> nat" where
  "pending (Returned d ok) = 0" | "pending _ = 1"

fun weight :: "int \<Rightarrow> caller \<Rightarrow> nat" where
  "weight now (Loaded d current) = (if current = now then 1 else 3)"
| "weight now (Idle d) = 2"
| "weight now (Returned d ok) = 0"

definition cas_measure :: "budget \<Rightarrow> nat \<times> nat" where
  "cas_measure s = (sum_list (map pending (snd s)), sum_list (map (weight (totalBytes (fst s))) (snd s)))"

lemma sum_list_upd_less:
  "i < length ts \<Longrightarrow> (f x :: nat) < f (ts ! i) \<Longrightarrow> sum_list (map f (ts[i := x])) < sum_list (map f ts)"
proof (induction ts arbitrary: i)
  case (Cons t ts)
  then show ?case by (cases i) simp_all
qed simp

lemma sum_list_upd_same:
  assumes "i < length ts" "(f x :: nat) = f (ts ! i)"
  shows "sum_list (map f (ts[i := x])) = sum_list (map f ts)"
  using assms by (metis list_update_id map_update)

lemma cas_step_measure:
  assumes "cas_step s e t"
  shows "(cas_measure t, cas_measure s) \<in> less_than <*lex*> less_than"
  using assms
proof (cases rule: cas_step.cases)
  case (release i ts d c)
  then show ?thesis by (simp add: cas_measure_def sum_list_upd_less)
next
  case (load i ts d c)
  then show ?thesis using sum_list_upd_same [of i ts pending "Loaded d (totalBytes c)"]
      sum_list_upd_less [of i ts "weight (totalBytes c)" "Loaded d (totalBytes c)"]
    by (simp add: cas_measure_def)
next
  case (refuse i ts d current c)
  then show ?thesis by (simp add: cas_measure_def sum_list_upd_less)
next
  case (swap i ts d current c)
  then show ?thesis by (simp add: cas_measure_def sum_list_upd_less)
next
  case (retry i ts d current c)
  then show ?thesis using sum_list_upd_same [of i ts pending "Idle d"]
      sum_list_upd_less [of i ts "weight (totalBytes c)" "Idle d"]
    by (simp add: cas_measure_def)
qed

lemma cas_progress:
  assumes "t \<in> set ts" "\<forall>d ok. t \<noteq> Returned d ok"
  shows "\<exists>e s'. cas_step (c, ts) e s'"
proof -
  obtain i where i: "i < length ts" "ts ! i = t" using assms(1) by (auto simp: in_set_conv_nth)
  show ?thesis
  proof (cases t)
    case (Idle d)
    then show ?thesis using i cas_step.release [of i ts d c] cas_step.load [of i ts d c] by (meson linorder_not_le)
  next
    case (Loaded d current)
    then show ?thesis using i cas_step.refuse [of i ts d current c] cas_step.swap [of i ts d current c]
        cas_step.retry [of i ts d current c] by meson
  qed (use assms(2) in simp)
qed

end
