(* ===== verification/Locks.thy ===== *)
theory Locks
  imports Shards Validation
begin

text \<open>
  The mutexes: one per shard, one per buffer and one for the subscribers, each a Go \<open>RWMutex\<close>. For each
  operation of the store, the calls it makes of them, in order, for each way it may go; then any number of
  such operations side by side. The lemmas say that every operation takes its mutexes in ascending order
  and gives them back, and what follows from that alone.
\<close>

section \<open>Mutexes\<close>

datatype mutex = ShardMu nat | BufMu nat | SubsMu

fun mu_kind :: "mutex \<Rightarrow> nat" where
  "mu_kind (ShardMu i) = 0" | "mu_kind (BufMu a) = 1" | "mu_kind SubsMu = 2"

fun mu_index :: "mutex \<Rightarrow> nat" where
  "mu_index (ShardMu i) = i" | "mu_index (BufMu a) = a" | "mu_index SubsMu = 0"

instantiation mutex :: linorder
begin

definition less_mutex :: "mutex \<Rightarrow> mutex \<Rightarrow> bool" where
  "less_mutex m n \<longleftrightarrow> mu_kind m < mu_kind n \<or> mu_kind m = mu_kind n \<and> mu_index m < mu_index n"

definition less_eq_mutex :: "mutex \<Rightarrow> mutex \<Rightarrow> bool" where
  "less_eq_mutex m n \<longleftrightarrow> m = n \<or> m < (n :: mutex)"

instance
proof
  fix x y :: mutex
  show "x \<le> y \<or> y \<le> x"
    by (cases x; cases y) (auto simp: less_eq_mutex_def less_mutex_def)
qed (auto simp: less_eq_mutex_def less_mutex_def)

end

lemma mutex_less [simp]:
  "ShardMu i < ShardMu j \<longleftrightarrow> i < j" "ShardMu i < BufMu a" "BufMu a < BufMu b \<longleftrightarrow> a < b"
  "ShardMu i < SubsMu" "BufMu a < SubsMu"
  by (simp_all add: less_mutex_def)

datatype action = Lock mutex | Await mutex | Unlock mutex | RLock mutex | RUnlock mutex

text \<open>
  What a run of actions leaves held, for writing and for reading, when every mutex is above those held
  when it is taken and every release is of a mutex held; \<open>Await\<close> is the rest of a \<open>Lock\<close> that has been
  claimed and waits for the readers to leave.
\<close>

fun hold :: "mutex set \<times> mutex set \<Rightarrow> action list \<Rightarrow> (mutex set \<times> mutex set) option" where
  "hold s [] = Some s"
| "hold (W, R) (Lock m # p) = (if \<forall>x \<in> W \<union> R. x < m then hold (insert m W, R) p else None)"
| "hold (W, R) (Await m # p) = (if m \<in> W \<and> (\<forall>x \<in> (W - {m}) \<union> R. x < m) then hold (W, R) p else None)"
| "hold (W, R) (Unlock m # p) = (if m \<in> W then hold (W - {m}, R) p else None)"
| "hold (W, R) (RLock m # p) = (if \<forall>x \<in> W \<union> R. x < m then hold (W, insert m R) p else None)"
| "hold (W, R) (RUnlock m # p) = (if m \<in> R then hold (W, R - {m}) p else None)"

abbreviation free_locks :: "mutex set \<times> mutex set" where "free_locks \<equiv> ({}, {})"

lemma hold_append: "hold s (p @ q) = Option.bind (hold s p) (\<lambda>s'. hold s' q)"
  by (induction s p rule: hold.induct) auto

lemma hold_concat: "(\<And>p. p \<in> set ps \<Longrightarrow> hold s p = Some s) \<Longrightarrow> hold s (concat ps) = Some s"
  by (induction ps) (auto simp: hold_append)

lemma hold_shards:
  assumes "sorted_wrt (<) is" "\<forall>j \<in> J. \<forall>i \<in> set is. j < i"
  shows "hold (ShardMu ` J, {}) (map (\<lambda>i. Lock (ShardMu i)) is) = Some (ShardMu ` (J \<union> set is), {})"
  using assms
proof (induction "is" arbitrary: J)
  case (Cons i xs)
  have "hold (ShardMu ` insert i J, {}) (map (\<lambda>i. Lock (ShardMu i)) xs) = Some (ShardMu ` (insert i J \<union> set xs), {})"
    by (rule Cons.IH) (use Cons.prems in auto)
  then show ?case using Cons.prems by auto
qed simp

lemma hold_shards_back:
  assumes "distinct is" "set is \<subseteq> J"
  shows "hold (ShardMu ` J, {}) (map (\<lambda>i. Unlock (ShardMu i)) is) = Some (ShardMu ` (J - set is), {})"
  using assms
proof (induction "is" arbitrary: J)
  case (Cons i xs)
  have "hold (ShardMu ` (J - {i}), {}) (map (\<lambda>i. Unlock (ShardMu i)) xs) = Some (ShardMu ` (J - {i} - set xs), {})"
    by (rule Cons.IH) (use Cons.prems in auto)
  moreover have "ShardMu ` J - {ShardMu i} = ShardMu ` (J - {i})" by auto
  moreover have "J - {i} - set xs = J - set (i # xs)" by auto
  ultimately show ?case using Cons.prems by auto
qed simp

section \<open>What each operation locks\<close>

definition lockAllShards :: "action list" where
  "lockAllShards = map (\<lambda>i. Lock (ShardMu i)) [0..<numShards]"

definition unlockAllShards :: "action list" where
  "unlockAllShards = map (\<lambda>i. Unlock (ShardMu i)) [0..<numShards]"

definition lockShards :: "nat list \<Rightarrow> action list" where
  "lockShards shards = map (\<lambda>i. Lock (ShardMu i)) shards"

definition unlockShards :: "nat list \<Rightarrow> action list" where
  "unlockShards shards = map (\<lambda>i. Unlock (ShardMu i)) shards"

definition writing :: "nat \<Rightarrow> action list" where
  \<comment> \<open>a method of a buffer that writes\<close>
  "writing a = [Lock (BufMu a), Unlock (BufMu a)]"

definition reading :: "nat \<Rightarrow> action list" where
  "reading a = [RLock (BufMu a), RUnlock (BufMu a)]"

definition counterAdd_locks :: "bool \<Rightarrow> nat \<Rightarrow> action list" where
  \<comment> \<open>an existing cell is added to under the read lock; otherwise the write lock is taken after it\<close>
  "counterAdd_locks slow a = reading a @ (if slow then writing a else [])"

definition getScope_locks :: "dir \<Rightarrow> bytestr \<Rightarrow> action list" where
  "getScope_locks d k = [RLock (ShardMu (shardIdxFor d k)), RUnlock (ShardMu (shardIdxFor d k))]"

text \<open>A write that makes its scope on demand: what it found, whether it committed, and for the clean-up after
  a failure whether the scope was still the one it made.\<close>

datatype slot = Hit nat | Raced nat | Made nat | NoRoom

record attempt =
  at_slot :: slot
  at_ok :: bool
  at_mapped :: bool

fun getOrCreate_locks :: "dir \<Rightarrow> bytestr \<Rightarrow> slot \<Rightarrow> action list" where
  "getOrCreate_locks d k (Hit a) = getScope_locks d k"
| "getOrCreate_locks d k _ =
     getScope_locks d k @ [Lock (ShardMu (shardIdxFor d k)), Unlock (ShardMu (shardIdxFor d k))]"

definition cleanup_locks :: "dir \<Rightarrow> bytestr \<Rightarrow> nat \<Rightarrow> bool \<Rightarrow> action list" where
  "cleanup_locks d k a mapped =
     [Lock (ShardMu (shardIdxFor d k))] @ (if mapped then writing a else []) @ [Unlock (ShardMu (shardIdxFor d k))]"

definition on_demand :: "dir \<Rightarrow> bytestr \<Rightarrow> (nat \<Rightarrow> action list) \<Rightarrow> attempt \<Rightarrow> action list" where
  "on_demand d k body x = getOrCreate_locks d k (at_slot x) @
     (case at_slot x of
        NoRoom \<Rightarrow> []
      | Made a \<Rightarrow> body a @ (if at_ok x then [] else cleanup_locks d k a (at_mapped x))
      | Hit a \<Rightarrow> body a
      | Raced a \<Rightarrow> body a)"

definition committed :: "attempt \<Rightarrow> bool" where
  "committed x \<longleftrightarrow> at_slot x \<noteq> NoRoom \<and> at_ok x"

definition notify_locks :: "action list" where
  "notify_locks = [RLock SubsMu, RUnlock SubsMu]"

definition event_locks :: "dir \<Rightarrow> attempt option \<Rightarrow> action list" where
  \<comment> \<open>\<open>emitEvent\<close>: an append to \<open>_events\<close>, which may be refused before it looks for the scope\<close>
  "event_locks d ev =
     (case ev of
        None \<Rightarrow> []
      | Some x \<Rightarrow> on_demand d EventsScopeName writing x @ (if committed x then notify_locks else []))"

definition emit_locks :: "dir \<Rightarrow> EventsMode \<Rightarrow> bytestr \<Rightarrow> attempt option \<Rightarrow> action list" where
  "emit_locks d mode k ev =
     (if mode \<noteq> EventsModeOff \<and> k \<noteq> EventsScopeName then event_locks d ev else [])"

definition appendOne_locks :: "dir \<Rightarrow> EventsMode \<Rightarrow> bytestr \<Rightarrow> attempt \<Rightarrow> attempt option \<Rightarrow> action list" where
  "appendOne_locks d mode k x ev = on_demand d k writing x @
     (if committed x then emit_locks d mode k ev @ (if isReservedScope k then notify_locks else []) else [])"

definition upsertOne_locks :: "dir \<Rightarrow> EventsMode \<Rightarrow> bytestr \<Rightarrow> attempt \<Rightarrow> attempt option \<Rightarrow> action list" where
  "upsertOne_locks d mode k x ev =
     on_demand d k writing x @ (if committed x then emit_locks d mode k ev else [])"

definition counterAddOne_locks :: "dir \<Rightarrow> EventsMode \<Rightarrow> bytestr \<Rightarrow> bool \<Rightarrow> attempt \<Rightarrow> attempt option \<Rightarrow> action list" where
  "counterAddOne_locks d mode k slow x ev =
     on_demand d k (counterAdd_locks slow) x @ (if committed x then emit_locks d mode k ev else [])"

definition edit_locks :: "dir \<Rightarrow> EventsMode \<Rightarrow> bytestr \<Rightarrow> nat option \<Rightarrow> bool \<Rightarrow> attempt option \<Rightarrow> action list" where
  \<comment> \<open>\<open>updateOne\<close>, \<open>deleteOne\<close> and \<open>deleteUpTo\<close>\<close>
  "edit_locks d mode k buf changed ev = getScope_locks d k @
     (case buf of
        None \<Rightarrow> []
      | Some a \<Rightarrow> writing a @ (if changed then emit_locks d mode k ev else []))"

definition read_locks :: "dir \<Rightarrow> bytestr \<Rightarrow> nat option \<Rightarrow> action list" where
  \<comment> \<open>\<open>get\<close>, \<open>head\<close>, \<open>tail\<close> and \<open>render\<close>\<close>
  "read_locks d k buf = getScope_locks d k @ (case buf of None \<Rightarrow> [] | Some a \<Rightarrow> reading a)"

definition deleteScope_locks :: "dir \<Rightarrow> EventsMode \<Rightarrow> bytestr \<Rightarrow> nat option \<Rightarrow> attempt option \<Rightarrow> action list" where
  "deleteScope_locks d mode k buf ev =
     [Lock (ShardMu (shardIdxFor d k))] @ (case buf of None \<Rightarrow> [] | Some a \<Rightarrow> writing a) @
     [Unlock (ShardMu (shardIdxFor d k))] @ (if buf \<noteq> None then emit_locks d mode k ev else [])"

definition stats_locks :: "dir \<Rightarrow> nat option \<Rightarrow> nat option \<Rightarrow> action list" where
  "stats_locks d e i = read_locks d EventsScopeName e @ read_locks d InboxScopeName i"

definition scopeList_locks :: "nat list \<Rightarrow> action list" where
  "scopeList_locks refs =
     concat (map (\<lambda>i. [RLock (ShardMu i), RUnlock (ShardMu i)]) [0..<numShards]) @ concat (map reading refs)"

definition wipe_locks :: "nat list \<Rightarrow> action list" where
  "wipe_locks linked = lockAllShards @ concat (map writing linked) @ unlockAllShards"

definition rebuildAll_locks :: "nat list \<Rightarrow> action list" where
  \<comment> \<open>the new buffers are filled before any mutex is taken, by one goroutine\<close>
  "rebuildAll_locks linked = lockAllShards @ concat (map writing linked) @ unlockAllShards"

definition replaceScopes_locks :: "dir \<Rightarrow> EventsMode \<Rightarrow> (bytestr \<times> bool \<times> nat) list \<Rightarrow> bool \<Rightarrow> attempt option \<Rightarrow> action list" where
  \<comment> \<open>a plan: its scope, whether the scope was there, and the buffer it is committed to\<close>
  "replaceScopes_locks d mode plans fits ev =
     (let shards = shardsForScopes d (map fst plans) in
      lockShards shards @
      concat (map (\<lambda>(k, old, a). if old then reading a else []) plans) @
      (if fits then concat (map (\<lambda>(k, old, a). writing a) plans) else []) @
      unlockShards shards @
      (if fits \<and> plans \<noteq> [] \<and> mode \<noteq> EventsModeOff then event_locks d ev else []))"

definition Subscribe_locks :: "action list" where
  "Subscribe_locks = [Lock SubsMu, Unlock SubsMu]"

definition unsubscribe_locks :: "action list" where
  "unsubscribe_locks = [Lock SubsMu, Unlock SubsMu]"

text \<open>A call of the store, with the way it goes; one refused by its validator locks nothing.\<close>

datatype locking =
    TurnedAway
  | Appending bytestr attempt "attempt option"
  | Upserting bytestr attempt "attempt option"
  | Counting bytestr bool attempt "attempt option"
  | Editing bytestr "nat option" bool "attempt option"
  | Looking bytestr "nat option"
  | Dropping bytestr "nat option" "attempt option"
  | Measuring "nat option" "nat option"
  | Listing "nat list"
  | Wiping "nat list"
  | Rebuilding "nat list"
  | Warming "(bytestr \<times> bool \<times> nat) list" bool "attempt option"
  | Subscribing
  | Unsubscribing

fun call_locks :: "dir \<Rightarrow> EventsMode \<Rightarrow> locking \<Rightarrow> action list" where
  "call_locks d mode TurnedAway = []"
| "call_locks d mode (Appending k x ev) = appendOne_locks d mode k x ev"
| "call_locks d mode (Upserting k x ev) = upsertOne_locks d mode k x ev"
| "call_locks d mode (Counting k slow x ev) = counterAddOne_locks d mode k slow x ev"
| "call_locks d mode (Editing k buf changed ev) = edit_locks d mode k buf changed ev"
| "call_locks d mode (Looking k buf) = read_locks d k buf"
| "call_locks d mode (Dropping k buf ev) = deleteScope_locks d mode k buf ev"
| "call_locks d mode (Measuring e i) = stats_locks d e i"
| "call_locks d mode (Listing refs) = scopeList_locks refs"
| "call_locks d mode (Wiping linked) = wipe_locks linked"
| "call_locks d mode (Rebuilding linked) = rebuildAll_locks linked"
| "call_locks d mode (Warming plans fits ev) = replaceScopes_locks d mode plans fits ev"
| "call_locks d mode Subscribing = Subscribe_locks"
| "call_locks d mode Unsubscribing = unsubscribe_locks"

section \<open>In order, and given back\<close>

abbreviation in_turn :: "action list \<Rightarrow> bool" where
  "in_turn p \<equiv> hold free_locks p = Some free_locks"

lemma in_turn_append: "in_turn p \<Longrightarrow> in_turn q \<Longrightarrow> in_turn (p @ q)"
  by (simp add: hold_append)

lemma reading_under: "hold (ShardMu ` J, {}) (reading a) = Some (ShardMu ` J, {})"
  by (auto simp: reading_def)

lemma writing_under: "hold (ShardMu ` J, {}) (writing a) = Some (ShardMu ` J, {})"
  by (auto simp: writing_def)

lemmas buffer_in_turn = reading_under [of "{}", simplified] writing_under [of "{}", simplified]

lemma under_shards:
  assumes "sorted_wrt (<) is" "hold (ShardMu ` set is, {}) p = Some (ShardMu ` set is, {})"
  shows "in_turn (lockShards is @ p @ unlockShards is)"
proof -
  have "distinct is" using assms(1) strict_sorted_iff by blast
  then show ?thesis
    using hold_shards [OF assms(1), of "{}"] hold_shards_back [of "is" "set is"] assms(2)
    by (simp add: hold_append lockShards_def unlockShards_def)
qed

lemma all_shards: "lockAllShards = lockShards [0..<numShards]" "unlockAllShards = unlockShards [0..<numShards]"
  by (simp_all add: lockAllShards_def unlockAllShards_def lockShards_def unlockShards_def)

lemma one_shard: "hold (ShardMu ` {i}, {}) p = Some (ShardMu ` {i}, {}) \<Longrightarrow> in_turn ([Lock (ShardMu i)] @ p @ [Unlock (ShardMu i)])"
  using under_shards [of "[i]" p] by (simp add: lockShards_def unlockShards_def)

lemma getScope_in_turn: "in_turn (getScope_locks d k)"
  by (simp add: getScope_locks_def)

lemma getOrCreate_in_turn: "in_turn (getOrCreate_locks d k o1)"
  by (cases o1) (simp_all add: hold_append getScope_in_turn)

lemma cleanup_in_turn: "in_turn (cleanup_locks d k a mapped)"
  unfolding cleanup_locks_def by (rule one_shard) (simp add: writing_under del: image_insert)

lemma on_demand_in_turn: "(\<And>a. in_turn (body a)) \<Longrightarrow> in_turn (on_demand d k body x)"
  by (simp add: on_demand_def hold_append getOrCreate_in_turn cleanup_in_turn split: slot.split)

lemma counterAdd_in_turn: "in_turn (counterAdd_locks slow a)"
  by (simp add: counterAdd_locks_def hold_append buffer_in_turn)

lemma notify_in_turn: "in_turn notify_locks"
  by (simp add: notify_locks_def)

lemma event_in_turn: "in_turn (event_locks d ev)"
  by (simp add: event_locks_def hold_append on_demand_in_turn buffer_in_turn notify_in_turn split: option.split)

lemma emit_in_turn: "in_turn (emit_locks d mode k ev)"
  by (simp add: emit_locks_def event_in_turn)

lemma read_in_turn: "in_turn (read_locks d k buf)"
  by (simp add: read_locks_def hold_append getScope_in_turn buffer_in_turn split: option.split)

lemma deleteScope_in_turn: "in_turn (deleteScope_locks d mode k buf ev)"
proof -
  have "in_turn ([Lock (ShardMu (shardIdxFor d k))] @ (case buf of None \<Rightarrow> [] | Some a \<Rightarrow> writing a) @ [Unlock (ShardMu (shardIdxFor d k))])"
    by (rule one_shard) (simp add: writing_under del: image_insert split: option.split)
  from in_turn_append [OF this, of "if buf \<noteq> None then emit_locks d mode k ev else []"]
  show ?thesis by (simp add: deleteScope_locks_def emit_in_turn)
qed

lemma scopeList_in_turn: "in_turn (scopeList_locks refs)"
  unfolding scopeList_locks_def by (intro in_turn_append hold_concat) (auto simp: buffer_in_turn)

lemma detach_in_turn: "in_turn (lockAllShards @ concat (map writing linked) @ unlockAllShards)"
  unfolding all_shards
  by (intro under_shards hold_concat) (auto simp: writing_under simp flip: strict_sorted_iff)

lemma replaceScopes_in_turn: "in_turn (replaceScopes_locks d mode plans fits ev)"
proof -
  let ?is = "shardsForScopes d (map fst plans)"
  let ?p = "concat (map (\<lambda>(k, old, a). if old then reading a else []) plans)"
  let ?q = "if fits then concat (map (\<lambda>(k, old, a). writing a) plans) else []"
  let ?J = "ShardMu ` set ?is"
  have "hold (?J, {}) ?p = Some (?J, {})" by (rule hold_concat) (auto simp: reading_under)
  moreover have "hold (?J, {}) ?q = Some (?J, {})" by (auto intro!: hold_concat simp: writing_under)
  ultimately have "in_turn (lockShards ?is @ (?p @ ?q) @ unlockShards ?is)"
    by (intro under_shards shardsForScopes_sorted) (simp add: hold_append)
  from in_turn_append [OF this, of "if fits \<and> plans \<noteq> [] \<and> mode \<noteq> EventsModeOff then event_locks d ev else []"]
  show ?thesis by (simp add: replaceScopes_locks_def Let_def event_in_turn)
qed

lemma call_in_turn: "in_turn (call_locks d mode call)"
proof (cases call)
  case (Dropping k buf ev)
  then show ?thesis by (simp only: call_locks.simps deleteScope_in_turn)
next
  case (Listing refs)
  then show ?thesis by (simp only: call_locks.simps scopeList_in_turn)
next
  case (Warming plans fits ev)
  then show ?thesis by (simp only: call_locks.simps replaceScopes_in_turn)
next
  case (Wiping linked)
  then show ?thesis by (simp only: call_locks.simps wipe_locks_def detach_in_turn)
next
  case (Rebuilding linked)
  then show ?thesis by (simp only: call_locks.simps rebuildAll_locks_def detach_in_turn)
qed (simp_all add: appendOne_locks_def upsertOne_locks_def counterAddOne_locks_def edit_locks_def stats_locks_def
      Subscribe_locks_def unsubscribe_locks_def hold_append on_demand_in_turn buffer_in_turn counterAdd_in_turn
      emit_in_turn notify_in_turn getScope_in_turn read_in_turn split: option.split)

section \<open>Side by side\<close>

text \<open>
  A thread at \<open>Lock\<close> claims the mutex as soon as no other writer has, and keeps readers out from then on; it is
  in when the last reader has left. A thread at \<open>RLock\<close> waits while a writer has claimed the mutex.
\<close>

record world =
  progs :: "action list list"
  writer :: "mutex \<Rightarrow> nat option"
  readers :: "mutex \<Rightarrow> nat set"

inductive lock_step :: "world \<Rightarrow> world \<Rightarrow> bool" where
  claim: "t < length (progs w) \<Longrightarrow> progs w ! t = Lock m # p \<Longrightarrow> writer w m = None \<Longrightarrow>
    lock_step w (w\<lparr>progs := (progs w)[t := Await m # p], writer := (writer w)(m := Some t)\<rparr>)"
| enter: "t < length (progs w) \<Longrightarrow> progs w ! t = Await m # p \<Longrightarrow> readers w m = {} \<Longrightarrow>
    lock_step w (w\<lparr>progs := (progs w)[t := p]\<rparr>)"
| leave: "t < length (progs w) \<Longrightarrow> progs w ! t = Unlock m # p \<Longrightarrow> writer w m = Some t \<Longrightarrow>
    lock_step w (w\<lparr>progs := (progs w)[t := p], writer := (writer w)(m := None)\<rparr>)"
| join: "t < length (progs w) \<Longrightarrow> progs w ! t = RLock m # p \<Longrightarrow> writer w m = None \<Longrightarrow>
    lock_step w (w\<lparr>progs := (progs w)[t := p], readers := (readers w)(m := insert t (readers w m))\<rparr>)"
| part: "t < length (progs w) \<Longrightarrow> progs w ! t = RUnlock m # p \<Longrightarrow> t \<in> readers w m \<Longrightarrow>
    lock_step w (w\<lparr>progs := (progs w)[t := p], readers := (readers w)(m := readers w m - {t})\<rparr>)"

definition side_by_side :: "action list list \<Rightarrow> world" where
  "side_by_side ps = \<lparr>progs = ps, writer = (\<lambda>_. None), readers = (\<lambda>_. {})\<rparr>"

fun waits :: "mutex \<Rightarrow> action list \<Rightarrow> bool" where
  "waits m (Await n # p) \<longleftrightarrow> m = n"
| "waits m _ \<longleftrightarrow> False"

definition inside :: "world \<Rightarrow> mutex \<Rightarrow> nat \<Rightarrow> bool" where
  "inside w m t \<longleftrightarrow> writer w m = Some t \<and> \<not> waits m (progs w ! t)"

definition holding :: "world \<Rightarrow> nat \<Rightarrow> mutex set \<times> mutex set" where
  "holding w t = ({m. writer w m = Some t}, {m. t \<in> readers w m})"

definition orderly :: "world \<Rightarrow> bool" where
  "orderly w \<longleftrightarrow>
     (\<forall>t < length (progs w). hold (holding w t) (progs w ! t) = Some free_locks) \<and>
     (\<forall>m t. writer w m = Some t \<or> t \<in> readers w m \<longrightarrow> t < length (progs w)) \<and>
     (\<forall>m t. inside w m t \<longrightarrow> readers w m = {})"


lemma orderlyD:
  assumes "orderly w"
  shows "t < length (progs w) \<Longrightarrow> hold (holding w t) (progs w ! t) = Some free_locks"
    and "writer w m = Some t \<Longrightarrow> t < length (progs w)" and "t \<in> readers w m \<Longrightarrow> t < length (progs w)"
    and "inside w m t \<Longrightarrow> readers w m = {}"
  using assms by (auto simp: orderly_def)

text \<open>A step changes the program of one thread and what it holds, and nothing of the others.\<close>

lemma orderly_step:
  assumes "orderly w" "t < length (progs w)" "progs w' = (progs w)[t := p]"
    and "hold (holding w' t) p = Some free_locks" "\<And>u. u \<noteq> t \<Longrightarrow> holding w' u = holding w u"
    and "\<And>m. inside w' m t \<Longrightarrow> readers w' m = {}"
    and "\<And>m u. u \<noteq> t \<Longrightarrow> inside w m u \<Longrightarrow> readers w m = {} \<Longrightarrow> readers w' m = {}"
  shows "orderly w'"
  unfolding orderly_def
proof (intro conjI allI impI)
  note O = orderlyD [OF assms(1)]
  have wr: "(writer w' m = Some u) = (writer w m = Some u)" "(u \<in> readers w' m) = (u \<in> readers w m)" if "u \<noteq> t" for u m
    using assms(5) [OF that] by (auto simp: holding_def set_eq_iff)
  fix u m
  show "hold (holding w' u) (progs w' ! u) = Some free_locks" if "u < length (progs w')"
    using that assms(2-5) O(1) [of u] by (cases "u = t") simp_all
  show "u < length (progs w')" if "writer w' m = Some u \<or> u \<in> readers w' m"
    using that assms(2,3) wr [of u m] O(2,3) [where m = m and t = u] by (cases "u = t") auto
  show "readers w' m = {}" if "inside w' m u"
  proof (cases "u = t")
    case False
    then have "inside w m u" using that wr assms(3) by (simp add: inside_def)
    then show ?thesis using assms(7) [OF False] O(4) by blast
  qed (use that assms(6) in simp)
qed

lemma steps_orderly:
  assumes "lock_step w w'" "orderly w"
  shows "orderly w'"
  using assms(1)
proof cases
  case (claim t m p)
  note h = orderlyD(1) [OF assms(2) claim(2)] and i = orderlyD(4) [OF assms(2)]
  have ins: "inside w' n t \<Longrightarrow> inside w n t" for n using claim by (auto simp: inside_def split: if_splits)
  show ?thesis
  proof (rule orderly_step [OF assms(2) claim(2), of w' "Await m # p"])
    have "{n. writer w' n = Some t} = insert m {n. writer w n = Some t}" using claim by auto
    moreover have "insert m W - {m} = W - {m}" for W :: "mutex set" by auto
    ultimately show "hold (holding w' t) (Await m # p) = Some free_locks"
      using h claim by (auto simp: holding_def split: if_splits)
    show "readers w' n = {}" if "inside w' n t" for n using i [OF ins [OF that]] claim by simp
  qed (use claim in \<open>auto simp: holding_def\<close>)
next
  case (enter t m p)
  note h = orderlyD(1) [OF assms(2) enter(2)]
  show ?thesis
  proof (rule orderly_step [OF assms(2) enter(2), of w' p])
    show "readers w' n = {}" if "inside w' n t" for n
    proof (cases "n = m")
      case False
      then have "inside w n t" using that enter by (auto simp: inside_def)
      then show ?thesis using orderlyD(4) [OF assms(2)] enter by simp
    qed (use enter in simp)
  qed (use h enter in \<open>auto simp: holding_def split: if_splits\<close>)
next
  case (leave t m p)
  note h = orderlyD(1) [OF assms(2) leave(2)]
  have ins: "inside w' n t \<Longrightarrow> inside w n t" for n using leave by (auto simp: inside_def split: if_splits)
  show ?thesis
  proof (rule orderly_step [OF assms(2) leave(2), of w' p])
    have "{n. writer w' n = Some t} = {n. writer w n = Some t} - {m}" using leave by auto
    then show "hold (holding w' t) p = Some free_locks" using h leave by (auto simp: holding_def split: if_splits)
    show "readers w' n = {}" if "inside w' n t" for n using orderlyD(4) [OF assms(2) ins [OF that]] leave by simp
  qed (use leave in \<open>auto simp: holding_def\<close>)
next
  case (join t m p)
  note h = orderlyD(1) [OF assms(2) join(2)]
  show ?thesis
  proof (rule orderly_step [OF assms(2) join(2), of w' p])
    have "{n. t \<in> readers w' n} = insert m {n. t \<in> readers w n}" using join by auto
    then show "hold (holding w' t) p = Some free_locks" using h join by (auto simp: holding_def split: if_splits)
    show "readers w' n = {}" if "inside w' n t" for n
    proof -
      have "inside w n t" "n \<noteq> m" using that join by (auto simp: inside_def)
      then show ?thesis using orderlyD(4) [OF assms(2)] join by simp
    qed
  qed (use join in \<open>auto simp: holding_def inside_def\<close>)
next
  case (part t m p)
  note h = orderlyD(1) [OF assms(2) part(2)]
  have ins: "inside w' n t \<Longrightarrow> inside w n t" for n using part by (auto simp: inside_def split: if_splits)
  show ?thesis
  proof (rule orderly_step [OF assms(2) part(2), of w' p])
    have "{n. t \<in> readers w' n} = {n. t \<in> readers w n} - {m}" using part by auto
    then show "hold (holding w' t) p = Some free_locks" using h part by (auto simp: holding_def split: if_splits)
    show "readers w' n = {}" if "inside w' n t" for n using orderlyD(4) [OF assms(2) ins [OF that]] part by auto
  qed (use part in \<open>auto simp: holding_def\<close>)
qed

lemma orderly_start: "\<forall>p \<in> set ps. in_turn p \<Longrightarrow> orderly (side_by_side ps)"
  by (auto simp: orderly_def side_by_side_def holding_def inside_def)

section \<open>Nobody waits for ever\<close>

text \<open>The mutex a thread is stopped at.\<close>

fun wanted :: "action list \<Rightarrow> mutex option" where
  "wanted (Lock m # p) = Some m" | "wanted (Await m # p) = Some m" | "wanted (RLock m # p) = Some m" | "wanted _ = None"

lemma wanted_above:
  "wanted p = Some m \<Longrightarrow> hold (W, R) p = Some s \<Longrightarrow> x \<in> W \<union> R \<Longrightarrow> x < m \<or> x = m \<and> x \<notin> R \<and> (\<exists>q. p = Await m # q)"
  by (cases p rule: wanted.cases) (auto split: if_splits)

lemma stopped_wants:
  assumes "orderly w" "\<nexists>w'. lock_step w w'" "t < length (progs w)" "progs w ! t \<noteq> []"
  shows "\<exists>m. wanted (progs w ! t) = Some m"
proof -
  note h = orderlyD(1) [OF assms(1,3)]
  obtain a p where run: "progs w ! t = a # p" using assms(4) by (cases "progs w ! t") auto
  show ?thesis
  proof (cases a)
    case (Unlock m)
    then have "writer w m = Some t" using h run by (auto simp: holding_def split: if_splits)
    then show ?thesis using lock_step.leave [OF assms(3)] Unlock run assms(2) by blast
  next
    case (RUnlock m)
    then have "t \<in> readers w m" using h run by (auto simp: holding_def split: if_splits)
    then show ?thesis using lock_step.part [OF assms(3)] RUnlock run assms(2) by blast
  qed (use run in simp_all)
qed

lemma holder_wants_above:
  assumes "orderly w" "\<nexists>w'. lock_step w w'" "writer w m = Some t \<or> t \<in> readers w m"
  shows "\<exists>n. t < length (progs w) \<and> wanted (progs w ! t) = Some n \<and>
    (m < n \<or> m = n \<and> t \<notin> readers w m \<and> (\<exists>p. progs w ! t = Await m # p))"
proof -
  have t: "t < length (progs w)" using orderlyD(2,3) [OF assms(1)] assms(3) by blast
  note h = orderlyD(1) [OF assms(1) t, unfolded holding_def]
  have "progs w ! t \<noteq> []" using h assms(3) by auto
  then obtain n where n: "wanted (progs w ! t) = Some n" using stopped_wants [OF assms(1,2) t] by blast
  from wanted_above [OF n h, of m] show ?thesis using assms(3) t n by auto
qed

text \<open>Whoever is stopped is stopped by somebody who wants more.\<close>

lemma stopped_by:
  assumes "orderly w" "\<nexists>w'. lock_step w w'" "t < length (progs w)" "wanted (progs w ! t) = Some m"
  shows "\<exists>u n. u < length (progs w) \<and> wanted (progs w ! u) = Some n \<and> m < n"
proof -
  have by_reader: "\<exists>u n. u < length (progs w) \<and> wanted (progs w ! u) = Some n \<and> m < n"
    if "u < length (progs w)" "progs w ! u = Await m # p" for u p
  proof -
    have "readers w m \<noteq> {}" using lock_step.enter [OF that] assms(2) by blast
    then obtain r where "r \<in> readers w m" by blast
    then show ?thesis using holder_wants_above [OF assms(1,2), of m r] by blast
  qed
  have by_writer: "\<exists>u n. u < length (progs w) \<and> wanted (progs w ! u) = Some n \<and> m < n" if "writer w m = Some u" for u
    using holder_wants_above [OF assms(1,2), of m u] that by_reader by blast
  show ?thesis
  proof (cases "progs w ! t" rule: wanted.cases)
    case (1 n p)
    then show ?thesis using assms(2,4) lock_step.claim [OF assms(3), of n p] by_writer by (cases "writer w n") auto
  next
    case (2 n p)
    then show ?thesis using assms(3,4) by_reader by auto
  next
    case (3 n p)
    then show ?thesis using assms(2,4) lock_step.join [OF assms(3), of n p] by_writer by (cases "writer w n") auto
  qed (use assms(4) in simp_all)
qed

lemma never_stuck:
  assumes "orderly w" "\<exists>p \<in> set (progs w). p \<noteq> []"
  shows "\<exists>w'. lock_step w w'"
proof (rule ccontr)
  assume stuck: "\<not> ?thesis"
  let ?M = "{m. \<exists>t < length (progs w). wanted (progs w ! t) = Some m}"
  obtain t where "t < length (progs w)" "progs w ! t \<noteq> []" using assms(2) by (metis in_set_conv_nth)
  then have "?M \<noteq> {}" using stopped_wants [OF assms(1) stuck] by blast
  moreover have "finite ?M"
    by (rule finite_subset [of _ "(\<lambda>t. the (wanted (progs w ! t))) ` {..< length (progs w)}"]) force+
  ultimately have top: "Max ?M \<in> ?M" "\<And>m. m \<in> ?M \<Longrightarrow> m \<le> Max ?M" using Max_in Max_ge by blast+
  then obtain t where "t < length (progs w)" "wanted (progs w ! t) = Some (Max ?M)" by blast
  then obtain n where "n \<in> ?M" "Max ?M < n" using stopped_by [OF assms(1) stuck] by blast
  then show False using top(2) [of n] by simp
qed

text \<open>Each step does one of the actions left; a \<open>Lock\<close> takes two.\<close>

fun cost :: "action \<Rightarrow> nat" where
  "cost (Lock m) = 2" | "cost _ = 1"

definition work :: "action list list \<Rightarrow> nat" where
  "work ps = sum_list (map (\<lambda>p. sum_list (map cost p)) ps)"

lemma work_upd: "t < length ps \<Longrightarrow> work (ps[t := p]) + sum_list (map cost (ps ! t)) = work ps + sum_list (map cost p)"
proof (induction ps arbitrary: t)
  case (Cons q ps)
  then show ?case by (cases t) (simp_all add: work_def)
qed simp

lemma work_less:
  assumes "t < length ps" "ps ! t = a # p" "sum_list (map cost q) + 1 = sum_list (map cost (a # p))"
  shows "Suc (work (ps[t := q])) = work ps"
  using work_upd [OF assms(1), of q] assms(2,3) by simp

lemma step_works: "lock_step w w' \<Longrightarrow> Suc (work (progs w')) = work (progs w)"
  by (erule lock_step.cases) (auto intro: work_less)

text \<open>The contract of whoever uses the mutexes, and what it gives any number of such users.\<close>

locale lock_user =
  fixes uses :: "'c \<Rightarrow> action list"
  assumes uses_in_turn: "in_turn (uses c)"
begin

lemma runs_orderly:
  assumes "(lock_step ^^ n) (side_by_side (map uses cs)) w"
  shows "orderly w \<and> n + work (progs w) = work (map uses cs)"
  using assms
proof (induction n arbitrary: w)
  case 0
  then show ?case using orderly_start [of "map uses cs"] uses_in_turn by (auto simp: side_by_side_def)
next
  case (Suc n)
  then obtain v where v: "(lock_step ^^ n) (side_by_side (map uses cs)) v" "lock_step v w" by auto
  show ?case using Suc.IH [OF v(1)] steps_orderly [OF v(2)] step_works [OF v(2)] by simp
qed

lemma runs_progress:
  assumes "(lock_step ^^ n) (side_by_side (map uses cs)) w" "\<exists>p \<in> set (progs w). p \<noteq> []"
  shows "\<exists>w'. lock_step w w'"
  using never_stuck runs_orderly [OF assms(1)] assms(2) by blast

lemma runs_finish:
  assumes "(lock_step ^^ n) (side_by_side (map uses cs)) w" "\<forall>p \<in> set (progs w). p = []"
  shows "writer w m = None \<and> readers w m = {}"
proof -
  have O: "orderly w" using runs_orderly [OF assms(1)] by blast
  have "holding w t = free_locks" if "t < length (progs w)" for t
  proof -
    have "progs w ! t = []" using assms(2) that by (meson nth_mem)
    then show ?thesis using orderlyD(1) [OF O that] by simp
  qed
  then have empty: "{m. writer w m = Some t} = {} \<and> {m. t \<in> readers w m} = {}" if "t < length (progs w)" for t
    using that by (simp add: holding_def)
  have "\<not> (writer w m = Some t \<or> t \<in> readers w m)" for t
    using empty [of t] orderlyD(2,3) [OF O, where m = m and t = t] by blast
  then show ?thesis by (cases "writer w m") auto
qed

end

interpretation calls: lock_user "call_locks d mode" for d mode
  by unfold_locales (rule call_in_turn)

end
