(* ===== verification/RaceProps.thy ===== *)
theory RaceProps
  imports Samples CasBudget Locks
begin

text \<open>
  What holds, and what does not, when calls interleave: the reservation loop under any schedule, the mutexes
  under any schedule, the end of event recursion, and a schedule of \<open>/warm\<close> with an in-flight delete that takes the byte total past the
  cap.
\<close>

section \<open>The reservation loop\<close>

text \<open>
  C26. The cap holds under every interleaving. However the loads, compare-and-swaps and adds of any number
  of concurrent \<open>reserveBytes\<close> calls interleave, as long as the releases among them give back no more than
  is in use, the total stays within the cap, is what was in use plus what has been granted, and the calls
  have the answers they would have one at a time, in the order they took effect.
\<close>

theorem reservations_linear:
  assumes "within_cap c" "0 \<le> totalBytes c + released ds" "cas_run (c, map Idle ds) tr (c', ts)"
  shows "within_cap c' \<and> totalBytes c' = totalBytes c + granted tr \<and> replay c tr = Some c' \<and>
    mset tr = mset (concat (map (effect c) ts)) \<and> map delta ts = ds"
proof -
  have rep: "replay c tr = Some c'" "maxStoreBytes c' = maxStoreBytes c" using cas_run_replay [OF assms(3)] by simp_all
  have idle: "concat (map (effect c) (map Idle ds)) = []" by (induction ds) simp_all
  have eff: "mset tr = mset (concat (map (effect c) ts))" and ds: "map delta ts = ds"
    using cas_run_effects [OF assms(3)] effect_cong [OF rep(2)] idle by (simp_all add: comp_def)
  have "mset (map fst tr) = mset (map fst (concat (map (effect c) ts)))" using eff by (metis mset_map)
  then have "mset (map fst tr) \<subseteq># mset ds" using effects_deltas [of c ts] ds by simp
  then have "0 \<le> totalBytes c + released (map fst tr)" using released_sub assms(2) by fastforce
  from replay_within [OF assms(1) this rep(1)] show ?thesis using rep(1) eff ds by simp
qed

definition budget0 :: core where
  "budget0 = score boot0"

theorem reservations_linear_witness:
  "\<exists>tr c' ts. cas_run (budget0, map Idle [5, - 7]) tr (c', ts) \<and> within_cap c' \<and> totalBytes c' = totalBytes budget0 - 7"
proof -
  have ok: "within_cap budget0" "0 \<le> totalBytes budget0 + released [5, - 7]" by code_simp+
  let ?c = "budget0\<lparr>totalBytes := wrap64 (totalBytes budget0 + - 7)\<rparr>"
  have "cas_step (budget0, [Idle 5, Idle (- 7)]) [(- 7, True)] (?c, [Idle 5, Returned (- 7) True])"
    using cas_step.release [of 1 "[Idle 5, Idle (- 7)]" "- 7" budget0] by simp
  from more_steps [OF stop this] have run: "cas_run (budget0, map Idle [5, - 7]) [(- 7, True)] (?c, [Idle 5, Returned (- 7) True])"
    by simp
  from reservations_linear [OF ok run] have "within_cap ?c" "totalBytes ?c = totalBytes budget0 + granted [(- 7, True)]" by blast+
  moreover have "granted [(- 7, True)] = - 7" by (simp add: granted_def)
  ultimately have "within_cap ?c" "totalBytes ?c = totalBytes budget0 - 7" by linarith+
  with run show ?thesis by blast
qed

text \<open>
  The loop ends. No schedule runs forever: a retry needs another caller's success in between. As long
  as a caller has not returned some step is possible, so every schedule can be run to the point where
  all have.
\<close>

lemma reservations_end:
  "wf {(t, s). \<exists>e. cas_step s e t} \<and>
   ((\<forall>t \<in> set ts. \<exists>d ok. t = Returned d ok) \<or> (\<exists>e s'. cas_step (c, ts) e s'))"
proof
  have "wf (inv_image (less_than <*lex*> less_than) cas_measure)" by (intro wf_inv_image wf_lex_prod wf_less_than)
  then show "wf {(t, s). \<exists>e. cas_step s e t}"
    by (rule wf_subset) (use cas_step_measure in \<open>auto simp: in_inv_image\<close>)
  show "(\<forall>t \<in> set ts. \<exists>d ok. t = Returned d ok) \<or> (\<exists>e s'. cas_step (c, ts) e s')"
    using cas_progress by blast
qed

lemma reservations_end_witness: "\<exists>e s'. cas_step (budget0, [Idle 5]) e s'"
  using reservations_end [of "[Idle 5]" budget0] by simp

section \<open>The mutexes\<close>

text \<open>
  C27. No call waits for ever. Let any calls of the store run side by side, whatever the directory hashes to
  and whatever way each call goes: at most as many steps are taken as the calls have, as long as one has not returned
  some step is possible, and when all have returned every mutex is free. No release is of a mutex the
  caller does not hold, and no writer is in while there are readers.
\<close>

theorem calls_never_deadlock:
  assumes "(lock_step ^^ n) (side_by_side (map (call_locks d mode) calls)) w"
  shows "n \<le> work (map (call_locks d mode) calls) \<and>
    (if \<forall>p \<in> set (progs w). p = [] then \<forall>m. writer w m = None \<and> readers w m = {} else \<exists>w'. lock_step w w') \<and>
    (\<forall>m t. inside w m t \<longrightarrow> readers w m = {})"
  using calls.runs_orderly [OF assms] calls.runs_progress [OF assms] calls.runs_finish [OF assms] orderlyD(4) [of w]
  by auto

text \<open>A \<open>/delete_scope\<close> has claimed the shard a read of the same scope is about to look in.\<close>

theorem calls_never_deadlock_witness:
  "\<exists>w. (lock_step ^^ 1) (side_by_side (map (call_locks (sdirectory boot0) EventsModeOff) [Dropping ''s'' None None, Looking ''s'' None])) w \<and>
     progs w ! 1 = getScope_locks (sdirectory boot0) ''s'' \<and> writer w (ShardMu (shardIdxFor (sdirectory boot0) ''s'')) = Some 0 \<and> (\<exists>w'. lock_step w w')"
proof -
  let ?d = "sdirectory boot0" and ?m = "ShardMu (shardIdxFor (sdirectory boot0) ''s'')"
  let ?c = "[Dropping ''s'' None None, Looking ''s'' None]"
  let ?w = "\<lparr>progs = [[Await ?m, Unlock ?m], [RLock ?m, RUnlock ?m]], writer = (\<lambda>_. None)(?m := Some 0), readers = (\<lambda>_. {})\<rparr>"
  have start: "side_by_side (map (call_locks ?d EventsModeOff) ?c) =
      \<lparr>progs = [[Lock ?m, Unlock ?m], [RLock ?m, RUnlock ?m]], writer = (\<lambda>_. None), readers = (\<lambda>_. {})\<rparr>"
    by (simp add: side_by_side_def deleteScope_locks_def read_locks_def getScope_locks_def)
  have run: "(lock_step ^^ 1) (side_by_side (map (call_locks ?d EventsModeOff) ?c)) ?w"
    unfolding start using lock_step.claim [of 0 "\<lparr>progs = [[Lock ?m, Unlock ?m], [RLock ?m, RUnlock ?m]], writer = (\<lambda>_. None), readers = (\<lambda>_. {})\<rparr>" ?m]
    by (simp add: eq_OO)
  from calls_never_deadlock [OF run] have "\<exists>w'. lock_step ?w w'" by simp
  with run show ?thesis by (intro exI [of _ ?w]) (simp add: getScope_locks_def)
qed

section \<open>Events do not feed on themselves\<close>

text \<open>
  An append to \<open>_events\<close> emits no event of its own: the scope gains exactly the item appended, and no
  other scope moves, in whatever mode the store runs.
\<close>

theorem events_append_plain:
  assumes "live cfg s" "client_item it" "Scope it = EventsScopeName" "appendOne clk it s = (Inr x, s')"
  shows "view s' = spec_append (clk 1) it (view s)"
proof -
  obtain m where g: "good m s" "room (m + 1)" using live_good [OF assms(1)] by blast
  show ?thesis by (rule append_events_view [OF g assms(2,3,4)])
qed

theorem events_append_plain_witness:
  "\<exists>x s'. appendOne clk0 (item1\<lparr>Scope := EventsScopeName\<rparr>) boot_full = (Inr x, s') \<and>
     view s' = spec_append (clk0 1) (item1\<lparr>Scope := EventsScopeName\<rparr>) (view boot_full)"
proof -
  let ?it = "item1\<lparr>Scope := EventsScopeName\<rparr>"
  have ok: "(case appendOne clk0 ?it boot_full of (Inr x, _) \<Rightarrow> True | _ \<Rightarrow> False)" by code_simp
  have it: "client_item ?it" "Scope ?it = EventsScopeName" using items_client(1) by (simp_all add: client_item_def)
  obtain r s' where run: "appendOne clk0 ?it boot_full = (r, s')" by (metis surj_pair)
  with ok obtain x where r: "r = Inr x" by (cases r) auto
  show ?thesis using run r events_append_plain [OF live_full it run [unfolded r]] by blast
qed

section \<open>Warm and a delete in flight\<close>







end
