(* ===== verification/JsonDecode.thy ===== *)
theory JsonDecode
  imports Validation
begin

text \<open>
  \<open>encoding/json\<close> on the way in: \<open>Decoder.Decode\<close> takes one value off a body that may be cut short, and
  the value is decoded into the request structs of \<open>types.go\<close>: \<open>Item\<close>, the delete and counter requests,
  and \<open>itemsRequest\<close>. A value is kept as its text; an object is cut into its members, each a decoded key
  and the text of its value, and a struct is the fold of its members, so a repeated key is decoded over
  what the earlier one left. Every type error makes the whole decoding an error.
\<close>

section \<open>One value off a stream\<close>

definition ends_at :: "jstate \<Rightarrow> pstate list \<Rightarrow> char \<Rightarrow> bool" where
  \<comment> \<open>\<open>scanEnd\<close>: the value is complete and the byte does not go on with it\<close>
  "ends_at q ps c \<longleftrightarrow> jeof (Some (q, ps)) \<and> (case jstep q ps c of None \<Rightarrow> True | Some (q', _) \<Rightarrow> q' = EndTop)"

datatype read = ReadValue string string | ReadBad | ReadShort jstate "pstate list"

fun read_from :: "jstate \<Rightarrow> pstate list \<Rightarrow> string \<Rightarrow> read" where
  \<comment> \<open>a container ends with its last byte, any other value at the first byte that is not of it\<close>
  "read_from q ps [] = ReadShort q ps"
| "read_from q ps (c # cs) =
     (if ends_at q ps c then ReadValue [] (c # cs)
      else case jstep q ps c of
        None \<Rightarrow> ReadBad
      | Some (q', ps') \<Rightarrow>
          if q' = EndTop then ReadValue [c] cs
          else (case read_from q' ps' cs of ReadValue t r \<Rightarrow> ReadValue (c # t) r | x \<Rightarrow> x))"

abbreviation read_value :: "string \<Rightarrow> read" where
  "read_value \<equiv> read_from BeginValue []"

lemma read_from_split: "read_from q ps s = ReadValue t r \<Longrightarrow> s = t @ r"
  by (induction q ps s arbitrary: t rule: read_from.induct) (auto split: if_splits option.splits read.splits)

section \<open>Members and elements\<close>

lemma json_TrimLeft_length [simp]: "length (json_TrimLeft s) \<le> length s"
  by (simp add: json_TrimLeft_def length_dropWhile_le)

lemma read_rest_length: "read_from q ps s = ReadValue t r \<Longrightarrow> length r \<le> length s"
  by (auto dest: read_from_split)

lemma trim_tail_length: "json_TrimLeft s = c # r \<Longrightarrow> length r < length s"
  using json_TrimLeft_length [of s] by simp

text \<open>The members after an opening brace, and the elements after an opening bracket, of valid JSON.\<close>

function members :: "string \<Rightarrow> (string \<times> string) list" where
  "members s =
     (case read_value (json_TrimLeft s) of
        ReadValue k r \<Rightarrow>
          (case json_TrimLeft r of
             _ # r1 \<Rightarrow>
               (case read_value (json_TrimLeft r1) of
                  ReadValue v r2 \<Rightarrow>
                    (case json_TrimLeft r2 of
                       e # r3 \<Rightarrow> (unquote (tl k), v) # (if e = CHR '','' then members r3 else [])
                     | [] \<Rightarrow> [])
                | _ \<Rightarrow> [])
           | [] \<Rightarrow> [])
      | _ \<Rightarrow> [])"
  by pat_completeness auto
termination
proof (relation "measure length", simp)
  fix s k r c r1 v r2 e r3
  assume "read_value (json_TrimLeft s) = ReadValue k r" "json_TrimLeft r = c # r1"
    "read_value (json_TrimLeft r1) = ReadValue v r2" "json_TrimLeft r2 = e # r3"
  then have "length r \<le> length (json_TrimLeft s)" "length r1 < length r"
    "length r2 \<le> length (json_TrimLeft r1)" "length r3 < length r2"
    by (blast intro: read_rest_length trim_tail_length)+
  then show "(r3, s) \<in> measure length"
    using json_TrimLeft_length [of s] json_TrimLeft_length [of r1] unfolding in_measure by linarith
qed

function elements :: "string \<Rightarrow> string list" where
  "elements s =
     (case read_value (json_TrimLeft s) of
        ReadValue v r \<Rightarrow>
          (case json_TrimLeft r of
             e # r1 \<Rightarrow> v # (if e = CHR '','' then elements r1 else [])
           | [] \<Rightarrow> [])
      | _ \<Rightarrow> [])"
  by pat_completeness auto
termination
proof (relation "measure length", simp)
  fix s v r e r1
  assume "read_value (json_TrimLeft s) = ReadValue v r" "json_TrimLeft r = e # r1"
  then have "length r \<le> length (json_TrimLeft s)" "length r1 < length r"
    by (blast intro: read_rest_length trim_tail_length)+
  then show "(r1, s) \<in> measure length" using json_TrimLeft_length [of s] unfolding in_measure by linarith
qed

declare members.simps [simp del] elements.simps [simp del]

section \<open>Field names\<close>

text \<open>
  \<open>foldName\<close>: every rune is replaced by the smallest one that differs from it in case only. The two
  runes outside ASCII that fold into it are the long s and the Kelvin sign; any other keeps outside
  ASCII, where no field name is.
\<close>

definition fold_rune :: "nat \<Rightarrow> nat" where
  "fold_rune r = (if r = 383 then 83 else if r = 8490 then 75 else r)"

definition upper :: "char \<Rightarrow> char" where
  "upper c = (if 97 \<le> byte c \<and> byte c \<le> 122 then char_of (byte c - 32) else c)"

function fold_name :: "string \<Rightarrow> string" where
  "fold_name [] = []"
| "fold_name (c # s) =
     (if byte c < 128 then upper c # fold_name s
      else let (r, n) = decode_rune c s in encode_rune (fold_rune r) @ fold_name (drop (n - 1) s))"
  by pat_completeness auto
termination
  by (relation "measure length") auto

definition field_of :: "string list \<Rightarrow> string \<Rightarrow> string option" where
  \<comment> \<open>the exact name first, then the first name equal up to case\<close>
  "field_of names key = (if key \<in> set names then Some key else find (\<lambda>n. fold_name n = fold_name key) names)"

section \<open>Values\<close>

definition starts :: "char \<Rightarrow> string \<Rightarrow> bool" where
  "starts c t \<longleftrightarrow> t \<noteq> [] \<and> hd t = c"

definition is_null :: "string \<Rightarrow> bool" where
  "is_null t \<longleftrightarrow> starts CHR ''n'' t"

text \<open>Each decoder is given the text of a value and what the field held; \<open>null\<close> leaves a plain field as it is.\<close>

definition dec_string :: "string \<Rightarrow> bytestr \<Rightarrow> bytestr option" where
  "dec_string t old = (if is_null t then Some old else if starts CHR 0x22 t then Some (unquote (tl t)) else None)"

definition is_number :: "string \<Rightarrow> bool" where
  "is_number t \<longleftrightarrow> t \<noteq> [] \<and> is_number_start (hd t)"

definition dec_u64 :: "string \<Rightarrow> u64 \<Rightarrow> u64 option" where
  "dec_u64 t old = (if is_null t then Some old else if is_number t then parse_uint64 t else None)"

definition dec_i64 :: "string \<Rightarrow> int \<Rightarrow> int option" where
  "dec_i64 t old = (if is_null t then Some old else if is_number t then parse_int64 t else None)"

definition dec_i64_ptr :: "string \<Rightarrow> int option option" where
  "dec_i64_ptr t =
     (if is_null t then Some None else if is_number t then map_option Some (parse_int64 t) else None)"

fun fold_fields :: "('a \<Rightarrow> string \<times> string \<Rightarrow> 'a option) \<Rightarrow> 'a \<Rightarrow> (string \<times> string) list \<Rightarrow> 'a option" where
  "fold_fields set_field x [] = Some x"
| "fold_fields set_field x (m # ms) =
     (case set_field x m of None \<Rightarrow> None | Some y \<Rightarrow> fold_fields set_field y ms)"

definition opens_empty :: "char \<Rightarrow> string \<Rightarrow> bool" where
  "opens_empty close s \<longleftrightarrow> starts close (json_TrimLeft s)"

definition dec_struct :: "('a \<Rightarrow> string \<times> string \<Rightarrow> 'a option) \<Rightarrow> 'a \<Rightarrow> string \<Rightarrow> 'a option" where
  "dec_struct set_field x t =
     (if is_null t then Some x
      else if starts CHR ''{'' t then
        (if opens_empty CHR ''}'' (tl t) then Some x else fold_fields set_field x (members (tl t)))
      else None)"

section \<open>The request structs\<close>

definition set_item :: "Item \<Rightarrow> string \<times> string \<Rightarrow> Item option" where
  \<comment> \<open>a \<open>RawMessage\<close> takes the text of any value, \<open>null\<close> included\<close>
  "set_item it m =
     (case m of (key, v) \<Rightarrow>
       (case field_of [''scope'', ''id'', ''seq'', ''ts'', ''payload''] key of
          None \<Rightarrow> Some it
        | Some f \<Rightarrow>
            if f = ''scope'' then map_option (\<lambda>x. it\<lparr>Scope := x\<rparr>) (dec_string v (Scope it))
            else if f = ''id'' then map_option (\<lambda>x. it\<lparr>ID := x\<rparr>) (dec_string v (ID it))
            else if f = ''seq'' then map_option (\<lambda>x. it\<lparr>Seq := x\<rparr>) (dec_u64 v (Seq it))
            else if f = ''ts'' then map_option (\<lambda>x. it\<lparr>Ts := x\<rparr>) (dec_i64 v (Ts it))
            else Some (it\<lparr>Payload := Some v\<rparr>)))"

definition dec_Item :: "Item \<Rightarrow> string \<Rightarrow> Item option" where
  "dec_Item = dec_struct set_item"

definition set_delete :: "deleteRequest \<Rightarrow> string \<times> string \<Rightarrow> deleteRequest option" where
  "set_delete r m =
     (case m of (key, v) \<Rightarrow>
       (case field_of [''scope'', ''id'', ''seq''] key of
          None \<Rightarrow> Some r
        | Some f \<Rightarrow>
            if f = ''scope'' then map_option (\<lambda>x. r\<lparr>dr_Scope := x\<rparr>) (dec_string v (dr_Scope r))
            else if f = ''id'' then map_option (\<lambda>x. r\<lparr>dr_ID := x\<rparr>) (dec_string v (dr_ID r))
            else map_option (\<lambda>x. r\<lparr>dr_Seq := x\<rparr>) (dec_u64 v (dr_Seq r))))"

definition set_delete_scope :: "deleteScopeRequest \<Rightarrow> string \<times> string \<Rightarrow> deleteScopeRequest option" where
  "set_delete_scope r m =
     (case m of (key, v) \<Rightarrow>
       (case field_of [''scope''] key of
          None \<Rightarrow> Some r
        | Some _ \<Rightarrow> map_option (\<lambda>x. r\<lparr>dsr_Scope := x\<rparr>) (dec_string v (dsr_Scope r))))"

definition set_delete_up_to :: "deleteUpToRequest \<Rightarrow> string \<times> string \<Rightarrow> deleteUpToRequest option" where
  "set_delete_up_to r m =
     (case m of (key, v) \<Rightarrow>
       (case field_of [''scope'', ''max_seq''] key of
          None \<Rightarrow> Some r
        | Some f \<Rightarrow>
            if f = ''scope'' then map_option (\<lambda>x. r\<lparr>dur_Scope := x\<rparr>) (dec_string v (dur_Scope r))
            else map_option (\<lambda>x. r\<lparr>dur_MaxSeq := x\<rparr>) (dec_u64 v (dur_MaxSeq r))))"

definition set_counter :: "counterAddRequest \<Rightarrow> string \<times> string \<Rightarrow> counterAddRequest option" where
  "set_counter r m =
     (case m of (key, v) \<Rightarrow>
       (case field_of [''scope'', ''id'', ''by''] key of
          None \<Rightarrow> Some r
        | Some f \<Rightarrow>
            if f = ''scope'' then map_option (\<lambda>x. r\<lparr>car_Scope := x\<rparr>) (dec_string v (car_Scope r))
            else if f = ''id'' then map_option (\<lambda>x. r\<lparr>car_ID := x\<rparr>) (dec_string v (car_ID r))
            else map_option (\<lambda>x. r\<lparr>car_By := x\<rparr>) (dec_i64_ptr v)))"

text \<open>
  A slice being decoded is its backing array, as far as it was ever written, and its length: a second
  array for the same field is decoded over the elements the first one left, also over those past its
  length, which still lie in the array.
\<close>

record itemsRequest =
  ireq_array :: "Item list"
  ireq_len :: nat

definition ireq_Items :: "itemsRequest \<Rightarrow> Item list" where
  "ireq_Items r = take (ireq_len r) (ireq_array r)"

fun overlay :: "Item list \<Rightarrow> string list \<Rightarrow> Item list option" where
  "overlay old [] = Some []"
| "overlay old (t # ts) =
     (case dec_Item (case old of [] \<Rightarrow> Item_zero | b # _ \<Rightarrow> b) t of
        None \<Rightarrow> None
      | Some it \<Rightarrow> (case overlay (tl old) ts of None \<Rightarrow> None | Some its \<Rightarrow> Some (it # its)))"

definition dec_items :: "string \<Rightarrow> itemsRequest \<Rightarrow> itemsRequest option" where
  "dec_items t r =
     (if is_null t then Some (r\<lparr>ireq_array := [], ireq_len := 0\<rparr>)
      else if starts CHR ''['' t then
        (if opens_empty CHR '']'' (tl t) then Some (r\<lparr>ireq_array := [], ireq_len := 0\<rparr>)
         else (case overlay (ireq_array r) (elements (tl t)) of
             None \<Rightarrow> None
           | Some its \<Rightarrow> Some (r\<lparr>ireq_array := its @ drop (length its) (ireq_array r), ireq_len := length its\<rparr>)))
      else None)"

definition set_items :: "itemsRequest \<Rightarrow> string \<times> string \<Rightarrow> itemsRequest option" where
  "set_items r m =
     (case m of (key, v) \<Rightarrow> (case field_of [''items''] key of None \<Rightarrow> Some r | Some _ \<Rightarrow> dec_items v r))"

text \<open>The zero values the handlers decode into.\<close>

definition decode_Item :: "string \<Rightarrow> Item option" where
  "decode_Item = dec_Item Item_zero"

definition decode_delete :: "string \<Rightarrow> deleteRequest option" where
  "decode_delete = dec_struct set_delete \<lparr>dr_Scope = [], dr_ID = [], dr_Seq = 0\<rparr>"

definition decode_delete_scope :: "string \<Rightarrow> deleteScopeRequest option" where
  "decode_delete_scope = dec_struct set_delete_scope \<lparr>dsr_Scope = []\<rparr>"

definition decode_delete_up_to :: "string \<Rightarrow> deleteUpToRequest option" where
  "decode_delete_up_to = dec_struct set_delete_up_to \<lparr>dur_Scope = [], dur_MaxSeq = 0\<rparr>"

definition decode_counter :: "string \<Rightarrow> counterAddRequest option" where
  "decode_counter = dec_struct set_counter \<lparr>car_Scope = [], car_ID = [], car_By = None\<rparr>"

definition decode_items :: "string \<Rightarrow> itemsRequest option" where
  "decode_items = dec_struct set_items \<lparr>ireq_array = [], ireq_len = 0\<rparr>"

section \<open>What comes out is a client's item\<close>

text \<open>No JSON reaches the unexported fields.\<close>

lemma fold_fields_keeps:
  assumes "\<And>x m y. P x \<Longrightarrow> f x m = Some y \<Longrightarrow> P y" "P x" "fold_fields f x ms = Some y"
  shows "P y"
  using assms(2,3)
proof (induction ms arbitrary: x)
  case (Cons m ms)
  then obtain z where "f x m = Some z" "fold_fields f z ms = Some y" by (auto split: option.splits)
  then show ?case using Cons.IH assms(1) [of x m z] Cons.prems(1) by blast
qed simp

lemma set_item_plain: "client_item it \<Longrightarrow> set_item it m = Some it' \<Longrightarrow> client_item it'"
  by (auto simp: set_item_def client_item_def split: prod.splits option.splits if_splits)

lemma dec_Item_plain:
  assumes "client_item it" "dec_Item it t = Some it'"
  shows "client_item it'"
  using assms fold_fields_keeps [of client_item set_item it "members (tl t)" it'] set_item_plain
  by (auto simp: dec_Item_def dec_struct_def split: if_splits)

lemma Item_zero_plain [simp]: "client_item Item_zero"
  by (simp add: client_item_def Item_zero_def)

lemma decode_Item_plain: "decode_Item t = Some it \<Longrightarrow> client_item it"
  unfolding decode_Item_def by (rule dec_Item_plain [OF Item_zero_plain])

lemma overlay_plain: "overlay old ts = Some its \<Longrightarrow> list_all client_item old \<Longrightarrow> list_all client_item its"
proof (induction old ts arbitrary: its rule: overlay.induct)
  case (2 old t ts)
  have "client_item (case old of [] \<Rightarrow> Item_zero | b # _ \<Rightarrow> b)" "list_all client_item (tl old)"
    using "2.prems"(2) by (cases old; simp)+
  with 2 show ?case by (auto split: option.splits dest: dec_Item_plain)
qed simp

lemma set_items_plain: "list_all client_item (ireq_array r) \<Longrightarrow> set_items r m = Some r' \<Longrightarrow> list_all client_item (ireq_array r')"
proof (cases m)
  fix key v
  assume r: "list_all client_item (ireq_array r)" "set_items r m = Some r'" "m = (key, v)"
  have "list_all client_item (drop n (ireq_array r))" for n
    using r(1) by (auto simp: list_all_iff dest: in_set_dropD)
  then show ?thesis
    using r by (auto simp: set_items_def dec_items_def split: option.splits if_splits dest: overlay_plain)
qed

lemma decode_items_plain: "decode_items t = Some r \<Longrightarrow> it \<in> set (ireq_Items r) \<Longrightarrow> client_item it"
proof -
  assume t: "decode_items t = Some r" and it: "it \<in> set (ireq_Items r)"
  have "list_all client_item (ireq_array r)"
    using t fold_fields_keeps [of "\<lambda>r. list_all client_item (ireq_array r)" set_items "\<lparr>ireq_array = [], ireq_len = 0\<rparr>"
      "members (tl t)" r] set_items_plain
    by (force simp: decode_items_def dec_struct_def split: if_splits)
  then show ?thesis using it by (auto simp: ireq_Items_def list_all_iff dest: in_set_takeD)
qed

end
