(* ===== verification/Responses.thy ===== *)
theory Responses
  imports JsonDecode Events
begin

text \<open>
  Response bodies: \<open>MB\<close> of \<open>types.go\<close>, \<open>orderedFields\<close> and the JSON writers of \<open>handlers.go\<close>, and the error
  responders. A body value is a tree (\<open>jv\<close>) encoded as \<open>encoding/json\<close> does; an \<open>orderedFields\<close> is a
  Marshaler, whose output the library scans once more, so encoding fails on a raw payload that is not
  JSON and also when the whole nests deeper than the scanner's limit. A writer is given the readings of
  \<open>time.Since(started)\<close> it takes, in microseconds.
\<close>

section \<open>Megabytes\<close>

text \<open>The quotient rounded to the nearest integer, a tie to the even one.\<close>

definition half_even :: "int \<Rightarrow> int \<Rightarrow> int" where
  "half_even a b =
     (let q = a div b; r = a mod b in if 2 * r < b \<or> (2 * r = b \<and> even q) then q else q + 1)"

function excess_bits :: "int \<Rightarrow> nat" where
  \<comment> \<open>how many bits a magnitude has past the 53 of a float64\<close>
  "excess_bits x = (if x < 9007199254740992 then 0 else Suc (excess_bits (x div 2)))"
  by pat_completeness auto
termination
  by (relation "measure nat") auto

declare excess_bits.simps [simp del]

definition float64 :: "int \<Rightarrow> int" where
  "float64 x = (let u = 2 ^ excess_bits \<bar>x\<bar> in sgn x * (half_even \<bar>x\<bar> u * u))"

definition digit_at :: "int \<Rightarrow> int \<Rightarrow> char" where
  "digit_at p n = digit_char (nat (n div p mod 10))"

definition MB_MarshalJSON :: "int \<Rightarrow> string" where
  \<comment> \<open>\<open>%.4f\<close> of \<open>float64(m) / 2^20\<close>\<close>
  "MB_MarshalJSON m =
     (let n = half_even (\<bar>float64 m\<bar> * 10000) 1048576 in
      (if m < 0 then ''-'' else []) @ show_int (n div 10000) @ ''.'' @
        [digit_at 1000 n, digit_at 100 n, digit_at 10 n, digit_at 1 n])"

section \<open>Body values\<close>

datatype jv =
    JNil
  | JBool bool
  | JInt int
  | JU64 u64
  | JStr bytestr
  | JMB int
  | JRaw raw
  | JArr "jv list"
  | JObj "(string \<times> jv) list"

fun all_some :: "'a option list \<Rightarrow> 'a list option" where
  "all_some [] = Some []"
| "all_some (None # xs) = None"
| "all_some (Some x # xs) = (case all_some xs of None \<Rightarrow> None | Some ys \<Rightarrow> Some (x # ys))"

fun enc :: "jv \<Rightarrow> string option" where
  "enc JNil = Some ''null''"
| "enc (JBool b) = Some (if b then ''true'' else ''false'')"
| "enc (JInt i) = Some (show_int i)"
| "enc (JU64 w) = Some (show_u64 w)"
| "enc (JStr s) = Some (marshal_string s)"
| "enc (JMB m) = Some (MB_MarshalJSON m)"
| "enc (JRaw p) = marshal_raw p"
| "enc (JArr xs) = map_option (\<lambda>ts. ''['' @ join_fields ts @ '']'') (all_some (map enc xs))"
| "enc (JObj fs) =
     map_option (\<lambda>ts. ''{'' @ join_fields ts @ ''}'')
       (all_some (map (\<lambda>f. map_option (\<lambda>t. marshal_string (fst f) @ '':'' @ t) (enc (snd f))) fs))"

type_synonym orderedFields = "(string \<times> jv) list"

definition orderedFields_MarshalJSON :: "orderedFields \<Rightarrow> string option" where
  "orderedFields_MarshalJSON fs = enc (JObj fs)"

definition json_Marshal :: "orderedFields \<Rightarrow> string option" where
  \<comment> \<open>the output of a Marshaler is scanned and compacted\<close>
  "json_Marshal fs =
     (case orderedFields_MarshalJSON fs of None \<Rightarrow> None | Some s \<Rightarrow> marshal_raw (Some s))"

text \<open>The structs the handlers put into a body, with the omitempty rules of their tags.\<close>

definition omit_str :: "string \<Rightarrow> bytestr \<Rightarrow> orderedFields" where
  "omit_str k v = (if v = [] then [] else [(k, JStr v)])"

definition omit_u64 :: "string \<Rightarrow> u64 \<Rightarrow> orderedFields" where
  "omit_u64 k v = (if v = 0 then [] else [(k, JU64 v)])"

definition writeAck :: "bytestr \<Rightarrow> bytestr \<Rightarrow> u64 \<Rightarrow> int \<Rightarrow> jv" where
  "writeAck scope i sq ts = JObj (omit_str ''scope'' scope @ omit_str ''id'' i @ omit_u64 ''seq'' sq @ [(''ts'', JInt ts)])"

definition Item_json :: "Item \<Rightarrow> jv" where
  "Item_json it = JObj (omit_str ''scope'' (Scope it) @ omit_str ''id'' (ID it) @ omit_u64 ''seq'' (Seq it) @
     [(''ts'', JInt (Ts it)), (''payload'', JRaw (Payload it))])"

definition ScopeCapacityOffender :: "bytestr \<times> int \<times> int \<Rightarrow> jv" where
  "ScopeCapacityOffender off = (case off of (scope, count, cap) \<Rightarrow>
     JObj [(''scope'', JStr scope), (''count'', JInt count), (''cap'', JInt cap)])"

section \<open>Writers\<close>

record response =
  rs_status :: int
  rs_type :: string
  rs_body :: bytestr

definition newline :: string where "newline = [CHR 0x0A]"
definition json_type :: string where "json_type = ''application/json; charset=utf-8''"
definition text_type :: string where "text_type = ''text/plain; charset=utf-8''"
definition octet_type :: string where "octet_type = ''application/octet-stream''"

definition marshalFailureBody :: bytestr where
  "marshalFailureBody =
     [CHR ''{'', CHR 0x22] @ ''ok'' @ [CHR 0x22] @ '':false,'' @ [CHR 0x22] @ ''error'' @ [CHR 0x22, CHR '':'', CHR 0x22] @
     ''the response failed to marshal'' @ [CHR 0x22, CHR ''}''] @ newline"

definition writeJSONWithDuration :: "int \<Rightarrow> orderedFields \<Rightarrow> int \<Rightarrow> response" where
  "writeJSONWithDuration code payload us =
     (case json_Marshal (payload @ [(''duration_us'', JInt us)]) of
        None \<Rightarrow> \<lparr>rs_status = 500, rs_type = json_type, rs_body = marshalFailureBody\<rparr>
      | Some body \<Rightarrow> \<lparr>rs_status = code, rs_type = json_type, rs_body = body @ newline\<rparr>)"

definition fieldKey :: string where
  "fieldKey = [CHR '','', CHR 0x22] @ ''approx_response_mb'' @ [CHR 0x22, CHR '':'']"

fun fit_size :: "nat \<Rightarrow> int \<Rightarrow> int \<Rightarrow> string \<Rightarrow> string" where
  \<comment> \<open>the loop that lets the reported size include its own digits; \<open>n\<close> is the length of the body\<close>
  "fit_size 0 n finalSize v = v"
| "fit_size (Suc k) n finalSize v =
     (let v' = MB_MarshalJSON finalSize;
          candidate = n - 1 + int (length fieldKey) + int (length v') + 1
      in if candidate = finalSize then v' else fit_size k n candidate v')"

definition marshalWithApproxSize :: "orderedFields \<Rightarrow> int \<Rightarrow> bytestr option" where
  "marshalWithApproxSize payload us =
     (case json_Marshal (payload @ [(''duration_us'', JInt us)]) of
        None \<Rightarrow> None
      | Some body \<Rightarrow>
          (let n = int (length body);
               valueBytes = fit_size 3 n (n + int (length fieldKey) + 8) []
           in Some (butlast body @ fieldKey @ valueBytes @ ''}'' @ newline)))"

text \<open>The readings of the clock a response takes, in order.\<close>

type_synonym durations = "nat \<Rightarrow> int"

definition writeJSONWithMeta :: "int \<Rightarrow> orderedFields \<Rightarrow> durations \<Rightarrow> response" where
  "writeJSONWithMeta code payload us =
     (case marshalWithApproxSize payload (us 0) of
        None \<Rightarrow> writeJSONWithDuration code payload (us 1)
      | Some out \<Rightarrow> \<lparr>rs_status = code, rs_type = json_type, rs_body = out\<rparr>)"

section \<open>Error responders\<close>

abbreviation ok_field :: "bool \<Rightarrow> string \<times> jv" where
  "ok_field b \<equiv> (''ok'', JBool b)"

definition error_fields :: "string \<Rightarrow> orderedFields" where
  "error_fields message = [ok_field False, (''error'', JStr message)]"

definition badRequest :: "string \<Rightarrow> durations \<Rightarrow> response" where
  "badRequest message us = writeJSONWithDuration 400 (error_fields message) (us 0)"

definition conflict :: "string \<Rightarrow> durations \<Rightarrow> response" where
  "conflict message us = writeJSONWithDuration 409 (error_fields message) (us 0)"

definition methodNotAllowed :: "durations \<Rightarrow> response" where
  "methodNotAllowed us =
     writeJSONWithDuration 405 (error_fields ''the HTTP method is not allowed for this endpoint'') (us 0)"

definition scopeFull :: "(bytestr \<times> int \<times> int) list \<Rightarrow> durations \<Rightarrow> response" where
  "scopeFull offenders us =
     (let msg = (if 1 < length offenders then ''multiple scopes are at capacity'' else ''scope is at capacity'')
      in writeJSONWithDuration 507
           (error_fields msg @ [(''scopes'', JArr (map ScopeCapacityOffender offenders))]) (us 0))"

definition storeFull :: "int \<Rightarrow> int \<Rightarrow> int \<Rightarrow> durations \<Rightarrow> response" where
  "storeFull storeBytes addedBytes cap us =
     writeJSONWithDuration 507
       (error_fields ''store is at byte capacity'' @
        [(''approx_store_mb'', JMB storeBytes), (''added_mb'', JMB addedBytes), (''max_store_mb'', JMB cap)]) (us 0)"

definition responseTooLarge :: "int \<Rightarrow> int \<Rightarrow> durations \<Rightarrow> response" where
  "responseTooLarge written cap us =
     writeJSONWithDuration 507
       (error_fields ''the response would exceed the maximum allowed size'' @
        [(''approx_response_mb'', JMB written), (''max_response_mb'', JMB cap)]) (us 0)"

definition writeJSONWithMetaCap :: "int \<Rightarrow> orderedFields \<Rightarrow> int \<Rightarrow> durations \<Rightarrow> response" where
  "writeJSONWithMetaCap code payload maxBytes us =
     (case marshalWithApproxSize payload (us 0) of
        None \<Rightarrow> writeJSONWithDuration code payload (us 1)
      | Some out \<Rightarrow>
          if maxBytes < int (length out) then responseTooLarge (int (length out)) maxBytes (\<lambda>n. us (n + 1))
          else \<lparr>rs_status = code, rs_type = json_type, rs_body = out\<rparr>)"

end
