(* ===== verification/ErrorText.thy ===== *)
theory ErrorText
  imports Types Events
begin

text \<open>
  The texts of the errors, as \<open>Error()\<close> gives them: the messages \<open>validation.go\<close>, \<open>types.go\<close>, \<open>bulk.go\<close>
  and the buffer methods build, and the prefix \<open>wrapValidation\<close> puts before a validation error. One
  message quotes with \<open>%q\<close>; \<open>strconv.Quote\<close>, which depends on the Unicode tables, is an argument.
\<close>

definition quoted :: "string \<Rightarrow> string" where
  "quoted s = [CHR 0x27] @ s @ [CHR 0x27]"

definition the_field :: "string \<Rightarrow> string \<Rightarrow> string" where
  "the_field f rest = ''the '' @ quoted f @ '' field '' @ rest"

definition the_parameter :: "string \<Rightarrow> string \<Rightarrow> string" where
  "the_parameter f rest = ''the '' @ quoted f @ '' parameter '' @ rest"

definition the_scope :: "bytestr \<Rightarrow> string \<Rightarrow> string" where
  "the_scope k rest = ''scope '' @ quoted k @ rest"

definition plus_minus :: string where
  \<comment> \<open>the sign in UTF-8\<close>
  "plus_minus = [CHR 0xC2, CHR 0xB1]"

definition size_text :: "string \<Rightarrow> int \<Rightarrow> int \<Rightarrow> string" where
  "size_text what sz cap = ''the '' @ what @ [CHR 0x27] @ ''s approximate size ('' @ show_int sz @
     '' bytes) exceeds the maximum of '' @ show_int cap @ '' bytes''"

fun reserved_text :: "string \<Rightarrow> string" where
  \<comment> \<open>what follows the name of a reserved scope, by endpoint\<close>
  "reserved_text ep =
     (if ep = ''/upsert'' then '' is reserved; in-place mutation (/upsert) is not supported on the drain-stream scopes (use /append)''
      else if ep = ''/update'' then '' is reserved; in-place mutation (/update) is not supported on the drain-stream scopes''
      else if ep = ''/counter_add'' then '' is reserved; counters are not supported on the drain-stream scopes''
      else if ep = ''/delete_scope'' then '' is reserved and cannot be deleted''
      else if ep = ''/warm'' then '' is reserved and cannot be the target of /warm''
      else '' is reserved and cannot appear in /rebuild input'')"

fun reason_text :: "(string \<Rightarrow> string) \<Rightarrow> reason \<Rightarrow> string" where
  "reason_text Q (FieldRequired f ep) = the_field f (''is required for the '' @ quoted ep @ '' endpoint'')"
| "reason_text Q (FieldTooLong f n) = the_field f (''must not exceed '' @ show_int n @ '' bytes'')"
| "reason_text Q (FieldWhitespace f) = the_field f ''must not have leading or trailing whitespace''"
| "reason_text Q (FieldControlChar f) = the_field f ''must not contain control characters''"
| "reason_text Q (IDXorSeq ep) = ''exactly one of '' @ quoted ''id'' @ '' or '' @ quoted ''seq'' @
     '' must be provided for the '' @ quoted ep @ '' endpoint''"
| "reason_text Q PayloadRequired = the_field ''payload'' ''is required''"
| "reason_text Q PayloadNotJSON = the_field ''payload'' ''must be a valid JSON value''"
| "reason_text Q (ItemTooLarge sz cap) = size_text ''item'' sz cap"
| "reason_text Q (ManagedField f ep) =
     the_field f (''is managed by the cache and must not be provided to the '' @ quoted ep @ '' endpoint'')"
| "reason_text Q (ReservedScope k ep) = the_scope k (reserved_text ep)"
| "reason_text Q ByZero = the_field ''by'' ''must not be zero''"
| "reason_text Q ByOutOfRange = the_field ''by'' (''must be within '' @ plus_minus @ ''(2^53-1)'')"
| "reason_text Q (CounterItemTooLarge sz cap) = size_text ''counter item'' sz cap"
| "reason_text Q MaxSeqRequired =
     the_field ''max_seq'' (''is required and must be a positive integer for the '' @ quoted ''/delete_up_to'' @ '' endpoint'')"
| "reason_text Q (ScopeKeyMismatch k i k') =
     the_scope k ('', item at index '' @ show_nat i @ '': item.scope '' @ Q k' @ '' does not match the map key'')"
| "reason_text Q (DuplicateInBatch k i) = the_scope k ('': duplicate '' @ quoted ''id'' @ '' value within scope: '' @ quoted i)"
| "reason_text Q (InBatch k i r) = reason_text Q r"
| "reason_text Q BadLimit = the_parameter ''limit'' ''must be a positive integer''"
| "reason_text Q BadOffset = the_parameter ''offset'' ''must be a non-negative integer''"
| "reason_text Q BadHours = the_parameter ''hours'' ''must be a non-negative integer''"
| "reason_text Q HoursTooLarge = the_parameter ''hours'' ''is unreasonably large''"

definition invalid_prefix :: string where
  "invalid_prefix = ''scopecache: invalid input: ''"

fun counter_reason_text :: "counter_reason \<Rightarrow> string" where
  "counter_reason_text NotJSONNumber = ''the existing item'' @ [CHR 0x27] @ ''s payload is not a JSON number''"
| "counter_reason_text NotInteger = ''the existing item'' @ [CHR 0x27] @ ''s payload is not an integer''"
| "counter_reason_text OutOfCounterRange =
     ''the existing counter value is outside the allowed range of '' @ plus_minus @ ''(2^53-1)''"

fun error_text :: "(string \<Rightarrow> string) \<Rightarrow> gerr \<Rightarrow> string" where
  \<comment> \<open>a batch endpoint puts the place of the item before the whole of the item's error\<close>
  "error_text Q (InvalidInput r) =
     (case r of InBatch k i _ \<Rightarrow> the_scope k ('', item at index '' @ show_nat i @ '': '') | _ \<Rightarrow> []) @
     invalid_prefix @ reason_text Q r"
| "error_text Q DuplicateID = ''an item with this '' @ quoted ''id'' @ '' already exists in the scope''"
| "error_text Q ScopeNameRequired = the_field ''scope'' ''is required''"
| "error_text Q (ScopeFullError _ _) = ''scope is at capacity''"
| "error_text Q (ScopeCapacityError offs) =
     (case offs of [(k, _, _)] \<Rightarrow> the_scope k '' is at capacity'' | _ \<Rightarrow> ''multiple scopes are at capacity'')"
| "error_text Q (StoreFullError _ _ _) = ''store is at byte capacity''"
| "error_text Q (CounterPayloadError r) = counter_reason_text r"
| "error_text Q (CounterOverflowError _ _) =
     ''the counter operation would exceed the allowed range of '' @ plus_minus @ ''(2^53-1)''"
| "error_text Q ScopeDetachedError = ''the scope was deleted while the request was in flight; please retry''"
| "error_text Q ErrInvalidSubscribeScope = ''scopecache: subscribe is restricted to reserved scopes''"
| "error_text Q ErrAlreadySubscribed = ''scopecache: scope already has an active subscriber''"
| "error_text Q (GoPanic _) = []"

declare reserved_text.simps [simp del]

end
