(* ===== verification/Http.thy ===== *)
theory Http
  imports Responses ErrorText Admission
begin

text \<open>
  The shared HTTP layer of \<open>handlers.go\<close>: the query string as \<open>net/url\<close> parses it, \<open>decodeBody\<close>, the request
  parsers of the read endpoints, the mapping of store errors to responses, and the caps \<open>NewAPI\<close>
  derives. A request is a method, a path, a raw query and a complete body.
\<close>

section \<open>Requests\<close>

record http_request =
  rq_method :: string
  rq_path :: string
  rq_query :: string
  rq_body :: bytestr

text \<open>\<open>api.go\<close>: the caps of an \<open>API\<close>; the store it points to is passed along.\<close>

record API =
  maxBulkBytes :: int
  maxSingleBytes :: int
  maxResponseBytes :: int

definition NewAPI :: "core \<Rightarrow> API" where
  "NewAPI c = \<lparr>maxBulkBytes = bulkRequestBytesFor (maxStoreBytes c),
     maxSingleBytes = singleRequestBytesFor (maxItemBytesAnyScope c),
     maxResponseBytes = maxStoreBytes c\<rparr>"

section \<open>Query strings\<close>

fun unescape :: "string \<Rightarrow> string option" where
  \<comment> \<open>\<open>url.QueryUnescape\<close>\<close>
  "unescape [] = Some []"
| "unescape (c # s) =
     (if c = CHR ''%'' then
        (case s of
           a # b # r \<Rightarrow>
             if is_hex a \<and> is_hex b
             then map_option ((#) (char_of (16 * hex_val a + hex_val b))) (unescape r) else None
         | _ \<Rightarrow> None)
      else map_option ((#) (if c = CHR ''+'' then CHR '' '' else c)) (unescape s))"

fun cut :: "char \<Rightarrow> string \<Rightarrow> string \<times> string" where
  \<comment> \<open>\<open>strings.Cut\<close>: the text before the first separator and the text after it\<close>
  "cut sep [] = ([], [])"
| "cut sep (c # s) = (if c = sep then ([], s) else (case cut sep s of (a, b) \<Rightarrow> (c # a, b)))"

lemma cut_length: "length (snd (cut sep s)) \<le> length s"
  by (induction s) (auto split: prod.splits)

definition parse_pair :: "string \<Rightarrow> (string \<times> string) list" where
  \<comment> \<open>a piece that is malformed is dropped\<close>
  "parse_pair piece =
     (if CHR '';'' \<in> set piece \<or> piece = [] then []
      else case cut CHR ''='' piece of (k, v) \<Rightarrow>
        (case (unescape k, unescape v) of (Some k', Some v') \<Rightarrow> [(k', v')] | _ \<Rightarrow> []))"

lemma cut_shorter: "s \<noteq> [] \<Longrightarrow> length (snd (cut sep s)) < length s"
  using cut_length [of sep "tl s"] by (cases s) (auto split: prod.splits)

function parse_query :: "string \<Rightarrow> (string \<times> string) list" where
  "parse_query s =
     (if s = [] then [] else parse_pair (fst (cut CHR ''&'' s)) @ parse_query (snd (cut CHR ''&'' s)))"
  by pat_completeness auto

termination
  by (relation "measure length") (simp_all add: cut_shorter)

declare parse_query.simps [simp del]

definition query_get :: "(string \<times> string) list \<Rightarrow> string \<Rightarrow> string" where
  "query_get q k = (case map_of q k of None \<Rightarrow> [] | Some v \<Rightarrow> v)"

definition query_has :: "(string \<times> string) list \<Rightarrow> string \<Rightarrow> bool" where
  "query_has q k \<longleftrightarrow> map_of q k \<noteq> None"

section \<open>Bodies\<close>

datatype body_error = BodyTooLarge int | BodyNotJSON | BodyTrailing

fun body_error_text :: "body_error \<Rightarrow> string" where
  "body_error_text (BodyTooLarge n) =
     ''the request body exceeds the maximum allowed size of '' @ show_int n @ '' bytes''"
| "body_error_text BodyNotJSON = ''the request body must contain valid JSON''"
| "body_error_text BodyTrailing = ''the request body must contain exactly one JSON value''"

definition Decoder_Decode :: "int \<Rightarrow> bool \<Rightarrow> string \<Rightarrow> body_error + string \<times> string" where
  \<comment> \<open>the text of the first value and what follows it; \<open>over\<close> says that the bytes end at the size limit
    and not at the end of the body\<close>
  "Decoder_Decode limit over s =
     (case read_value s of
        ReadValue t r \<Rightarrow> Inr (t, r)
      | ReadBad \<Rightarrow> Inl BodyNotJSON
      | ReadShort q ps \<Rightarrow>
          if over then Inl (BodyTooLarge limit)
          else if jeof (Some (q, ps)) then Inr (s, []) else Inl BodyNotJSON)"

definition decodeBody :: "int \<Rightarrow> (string \<Rightarrow> 'a option) \<Rightarrow> bytestr \<Rightarrow> body_error + 'a" where
  "decodeBody mx dec body =
     (let limit = max 0 mx;
          over = limit < int (length body);
          avail = (if over then take (nat limit) body else body) in
      case Decoder_Decode limit over avail of
        Inl e \<Rightarrow> Inl e
      | Inr (t, rest) \<Rightarrow>
          (case dec (json_TrimLeft t) of
             None \<Rightarrow> Inl BodyNotJSON
           | Some out \<Rightarrow> if over \<or> \<not> list_all is_space rest then Inl BodyTrailing else Inr out))"

section \<open>Parameters of the read endpoints\<close>

record lookupTarget =
  lt_Scope :: bytestr
  lt_ByID :: bool
  lt_ID :: bytestr
  lt_Seq :: u64

text \<open>A parameter error is the message it is reported with.\<close>

definition checked :: "(string \<Rightarrow> string) \<Rightarrow> reason option \<Rightarrow> (string + 'a) \<Rightarrow> string + 'a" where
  "checked Q e k = (case e of Some r \<Rightarrow> Inl (reason_text Q r) | None \<Rightarrow> k)"

definition parseLookupTarget :: "(string \<Rightarrow> string) \<Rightarrow> string \<Rightarrow> string \<Rightarrow> string + lookupTarget" where
  "parseLookupTarget Q rawQuery endpoint =
     (let query = parse_query rawQuery;
          scope = query_get query ''scope'';
          i = query_get query ''id'';
          seqStr = query_get query ''seq'' in
      checked Q (validateScope scope endpoint)
       (let hasID = i \<noteq> []; hasSeq = seqStr \<noteq> [] in
        if hasID = hasSeq
        then Inl (''exactly one of '' @ quoted ''id'' @ '' or '' @ quoted ''seq'' @ '' must be provided'')
        else if hasID
        then checked Q (validateID i) (Inr \<lparr>lt_Scope = scope, lt_ByID = True, lt_ID = i, lt_Seq = 0\<rparr>)
        else (case parse_uint64 seqStr of
           None \<Rightarrow> Inl (the_parameter ''seq'' ''must be a valid unsigned integer'')
         | Some sq \<Rightarrow> Inr \<lparr>lt_Scope = scope, lt_ByID = False, lt_ID = [], lt_Seq = sq\<rparr>)))"

record scopeLimit =
  sl_Scope :: bytestr
  sl_Limit :: int

definition normalized :: "(string \<Rightarrow> string) \<Rightarrow> (reason + int) \<Rightarrow> string + int" where
  "normalized Q r = (case r of Inl e \<Rightarrow> Inl (reason_text Q e) | Inr n \<Rightarrow> Inr n)"

definition parseScopeLimit :: "(string \<Rightarrow> string) \<Rightarrow> string \<Rightarrow> string \<Rightarrow> string + scopeLimit" where
  "parseScopeLimit Q rawQuery endpoint =
     (let query = parse_query rawQuery; scope = query_get query ''scope'' in
      checked Q (validateScope scope endpoint)
       (case normalized Q (normalizeLimit (query_get query ''limit'')) of
          Inl e \<Rightarrow> Inl e
        | Inr limit \<Rightarrow> Inr \<lparr>sl_Scope = scope, sl_Limit = limit\<rparr>))"

section \<open>Store errors as responses\<close>

definition writeStoreCapacityError :: "gerr \<Rightarrow> bytestr \<Rightarrow> durations \<Rightarrow> response option" where
  "writeStoreCapacityError e scopeForSFE us =
     (case e of
        ScopeFullError count cap \<Rightarrow> Some (scopeFull [(scopeForSFE, count, cap)] us)
      | ScopeCapacityError offenders \<Rightarrow> Some (scopeFull offenders us)
      | StoreFullError storeBytes addedBytes cap \<Rightarrow> Some (storeFull storeBytes addedBytes cap us)
      | _ \<Rightarrow> None)"

fun isInvalidInput :: "gerr \<Rightarrow> bool" where
  \<comment> \<open>\<open>errors.Is(err, ErrInvalidInput)\<close>\<close>
  "isInvalidInput (InvalidInput _) = True"
| "isInvalidInput _ = False"

definition writeMutationError :: "(string \<Rightarrow> string) \<Rightarrow> gerr \<Rightarrow> bytestr \<Rightarrow> durations \<Rightarrow> response" where
  "writeMutationError Q e scopeForSFE us =
     (if isInvalidInput e then badRequest (error_text Q e) us
      else case writeStoreCapacityError e scopeForSFE us of
        Some r \<Rightarrow> r
      | None \<Rightarrow> conflict (error_text Q e) us)"

definition writeDeleteError :: "(string \<Rightarrow> string) \<Rightarrow> gerr \<Rightarrow> durations \<Rightarrow> response" where
  \<comment> \<open>the error branch the delete handlers share\<close>
  "writeDeleteError Q e us =
     (if isInvalidInput e then badRequest (error_text Q e) us else conflict (error_text Q e) us)"

definition writeCounterError :: "(string \<Rightarrow> string) \<Rightarrow> gerr \<Rightarrow> bytestr \<Rightarrow> durations \<Rightarrow> response" where
  \<comment> \<open>the error branch of \<open>handleCounterAdd\<close>\<close>
  "writeCounterError Q e origScope us =
     (if isInvalidInput e then badRequest (error_text Q e) us
      else case writeStoreCapacityError e origScope us of
        Some r \<Rightarrow> r
      | None \<Rightarrow>
          (case e of
             CounterPayloadError _ \<Rightarrow> conflict (error_text Q e) us
           | CounterOverflowError _ _ \<Rightarrow> badRequest (error_text Q e) us
           | _ \<Rightarrow> conflict (error_text Q e) us))"

end
