(* ===== verification/Handlers.thy ===== *)
theory Handlers
  imports Http Bulk
begin

text \<open>
  The endpoints (\<open>handlers_write.go\<close>, \<open>handlers_read.go\<close>, \<open>handlers_delete.go\<close>, \<open>handlers_bulk.go\<close>,
  \<open>handlers_observe.go\<close>) and their registration. A handler takes a request and the store to a response and
  the store after it. What it takes from its surroundings is the \<open>runtime\<close>: clock readings, the time since
  the request started, the order a range over the map of a batch takes, and \<open>strconv.Quote\<close>.
\<close>

record runtime =
  rt_clock :: clock
  rt_since :: durations
  rt_range :: "grouped \<Rightarrow> grouped"
  rt_quote :: "string \<Rightarrow> string"

text \<open>A panic in a handler aborts the request without a response.\<close>

datatype outcome = Reply response | Panicked panic

type_synonym handler = "runtime \<Rightarrow> API \<Rightarrow> http_request \<Rightarrow> store \<Rightarrow> outcome \<times> store"

definition MethodPost :: string where "MethodPost = ''POST''"
definition MethodGet :: string where "MethodGet = ''GET''"

section \<open>What the handlers share\<close>

definition posting :: "runtime \<Rightarrow> http_request \<Rightarrow> store \<Rightarrow> (body_error + 'a) \<Rightarrow> ('a \<Rightarrow> outcome \<times> store) \<Rightarrow> outcome \<times> store" where
  \<comment> \<open>the method guard and the decoding of the body every write handler opens with\<close>
  "posting rt rq s decoded k =
     (if rq_method rq \<noteq> MethodPost then (Reply (methodNotAllowed (rt_since rt)), s)
      else case decoded of
        Inl e \<Rightarrow> (Reply (badRequest (body_error_text e) (rt_since rt)), s)
      | Inr x \<Rightarrow> k x)"

definition getting :: "runtime \<Rightarrow> http_request \<Rightarrow> store \<Rightarrow> (string + 'a) \<Rightarrow> ('a \<Rightarrow> outcome \<times> store) \<Rightarrow> outcome \<times> store" where
  \<comment> \<open>the method guard and the parsing of the query every read handler opens with\<close>
  "getting rt rq s parsed k =
     (if rq_method rq \<noteq> MethodGet then (Reply (methodNotAllowed (rt_since rt)), s)
      else case parsed of
        Inl message \<Rightarrow> (Reply (badRequest message (rt_since rt)), s)
      | Inr x \<Rightarrow> k x)"

definition after :: "'a res \<times> store \<Rightarrow> (gerr \<Rightarrow> response) \<Rightarrow> ('a \<Rightarrow> response) \<Rightarrow> outcome \<times> store" where
  \<comment> \<open>the response to what a store operation returned\<close>
  "after out err okay =
     (case out of
        (Inl (GoPanic p), s) \<Rightarrow> (Panicked p, s)
      | (Inl e, s) \<Rightarrow> (Reply (err e), s)
      | (Inr x, s) \<Rightarrow> (Reply (okay x), s))"

section \<open>Writes\<close>

definition handleAppend :: handler where
  "handleAppend rt api rq s =
     posting rt rq s (decodeBody (maxSingleBytes api) decode_Item (rq_body rq)) (\<lambda>item.
       after (appendOne (rt_clock rt) item s)
         (\<lambda>e. writeMutationError (rt_quote rt) e (Scope item) (rt_since rt))
         (\<lambda>it. writeJSONWithDuration 200
            [ok_field True, (''item'', writeAck (Scope it) (ID it) (Seq it) (Ts it))] (rt_since rt 0)))"

definition handleUpsert :: handler where
  "handleUpsert rt api rq s =
     posting rt rq s (decodeBody (maxSingleBytes api) decode_Item (rq_body rq)) (\<lambda>item.
       after (upsertOne (rt_clock rt) item s)
         (\<lambda>e. writeMutationError (rt_quote rt) e (Scope item) (rt_since rt))
         (\<lambda>(it, created). writeJSONWithDuration 200
            [ok_field True, (''created'', JBool created),
             (''item'', writeAck (Scope it) (ID it) (Seq it) (Ts it))] (rt_since rt 0)))"

definition handleCounterAdd :: handler where
  "handleCounterAdd rt api rq s =
     posting rt rq s (decodeBody (maxSingleBytes api) decode_counter (rq_body rq)) (\<lambda>req.
       case car_By req of
         None \<Rightarrow>
           (Reply (badRequest (reason_text (rt_quote rt) (FieldRequired ''by'' ''/counter_add'')) (rt_since rt)), s)
       | Some by \<Rightarrow>
           after (counterAddOne (rt_clock rt) (car_Scope req) (car_ID req) by s)
             (\<lambda>e. writeCounterError (rt_quote rt) e (car_Scope req) (rt_since rt))
             (\<lambda>(v, created). writeJSONWithDuration 200
                [ok_field True, (''created'', JBool created), (''value'', JInt v)] (rt_since rt 0)))"

definition handleUpdate :: handler where
  "handleUpdate rt api rq s =
     posting rt rq s (decodeBody (maxSingleBytes api) decode_Item (rq_body rq)) (\<lambda>item.
       after (updateOne (rt_clock rt) item s)
         (\<lambda>e. writeMutationError (rt_quote rt) e [] (rt_since rt))
         (\<lambda>updated. writeJSONWithDuration 200
            [ok_field True, (''hit'', JBool (0 < updated)), (''updated_count'', JInt updated)] (rt_since rt 0)))"

section \<open>Deletes\<close>

definition deleted_fields :: "int \<Rightarrow> orderedFields" where
  "deleted_fields n = [ok_field True, (''hit'', JBool (0 < n)), (''deleted_count'', JInt n)]"

definition handleDelete :: handler where
  "handleDelete rt api rq s =
     posting rt rq s (decodeBody (maxSingleBytes api) decode_delete (rq_body rq)) (\<lambda>req.
       after (deleteOne (rt_clock rt) (dr_Scope req) (dr_ID req) (dr_Seq req) s)
         (\<lambda>e. writeDeleteError (rt_quote rt) e (rt_since rt))
         (\<lambda>n. writeJSONWithDuration 200 (deleted_fields n) (rt_since rt 0)))"

definition handleDeleteUpTo :: handler where
  "handleDeleteUpTo rt api rq s =
     posting rt rq s (decodeBody (maxSingleBytes api) decode_delete_up_to (rq_body rq)) (\<lambda>req.
       after (deleteUpTo (rt_clock rt) (dur_Scope req) (dur_MaxSeq req) s)
         (\<lambda>e. writeDeleteError (rt_quote rt) e (rt_since rt))
         (\<lambda>n. writeJSONWithDuration 200 (deleted_fields n) (rt_since rt 0)))"

definition handleDeleteScope :: handler where
  "handleDeleteScope rt api rq s =
     posting rt rq s (decodeBody (maxSingleBytes api) decode_delete_scope (rq_body rq)) (\<lambda>req.
       after (deleteScope (rt_clock rt) (dsr_Scope req) s)
         (\<lambda>e. writeDeleteError (rt_quote rt) e (rt_since rt))
         (\<lambda>(deletedItems, deleted). writeJSONWithDuration 200
            [ok_field True, (''hit'', JBool deleted), (''deleted_scope'', JBool deleted),
             (''deleted_items'', JInt deletedItems)] (rt_since rt 0)))"

definition handleWipe :: handler where
  \<comment> \<open>the body is bounded and never read\<close>
  "handleWipe rt api rq s =
     (if rq_method rq \<noteq> MethodPost then (Reply (methodNotAllowed (rt_since rt)), s)
      else case wipe (rt_clock rt) s of
        ((deletedScopes, deletedItems, freedBytes), s') \<Rightarrow>
          (Reply (writeJSONWithDuration 200
             [ok_field True, (''deleted_scopes'', JInt deletedScopes), (''deleted_items'', JInt deletedItems),
              (''freed_mb'', JMB freedBytes)] (rt_since rt 0)), s'))"

section \<open>Bulk\<close>

definition handleWarm :: handler where
  "handleWarm rt api rq s =
     posting rt rq s (decodeBody (maxBulkBytes api) decode_items (rq_body rq)) (\<lambda>req.
       after (replaceScopes (rt_clock rt) (rt_range rt (groupItemsByScope (ireq_Items req))) s)
         (\<lambda>e. writeMutationError (rt_quote rt) e [] (rt_since rt))
         (\<lambda>replacedScopes. writeJSONWithDuration 200
            [ok_field True, (''count'', JInt (int (length (ireq_Items req)))),
             (''replaced_scopes'', JInt replacedScopes)] (rt_since rt 0)))"

definition handleRebuild :: handler where
  "handleRebuild rt api rq s =
     posting rt rq s (decodeBody (maxBulkBytes api) decode_items (rq_body rq)) (\<lambda>req.
       if ireq_Items req = [] then
         (Reply (badRequest (''the '' @ quoted ''items'' @ '' array must not be empty for the '' @
            quoted ''/rebuild'' @ '' endpoint'') (rt_since rt)), s)
       else
         after (rebuildAll (rt_clock rt) (rt_range rt (groupItemsByScope (ireq_Items req))) s)
           (\<lambda>e. writeMutationError (rt_quote rt) e [] (rt_since rt))
           (\<lambda>(rebuiltScopes, rebuiltItems). writeJSONWithDuration 200
              [ok_field True, (''count'', JInt (int (length (ireq_Items req)))),
               (''rebuilt_scopes'', JInt rebuiltScopes), (''rebuilt_items'', JInt rebuiltItems)] (rt_since rt 0)))"

section \<open>Reads\<close>

definition writeItemsHit :: "API \<Rightarrow> durations \<Rightarrow> Item list \<Rightarrow> bool \<Rightarrow> orderedFields \<Rightarrow> response" where
  "writeItemsHit api us its truncated extra =
     (if its \<noteq> [] \<and> maxResponseBytes api < estimateMultiItemResponseBytes its
      then responseTooLarge (estimateMultiItemResponseBytes its) (maxResponseBytes api) us
      else writeJSONWithMetaCap 200
        ([ok_field True, (''hit'', JBool (its \<noteq> [])), (''count'', JInt (int (length its)))] @ extra @
         [(''truncated'', JBool truncated), (''items'', JArr (map Item_json its))])
        (maxResponseBytes api) us)"

definition writeItemsMiss :: "API \<Rightarrow> durations \<Rightarrow> orderedFields \<Rightarrow> response" where
  "writeItemsMiss api us extra =
     writeJSONWithMetaCap 200
       ([ok_field True, (''hit'', JBool False), (''count'', JInt 0)] @ extra @
        [(''truncated'', JBool False), (''items'', JArr [])])
       (maxResponseBytes api) us"

definition pageReply :: "API \<Rightarrow> durations \<Rightarrow> orderedFields \<Rightarrow> (Item list \<times> bool \<times> bool) \<times> store \<Rightarrow> outcome \<times> store" where
  \<comment> \<open>how both list reads answer: the page, or the empty page when the scope is not there\<close>
  "pageReply api us extra out =
     (case out of ((its, truncated, found), s) \<Rightarrow>
        (Reply (if found then writeItemsHit api us its truncated extra else writeItemsMiss api us extra), s))"

definition parseHead :: "(string \<Rightarrow> string) \<Rightarrow> string \<Rightarrow> string + scopeLimit \<times> u64" where
  "parseHead Q rawQuery =
     (case parseScopeLimit Q rawQuery ''/head'' of
        Inl e \<Rightarrow> Inl e
      | Inr q \<Rightarrow>
          (let query = parse_query rawQuery; raw = query_get query ''after_seq'' in
           if query_has query ''offset''
           then Inl (the_parameter ''offset'' (''is not supported on /head; use '' @ quoted ''after_seq'' @
             '' instead, or call /tail for position-based paging''))
           else if raw = [] then Inr (q, 0)
           else (case parse_uint64 raw of
              None \<Rightarrow> Inl (the_parameter ''after_seq'' ''must be a valid unsigned integer'')
            | Some sq \<Rightarrow> Inr (q, sq))))"

definition handleHead :: handler where
  "handleHead rt api rq s =
     getting rt rq s (parseHead (rt_quote rt) (rq_query rq)) (\<lambda>(q, afterSeq).
       pageReply api (rt_since rt) [] (head (rt_clock rt 0) (sl_Scope q) afterSeq (sl_Limit q) s))"

definition parseTail :: "(string \<Rightarrow> string) \<Rightarrow> string \<Rightarrow> string + scopeLimit \<times> int" where
  "parseTail Q rawQuery =
     (case parseScopeLimit Q rawQuery ''/tail'' of
        Inl e \<Rightarrow> Inl e
      | Inr q \<Rightarrow>
          (case normalized Q (normalizeOffset (query_get (parse_query rawQuery) ''offset'')) of
             Inl e \<Rightarrow> Inl e
           | Inr offset \<Rightarrow> Inr (q, offset)))"

definition handleTail :: handler where
  "handleTail rt api rq s =
     getting rt rq s (parseTail (rt_quote rt) (rq_query rq)) (\<lambda>(q, offset).
       pageReply api (rt_since rt) [(''offset'', JInt offset)]
         (tail (rt_clock rt 0) (sl_Scope q) (sl_Limit q) offset s))"

definition writeGetMiss :: "durations \<Rightarrow> response" where
  "writeGetMiss us = writeJSONWithMeta 200
     [ok_field True, (''hit'', JBool False), (''count'', JInt 0), (''item'', JNil)] us"

definition writeGetHit :: "Item \<Rightarrow> durations \<Rightarrow> response" where
  "writeGetHit it us = writeJSONWithMeta 200
     [ok_field True, (''hit'', JBool True), (''count'', JInt 1), (''item'', Item_json it)] us"

definition target_id :: "lookupTarget \<Rightarrow> bytestr" where
  "target_id t = (if lt_ByID t then lt_ID t else [])"

definition target_seq :: "lookupTarget \<Rightarrow> u64" where
  "target_seq t = (if lt_ByID t then 0 else lt_Seq t)"

definition handleGet :: handler where
  "handleGet rt api rq s =
     getting rt rq s (parseLookupTarget (rt_quote rt) (rq_query rq) ''/get'') (\<lambda>t.
       case store_get (rt_clock rt 0) (lt_Scope t) (target_id t) (target_seq t) s of
         (None, s') \<Rightarrow> (Reply (writeGetMiss (rt_since rt)), s')
       | (Some it, s') \<Rightarrow> (Reply (writeGetHit it (rt_since rt)), s'))"

definition handleRender :: handler where
  "handleRender rt api rq s =
     getting rt rq s (parseLookupTarget (rt_quote rt) (rq_query rq) ''/render'') (\<lambda>t.
       case render (rt_clock rt 0) (lt_Scope t) (target_id t) (target_seq t) s of
         (None, s') \<Rightarrow> (Reply \<lparr>rs_status = 404, rs_type = octet_type, rs_body = []\<rparr>, s')
       | (Some body, s') \<Rightarrow> (Reply \<lparr>rs_status = 200, rs_type = octet_type, rs_body = raw_bytes body\<rparr>, s'))"

section \<open>Observability\<close>

definition reservedScopeEntry_json :: "reservedScopeEntry \<Rightarrow> jv" where
  "reservedScopeEntry_json e = JObj
     [(''scope'', JStr (rse_Scope e)), (''item_count'', JInt (rse_ItemCount e)), (''last_seq'', JU64 (rse_LastSeq e)),
      (''approx_scope_mb'', JMB (rse_ApproxScopeMB e)), (''created_ts'', JInt (rse_CreatedTS e)),
      (''last_write_ts'', JInt (rse_LastWriteTS e))]"

definition scopeListEntry_json :: "scopeListEntry \<Rightarrow> jv" where
  "scopeListEntry_json e =
     (let st = sle_stats e in JObj
       [(''scope'', JStr (sle_Scope e)), (''item_count'', JInt (ss_ItemCount st)), (''last_seq'', JU64 (ss_LastSeq st)),
        (''approx_scope_mb'', JMB (ss_ApproxScopeMB st)), (''created_ts'', JInt (ss_CreatedTS st)),
        (''last_write_ts'', JInt (ss_LastWriteTS st)), (''last_access_ts'', JInt (ss_LastAccessTS st)),
        (''read_count_total'', JU64 (ss_ReadCountTotal st))])"

definition handleStats :: handler where
  "handleStats rt api rq s =
     (if rq_method rq \<noteq> MethodGet then (Reply (methodNotAllowed (rt_since rt)), s)
      else (let st = store_stats s in
        (Reply (writeJSONWithDuration 200
           [ok_field True, (''scope_count'', JInt (sst_ScopeCount st)), (''total_items'', JInt (sst_TotalItems st)),
            (''approx_store_mb'', JMB (sst_ApproxStoreMB st)), (''last_write_ts'', JInt (sst_LastWriteTS st)),
            (''events_drops_total'', JInt (sst_EventsDropsTotal st)),
            (''reserved_scopes'', JArr (map reservedScopeEntry_json (sst_ReservedScopes st)))] (rt_since rt 0)), s)))"

definition parseScopeList :: "(string \<Rightarrow> string) \<Rightarrow> string \<Rightarrow> string + string \<times> string \<times> int" where
  "parseScopeList Q rawQuery =
     (let query = parse_query rawQuery; pre = query_get query ''prefix''; aft = query_get query ''after'' in
      checked Q (if pre = [] then None else checkKeyField ''prefix'' pre MaxScopeBytes)
       (checked Q (if aft = [] then None else checkKeyField ''after'' aft MaxScopeBytes)
         (case normalized Q (normalizeLimit (query_get query ''limit'')) of
            Inl e \<Rightarrow> Inl e
          | Inr limit \<Rightarrow> Inr (pre, aft, limit))))"

definition handleScopeList :: handler where
  "handleScopeList rt api rq s =
     getting rt rq s (parseScopeList (rt_quote rt) (rq_query rq)) (\<lambda>(pre, aft, limit).
       case scopeList pre aft limit s of
         (entries, truncated) \<Rightarrow>
           (Reply (writeJSONWithMetaCap 200
              [ok_field True, (''hit'', JBool (entries \<noteq> [])), (''count'', JInt (int (length entries))),
               (''truncated'', JBool truncated), (''scopes'', JArr (map scopeListEntry_json entries))]
              (maxResponseBytes api) (rt_since rt)), s))"

definition helpText :: string where
  \<comment> \<open>the text begins with a dash in UTF-8\<close>
  "helpText = ''scopecache '' @ [CHR 0xE2, CHR 0x80, CHR 0x94] @
     '' see instructions at https://github.com/VeloxCoding/scopecache/blob/main/docs/scopecache-core-rfc.md'' @ newline"

definition handleHelp :: handler where
  "handleHelp rt api rq s =
     (if rq_method rq \<noteq> MethodGet
      then (Reply \<lparr>rs_status = 405, rs_type = text_type, rs_body = ''method not allowed'' @ newline\<rparr>, s)
      else (Reply \<lparr>rs_status = 200, rs_type = text_type, rs_body = helpText\<rparr>, s))"

section \<open>Registration\<close>

definition RegisterRoutes :: "(string \<times> handler) list" where
  "RegisterRoutes =
     [(''/append'', handleAppend), (''/update'', handleUpdate), (''/upsert'', handleUpsert),
      (''/counter_add'', handleCounterAdd), (''/delete'', handleDelete), (''/delete_up_to'', handleDeleteUpTo),
      (''/head'', handleHead), (''/tail'', handleTail), (''/get'', handleGet), (''/render'', handleRender),
      (''/wipe'', handleWipe), (''/warm'', handleWarm), (''/rebuild'', handleRebuild),
      (''/delete_scope'', handleDeleteScope), (''/stats'', handleStats), (''/scopelist'', handleScopeList),
      (''/help'', handleHelp)]"

definition answers :: "runtime \<Rightarrow> http_request \<Rightarrow> store \<Rightarrow> (outcome \<times> store) option" where
  \<comment> \<open>a request to a registered path, by an API made for the store\<close>
  "answers rt rq s =
     map_option (\<lambda>h. h rt (NewAPI (score s)) rq s) (map_of RegisterRoutes (rq_path rq))"

end
