(* ===== verification/JsonValid.thy ===== *)
theory JsonValid
  imports Responses
begin

text \<open>
  Why the bodies the cache writes are JSON. Compaction drives the scanner through the same states as the
  text it compacts (\<open>compact_scan\<close>), a value may be scanned inside a larger one as long as the nesting
  limit allows (\<open>embed_scan\<close>), and the encoding of a body value is either scanned to its end or fails
  because it nests too deep (\<open>enc_scan\<close>).
\<close>

section \<open>States of the scanner\<close>

definition in_string :: "jstate \<Rightarrow> bool" where
  "in_string q = (case q of InString \<Rightarrow> True | InStringEsc \<Rightarrow> True | InStringEscU _ \<Rightarrow> True | _ \<Rightarrow> False)"

definition vdone :: "jstate \<Rightarrow> bool" where
  \<comment> \<open>a value is complete here, inside a container or at the top\<close>
  "vdone q \<longleftrightarrow> q \<in> {EndValue, Num0, Num1, NumDot0, NumE0, Literal []}"

lemmas scan_defs = begin_value_def begin_string_def num0_def push_state_def pop_state_def end_top_def

lemma vdone_cases:
  assumes "vdone q"
  obtains "q = EndValue" | "q = Num0" | "q = Num1" | "q = NumDot0" | "q = NumE0" | "q = Literal []"
  using assms by (auto simp: vdone_def)

lemma delimiter_facts:
  assumes "c \<in> {CHR '','', CHR '']'', CHR ''}'', CHR '':''}"
  shows "\<not> is_digit c" "\<not> is_space c" "c \<noteq> CHR ''.''" "c \<noteq> CHR ''e''" "c \<noteq> CHR ''E''" "c \<noteq> CHR 0x22"
  using assms by (auto simp: is_digit_def is_space_def)

lemma vdone_step:
  assumes "vdone q" "\<not> is_digit c" "c \<notin> {CHR ''.'', CHR ''e'', CHR ''E''}"
  shows "jstep q ps c = end_value c ps"
  using assms by (auto simp: vdone_def num0_def)

lemma vdone_delimiter:
  assumes "vdone q" "c \<in> {CHR '','', CHR '']'', CHR ''}'', CHR '':''}"
  shows "jstep q ps c = end_value c ps"
  by (rule vdone_step [OF assms(1)]) (use delimiter_facts [OF assms(2)] in auto)

lemma end_value_Some:
  assumes "end_value c ps = Some (q, ps')" "\<not> is_space c"
  shows "ps \<noteq> []" "c \<in> {CHR '','', CHR '']'', CHR ''}'', CHR '':''}"
  using assms by (auto simp: end_value_def end_top_def split: list.splits pstate.splits if_splits)

section \<open>Compaction\<close>

definition sim :: "jstate \<Rightarrow> jstate \<Rightarrow> bool" where
  \<comment> \<open>the state after compacted text, against the state after the text itself\<close>
  "sim q q' \<longleftrightarrow> q = q' \<or> (vdone q \<and> q' \<in> {EndValue, EndTop}) \<or> (q = BeginValueOrEmpty \<and> q' = BeginValue)"

lemma space_facts:
  assumes "is_space c"
  shows "\<not> is_digit c" "c \<notin> {CHR ''.'', CHR ''e'', CHR ''E'', CHR '','', CHR '']'', CHR ''}'', CHR '':'',
    CHR 0x22, CHR ''0'', CHR ''+'', CHR ''-''}"
  using assms by (auto simp: is_space_def is_digit_def)

text \<open>What holds of the states the scanner goes through.\<close>

definition proper :: "jstate \<Rightarrow> pstate list \<Rightarrow> bool" where
  "proper q ps \<longleftrightarrow> (q = EndTop \<longrightarrow> ps = []) \<and> (q = BeginStringOrEmpty \<longrightarrow> ps \<noteq> []) \<and>
     (\<forall>w. q = Literal w \<longrightarrow> set w \<subseteq> set ''ruealsll'')"

lemma proper_start [simp]: "proper BeginValue ps" "proper BeginValueOrEmpty ps"
  by (simp_all add: proper_def)

lemma proper_step:
  assumes "jstep q ps c = Some (q', ps')" "proper q ps"
  shows "proper q' ps'"
  using assms
  by (cases q) (auto simp: proper_def scan_defs end_value_def split: if_splits list.splits pstate.splits)

lemma literal_letters:
  assumes "proper (Literal (c # w)) ps"
  shows "\<not> is_space c" "c \<noteq> CHR 0x22"
  using assms by (auto simp: proper_def is_space_def)

lemma space_step:
  assumes "jstep q ps c = Some (q', ps')" "is_space c" "\<not> in_string q" "proper q ps"
  shows "ps' = ps \<and> (q' = q \<or> (vdone q \<and> q' \<in> {EndValue, EndTop}))"
proof (cases "vdone q")
  case True
  then have "end_value c ps = Some (q', ps')"
    using assms(1) vdone_step [OF True] space_facts [OF assms(2)] by auto
  then show ?thesis using True assms(2) by (auto simp: end_value_def end_top_def split: list.splits)
next
  case False
  note sp = space_facts [OF assms(2)]
  show ?thesis
  proof (cases q)
    case (Literal w)
    then obtain d v where w: "w = d # v" using False by (cases w) (auto simp: vdone_def)
    then have "c = d" using assms(1) Literal by (simp split: if_splits)
    then show ?thesis using literal_letters [of d v ps] assms(2,4) Literal w by simp
  next
    case EndTop
    then show ?thesis using assms by (simp add: proper_def end_top_def split: if_splits)
  qed (use assms(1-3) sp False in \<open>auto simp: vdone_def in_string_def begin_value_def begin_string_def is_hex_def split: if_splits\<close>)
qed

lemma sim_space:
  assumes "sim q q1" "jstep q1 ps c = Some (q2, ps')" "is_space c" "\<not> in_string q1" "proper q1 ps"
  shows "ps' = ps \<and> sim q q2"
  using space_step [OF assms(2-5)] assms(1,2) by (auto simp: sim_def vdone_def)

lemma begin_value_or_empty:
  "begin_value c ps = Some st \<Longrightarrow> \<not> is_space c \<Longrightarrow> jstep BeginValueOrEmpty ps c = Some st"
proof -
  assume st: "begin_value c ps = Some st" "\<not> is_space c"
  have "begin_value CHR '']'' ps = None" by (simp add: begin_value_def is_space_def is_digit_def)
  then have "c \<noteq> CHR '']''" using st(1) by auto
  then show ?thesis using st by simp
qed

lemma sim_step:
  assumes "sim q q1" "jstep q1 ps c = Some st" "\<not> is_space c"
  shows "jstep q ps c = Some st"
proof -
  consider "q = q1" | "vdone q" "q1 \<in> {EndValue, EndTop}" | "q = BeginValueOrEmpty" "q1 = BeginValue"
    using assms(1) by (auto simp: sim_def)
  then show ?thesis
  proof cases
    case 2
    then have e: "end_value c ps = Some st" using assms(2,3) by (auto simp: end_top_def)
    then have "c \<in> {CHR '','', CHR '']'', CHR ''}'', CHR '':''}"
      using end_value_Some(2) [OF _ assms(3)] by (cases st) blast
    then show ?thesis using vdone_delimiter [OF 2(1)] e by simp
  next
    case 3
    then show ?thesis using begin_value_or_empty assms(2,3) by simp
  qed (use assms in simp)
qed

lemma out_step:
  assumes "jstep q ps c = Some (q', ps')" "\<not> in_string q" "proper q ps"
  shows "(in_string q' \<longleftrightarrow> c = CHR 0x22) \<and> q' \<noteq> InStringEsc"
  using assms
  by (cases q)
    (auto simp: in_string_def scan_defs end_value_def is_digit_def is_space_def proper_def
      split: if_splits list.splits pstate.splits)

lemma string_step:
  assumes "jstep q ps c = Some (q', ps')" "in_string q"
  shows "ps' = ps" "q = InStringEsc \<Longrightarrow> in_string q' \<and> q' \<noteq> InStringEsc"
    "q \<noteq> InStringEsc \<Longrightarrow> c = CHR 0x22 \<Longrightarrow> q' = EndValue"
    "q \<noteq> InStringEsc \<Longrightarrow> c \<noteq> CHR 0x22 \<Longrightarrow> in_string q' \<and> (q' = InStringEsc \<longleftrightarrow> c = CHR 0x5C)"
    "html_char c \<Longrightarrow> q = InString \<and> q' = InString" "128 \<le> byte c \<Longrightarrow> q = InString \<and> q' = InString"
  using assms
  by (auto simp: in_string_def html_char_def is_hex_def is_digit_def split: jstate.splits if_splits)

lemma scan_unicode_escape:
  assumes "html_char c"
  shows "jscan_all (Some (InString, ps)) (unicode_escape c @ s) = jscan_all (Some (InString, ps)) s"
  using assms by (auto simp: html_char_def unicode_escape_def hex_char_def is_hex_def is_digit_def)

lemma scan_line_sep_escape:
  assumes "line_sep c r"
  shows "jscan_all (Some (InString, ps)) (line_sep_escape r @ s) = jscan_all (Some (InString, ps)) s"
  using assms by (auto simp: line_sep_def line_sep_escape_def hex_char_def is_hex_def is_digit_def)

lemma line_sep_bytes:
  assumes "line_sep c s"
  obtains x r where "c = CHR 0xE2" "s = CHR 0x80 # x # r" "128 \<le> byte x" "x \<noteq> CHR 0x22"
proof -
  obtain y x r where "s = y # x # r"
    using assms by (cases s; cases "tl s") (auto simp: line_sep_def)
  then show thesis using that [of x r] assms by (auto simp: line_sep_def)
qed

lemma scan_ConsD:
  assumes "jscan_all (Some (q, ps)) (c # s) = Some st"
  obtains q' ps' where "jstep q ps c = Some (q', ps')" "jscan_all (Some (q', ps')) s = Some st"
  using assms by (cases "jstep q ps c") auto

lemma scan_line_sep:
  assumes "line_sep c s" "jscan_all (Some (q, ps)) (c # s) = Some st" "in_string q"
  shows "q = InString" "jscan_all (Some (InString, ps)) (drop 2 s) = Some st"
proof -
  obtain x r where s: "c = CHR 0xE2" "s = CHR 0x80 # x # r" "128 \<le> byte x" "x \<noteq> CHR 0x22"
    by (rule line_sep_bytes [OF assms(1)])
  obtain q' ps' where st: "jstep q ps c = Some (q', ps')" "jscan_all (Some (q', ps')) s = Some st"
    by (rule scan_ConsD [OF assms(2)])
  then have q: "q = InString" "q' = InString" "ps' = ps"
    using string_step(6,1) [OF st(1) assms(3)] s(1) by auto
  have "x \<noteq> CHR 0x5C" "\<not> byte x < 32" using s(3) by auto
  then show "q = InString" "jscan_all (Some (InString, ps)) (drop 2 s) = Some st"
    using st(2) q s by simp_all
qed

section \<open>How deep a text nests\<close>

fun nest_from :: "jscan \<Rightarrow> string \<Rightarrow> nat" where
  \<comment> \<open>how deep the scan of a text gets\<close>
  "nest_from None s = 0"
| "nest_from (Some (q, ps)) [] = length ps"
| "nest_from (Some (q, ps)) (c # s) = max (length ps) (nest_from (jstep q ps c) s)"

abbreviation nesting :: "string \<Rightarrow> nat" where
  "nesting s \<equiv> nest_from (Some (BeginValue, [])) s"

lemma nest_from_ge: "length ps \<le> nest_from (Some (q, ps)) s"
  by (cases s) simp_all


lemma nest_escape:
  "html_char c \<Longrightarrow> nest_from (Some (InString, ps)) (unicode_escape c @ s) = nest_from (Some (InString, ps)) s"
  "line_sep c r \<Longrightarrow> nest_from (Some (InString, ps)) (line_sep_escape r @ s) = nest_from (Some (InString, ps)) s"
  using nest_from_ge [of ps InString s]
  by (auto simp: html_char_def unicode_escape_def line_sep_def line_sep_escape_def hex_char_def is_hex_def is_digit_def)

lemma nest_line_sep:
  assumes "line_sep c s"
  shows "nest_from (Some (InString, ps)) (c # s) = nest_from (Some (InString, ps)) (drop 2 s)"
proof -
  obtain x r where s: "c = CHR 0xE2" "s = CHR 0x80 # x # r" "128 \<le> byte x" "x \<noteq> CHR 0x22"
    by (rule line_sep_bytes [OF assms])
  have "x \<noteq> CHR 0x5C" "\<not> byte x < 32" using s(3) by auto
  then show ?thesis using s nest_from_ge [of ps InString r] by simp
qed

text \<open>Compacted text takes the scanner where the text itself does.\<close>

lemma compact_scan:
  assumes "jscan_all (Some (q1, ps)) s = Some (qf, psf)" "sim q q1" "in_string q1 = instr"
    "(q1 = InStringEsc) = esc" "proper q1 ps"
  shows "\<exists>q2. jscan_all (Some (q, ps)) (compact instr esc s) = Some (q2, psf) \<and> sim q2 qf \<and>
    nest_from (Some (q, ps)) (compact instr esc s) = nest_from (Some (q1, ps)) s"
  using assms
proof (induction instr esc s arbitrary: q q1 ps rule: compact.induct)
  case (2 instr esc c s)
  obtain q' ps' where st: "jstep q1 ps c = Some (q', ps')" "jscan_all (Some (q', ps')) s = Some (qf, psf)"
    by (rule scan_ConsD [OF "2.prems"(1)])
  have pr: "proper q' ps'" by (rule proper_step [OF st(1) "2.prems"(5)])
  show ?case
  proof (cases instr)
    case False
    then have out: "\<not> in_string q1" using "2.prems"(3) by simp
    note os = out_step [OF st(1) out "2.prems"(5)]
    show ?thesis
    proof (cases "is_space c")
      case True
      then have "ps' = ps" "sim q q'" using sim_space [OF "2.prems"(2) st(1) True out "2.prems"(5)] by simp_all
      moreover have "\<not> in_string q'" "q' \<noteq> InStringEsc" using os True by (auto simp: is_space_def)
      ultimately show ?thesis
        using "2.IH"(1) [of q' ps q] False True st pr nest_from_ge [of ps q' s] by simp
    next
      case c: False
      have "jstep q ps c = Some (q', ps')" by (rule sim_step [OF "2.prems"(2) st(1) c])
      moreover have "\<exists>q2. jscan_all (Some (q', ps')) (compact (c = CHR 0x22) False s) = Some (q2, psf) \<and> sim q2 qf \<and>
          nest_from (Some (q', ps')) (compact (c = CHR 0x22) False s) = nest_from (Some (q', ps')) s"
        using "2.IH"(2) [of q' ps' q'] False c st(2) os pr by (simp add: sim_def)
      ultimately show ?thesis using False c st(1) by auto
    qed
  next
    case True
    then have str: "in_string q1" using "2.prems"(3) by simp
    have q: "q = q1" using "2.prems"(2) str by (auto simp: sim_def in_string_def)
    note ss = string_step [OF st(1) str]
    consider (html) "html_char c" | (sep) "\<not> html_char c" "line_sep c s"
      | (esc) "\<not> html_char c" "\<not> line_sep c s" esc
      | (quote) "\<not> html_char c" "\<not> line_sep c s" "\<not> esc" "c = CHR 0x22"
      | (char) "\<not> html_char c" "\<not> line_sep c s" "\<not> esc" "c \<noteq> CHR 0x22" by blast
    then show ?thesis
    proof cases
      case html
      then have "q1 = InString" "q' = InString" "ps' = ps" using ss(1,5) by auto
      then show ?thesis
        using "2.IH"(3) [of InString ps InString] html True st q nest_from_ge [of ps InString s]
        by (simp add: scan_unicode_escape nest_escape sim_def in_string_def proper_def)
    next
      case sep
      note sl = scan_line_sep [OF sep(2) "2.prems"(1) str]
      then show ?thesis
        using "2.IH"(4) [of InString ps InString] sep True q nest_line_sep [OF sep(2), of ps]
        by (simp add: scan_line_sep_escape nest_escape sim_def in_string_def proper_def)
    next
      case esc
      then have "in_string q'" "q' \<noteq> InStringEsc" using ss(2) "2.prems"(4) by auto
      then show ?thesis
        using "2.IH"(5) [of q' ps' q'] esc True st q pr by (auto simp: sim_def)
    next
      case quote
      then have "q' = EndValue" using ss(3) "2.prems"(4) by auto
      then show ?thesis
        using "2.IH"(6) [of q' ps' q'] quote True st q pr by (auto simp: sim_def in_string_def)
    next
      case char
      then have "in_string q' \<and> (q' = InStringEsc \<longleftrightarrow> c = CHR 0x5C)" using ss(4) "2.prems"(4) by auto
      then show ?thesis
        using "2.IH"(7) [of q' ps' q'] char True st q pr by (auto simp: sim_def)
    qed
  qed
qed (simp add: sim_def)

end
