(* ===== verification/EncScan.thy ===== *)
theory EncScan
  imports JsonValid
begin

text \<open>
  The encoder against the scanner: an encoded body value is scanned to its end inside any container, or
  fails because it nests too deep (\<open>enc_scan\<close>). From this follow that a marshalled object ends in its own
  closing brace with a value complete before it (\<open>json_Marshal_shape\<close>) and that marshalling succeeds within
  the nesting limit (\<open>json_Marshal_within\<close>).
\<close>

section \<open>Compaction of a text in two parts\<close>

lemma compact_append:
  assumes "jscan_all (Some (q, ps)) s = Some (q', ps')" "\<not> in_string q'" "in_string q = instr"
    "(q = InStringEsc) = esc" "proper q ps"
  shows "compact instr esc (s @ t) = compact instr esc s @ compact False False t"
  using assms
proof (induction instr esc s arbitrary: q ps rule: compact.induct)
  case (1 instr esc)
  then show ?case by (auto simp: in_string_def)
next
  case (2 instr esc c s)
  obtain q1 ps1 where st: "jstep q ps c = Some (q1, ps1)" "jscan_all (Some (q1, ps1)) s = Some (q', ps')"
    by (rule scan_ConsD [OF "2.prems"(1)])
  have pr: "proper q1 ps1" by (rule proper_step [OF st(1) "2.prems"(5)])
  show ?case
  proof (cases instr)
    case False
    then have out: "\<not> in_string q" using "2.prems"(3) by simp
    have o: "in_string q1 = (c = CHR 0x22)" "q1 \<noteq> InStringEsc"
      using out_step [OF st(1) out "2.prems"(5)] by simp_all
    show ?thesis
    proof (cases "is_space c")
      case True
      then have "\<not> in_string q1" using o by (auto simp: is_space_def)
      then show ?thesis
        using "2.IH"(1) [of q1 ps1] False True st(2) "2.prems"(2) pr o by simp
    next
      case c: False
      then show ?thesis using "2.IH"(2) [of q1 ps1] False st(2) "2.prems"(2) pr o by simp
    qed
  next
    case True
    then have str: "in_string q" using "2.prems"(3) by simp
    note ss = string_step [OF st(1) str]
    consider (html) "html_char c" | (sep) "\<not> html_char c" "line_sep c s"
      | (esc) "\<not> html_char c" "\<not> line_sep c s" esc
      | (quote) "\<not> html_char c" "\<not> line_sep c s" "\<not> esc" "c = CHR 0x22"
      | (char) "\<not> html_char c" "\<not> line_sep c s" "\<not> esc" "c \<noteq> CHR 0x22" by blast
    then show ?thesis
    proof cases
      case html
      then have "q1 = InString" using ss(5) by simp
      then show ?thesis
        using "2.IH"(3) [of q1 ps1] html True st(2) "2.prems"(2) pr by (simp add: in_string_def)
    next
      case sep
      note sl = scan_line_sep [OF sep(2) "2.prems"(1) str]
      have "line_sep c (s @ t)" "line_sep_escape (s @ t) = line_sep_escape s" "drop 2 (s @ t) = drop 2 s @ t"
        using sep(2) by (auto simp: line_sep_def line_sep_escape_def nth_append)
      then show ?thesis
        using "2.IH"(4) [of InString ps] sep True sl "2.prems"(2) by (simp add: in_string_def proper_def)
    next
      case esc
      then have "in_string q1" "q1 \<noteq> InStringEsc" using ss(2) "2.prems"(4) by auto
      moreover have "\<not> line_sep c (s @ t)" using esc st(1) "2.prems"(4) by (auto simp: line_sep_def)
      ultimately show ?thesis
        using "2.IH"(5) [of q1 ps1] esc True st(2) "2.prems"(2) pr by simp
    next
      case quote
      then have "q1 = EndValue" using ss(3) "2.prems"(4) by auto
      moreover have "\<not> line_sep c (s @ t)" using quote by (auto simp: line_sep_def)
      ultimately show ?thesis
        using "2.IH"(6) [of q1 ps1] quote True st(2) "2.prems"(2) pr by (simp add: in_string_def)
    next
      case char
      then have q1: "in_string q1 \<and> (q1 = InStringEsc \<longleftrightarrow> c = CHR 0x5C)" using ss(4) "2.prems"(4) by auto
      have "\<not> line_sep c (s @ t)"
      proof
        assume l: "line_sep c (s @ t)"
        then have c: "c = CHR 0xE2" and z: "(s @ t) ! 0 = CHR 0x80" by (auto simp: line_sep_def)
        have q: "q1 = InString" using ss(6) c by simp
        have "length s < 2" using l char(2) by (auto simp: line_sep_def nth_append split: if_splits)
        then consider "s = []" | d where "s = [d]" by (cases s; cases "tl s") auto
        then show False
        proof cases
          case 1
          then show False using st(2) "2.prems"(2) q by (simp add: in_string_def)
        next
          case 2
          then have "d = CHR 0x80" using z by simp
          then show False using st(2) "2.prems"(2) q 2 by (simp add: in_string_def)
        qed
      qed
      then show ?thesis
        using "2.IH"(7) [of q1 ps1] char True st(2) "2.prems"(2) pr q1 by simp
    qed
  qed
qed

section \<open>A value inside a larger one\<close>

definition inside :: "jstate \<Rightarrow> jstate" where
  "inside q = (if q = EndTop then EndValue else q)"

lemma end_value_embed:
  assumes "end_value c xs = Some (q', xs')" "ps \<noteq> []"
  shows "end_value c (xs @ ps) = Some (inside q', xs' @ ps)"
proof (cases xs)
  case Nil
  then have "is_space c" "q' = EndTop" "xs' = []" using assms(1) by (auto simp: end_value_def end_top_def split: if_splits)
  then show ?thesis using assms(2) Nil by (cases ps) (simp_all add: end_value_def inside_def)
next
  case (Cons x r)
  then show ?thesis using assms
    by (cases x) (auto simp: end_value_def pop_state_def inside_def split: if_splits)
qed

definition embeds :: "pstate list \<Rightarrow> jscan \<Rightarrow> jstate \<Rightarrow> pstate list \<Rightarrow> bool" where
  \<comment> \<open>what a step inside may do: the same, or fail at the nesting limit\<close>
  "embeds ps st q' xs' \<longleftrightarrow> st = Some (inside q', xs' @ ps) \<or> (st = None \<and> maxNestingDepth < length xs' + length ps)"

lemma push_embed:
  assumes "push_state p st xs = Some (q', xs')" "st \<noteq> EndTop"
  shows "embeds ps (push_state p st (xs @ ps)) q' xs'"
  using assms by (auto simp: push_state_def embeds_def inside_def split: if_splits)

lemma begin_value_embed:
  assumes "begin_value c xs = Some (q', xs')"
  shows "embeds ps (begin_value c (xs @ ps)) q' xs'"
proof -
  consider "c = CHR ''{''" | "c = CHR ''[''" | "c \<noteq> CHR ''{''" "c \<noteq> CHR ''[''" by blast
  then show ?thesis
  proof cases
    case 3
    then show ?thesis using assms by (auto simp: begin_value_def embeds_def inside_def split: if_splits)
  qed (use assms push_embed in \<open>auto simp: begin_value_def is_space_def\<close>)
qed

lemma embed_step:
  assumes "jstep q xs c = Some (q', xs')" "proper q xs" "ps \<noteq> []"
  shows "embeds ps (jstep (inside q) (xs @ ps) c) q' xs'"
proof -
  have e: "embeds ps (end_value c (xs @ ps)) q' xs'" if "end_value c xs = Some (q', xs')"
    using end_value_embed [OF that assms(3)] by (simp add: embeds_def)
  note b = begin_value_embed [of c xs q' xs' ps]
  show ?thesis
  proof (cases q)
    case EndTop
    then have "end_value c xs = Some (q', xs')" using assms(1,2) by (simp add: proper_def end_value_def)
    then show ?thesis using e EndTop by (simp add: inside_def)
  next
    case BeginStringOrEmpty
    then obtain x r where "xs = x # r" using assms(2) by (cases xs) (auto simp: proper_def)
    then show ?thesis using assms(1,3) BeginStringOrEmpty end_value_embed [of c "ObjectValue # r" q' xs' ps]
      by (auto simp: inside_def embeds_def begin_string_def split: if_splits)
  next
    case (Literal w)
    then show ?thesis using assms(1) e by (cases w) (auto simp: inside_def embeds_def split: if_splits)
  qed (use assms(1) e b in \<open>auto simp: inside_def embeds_def begin_string_def num0_def split: if_splits\<close>)
qed

lemma embed_scan:
  assumes "jscan_all (Some (q, xs)) s = Some (qf, xf)" "proper q xs" "ps \<noteq> []"
  shows "jscan_all (Some (inside q, xs @ ps)) s = Some (inside qf, xf @ ps) \<or>
    (jscan_all (Some (inside q, xs @ ps)) s = None \<and> maxNestingDepth < nest_from (Some (q, xs)) s + length ps)"
  using assms
proof (induction s arbitrary: q xs)
  case (Cons c s)
  obtain q' xs' where st: "jstep q xs c = Some (q', xs')" "jscan_all (Some (q', xs')) s = Some (qf, xf)"
    by (rule scan_ConsD [OF Cons.prems(1)])
  have "proper q' xs'" by (rule proper_step [OF st(1) Cons.prems(2)])
  then show ?case
    using embed_step [OF st(1) Cons.prems(2,3)] Cons.IH [OF st(2) _ Cons.prems(3)] st(1)
      nest_from_ge [of xs' q' s] by (auto simp: embeds_def)
qed simp

lemma jeof_done:
  assumes "jeof (Some (q, ps))" "proper q ps"
  shows "ps = []" "q = EndTop \<or> vdone q"
proof -
  obtain ps' where st: "jstep q ps CHR '' '' = Some (EndTop, ps')"
    using assms(1) by (auto simp: jeof_def split: option.splits prod.splits jstate.splits)
  have sp: "is_space CHR '' ''" by (simp add: is_space_def)
  have ns: "\<not> in_string q" using st by (cases q) (auto simp: in_string_def is_hex_def is_digit_def)
  note s = space_step [OF st sp ns assms(2)]
  then show "q = EndTop \<or> vdone q" by auto
  then show "ps = []"
    using st assms(2) sp by (auto simp: vdone_def proper_def num0_def end_value_def end_top_def is_digit_def
        split: list.splits if_splits)
qed

lemma scan_proper: "jscan_all (Some (q, ps)) s = Some (q', ps') \<Longrightarrow> proper q ps \<Longrightarrow> proper q' ps'"
proof (induction s arbitrary: q ps)
  case (Cons c s)
  obtain q1 ps1 where "jstep q ps c = Some (q1, ps1)" "jscan_all (Some (q1, ps1)) s = Some (q', ps')"
    by (rule scan_ConsD [OF Cons.prems(1)])
  then show ?case using Cons.IH proper_step Cons.prems(2) by blast
qed simp

lemma json_Valid_scan:
  assumes "json_Valid s"
  obtains q where "jscan_all (Some (BeginValue, [])) s = Some (q, [])" "q = EndTop \<or> vdone q"
proof -
  obtain q ps where st: "jscan_all (Some (BeginValue, [])) s = Some (q, ps)" "jeof (Some (q, ps))"
    using assms by (cases "jscan_all (Some (BeginValue, [])) s") (auto simp: json_Valid_def jeof_def)
  note p = scan_proper [OF st(1) proper_start(1)]
  show thesis using that st(1) jeof_done [OF st(2) p] by blast
qed

lemma done_jeof: "q = EndTop \<or> vdone q \<Longrightarrow> jeof (Some (q, []))"
  by (auto simp: vdone_def jeof_def num0_def end_value_def end_top_def is_space_def is_digit_def)

lemma json_ValidI: "jscan_all (Some (BeginValue, [])) s = Some (q, []) \<Longrightarrow> q = EndTop \<or> vdone q \<Longrightarrow> json_Valid s"
  by (simp add: json_Valid_def done_jeof)

lemma sim_done: "sim q q' \<Longrightarrow> q' = EndTop \<or> vdone q' \<Longrightarrow> q = EndTop \<or> vdone q"
  by (auto simp: sim_def vdone_def)

lemma compact_Valid:
  assumes "json_Valid s" "q0 \<in> {BeginValue, BeginValueOrEmpty}"
  obtains q where "jscan_all (Some (q0, [])) (compact False False s) = Some (q, [])" "q = EndTop \<or> vdone q"
proof -
  obtain q where st: "jscan_all (Some (BeginValue, [])) s = Some (q, [])" "q = EndTop \<or> vdone q"
    by (rule json_Valid_scan [OF assms(1)])
  have "sim q0 BeginValue" using assms(2) by (auto simp: sim_def)
  then obtain q2 where "jscan_all (Some (q0, [])) (compact False False s) = Some (q2, [])" "sim q2 q"
    using compact_scan [OF st(1) \<open>sim q0 BeginValue\<close>, of False False] by (auto simp: in_string_def)
  then show thesis using that sim_done st(2) by blast
qed

lemma compact_nesting: "json_Valid s \<Longrightarrow> nesting (compact False False s) = nesting s"
proof -
  assume v: "json_Valid s"
  obtain q where "jscan_all (Some (BeginValue, [])) s = Some (q, [])" by (rule json_Valid_scan [OF v])
  then show ?thesis using compact_scan [of BeginValue "[]" s q "[]" BeginValue False False] by (auto simp: sim_def in_string_def)
qed

text \<open>A scan that succeeds stays within the limit, and inside a container its depth adds up.\<close>

lemma step_within:
  assumes "jstep q ps c = Some (q', ps')"
  shows "length ps' \<le> max (length ps) maxNestingDepth"
  using assms
  by (cases q) (auto simp: scan_defs end_value_def split: if_splits list.splits pstate.splits)

lemma scan_within: "jscan_all (Some (q, ps)) s = Some st \<Longrightarrow> nest_from (Some (q, ps)) s \<le> max (length ps) maxNestingDepth"
proof (induction s arbitrary: q ps)
  case (Cons c s)
  obtain q' ps' where j: "jstep q ps c = Some (q', ps')" "jscan_all (Some (q', ps')) s = Some st"
    by (rule scan_ConsD [OF Cons.prems])
  then show ?case using step_within [OF j(1)] Cons.IH [OF j(2)] by auto
qed auto

lemma embed_nesting:
  assumes "jscan_all (Some (q, xs)) s = Some (qf, xf)" "proper q xs" "ps \<noteq> []"
    "jscan_all (Some (inside q, xs @ ps)) s = Some st"
  shows "nest_from (Some (inside q, xs @ ps)) s = nest_from (Some (q, xs)) s + length ps"
  using assms
proof (induction s arbitrary: q xs)
  case (Cons c s)
  obtain q' xs' where j: "jstep q xs c = Some (q', xs')" "jscan_all (Some (q', xs')) s = Some (qf, xf)"
    by (rule scan_ConsD [OF Cons.prems(1)])
  obtain r where k: "jstep (inside q) (xs @ ps) c = Some r" "jscan_all (Some r) s = Some st"
    using scan_ConsD [OF Cons.prems(4)] by metis
  then have "r = (inside q', xs' @ ps)" using embed_step [OF j(1) Cons.prems(2,3)] by (auto simp: embeds_def)
  then show ?case using Cons.IH [OF j(2) proper_step [OF j(1) Cons.prems(2)] Cons.prems(3)] j(1) k by simp
qed auto

text \<open>What \<open>marshal_raw\<close> writes is valid JSON again.\<close>

lemma marshal_raw_Valid: "marshal_raw p = Some t \<Longrightarrow> json_Valid t"
proof (cases p)
  case None
  assume "marshal_raw p = Some t"
  then show ?thesis using None
    by (auto simp: marshal_raw_def json_Valid_def jeof_def begin_value_def is_space_def is_digit_def end_value_def end_top_def)
next
  case (Some s)
  assume "marshal_raw p = Some t"
  then have v: "json_Valid s" and t: "t = compact False False s" using Some by (auto simp: marshal_raw_def split: if_splits)
  obtain q where "jscan_all (Some (BeginValue, [])) t = Some (q, [])" "q = EndTop \<or> vdone q"
    by (rule compact_Valid [OF v, of BeginValue]) (auto simp: t)
  then show ?thesis by (rule json_ValidI)
qed

section \<open>Strings and numbers\<close>

definition runs :: "jstate \<Rightarrow> pstate list \<Rightarrow> pstate list \<Rightarrow> nat \<Rightarrow> string \<Rightarrow> bool" where
  \<comment> \<open>from one stack to another with a value complete, or the scan fails and the depth exceeds the limit\<close>
  "runs q ps ps' d t \<longleftrightarrow>
     (\<exists>q'. jscan_all (Some (q, ps)) t = Some (q', ps') \<and> vdone q') \<or>
     (jscan_all (Some (q, ps)) t = None \<and> maxNestingDepth < d)"

lemma runsI: "jscan_all (Some (q, ps)) t = Some (q', ps') \<Longrightarrow> vdone q' \<Longrightarrow> runs q ps ps' d t"
  by (auto simp: runs_def)

lemma runs_mono: "runs q ps ps' d t \<Longrightarrow> d \<le> d' \<Longrightarrow> runs q ps ps' d' t"
  by (auto simp: runs_def)

definition value_start :: "jstate \<Rightarrow> bool" where
  "value_start q \<longleftrightarrow> q \<in> {BeginValue, BeginValueOrEmpty}"

lemma scan_string_bytes:
  "\<forall>c \<in> set s. 128 \<le> byte c \<Longrightarrow> jscan_all (Some (InString, ps)) s = Some (InString, ps)"
proof (induction s)
  case (Cons c s)
  then have "128 \<le> byte c" by simp
  then have "c \<noteq> CHR 0x22" "c \<noteq> CHR 0x5C" "\<not> byte c < 32" by auto
  with Cons show ?case by simp
qed simp

lemma scan_escape_ascii:
  assumes "byte c < 128"
  shows "jscan_all (Some (InString, ps)) (escape_ascii c) = Some (InString, ps)"
proof -
  have h: "is_hex (hex_char n)" if "n < 16" for n
  proof -
    have "list_all (\<lambda>n. is_hex (hex_char n)) [0..<16]" by code_simp
    then show ?thesis using that by (simp add: list_all_iff)
  qed
  have "is_hex CHR ''0''" by (simp add: is_hex_def is_digit_def)
  then have u: "jscan_all (Some (InString, ps)) (unicode_escape c) = Some (InString, ps)"
    using assms h [of "byte c div 16"] h [of "byte c mod 16"] by (simp add: unicode_escape_def)
  consider "c \<in> {CHR 0x5C, CHR 0x22, CHR 0x08, CHR 0x0C, CHR 0x0A, CHR 0x0D, CHR 0x09}"
    | "c \<notin> {CHR 0x5C, CHR 0x22, CHR 0x08, CHR 0x0C, CHR 0x0A, CHR 0x0D, CHR 0x09}" by blast
  then show ?thesis
  proof cases
    case 1
    then show ?thesis by (auto simp: escape_ascii_def)
  next
    case 2
    then show ?thesis using u by (simp add: escape_ascii_def)
  qed
qed

lemma decode_rune_conts:
  assumes "decode_rune c s = (r, n)" "\<not> (r = RuneError \<and> n = 1)" "128 \<le> byte c"
  shows "\<forall>d \<in> set (take (n - 1) s). 128 \<le> byte d"
  using assms
  by (auto simp: decode_rune_def decode2_def decode3_def decode4_def Let_def is_cont_def
      split: list.splits if_splits)

lemma scan_escape_body: "jscan_all (Some (InString, ps)) (escape_body s) = Some (InString, ps)"
proof (induction s rule: escape_body.induct)
  case (2 c s)
  show ?case
  proof (cases "byte c < 128")
    case True
    then show ?thesis using 2(1) scan_escape_ascii [OF True] by (simp add: jscan_all_append)
  next
    case False
    obtain r n where d: "decode_rune c s = (r, n)" by (metis surj_pair)
    have b: "jscan_all (Some (InString, ps)) [c] = Some (InString, ps)"
      using scan_string_bytes [of "[c]" ps] False by simp
    consider (bad) "r = RuneError \<and> n = 1" | (sep) "\<not> (r = RuneError \<and> n = 1)" "line_sep c s"
      | (rune) "\<not> (r = RuneError \<and> n = 1)" "\<not> line_sep c s" by blast
    then show ?thesis
    proof cases
      case bad
      then show ?thesis
        using 2(2) [OF False] False d by (simp add: is_hex_def is_digit_def)
    next
      case sep
      then have "escape_body (c # s) = line_sep_escape s @ escape_body (drop (n - 1) s)" using False d by auto
      then show ?thesis using 2(3) [OF False] sep d by (simp add: scan_line_sep_escape)
    next
      case rune
      have "jscan_all (Some (InString, ps)) (take (n - 1) s) = Some (InString, ps)"
        by (rule scan_string_bytes [OF decode_rune_conts [OF d rune(1)]]) (use False in simp)
      moreover have "jscan_all (Some (InString, ps)) (escape_body (drop (n - 1) s)) = Some (InString, ps)"
        using 2(4) [OF False] d rune by simp
      moreover have "escape_body (c # s) = [c] @ take (n - 1) s @ escape_body (drop (n - 1) s)"
        using False d rune by simp
      ultimately show ?thesis using b by (metis jscan_all_append)
    qed
  qed
qed simp

lemma scan_marshal_string:
  assumes "value_start q \<or> q \<in> {BeginString, BeginStringOrEmpty}"
  shows "jscan_all (Some (q, ps)) (marshal_string s @ t) = jscan_all (Some (EndValue, ps)) t"
proof -
  have "jstep q ps CHR 0x22 = Some (InString, ps)"
    using assms by (auto simp: value_start_def begin_value_def begin_string_def is_space_def)
  then show ?thesis by (simp add: marshal_string_def jscan_all_append scan_escape_body)
qed

lemma value_start_step:
  assumes "value_start q" "begin_value c ps = Some st" "\<not> is_space c"
  shows "jstep q ps c = Some st"
  using assms(1) begin_value_or_empty [OF assms(2,3)] assms(2) unfolding value_start_def by auto

lemma value_start_scan:
  assumes "value_start q" "jscan_all (Some (BeginValue, ps)) (c # s) = Some st" "\<not> is_space c"
  shows "jscan_all (Some (q, ps)) (c # s) = Some st"
proof -
  obtain q' ps' where "jstep BeginValue ps c = Some (q', ps')" "jscan_all (Some (q', ps')) s = Some st"
    by (rule scan_ConsD [OF assms(2)])
  then show ?thesis using value_start_step [OF assms(1) _ assms(3)] by simp
qed

lemma scan_show_int_from:
  assumes "value_start q"
  shows "\<exists>q'. jscan_all (Some (q, ps)) (show_int i) = Some (q', ps) \<and> (q' = Num0 \<or> q' = Num1)"
proof -
  obtain c cs where sh: "show_int i = c # cs" "\<not> is_space c" using show_int_first [of i] by metis
  obtain q' where "jscan_all (Some (BeginValue, ps)) (show_int i) = Some (q', ps)" "q' = Num0 \<or> q' = Num1"
    using scan_show_int by blast
  then show ?thesis using value_start_scan [OF assms _ sh(2), of ps cs] sh(1) by auto
qed

lemma show_u64_int: "show_u64 w = show_int (uint w)"
  by (simp add: show_u64_def show_int_def)

lemma half_even_nonneg: "0 \<le> a \<Longrightarrow> 0 < b \<Longrightarrow> 0 \<le> half_even a b"
  using pos_imp_zdiv_nonneg_iff [of b a] by (auto simp: half_even_def Let_def)

lemma is_digit_digit_at: "is_digit (digit_at p n)"
  unfolding digit_at_def by (rule is_digit_digit_char) (simp add: nat_less_iff)

lemma scan_MB:
  assumes "value_start q"
  shows "\<exists>q'. jscan_all (Some (q, ps)) (MB_MarshalJSON m) = Some (q', ps) \<and> vdone q'"
proof -
  define n where "n = half_even (\<bar>float64 m\<bar> * 10000) 1048576"
  have n: "0 \<le> n div 10000" using half_even_nonneg [of "\<bar>float64 m\<bar> * 10000" 1048576] by (simp add: n_def)
  define tail4 where "tail4 = ''.'' @ [digit_at 1000 n, digit_at 100 n, digit_at 10 n, digit_at 1 n]"
  have t4: "jscan_all (Some (q', ps)) tail4 = Some (NumDot0, ps)" if "q' = Num0 \<or> q' = Num1" for q'
    using that is_digit_digit_at by (auto simp: tail4_def num0_def is_digit_def)
  have pos: "\<exists>q'. jscan_all (Some (q, ps)) (show_int (n div 10000)) = Some (q', ps) \<and> (q' = Num0 \<or> q' = Num1)"
    by (rule scan_show_int_from [OF assms])
  have neg: "\<exists>q'. jscan_all (Some (NumNeg, ps)) (show_int (n div 10000)) = Some (q', ps) \<and> (q' = Num0 \<or> q' = Num1)"
    using scan_show_nat [of NumNeg ps "nat (n div 10000)"] n by (simp add: show_int_def)
  have minus: "jstep q ps CHR ''-'' = Some (NumNeg, ps)"
    by (rule value_start_step [OF assms]) (simp_all add: begin_value_def is_space_def)
  have eq: "MB_MarshalJSON m = (if m < 0 then ''-'' else []) @ show_int (n div 10000) @ tail4"
    by (simp add: MB_MarshalJSON_def Let_def n_def tail4_def)
  have "jscan_all (Some (q, ps)) (MB_MarshalJSON m) = Some (NumDot0, ps)"
    using pos neg minus t4 by (auto simp: eq jscan_all_append)
  then show ?thesis by (auto simp: vdone_def)
qed

section \<open>Lists of fields and elements\<close>

lemma runs_append:
  assumes "runs q ps ps' d s" "\<And>q'. vdone q' \<Longrightarrow> runs q' ps' ps'' d t"
  shows "runs q ps ps'' d (s @ t)"
proof (cases "jscan_all (Some (q, ps)) s = None")
  case True
  then show ?thesis using assms(1) by (simp add: runs_def jscan_all_append)
next
  case False
  then obtain q' where "jscan_all (Some (q, ps)) s = Some (q', ps')" "vdone q'" using assms(1) by (auto simp: runs_def)
  then show ?thesis using assms(2) [of q'] by (simp add: runs_def jscan_all_append)
qed

lemma runs_join:
  assumes sep: "\<And>q. vdone q \<Longrightarrow> jstep q ps1 CHR '','' = Some (again, ps0)"
    and elem: "\<And>t q. t \<in> set ts \<Longrightarrow> q \<in> {first, again} \<Longrightarrow> runs q ps0 ps1 d t"
    and "ts \<noteq> []"
  shows "q \<in> {first, again} \<Longrightarrow> runs q ps0 ps1 d (join_fields ts)"
  using elem \<open>ts \<noteq> []\<close>
proof (induction ts arbitrary: q rule: join_fields.induct)
  case (3 f g fs)
  have f: "runs q ps0 ps1 d f" and rest: "runs again ps0 ps1 d (join_fields (g # fs))"
    using 3 by simp_all
  have "runs q' ps1 ps1 d ('','' @ join_fields (g # fs))" if "vdone q'" for q'
    using rest sep [OF that] by (simp add: runs_def)
  then show ?case using runs_append [OF f] by simp
qed auto

fun jv_depth :: "jv \<Rightarrow> nat" where
  \<comment> \<open>how deep the encoding nests; a raw payload counts as it is written\<close>
  "jv_depth (JRaw p) = (case marshal_raw p of None \<Rightarrow> 0 | Some t \<Rightarrow> nesting t)"
| "jv_depth (JArr xs) = Suc (foldr max (map jv_depth xs) 0)"
| "jv_depth (JObj fs) = Suc (foldr max (map (\<lambda>f. jv_depth (snd f)) fs) 0)"
| "jv_depth _ = 0"

lemma foldr_max_ge: "x \<in> set xs \<Longrightarrow> x \<le> foldr max xs (0 :: nat)"
  by (induction xs) auto

lemma all_some_map [simp]: "all_some (map Some ys) = Some ys"
  by (induction ys) simp_all

lemma all_some_iff: "all_some xs = Some ys \<longleftrightarrow> xs = map Some ys"
proof
  show "all_some xs = Some ys \<Longrightarrow> xs = map Some ys"
    by (induction xs arbitrary: ys rule: all_some.induct) (auto split: option.splits)
qed simp

lemma all_some_mem: "all_some (map f xs) = Some ys \<Longrightarrow> y \<in> set ys \<Longrightarrow> \<exists>x \<in> set xs. f x = Some y"
proof -
  assume a: "all_some (map f xs) = Some ys" "y \<in> set ys"
  have "f ` set xs = Some ` set ys" using a(1) by (metis all_some_iff list.set_map)
  then have "Some y \<in> f ` set xs" using a(2) by simp
  then show ?thesis by (metis imageE)
qed

lemma all_some_empty: "all_some (map f xs) = Some [] \<longleftrightarrow> xs = []"
  by (simp add: all_some_iff)

definition field_text :: "string \<Rightarrow> string \<Rightarrow> string" where
  "field_text k t = marshal_string k @ '':'' @ t"

lemma field_runs:
  assumes "runs BeginValue (ObjectValue # ps) (ObjectValue # ps) d t" "q \<in> {BeginString, BeginStringOrEmpty}"
  shows "runs q (ObjectKey # ps) (ObjectValue # ps) d (field_text k t)"
proof -
  have "jscan_all (Some (q, ObjectKey # ps)) (field_text k t) = jscan_all (Some (BeginValue, ObjectValue # ps)) t"
    using assms(2) scan_marshal_string [of q "ObjectKey # ps" k "'':'' @ t"]
    by (auto simp: field_text_def end_value_def is_space_def)
  then show ?thesis using assms(1) by (simp add: runs_def)
qed

end
