(* ===== verification/BodyValid.thy ===== *)
theory BodyValid
  imports EncScan
begin

text \<open>
  Bodies: the encoding of a body value is a complete JSON value wherever it stands, marshalling an
  object succeeds within the nesting limit, and every writer of \<open>Responses\<close> writes one valid JSON
  value and a newline.
\<close>

section \<open>Encoded values\<close>

lemma raw_start:
  assumes "marshal_raw p = Some t"
  shows "\<exists>c s. t = c # s \<and> \<not> is_space c"
proof (cases p)
  case None
  then show ?thesis using assms by (auto simp: marshal_raw_def is_space_def)
next
  case (Some r)
  then have t: "t = compact False False r" using assms by (auto simp: marshal_raw_def split: if_splits)
  have "t \<noteq> []" using marshal_raw_Valid [OF assms] by (auto simp: json_Valid_def jeof_def begin_value_def is_space_def)
  moreover have "c # s = compact False False r \<Longrightarrow> \<not> is_space c" for c s
    by (induction r) (auto split: if_splits)
  ultimately show ?thesis using t by (metis list.exhaust)
qed

lemma raw_runs:
  assumes "marshal_raw p = Some t" "value_start q" "ps \<noteq> []"
  shows "runs q ps ps (length ps + nesting t) t"
proof -
  obtain q' where st: "jscan_all (Some (BeginValue, [])) t = Some (q', [])" "q' = EndTop \<or> vdone q'"
    by (rule json_Valid_scan [OF marshal_raw_Valid [OF assms(1)]])
  have "runs BeginValue ps ps (length ps + nesting t) t"
    using embed_scan [OF st(1) proper_start(1) assms(3)] st(2)
    by (auto simp: runs_def inside_def vdone_def add.commute)
  moreover note raw_start [OF assms(1)]
  ultimately show ?thesis
  proof (elim exE conjE)
    fix c s assume r: "runs BeginValue ps ps (length ps + nesting t) t" and t: "t = c # s" "\<not> is_space c"
    show ?thesis
    proof (cases "jscan_all (Some (BeginValue, ps)) t")
      case (Some st)
      then have "jscan_all (Some (q, ps)) t = Some st" using value_start_scan [OF assms(2)] t by blast
      then show ?thesis using r Some by (auto simp: runs_def)
    next
      case N: None
      then have deep: "maxNestingDepth < length ps + nesting t" using r by (simp add: runs_def)
      show ?thesis
      proof (cases "q = BeginValue")
        case False
        then have q: "q = BeginValueOrEmpty" using assms(2) by (auto simp: value_start_def)
        obtain q1 ps1 where b: "jstep BeginValue [] c = Some (q1, ps1)" using st(1) t(1) by (cases "jstep BeginValue [] c") auto
        then have c: "c \<noteq> CHR '']''" by (auto simp: begin_value_def is_space_def is_digit_def)
        then have "jstep q ps c = jstep BeginValue ps c" using q t(2) by simp
        then have "jscan_all (Some (q, ps)) t = None" using N t by simp
        then show ?thesis using deep by (simp add: runs_def)
      qed (use r in simp)
    qed
  qed
qed

lemma push_start:
  assumes "value_start q"
  shows "jstep q ps CHR ''['' = push_state ArrayValue BeginValueOrEmpty ps"
    "jstep q ps CHR ''{'' = push_state ObjectKey BeginStringOrEmpty ps"
  using assms by (auto simp: value_start_def begin_value_def is_space_def)

lemma close_runs:
  assumes j: "runs q (p # ps) (p' # ps) d j" and ps: "ps \<noteq> []"
    and cl: "\<And>q'. vdone q' \<Longrightarrow> jstep q' (p' # ps) c = pop_state (p' # ps)"
  shows "runs q (p # ps) ps d (j @ [c])"
  using runs_append [OF j, of ps "[c]"] cl ps by (simp add: runs_def pop_state_def vdone_def)

lemma container_runs:
  assumes "jstep q ps o1 = push_state p st ps" "length ps + 1 \<le> d" "runs st (p # ps) ps d j"
  shows "runs q ps ps d (o1 # j)"
  using assms by (auto simp: runs_def push_state_def)

definition obj_fields :: "orderedFields \<Rightarrow> string list option" where
  "obj_fields fs = all_some (map (\<lambda>f. map_option (\<lambda>t. marshal_string (fst f) @ '':'' @ t) (enc (snd f))) fs)"

lemma enc_JObj: "enc (JObj fs) = map_option (\<lambda>ts. ''{'' @ join_fields ts @ ''}'') (obj_fields fs)"
  by (simp add: obj_fields_def)

lemma obj_fields_run:
  assumes "obj_fields fs = Some ts" "fs \<noteq> []"
    and "\<And>k v t. (k, v) \<in> set fs \<Longrightarrow> enc v = Some t \<Longrightarrow> runs BeginValue (ObjectValue # ps) (ObjectValue # ps) d t"
  shows "runs BeginStringOrEmpty (ObjectKey # ps) (ObjectValue # ps) d (join_fields ts)"
proof (rule runs_join [where first = BeginStringOrEmpty and again = BeginString])
  show "vdone q \<Longrightarrow> jstep q (ObjectValue # ps) CHR '','' = Some (BeginString, ObjectKey # ps)" for q
    using vdone_delimiter [of q "CHR '',''"] by (simp add: end_value_def is_space_def)
  show "ts \<noteq> []" using assms(1,2) all_some_empty unfolding obj_fields_def by blast
next
  fix t q assume t: "t \<in> set ts" and q: "q \<in> {BeginStringOrEmpty, BeginString}"
  then obtain f where f: "f \<in> set fs" "map_option (\<lambda>t. marshal_string (fst f) @ '':'' @ t) (enc (snd f)) = Some t"
    using all_some_mem [OF assms(1) [unfolded obj_fields_def]] by blast
  then obtain u where u: "enc (snd f) = Some u" "t = field_text (fst f) u" by (auto simp: field_text_def)
  have "(fst f, snd f) \<in> set fs" using f(1) by simp
  then show "runs q (ObjectKey # ps) (ObjectValue # ps) d t"
    using field_runs [OF assms(3) [OF _ u(1)]] q u(2) by blast
qed simp

lemma enc_scan:
  "enc v = Some t \<Longrightarrow> value_start q \<Longrightarrow> ps \<noteq> [] \<Longrightarrow> runs q ps ps (length ps + jv_depth v) t"
proof (induction v arbitrary: t q ps)
  case JNil
  then show ?case by (auto simp: value_start_def begin_value_def is_space_def is_digit_def vdone_def intro!: runsI)
next
  case (JBool b)
  then show ?case
    by (cases b) (auto simp: value_start_def begin_value_def is_space_def is_digit_def vdone_def intro!: runsI)
next
  case (JInt i)
  then show ?case using scan_show_int_from [of q ps i] by (auto simp: vdone_def intro: runsI)
next
  case (JU64 w)
  then show ?case using scan_show_int_from [of q ps "uint w"] by (auto simp: show_u64_int vdone_def intro: runsI)
next
  case (JStr s)
  then show ?case using scan_marshal_string [of q ps s "[]"] by (auto simp: vdone_def intro!: runsI)
next
  case (JMB m)
  then show ?case using scan_MB [of q ps m] by (auto intro: runsI)
next
  case (JRaw p)
  then show ?case using raw_runs by simp
next
  case (JArr xs)
  let ?d = "length ps + jv_depth (JArr xs)"
  obtain ts where ts: "all_some (map enc xs) = Some ts" "t = ''['' @ join_fields ts @ '']''"
    using JArr.prems(1) by auto
  have "runs BeginValueOrEmpty (ArrayValue # ps) ps ?d (join_fields ts @ '']'')"
  proof (cases "xs = []")
    case True
    then show ?thesis using ts JArr.prems(3)
      by (auto simp: end_value_def pop_state_def is_space_def vdone_def intro!: runsI)
  next
    case False
    have "runs BeginValueOrEmpty (ArrayValue # ps) (ArrayValue # ps) ?d (join_fields ts)"
    proof (rule runs_join [where first = BeginValueOrEmpty and again = BeginValue])
      show "vdone q' \<Longrightarrow> jstep q' (ArrayValue # ps) CHR '','' = Some (BeginValue, ArrayValue # ps)" for q'
        using vdone_delimiter [of q' "CHR '',''"] by (simp add: end_value_def is_space_def)
      show "ts \<noteq> []" using ts(1) False all_some_empty by blast
    next
      fix u q' assume u: "u \<in> set ts" and q': "q' \<in> {BeginValueOrEmpty, BeginValue}"
      obtain x where x: "x \<in> set xs" "enc x = Some u" using all_some_mem [OF ts(1) u] by blast
      have "jv_depth x \<le> foldr max (map jv_depth xs) 0" using x(1) by (intro foldr_max_ge) simp
      moreover have "runs q' (ArrayValue # ps) (ArrayValue # ps) (Suc (length ps) + jv_depth x) u"
        using JArr.IH [OF x(1,2), of q' "ArrayValue # ps"] q' by (auto simp: value_start_def)
      ultimately show "runs q' (ArrayValue # ps) (ArrayValue # ps) ?d u" by (auto intro: runs_mono)
    qed simp
    then show ?thesis
      by (rule close_runs [OF _ JArr.prems(3)])
        (use vdone_delimiter [of _ "CHR '']''"] in \<open>simp add: end_value_def is_space_def\<close>)
  qed
  then have "runs q ps ps ?d (CHR ''['' # join_fields ts @ '']'')"
    by (rule container_runs [OF push_start(1) [OF JArr.prems(2)], rotated]) simp
  then show ?case using ts(2) by simp
next
  case (JObj fs)
  let ?d = "length ps + jv_depth (JObj fs)"
  obtain ts where ts: "obj_fields fs = Some ts" "t = ''{'' @ join_fields ts @ ''}''"
    using JObj.prems(1) unfolding enc_JObj by auto
  have "runs BeginStringOrEmpty (ObjectKey # ps) ps ?d (join_fields ts @ ''}'')"
  proof (cases "fs = []")
    case True
    then show ?thesis using ts JObj.prems(3)
      by (auto simp: obj_fields_def end_value_def pop_state_def is_space_def vdone_def intro!: runsI)
  next
    case False
    have "runs BeginStringOrEmpty (ObjectKey # ps) (ObjectValue # ps) ?d (join_fields ts)"
    proof (rule obj_fields_run [OF ts(1) False])
      fix k v u assume kv: "(k, v) \<in> set fs" and u: "enc v = Some u"
      have "jv_depth v \<le> foldr max (map (\<lambda>f. jv_depth (snd f)) fs) 0"
        using kv by (intro foldr_max_ge) (auto simp: image_iff intro: bexI [of _ "(k, v)"])
      moreover have "runs BeginValue (ObjectValue # ps) (ObjectValue # ps) (Suc (length ps) + jv_depth v) u"
        using JObj.IH [OF kv _ u, of BeginValue "ObjectValue # ps"] by (simp add: value_start_def)
      ultimately show "runs BeginValue (ObjectValue # ps) (ObjectValue # ps) ?d u" by (auto intro: runs_mono)
    qed
    then show ?thesis
      by (rule close_runs [OF _ JObj.prems(3)])
        (use vdone_delimiter [of _ "CHR ''}''"] in \<open>simp add: end_value_def is_space_def\<close>)
  qed
  then have "runs q ps ps ?d (CHR ''{'' # join_fields ts @ ''}'')"
    by (rule container_runs [OF push_start(2) [OF JObj.prems(2)], rotated]) simp
  then show ?case using ts(2) by simp
qed

section \<open>Values that nest too deep\<close>

definition halts :: "jstate \<Rightarrow> pstate list \<Rightarrow> string \<Rightarrow> bool" where
  "halts q ps t \<longleftrightarrow> jscan_all (Some (q, ps)) t = None"

lemma halts_append: "halts q ps s \<Longrightarrow> halts q ps (s @ t)"
  by (simp add: halts_def jscan_all_append)

lemma join_halts:
  assumes sep: "\<And>q. vdone q \<Longrightarrow> jstep q ps1 CHR '','' = Some (again, ps0)"
    and elem: "\<And>t q. t \<in> set ts \<Longrightarrow> q \<in> {first, again} \<Longrightarrow> runs q ps0 ps1 d t"
    and bad: "t \<in> set ts" "\<And>q. q \<in> {first, again} \<Longrightarrow> halts q ps0 t"
  shows "q \<in> {first, again} \<Longrightarrow> halts q ps0 (join_fields ts)"
  using elem bad(1)
proof (induction ts arbitrary: q rule: join_fields.induct)
  case (3 f g fs)
  show ?case
  proof (cases "t = f")
    case True
    then have "halts q ps0 f" using bad(2) "3.prems"(1) by blast
    then show ?thesis using halts_append by simp
  next
    case False
    then have rest: "halts again ps0 (join_fields (g # fs))" using 3 by simp
    have "runs q ps0 ps1 d f" using "3.prems" by simp
    then consider "halts q ps0 f" | q' where "jscan_all (Some (q, ps0)) f = Some (q', ps1)" "vdone q'"
      by (auto simp: runs_def halts_def)
    then show ?thesis
    proof cases
      case 1
      then show ?thesis using halts_append by simp
    next
      case 2
      then show ?thesis using rest sep [OF 2(2)] by (simp add: halts_def jscan_all_append)
    qed
  qed
qed (use bad(2) in auto)

lemma foldr_max_attained: "n < foldr max xs (0 :: nat) \<Longrightarrow> \<exists>x \<in> set xs. n < x"
  by (induction xs) (auto simp: less_max_iff_disj)

lemma deep_member: "k < m \<Longrightarrow> m < k + Suc (foldr max xs 0) \<Longrightarrow> \<exists>x \<in> set xs. m < Suc k + x"
proof -
  assume k: "k < m" "m < k + Suc (foldr max xs 0)"
  then have "m - Suc k < foldr max xs 0" by linarith
  then obtain x where "x \<in> set xs" "m - Suc k < x" using foldr_max_attained by blast
  then show ?thesis using k(1) by (intro bexI [of _ x]) linarith+
qed

lemma container_halts:
  assumes "jstep q ps o1 = push_state p st ps" "length ps < maxNestingDepth \<Longrightarrow> halts st (p # ps) j"
  shows "halts q ps (o1 # j)"
  using assms by (auto simp: halts_def push_state_def)

lemma raw_halts:
  assumes "marshal_raw p = Some t" "value_start q" "ps \<noteq> []" "length ps \<le> maxNestingDepth"
    "maxNestingDepth < length ps + nesting t"
  shows "halts q ps t"
proof (rule ccontr)
  assume "\<not> halts q ps t"
  then obtain st where st: "jscan_all (Some (q, ps)) t = Some st" by (auto simp: halts_def)
  have "jscan_all (Some (BeginValue, ps)) t \<noteq> None"
  proof
    assume n: "jscan_all (Some (BeginValue, ps)) t = None"
    obtain q' where q': "jscan_all (Some (BeginValue, [])) t = Some (q', [])"
      by (rule json_Valid_scan [OF marshal_raw_Valid [OF assms(1)]])
    show False
    proof (cases t)
      case Nil
      then show False using n by simp
    next
      case (Cons c s)
      have "c \<noteq> CHR '']''" using q' Cons by (auto simp: begin_value_def is_space_def is_digit_def)
      then have "jstep q ps c = jstep BeginValue ps c \<or> (is_space c \<and> q = BeginValueOrEmpty)"
        using assms(2) by (auto simp: value_start_def split: if_splits)
      moreover have "\<not> is_space c"
      proof
        assume sp: "is_space c"
        then show False using raw_start [OF assms(1)] Cons by auto
      qed
      ultimately show False using st n Cons by simp
    qed
  qed
  then obtain st' where st': "jscan_all (Some (BeginValue, ps)) t = Some st'" by blast
  obtain q' where q': "jscan_all (Some (BeginValue, [])) t = Some (q', [])"
    by (rule json_Valid_scan [OF marshal_raw_Valid [OF assms(1)]])
  have "nest_from (Some (BeginValue, ps)) t = nesting t + length ps"
    using embed_nesting [OF q' proper_start(1) assms(3)] st' by (simp add: inside_def)
  moreover have "nest_from (Some (BeginValue, ps)) t \<le> maxNestingDepth"
    using scan_within [OF st'] assms(4) by simp
  ultimately show False using assms(5) by simp
qed

lemma field_halts:
  assumes "halts BeginValue (ObjectValue # ps) t" "q \<in> {BeginString, BeginStringOrEmpty}"
  shows "halts q (ObjectKey # ps) (field_text k t)"
proof -
  have "jscan_all (Some (q, ObjectKey # ps)) (field_text k t) = jscan_all (Some (BeginValue, ObjectValue # ps)) t"
    using assms(2) scan_marshal_string [of q "ObjectKey # ps" k "'':'' @ t"]
    by (auto simp: field_text_def end_value_def is_space_def)
  then show ?thesis using assms(1) by (simp add: halts_def)
qed

lemma obj_fields_halt:
  assumes ts: "obj_fields fs = Some ts" and bad: "(k, v) \<in> set fs" "\<And>t. enc v = Some t \<Longrightarrow> halts BeginValue (ObjectValue # ps) t"
  shows "halts BeginStringOrEmpty (ObjectKey # ps) (join_fields ts)"
proof -
  have f: "map (\<lambda>f. map_option (\<lambda>t. marshal_string (fst f) @ '':'' @ t) (enc (snd f))) fs = map Some ts"
    using ts unfolding obj_fields_def by (simp add: all_some_iff)
  have "map_option (\<lambda>t. marshal_string k @ '':'' @ t) (enc v) \<in> set (map Some ts)"
    unfolding f [symmetric] using bad(1) by force
  then obtain u where u: "enc v = Some u" "field_text k u \<in> set ts" by (auto simp: field_text_def)
  show ?thesis
  proof (rule join_halts [where first = BeginStringOrEmpty and again = BeginString and t = "field_text k u"])
    show "vdone q \<Longrightarrow> jstep q (ObjectValue # ps) CHR '','' = Some (BeginString, ObjectKey # ps)" for q
      using vdone_delimiter [of q "CHR '',''"] by (simp add: end_value_def is_space_def)
    show "halts q (ObjectKey # ps) (field_text k u)" if "q \<in> {BeginStringOrEmpty, BeginString}" for q
      using field_halts [OF bad(2) [OF u(1)]] that by blast
    show "runs q (ObjectKey # ps) (ObjectValue # ps) (length ps + jv_depth (JObj fs)) t"
      if t: "t \<in> set ts" and q: "q \<in> {BeginStringOrEmpty, BeginString}" for t q
    proof -
      obtain f where g: "f \<in> set fs" "map_option (\<lambda>t. marshal_string (fst f) @ '':'' @ t) (enc (snd f)) = Some t"
        using all_some_mem [OF ts [unfolded obj_fields_def] t] by blast
      then obtain w where w: "enc (snd f) = Some w" "t = field_text (fst f) w" by (auto simp: field_text_def)
      have "runs BeginValue (ObjectValue # ps) (ObjectValue # ps) (length (ObjectValue # ps) + jv_depth (snd f)) w"
        by (rule enc_scan [OF w(1)]) (simp_all add: value_start_def)
      moreover have "jv_depth (snd f) \<le> foldr max (map (\<lambda>f. jv_depth (snd f)) fs) 0"
        using g(1) by (intro foldr_max_ge) auto
      ultimately have "runs BeginValue (ObjectValue # ps) (ObjectValue # ps) (length ps + jv_depth (JObj fs)) w"
        by (auto intro: runs_mono)
      then show ?thesis using field_runs q w(2) by blast
    qed
  qed (use u(2) in simp_all)
qed

lemma enc_halts:
  "enc v = Some t \<Longrightarrow> value_start q \<Longrightarrow> ps \<noteq> [] \<Longrightarrow> length ps \<le> maxNestingDepth \<Longrightarrow>
   maxNestingDepth < length ps + jv_depth v \<Longrightarrow> halts q ps t"
proof (induction v arbitrary: t q ps)
  case (JRaw p)
  then show ?case using raw_halts by simp
next
  case (JArr xs)
  obtain ts where ts: "all_some (map enc xs) = Some ts" "t = ''['' @ join_fields ts @ '']''"
    using JArr.prems(1) by auto
  have "halts q ps (CHR ''['' # join_fields ts @ '']'')"
  proof (rule container_halts [OF push_start(1) [OF JArr.prems(2)]])
    assume room: "length ps < maxNestingDepth"
    obtain x where x: "x \<in> set xs" "maxNestingDepth < Suc (length ps) + jv_depth x"
      using deep_member [OF room, of "map jv_depth xs"] JArr.prems(5) by auto
    have "map enc xs = map Some ts" using ts(1) by (simp add: all_some_iff)
    then have "enc x \<in> set (map Some ts)" using x(1) by (metis image_eqI list.set_map)
    then obtain u where u: "enc x = Some u" "u \<in> set ts" by auto
    have "halts BeginValueOrEmpty (ArrayValue # ps) (join_fields ts)"
    proof (rule join_halts [where first = BeginValueOrEmpty and again = BeginValue and t = u])
      show "vdone q' \<Longrightarrow> jstep q' (ArrayValue # ps) CHR '','' = Some (BeginValue, ArrayValue # ps)" for q'
        using vdone_delimiter [of q' "CHR '',''"] by (simp add: end_value_def is_space_def)
      show "halts q' (ArrayValue # ps) u" if "q' \<in> {BeginValueOrEmpty, BeginValue}" for q'
        using JArr.IH [OF x(1) u(1), of q' "ArrayValue # ps"] that room x(2) by (auto simp: value_start_def)
      show "runs q' (ArrayValue # ps) (ArrayValue # ps) (length ps + jv_depth (JArr xs)) w"
        if w: "w \<in> set ts" and q': "q' \<in> {BeginValueOrEmpty, BeginValue}" for w q'
      proof -
        obtain y where y: "y \<in> set xs" "enc y = Some w" using all_some_mem [OF ts(1) w] by blast
        have "runs q' (ArrayValue # ps) (ArrayValue # ps) (length (ArrayValue # ps) + jv_depth y) w"
          by (rule enc_scan [OF y(2)]) (use q' in \<open>auto simp: value_start_def\<close>)
        moreover have "jv_depth y \<le> foldr max (map jv_depth xs) 0" using y(1) by (intro foldr_max_ge) simp
        ultimately show ?thesis by (auto intro: runs_mono)
      qed
    qed (use u(2) in simp_all)
    then show "halts BeginValueOrEmpty (ArrayValue # ps) (join_fields ts @ '']'')" by (rule halts_append)
  qed
  then show ?case using ts(2) by simp
next
  case (JObj fs)
  obtain ts where ts: "obj_fields fs = Some ts" "t = ''{'' @ join_fields ts @ ''}''"
    using JObj.prems(1) unfolding enc_JObj by auto
  have "halts q ps (CHR ''{'' # join_fields ts @ ''}'')"
  proof (rule container_halts [OF push_start(2) [OF JObj.prems(2)]])
    assume room: "length ps < maxNestingDepth"
    obtain f where f: "f \<in> set fs" "maxNestingDepth < Suc (length ps) + jv_depth (snd f)"
      using deep_member [OF room, of "map (\<lambda>f. jv_depth (snd f)) fs"] JObj.prems(5) by auto
    obtain k v where kv: "f = (k, v)" by (cases f)
    have "halts BeginStringOrEmpty (ObjectKey # ps) (join_fields ts)"
    proof (rule obj_fields_halt [OF ts(1), of k v])
      show "(k, v) \<in> set fs" using f(1) kv by simp
      show "halts BeginValue (ObjectValue # ps) u" if "enc v = Some u" for u
        using JObj.IH [OF f(1), of v, OF _ that, of BeginValue "ObjectValue # ps"] room f(2) kv by (simp add: value_start_def)
    qed
    then show "halts BeginStringOrEmpty (ObjectKey # ps) (join_fields ts @ ''}'')" by (rule halts_append)
  qed
  then show ?case using ts(2) by simp
qed simp_all

section \<open>Marshalled objects\<close>

lemma top_object:
  assumes "enc (JObj fs) = Some t" "fs \<noteq> []"
  obtains j where "t = ''{'' @ j @ ''}''"
    "runs BeginStringOrEmpty [ObjectKey] [ObjectValue] (jv_depth (JObj fs)) j"
proof -
  obtain ts where ts: "obj_fields fs = Some ts" "t = ''{'' @ join_fields ts @ ''}''"
    using assms(1) unfolding enc_JObj by auto
  have "runs BeginStringOrEmpty [ObjectKey] [ObjectValue] (jv_depth (JObj fs)) (join_fields ts)"
  proof (rule obj_fields_run [OF ts(1) assms(2)])
    fix k v u assume kv: "(k, v) \<in> set fs" and u: "enc v = Some u"
    have "jv_depth v \<le> foldr max (map (\<lambda>f. jv_depth (snd f)) fs) 0"
      using kv by (intro foldr_max_ge) (auto simp: image_iff intro: bexI [of _ "(k, v)"])
    moreover have "runs BeginValue [ObjectValue] [ObjectValue] (length [ObjectValue] + jv_depth v) u"
      by (rule enc_scan [OF u]) (simp_all add: value_start_def)
    ultimately show "runs BeginValue [ObjectValue] [ObjectValue] (jv_depth (JObj fs)) u" by (auto intro: runs_mono)
  qed
  then show thesis using that ts(2) by simp
qed

lemma open_brace: "jscan_all (Some (BeginValue, [])) (''{'' @ s) = jscan_all (Some (BeginStringOrEmpty, [ObjectKey])) s"
  by (simp add: begin_value_def push_state_def is_space_def maxNestingDepth_def)

lemma close_brace: "vdone q \<Longrightarrow> jstep q [ObjectValue] CHR ''}'' = Some (EndTop, [])"
  using vdone_delimiter [of q "CHR ''}''"] by (simp add: end_value_def pop_state_def is_space_def)

lemma top_scan:
  "jscan_all (Some (BeginValue, [])) (''{'' @ j @ s) = jscan_all (jscan_all (Some (BeginStringOrEmpty, [ObjectKey])) j) s"
  by (subst open_brace, rule jscan_all_append)

lemma json_Marshal_enc: "enc (JObj fs) = Some t \<Longrightarrow> json_Marshal fs = marshal_raw (Some t)"
  by (simp only: json_Marshal_def orderedFields_MarshalJSON_def option.case)

lemma json_Marshal_within:
  assumes "enc (JObj fs) \<noteq> None" "fs \<noteq> []" "jv_depth (JObj fs) \<le> maxNestingDepth"
  shows "json_Marshal fs \<noteq> None"
proof -
  obtain t where t: "enc (JObj fs) = Some t" using assms(1) by blast
  obtain j where j: "t = ''{'' @ j @ ''}''" "runs BeginStringOrEmpty [ObjectKey] [ObjectValue] (jv_depth (JObj fs)) j"
    by (rule top_object [OF t assms(2)])
  then obtain q where "jscan_all (Some (BeginStringOrEmpty, [ObjectKey])) j = Some (q, [ObjectValue])" "vdone q"
    using assms(3) by (auto simp: runs_def)
  then have "jscan_all (Some (BeginValue, [])) t = Some (EndTop, [])"
    unfolding j(1) top_scan using close_brace by simp
  then have "json_Valid t" by (rule json_ValidI) simp
  then show ?thesis by (simp add: json_Marshal_enc [OF t] marshal_raw_def)
qed

lemma json_Marshal_exact:
  assumes "fs \<noteq> []"
  shows "json_Marshal fs \<noteq> None \<longleftrightarrow> enc (JObj fs) \<noteq> None \<and> jv_depth (JObj fs) \<le> maxNestingDepth"
proof
  assume m: "json_Marshal fs \<noteq> None"
  then obtain t where t: "enc (JObj fs) = Some t"
    by (cases "enc (JObj fs)") (simp_all only: json_Marshal_def orderedFields_MarshalJSON_def option.case, simp)
  have v: "json_Valid t" using m json_Marshal_enc [OF t] by (auto simp: marshal_raw_def split: if_splits)
  have "jv_depth (JObj fs) \<le> maxNestingDepth"
  proof (rule ccontr)
    assume deep: "\<not> jv_depth (JObj fs) \<le> maxNestingDepth"
    obtain ts where ts: "obj_fields fs = Some ts" "t = ''{'' @ join_fields ts @ ''}''"
      using t unfolding enc_JObj by auto
    obtain f where f: "f \<in> set fs" "maxNestingDepth < Suc (jv_depth (snd f))"
      using foldr_max_attained [of "maxNestingDepth - 1" "map (\<lambda>f. jv_depth (snd f)) fs"] deep
      by (auto simp: maxNestingDepth_def)
    have mem: "(fst f, snd f) \<in> set fs" using f(1) by simp
    have "halts BeginStringOrEmpty [ObjectKey] (join_fields ts)"
      by (rule obj_fields_halt [OF ts(1) mem], rule enc_halts)
        (use f(2) in \<open>auto simp: value_start_def maxNestingDepth_def\<close>)
    then have "jscan_all (Some (BeginValue, [])) t = None" unfolding ts(2) top_scan by (simp add: halts_def)
    then show False using json_Valid_scan [OF v] by (metis option.discI)
  qed
  then show "enc (JObj fs) \<noteq> None \<and> jv_depth (JObj fs) \<le> maxNestingDepth" unfolding t by blast
qed (use json_Marshal_within [OF _ assms] in blast)

lemma json_Marshal_shape:
  assumes "json_Marshal fs = Some b" "fs \<noteq> []"
  obtains b0 q where "b = b0 @ ''}''" "jscan_all (Some (BeginValue, [])) b0 = Some (q, [ObjectValue])" "vdone q"
proof -
  obtain t where t: "enc (JObj fs) = Some t" and v: "json_Valid t" and b: "b = compact False False t"
    using assms(1) json_Marshal_enc [of fs]
    by (cases "enc (JObj fs)")
      (auto simp only: json_Marshal_def orderedFields_MarshalJSON_def marshal_raw_def split: option.splits if_splits)
  obtain j where j: "t = ''{'' @ j @ ''}''" "runs BeginStringOrEmpty [ObjectKey] [ObjectValue] (jv_depth (JObj fs)) j"
    by (rule top_object [OF t assms(2)])
  have "jscan_all (Some (BeginValue, [])) t \<noteq> None" using json_Valid_scan [OF v] by (metis option.discI)
  then have "jscan_all (Some (BeginStringOrEmpty, [ObjectKey])) j \<noteq> None"
    unfolding j(1) top_scan by (metis jscan_all_None)
  then obtain q where q: "jscan_all (Some (BeginStringOrEmpty, [ObjectKey])) j = Some (q, [ObjectValue])" "vdone q"
    using j(2) by (auto simp: runs_def)
  have st: "jscan_all (Some (BeginValue, [])) (''{'' @ j) = Some (q, [ObjectValue])" unfolding open_brace by (rule q(1))
  have out: "\<not> in_string q" using q(2) by (auto simp: vdone_def in_string_def)
  have "b = compact False False ((''{'' @ j) @ ''}'')" using b j(1) by simp
  also have "\<dots> = compact False False (''{'' @ j) @ ''}''"
    using compact_append [OF st out, of False False "''}''"] by (simp add: in_string_def is_space_def)
  finally have "b = compact False False (''{'' @ j) @ ''}''" .
  moreover obtain q2 where "jscan_all (Some (BeginValue, [])) (compact False False (''{'' @ j)) = Some (q2, [ObjectValue])" "sim q2 q"
    using compact_scan [OF st, of BeginValue False False] by (auto simp: sim_def in_string_def)
  moreover have "vdone q2" using \<open>sim q2 q\<close> q(2) by (auto simp: sim_def vdone_def)
  ultimately show thesis using that by blast
qed

lemma json_Marshal_Valid: "json_Marshal fs = Some b \<Longrightarrow> json_Valid b"
  by (auto simp: json_Marshal_def intro: marshal_raw_Valid split: option.splits)

section \<open>Writers\<close>

definition json_body :: "response \<Rightarrow> bool" where
  \<comment> \<open>one valid JSON value and a newline\<close>
  "json_body r \<longleftrightarrow> rs_type r = json_type \<and> (\<exists>b. rs_body r = b @ newline \<and> json_Valid b)"

lemma marshalFailureBody_Valid: "\<exists>b. marshalFailureBody = b @ newline \<and> json_Valid b"
proof -
  have "json_Valid (butlast marshalFailureBody)" "marshalFailureBody = butlast marshalFailureBody @ newline"
    by code_simp+
  then show ?thesis by blast
qed

lemma writeJSONWithDuration_body: "json_body (writeJSONWithDuration code payload us)"
  using marshalFailureBody_Valid
  by (auto simp: writeJSONWithDuration_def json_body_def dest: json_Marshal_Valid split: option.splits)

lemma fit_size_from: "\<exists>m. fit_size k n sz (MB_MarshalJSON m0) = MB_MarshalJSON m"
  by (induction k arbitrary: sz m0) (auto simp: Let_def)

lemma fit_size_MB: "\<exists>m. fit_size (Suc k) n sz v = MB_MarshalJSON m"
  using fit_size_from by (auto simp: Let_def)

lemma fieldKey_scan:
  assumes "vdone q"
  shows "jscan_all (Some (q, [ObjectValue])) fieldKey = Some (BeginValue, [ObjectValue])"
proof -
  have "jstep q [ObjectValue] CHR '','' = Some (BeginString, [ObjectKey])"
    using vdone_delimiter [OF assms, of "CHR '',''"] by (simp add: end_value_def is_space_def)
  moreover have "jscan_all (Some (BeginString, [ObjectKey])) (tl fieldKey) = Some (BeginValue, [ObjectValue])"
    by code_simp
  ultimately show ?thesis by (simp add: fieldKey_def)
qed

text \<open>The size field is spliced in before the closing brace, and the body stays JSON.\<close>

lemma marshalWithApproxSize_Valid:
  assumes "marshalWithApproxSize payload us = Some out"
  shows "\<exists>b. out = b @ newline \<and> json_Valid b"
proof -
  obtain body where m: "json_Marshal (payload @ [(''duration_us'', JInt us)]) = Some body"
    using assms by (auto simp: marshalWithApproxSize_def split: option.splits)
  obtain b0 q where b: "body = b0 @ ''}''" "jscan_all (Some (BeginValue, [])) b0 = Some (q, [ObjectValue])" "vdone q"
    by (rule json_Marshal_shape [OF m]) simp
  obtain k where k: "fit_size 3 (int (length body)) (int (length body) + int (length fieldKey) + 8) [] = MB_MarshalJSON k"
    using fit_size_MB [of 2] by (metis numeral_3_eq_3 numeral_2_eq_2)
  have out: "out = (b0 @ fieldKey @ MB_MarshalJSON k @ ''}'') @ newline"
    using assms m b(1) k by (simp add: marshalWithApproxSize_def Let_def)
  obtain q' where "jscan_all (Some (BeginValue, [ObjectValue])) (MB_MarshalJSON k) = Some (q', [ObjectValue])" "vdone q'"
    using scan_MB [of BeginValue] by (auto simp: value_start_def)
  then have "jscan_all (Some (BeginValue, [])) (b0 @ fieldKey @ MB_MarshalJSON k @ ''}'') = Some (EndTop, [])"
    using b(2) fieldKey_scan [OF b(3)] close_brace by (simp add: jscan_all_append)
  then have "json_Valid (b0 @ fieldKey @ MB_MarshalJSON k @ ''}'')" by (rule json_ValidI) simp
  then show ?thesis using out by blast
qed

lemma writeJSONWithMeta_body: "json_body (writeJSONWithMeta code payload us)"
  using writeJSONWithDuration_body
  by (auto simp: writeJSONWithMeta_def json_body_def dest: marshalWithApproxSize_Valid split: option.splits)

lemma responder_bodies:
  "json_body (badRequest msg us)" "json_body (conflict msg us)" "json_body (methodNotAllowed us)"
  "json_body (scopeFull offs us)" "json_body (storeFull a b c us)" "json_body (responseTooLarge w c us)"
  by (simp_all add: badRequest_def conflict_def methodNotAllowed_def scopeFull_def storeFull_def
      responseTooLarge_def Let_def writeJSONWithDuration_body)

lemma writeJSONWithMetaCap_body: "json_body (writeJSONWithMetaCap code payload mx us)"
  using writeJSONWithDuration_body responder_bodies(6)
  by (auto simp: writeJSONWithMetaCap_def json_body_def dest: marshalWithApproxSize_Valid split: option.splits)

section \<open>Statuses\<close>

text \<open>A body without raw payloads and of little depth always marshals.\<close>

fun flat :: "nat \<Rightarrow> jv \<Rightarrow> bool" where
  \<comment> \<open>no raw payload, and containers nested at most so deep\<close>
  "flat n (JRaw p) = False"
| "flat 0 (JArr xs) = False"
| "flat 0 (JObj fs) = False"
| "flat (Suc n) (JArr xs) = (\<forall>x \<in> set xs. flat n x)"
| "flat (Suc n) (JObj fs) = (\<forall>f \<in> set fs. flat n (snd f))"
| "flat n v = True"

lemma all_some_total: "\<forall>x \<in> set xs. f x \<noteq> None \<Longrightarrow> all_some (map f xs) \<noteq> None"
  by (induction xs) (auto split: option.splits)

lemma foldr_max_le: "\<forall>x \<in> set xs. x \<le> n \<Longrightarrow> foldr max xs (0 :: nat) \<le> n"
  by (induction xs) auto

lemma flat_enc: "flat n v \<Longrightarrow> enc v \<noteq> None \<and> jv_depth v \<le> n"
proof (induction n v rule: flat.induct)
  case (4 n xs)
  then have "all_some (map enc xs) \<noteq> None" by (intro all_some_total) auto
  moreover have "foldr max (map jv_depth xs) 0 \<le> n" using 4 by (intro foldr_max_le) auto
  ultimately show ?case by auto
next
  case (5 n fs)
  then have "obj_fields fs \<noteq> None" unfolding obj_fields_def by (intro all_some_total) fastforce
  moreover have "foldr max (map (\<lambda>f. jv_depth (snd f)) fs) 0 \<le> n" using 5 by (intro foldr_max_le) auto
  ultimately show ?case unfolding enc_JObj by auto
qed auto

definition flat_fields :: "orderedFields \<Rightarrow> bool" where
  "flat_fields fs \<longleftrightarrow> (\<forall>f \<in> set fs. flat 5 (snd f))"

lemma flat_fields_append [simp]:
  "flat_fields (xs @ ys) \<longleftrightarrow> flat_fields xs \<and> flat_fields ys" "flat_fields []"
  "flat_fields (f # fs) \<longleftrightarrow> flat 5 (snd f) \<and> flat_fields fs"
  by (auto simp: flat_fields_def)

lemma flat_status:
  assumes "flat_fields payload"
  shows "rs_status (writeJSONWithDuration code payload us) = code"
proof -
  have "flat 6 (JObj (payload @ [(''duration_us'', JInt us)]))"
    using assms by (simp add: flat_fields_def numeral_eq_Suc)
  then have "enc (JObj (payload @ [(''duration_us'', JInt us)])) \<noteq> None"
    "jv_depth (JObj (payload @ [(''duration_us'', JInt us)])) \<le> maxNestingDepth"
    using flat_enc by (fastforce simp: maxNestingDepth_def)+
  then have "json_Marshal (payload @ [(''duration_us'', JInt us)]) \<noteq> None" by (intro json_Marshal_within) simp_all
  then show ?thesis by (auto simp: writeJSONWithDuration_def)
qed

lemma flat_values [simp]: "flat n (JBool b)" "flat n (JInt i)" "flat n (JU64 w)" "flat n (JStr s)" "flat n (JMB m)" "flat n JNil"
  by (cases n; simp)+

lemma responder_status:
  "rs_status (badRequest msg us) = 400" "rs_status (conflict msg us) = 409" "rs_status (methodNotAllowed us) = 405"
  "rs_status (scopeFull offs us) = 507" "rs_status (storeFull a b c us) = 507" "rs_status (responseTooLarge w c us) = 507"
  by (simp_all add: badRequest_def conflict_def methodNotAllowed_def scopeFull_def storeFull_def responseTooLarge_def
      Let_def flat_status error_fields_def ScopeCapacityOffender_def numeral_eq_Suc split: prod.splits)

end
