(* ===== verification/HttpSpec.thy ===== *)
theory HttpSpec
  imports Handlers BodyValid Reach ReadSpec
begin

text \<open>
  HTTP requests against the store: a request makes at most one step of the store's state machine, a
  legal one (\<open>answer_steps\<close>); no handler panics on a live store, and a response other than 200 leaves
  everything a client can see as it was (\<open>answer_reply\<close>); whatever is labelled JSON is one JSON value and
  a newline (\<open>answer_json\<close>).
\<close>

section \<open>Handlers as steps\<close>

definition batch_range :: "runtime \<Rightarrow> bool" where
  \<comment> \<open>a range over a map visits each key once\<close>
  "batch_range rt \<longleftrightarrow> (\<forall>g. mset (rt_range rt g) = mset g)"

definition bulk_fits :: "API \<Rightarrow> http_request \<Rightarrow> bool" where
  \<comment> \<open>a decoded batch is one a process can hold\<close>
  "bulk_fits api rq \<longleftrightarrow> (\<forall>r. decodeBody (maxBulkBytes api) decode_items (rq_body rq) = Inr r \<longrightarrow>
     batch_bytes (groupItemsByScope (ireq_Items r)) + reservedScopesOverhead \<le> MaxInt64)"

lemma decodeBody_out: "decodeBody mx dec body = Inr x \<Longrightarrow> \<exists>t. dec t = Some x"
proof -
  assume d: "decodeBody mx dec body = Inr x"
  define over where "over = (max 0 mx < int (length body))"
  define avail where "avail = (if over then take (nat (max 0 mx)) body else body)"
  have eq: "decodeBody mx dec body = (case Decoder_Decode (max 0 mx) over avail of Inl e \<Rightarrow> Inl e
      | Inr (t, rest) \<Rightarrow> (case dec (json_TrimLeft t) of None \<Rightarrow> Inl BodyNotJSON
          | Some out \<Rightarrow> if over \<or> \<not> list_all is_space rest then Inl BodyTrailing else Inr out))"
    by (simp only: decodeBody_def Let_def over_def avail_def)
  obtain t rest where t: "Decoder_Decode (max 0 mx) over avail = Inr (t, rest)"
    using d eq by (cases "Decoder_Decode (max 0 mx) over avail") auto
  then have "dec (json_TrimLeft t) = Some x" using d eq by (cases "dec (json_TrimLeft t)") (simp_all split: if_splits)
  then show ?thesis by blast
qed

lemma decoded_item: "decodeBody mx decode_Item body = Inr it \<Longrightarrow> client_item it"
  using decodeBody_out [of mx decode_Item body it] decode_Item_plain by auto

lemma grouped_client: "\<forall>it \<in> set its. client_item it \<Longrightarrow> client_batch (groupItemsByScope its)"
proof -
  assume its: "\<forall>it \<in> set its. client_item it"
  note G = groupItemsByScope_spec [of its]
  have "client_item it" if "(k, gs) \<in> set (groupItemsByScope its)" "it \<in> set gs" for k gs it
  proof -
    have d: "distinct (map fst (groupItemsByScope its))" using G [of k] by simp
    have "group_of (groupItemsByScope its) k = gs"
      using map_of_is_SomeI [OF d that(1)] by (simp add: group_of_def)
    then have "it \<in> set (filter (\<lambda>it. Scope it = k) its)" using G [of k] that(2) by simp
    then show ?thesis using its by simp
  qed
  then show ?thesis using G by (auto simp: client_batch_def)
qed

lemma mset_eq_map_fst: "mset g = mset h \<Longrightarrow> mset (map fst g) = mset (map fst h)"
  by simp

lemma range_batch:
  assumes "mset g = mset h"
  shows "client_batch g = client_batch h" "batch_bytes g = batch_bytes h"
proof -
  have s: "set g = set h" using assms by (metis set_mset_mset)
  have d: "distinct (map fst g) = distinct (map fst h)"
    using mset_eq_map_fst [OF assms] by (metis distinct_count_atmost_1 set_mset_mset)
  show "client_batch g = client_batch h" using s d by (simp add: client_batch_def)
  have "sum_list (map f g) = sum_list (map f h)" for f :: "bytestr \<times> Item list \<Rightarrow> int"
    unfolding sum_mset_sum_list [symmetric] mset_map assms ..
  then show "batch_bytes g = batch_bytes h" unfolding batch_bytes_def .
qed

lemma decoded_batch:
  assumes "batch_range rt" "bulk_fits api rq" "decodeBody (maxBulkBytes api) decode_items (rq_body rq) = Inr r"
  shows "client_batch (rt_range rt (groupItemsByScope (ireq_Items r)))"
    "batch_bytes (rt_range rt (groupItemsByScope (ireq_Items r))) + reservedScopesOverhead \<le> MaxInt64"
proof -
  obtain t where "decode_items t = Some r" using decodeBody_out [OF assms(3)] ..
  then have c: "client_batch (groupItemsByScope (ireq_Items r))" by (intro grouped_client ballI decode_items_plain)
  have m: "mset (rt_range rt (groupItemsByScope (ireq_Items r))) = mset (groupItemsByScope (ireq_Items r))"
    using assms(1) unfolding batch_range_def ..
  show "client_batch (rt_range rt (groupItemsByScope (ireq_Items r)))" using c range_batch(1) [OF m] by blast
  show "batch_bytes (rt_range rt (groupItemsByScope (ireq_Items r))) + reservedScopesOverhead \<le> MaxInt64"
    using assms(2,3) range_batch(2) [OF m] unfolding bulk_fits_def by metis
qed

lemma snd_after [simp]: "snd (after out err okay) = snd out"
  by (auto simp: after_def split: prod.splits sum.splits gerr.splits)

lemma posting_steps:
  assumes "\<And>x. decoded = Inr x \<Longrightarrow> steps_to s (snd (k x))"
  shows "steps_to s (snd (posting rt rq s decoded k))"
  using assms by (auto simp: posting_def split: sum.splits)

lemma getting_steps:
  assumes "\<And>x. steps_to s (snd (k x))"
  shows "steps_to s (snd (getting rt rq s parsed k))"
  using assms by (auto simp: getting_def split: sum.splits)

lemma pageReply_snd [simp]: "snd (pageReply api us extra out) = snd out"
  by (auto simp: pageReply_def split: prod.splits)

lemma handler_steps:
  assumes "batch_range rt" "bulk_fits api rq" "map_of RegisterRoutes path = Some h"
  shows "steps_to s (snd (h rt api rq s))"
proof -
  note sv = steps_toI [of "Append _", simplified] steps_toI [of "Upsert _", simplified]
    steps_toI [of "Update _", simplified]
  have "h \<in> set (map snd RegisterRoutes)" using map_of_SomeD [OF assms(3)] by force
  then consider "h = handleAppend" | "h = handleUpdate" | "h = handleUpsert" | "h = handleCounterAdd"
    | "h = handleDelete" | "h = handleDeleteUpTo" | "h = handleHead" | "h = handleTail" | "h = handleGet"
    | "h = handleRender" | "h = handleWipe" | "h = handleWarm" | "h = handleRebuild" | "h = handleDeleteScope"
    | "h = handleStats" | "h = handleScopeList" | "h = handleHelp"
    by (auto simp: RegisterRoutes_def)
  then show ?thesis
  proof cases
    case 1
    then show ?thesis using sv(1) by (auto simp: handleAppend_def dest: decoded_item intro!: posting_steps)
  next
    case 2
    then show ?thesis using sv(3) by (auto simp: handleUpdate_def dest: decoded_item intro!: posting_steps)
  next
    case 3
    then show ?thesis using sv(2) by (auto simp: handleUpsert_def dest: decoded_item intro!: posting_steps)
  next
    case 4
    then show ?thesis using steps_toI [of "CounterAdd _ _ _" s "rt_clock rt"]
      by (auto simp: handleCounterAdd_def intro!: posting_steps split: option.splits)
  next
    case 5
    then show ?thesis using steps_toI [of "Delete _ _ _" s "rt_clock rt"]
      by (auto simp: handleDelete_def intro!: posting_steps)
  next
    case 6
    then show ?thesis using steps_toI [of "DeleteUpTo _ _" s "rt_clock rt"]
      by (auto simp: handleDeleteUpTo_def intro!: posting_steps)
  next
    case 7
    then show ?thesis using steps_toI [of "Head _ _ _" s "rt_clock rt"]
      by (auto simp: handleHead_def intro!: getting_steps split: prod.splits)
  next
    case 8
    then show ?thesis using steps_toI [of "Tail _ _ _" s "rt_clock rt"]
      by (auto simp: handleTail_def intro!: getting_steps split: prod.splits)
  next
    case 9
    have "snd (case store_get (rt_clock rt 0) k i sq s of (None, s') \<Rightarrow> (a, s') | (Some it, s') \<Rightarrow> (f it, s')) =
        serve (rt_clock rt) (Get k i sq) s" for k i sq and a :: outcome and f
      by (auto split: prod.splits option.splits)
    then show ?thesis using 9 steps_toI [of "Get _ _ _" s "rt_clock rt"]
      unfolding handleGet_def by (auto intro!: getting_steps)
  next
    case 10
    have "snd (case render (rt_clock rt 0) k i sq s of (None, s') \<Rightarrow> (a, s') | (Some it, s') \<Rightarrow> (f it, s')) =
        serve (rt_clock rt) (Render k i sq) s" for k i sq and a :: outcome and f
      by (auto split: prod.splits option.splits)
    then show ?thesis using 10 steps_toI [of "Render _ _ _" s "rt_clock rt"]
      unfolding handleRender_def by (auto intro!: getting_steps)
  next
    case 11
    then show ?thesis using steps_toI [of Wipe s "rt_clock rt"]
      by (auto simp: handleWipe_def split: prod.splits)
  next
    case 12
    then show ?thesis using decoded_batch [OF assms(1,2)] steps_toI [of "Warm _" s "rt_clock rt"]
      by (auto simp: handleWarm_def intro!: posting_steps)
  next
    case 13
    then show ?thesis using decoded_batch [OF assms(1,2)] steps_toI [of "Rebuild _" s "rt_clock rt"]
      by (auto simp: handleRebuild_def intro!: posting_steps)
  next
    case 14
    then show ?thesis using steps_toI [of "DeleteScope _" s "rt_clock rt"]
      by (auto simp: handleDeleteScope_def intro!: posting_steps)
  next
    case 15
    then show ?thesis by (auto simp: handleStats_def Let_def)
  next
    case 16
    then show ?thesis by (auto simp: handleScopeList_def intro!: getting_steps split: prod.splits)
  next
    case 17
    then show ?thesis by (simp add: handleHelp_def)
  qed
qed

lemma answer_steps:
  assumes "batch_range rt" "bulk_fits (NewAPI (score s)) rq" "answers rt rq s = Some (out, s')"
  shows "steps_to s s'"
  using handler_steps [OF assms(1,2)] assms(3) by (auto simp: answers_def) (metis snd_conv)

definition http_call :: "store \<Rightarrow> store \<Rightarrow> bool" where
  \<comment> \<open>some request is answered\<close>
  "http_call s s' \<longleftrightarrow> (\<exists>rt rq out. batch_range rt \<and> bulk_fits (NewAPI (score s)) rq \<and> answers rt rq s = Some (out, s'))"

interpretation http: store_client http_call
  by unfold_locales (auto simp: http_call_def intro: answer_steps)

section \<open>Bodies\<close>

lemma error_bodies:
  "json_body (writeMutationError Q e k us)" "json_body (writeDeleteError Q e us)" "json_body (writeCounterError Q e k us)"
  by (auto simp: writeMutationError_def writeDeleteError_def writeCounterError_def writeStoreCapacityError_def
      responder_bodies split: gerr.splits option.splits)

lemma after_json:
  assumes "fst (after out err okay) = Reply r" "\<And>e. json_body (err e)" "\<And>x. json_body (okay x)"
  shows "json_body r"
  using assms by (auto simp: after_def split: prod.splits sum.splits gerr.splits)

lemma posting_json:
  assumes "fst (posting rt rq s decoded k) = Reply r" "\<And>x. fst (k x) = Reply r \<Longrightarrow> json_body r"
  shows "json_body r"
  using assms responder_bodies by (auto simp: posting_def split: if_splits sum.splits)

lemma getting_json:
  assumes "fst (getting rt rq s parsed k) = Reply r" "\<And>x. fst (k x) = Reply r \<Longrightarrow> rs_type r = json_type \<Longrightarrow> json_body r"
    "rs_type r = json_type"
  shows "json_body r"
  using assms responder_bodies by (auto simp: getting_def split: if_splits sum.splits)

lemma page_body: "json_body (writeItemsHit api us its tr extra)" "json_body (writeItemsMiss api us extra)"
  by (auto simp: writeItemsHit_def writeItemsMiss_def responder_bodies writeJSONWithMetaCap_body)

lemma pageReply_json: "fst (pageReply api us extra out) = Reply r \<Longrightarrow> json_body r"
  by (auto simp: pageReply_def page_body split: prod.splits if_splits)

lemma get_bodies: "json_body (writeGetMiss us)" "json_body (writeGetHit it us)"
  by (simp_all add: writeGetMiss_def writeGetHit_def writeJSONWithMeta_body)

lemma types_differ: "octet_type \<noteq> json_type" "text_type \<noteq> json_type"
  by (simp_all add: octet_type_def json_type_def text_type_def)

lemmas json_bodies = error_bodies responder_bodies writeJSONWithDuration_body writeJSONWithMetaCap_body get_bodies

lemma routes_cases:
  assumes "map_of RegisterRoutes path = Some h"
  obtains "h \<in> {handleAppend, handleUpdate, handleUpsert, handleCounterAdd, handleDelete, handleDeleteUpTo,
      handleDeleteScope, handleWarm, handleRebuild}"
    | "h \<in> {handleHead, handleTail, handleGet, handleRender, handleWipe, handleStats, handleScopeList, handleHelp}"
proof -
  have "h \<in> set (map snd RegisterRoutes)" using map_of_SomeD [OF assms] by force
  then show thesis using that by (auto simp: RegisterRoutes_def)
qed

lemma handler_json:
  assumes "map_of RegisterRoutes path = Some h" "fst (h rt api rq s) = Reply r" "rs_type r = json_type"
  shows "json_body r"
proof (rule routes_cases [OF assms(1)])
  assume "h \<in> {handleAppend, handleUpdate, handleUpsert, handleCounterAdd, handleDelete, handleDeleteUpTo,
      handleDeleteScope, handleWarm, handleRebuild}"
  then show ?thesis
    using assms(2)
    by (auto simp: handleAppend_def handleUpdate_def handleUpsert_def handleCounterAdd_def handleDelete_def
        handleDeleteUpTo_def handleDeleteScope_def handleWarm_def handleRebuild_def json_bodies
        elim!: posting_json after_json split: prod.splits option.splits if_splits)
next
  assume "h \<in> {handleHead, handleTail, handleGet, handleRender, handleWipe, handleStats, handleScopeList, handleHelp}"
  then show ?thesis
    using assms(2,3)
    by (auto simp: handleHead_def handleTail_def handleGet_def handleRender_def handleWipe_def handleStats_def
        handleScopeList_def handleHelp_def json_bodies types_differ Let_def
        elim!: getting_json dest: pageReply_json split: prod.splits option.splits if_splits)
qed

lemma answer_json:
  assumes "answers rt rq s = Some (Reply r, s')" "rs_type r = json_type"
  shows "json_body r"
  using handler_json assms by (auto simp: answers_def) (metis fst_conv)

section \<open>Statuses and traces\<close>

definition harmless :: "store \<Rightarrow> outcome \<times> store \<Rightarrow> bool" where
  \<comment> \<open>a response comes, and one other than 200 leaves what clients see as it was\<close>
  "harmless s o1 \<longleftrightarrow> (\<exists>r s'. o1 = (Reply r, s') \<and> rs_status r \<in> {200, 400, 404, 405, 409, 500, 507} \<and>
     (rs_status r \<noteq> 200 \<longrightarrow> view s' = view s))"

definition clean :: "store \<Rightarrow> 'a res \<times> store \<Rightarrow> bool" where
  \<comment> \<open>an error of a store operation leaves no trace and is not a panic\<close>
  "clean s out \<longleftrightarrow> (\<forall>e s'. out = (Inl e, s') \<longrightarrow> view s' = view s \<and> (\<forall>p. e \<noteq> GoPanic p))"

lemma error_statuses:
  "rs_status (writeMutationError Q e k us) \<in> {400, 409, 507}" "rs_status (writeDeleteError Q e us) \<in> {400, 409, 507}"
  "rs_status (writeCounterError Q e k us) \<in> {400, 409, 507}"
  by (auto simp: writeMutationError_def writeDeleteError_def writeCounterError_def writeStoreCapacityError_def
      responder_status split: gerr.splits option.splits)

lemma after_harmless:
  assumes "clean s out" "\<And>e. rs_status (err e) \<in> {400, 409, 507}" "\<And>x. rs_status (okay x) = 200"
  shows "harmless s (after out err okay)"
proof (cases out)
  case (Pair r s')
  show ?thesis
  proof (cases r)
    case (Inl e)
    then have "view s' = view s" "\<forall>p. e \<noteq> GoPanic p" using assms(1) Pair by (simp_all add: clean_def)
    moreover have "after out err okay = (Reply (err e), s')"
      using Pair Inl calculation(2) by (cases e) (simp_all add: after_def)
    ultimately show ?thesis using assms(2) [of e] by (auto simp: harmless_def)
  next
    case (Inr x)
    then show ?thesis using Pair assms(3) by (simp add: after_def harmless_def)
  qed
qed

lemma posting_harmless:
  assumes "\<And>x. decoded = Inr x \<Longrightarrow> harmless s (k x)"
  shows "harmless s (posting rt rq s decoded k)"
  using assms by (auto simp: posting_def harmless_def responder_status split: sum.splits)

lemma getting_harmless:
  assumes "\<And>x. harmless s (k x)"
  shows "harmless s (getting rt rq s parsed k)"
  using assms by (auto simp: getting_def harmless_def responder_status split: sum.splits)

lemma op_clean: "good m s \<Longrightarrow> op_ok m s r s' \<Longrightarrow> clean s (r, s')"
  using failed_view by (auto simp: clean_def op_ok_def not_panic_def)

lemma live_clean:
  assumes "live cfg s"
  shows "client_item it \<Longrightarrow> clean s (appendOne clk it s)" "client_item it \<Longrightarrow> clean s (upsertOne clk it s)"
    "client_item it \<Longrightarrow> clean s (updateOne clk it s)" "clean s (counterAddOne clk k i n s)"
    "clean s (deleteOne clk k i sq s)" "clean s (deleteUpTo clk k sq s)" "clean s (deleteScope clk k s)"
proof -
  obtain m where g: "good m s" "room (m + 1)" using live_good [OF assms] by blast
  have "op_ok m s r s'" if "client_item it" "appendOne clk it s = (r, s')" for r s'
    using appendOne_good [OF g that] by (simp add: op_ok_def)
  then show "client_item it \<Longrightarrow> clean s (appendOne clk it s)" using op_clean [OF g(1)] by (metis surj_pair)
  show "client_item it \<Longrightarrow> clean s (upsertOne clk it s)" using op_clean [OF g(1) upsertOne_good [OF g]] by (metis surj_pair)
  show "client_item it \<Longrightarrow> clean s (updateOne clk it s)" using op_clean [OF g(1) updateOne_good [OF g]] by (metis surj_pair)
  show "clean s (counterAddOne clk k i n s)" using op_clean [OF g(1) counterAddOne_good [OF g]] by (metis surj_pair)
  show "clean s (deleteOne clk k i sq s)" using op_clean [OF g(1) deleteOne_good [OF g]] by (metis surj_pair)
  show "clean s (deleteUpTo clk k sq s)" using op_clean [OF g(1) deleteUpTo_good [OF g]] by (metis surj_pair)
  show "clean s (deleteScope clk k s)" using op_clean [OF g(1) deleteScope_good [OF g]] by (metis surj_pair)
qed

lemma cleanI:
  assumes "\<And>r s'. out = (r, s') \<Longrightarrow> not_panic r \<and> (\<forall>e. r = Inl e \<longrightarrow> s' = s)"
  shows "clean s out"
  using assms by (cases out) (auto simp: clean_def not_panic_def)

lemma bulk_clean:
  assumes "live cfg s" "client_batch g" "batch_bytes g + reservedScopesOverhead \<le> MaxInt64"
  shows "clean s (replaceScopes clk g s)" "clean s (rebuildAll clk g s)"
proof -
  obtain m where gd: "good m s" "room (m + 1)" "half \<le> m" using live_good [OF assms(1)] by blast
  have room: "room m" using gd(2) by (rule room_less) simp
  have mx: "defaultMaxItems (score s) \<le> int m"
    by (rule half_ge [OF _ gd(3)]) (use store_invD(3) [OF goodD(1) [OF gd(1)]] in \<open>simp add: config_ok_def\<close>)
  have fits: "batch_bytes g \<le> MaxInt64" using assms(3) by (simp add: reservedScopesOverhead_eq)
  show "clean s (replaceScopes clk g s)"
    by (rule cleanI) (use replaceScopes_good(2,4) [OF gd(1) room assms(2) fits mx] in blast)
  show "clean s (rebuildAll clk g s)"
    by (rule cleanI) (use rebuildAll_good(2,4) [OF gd(1) assms(2,3) mx] in blast)
qed

lemma read_views:
  assumes "store_inv s"
  shows "view (snd (head now k sq l s)) = view s" "view (snd (tail now k l off s)) = view s"
    "view (snd (store_get now k i sq s)) = view s" "view (snd (render now k i sq s)) = view s"
  using touch_view [OF assms]
  by (auto simp: head_def tail_def store_get_def render_def split: option.splits prod.splits)

lemma duration_status: "rs_status (writeJSONWithDuration code payload us) \<in> {code, 500}"
  by (auto simp: writeJSONWithDuration_def split: option.splits)

lemma meta_status: "rs_status (writeJSONWithMeta code payload us) \<in> {code, 500}"
  using duration_status by (auto simp: writeJSONWithMeta_def split: option.splits)

lemma cap_status: "rs_status (writeJSONWithMetaCap code payload mx us) \<in> {code, 500, 507}"
  using duration_status responder_status(6) by (auto simp: writeJSONWithMetaCap_def split: option.splits)

definition read_status :: "response \<Rightarrow> bool" where
  \<comment> \<open>what a JSON read may answer with: a 500 when the body cannot be encoded, a 507 when it is over the cap\<close>
  "read_status r \<longleftrightarrow> rs_status r \<in> {200, 500, 507}"

lemma read_statuses:
  "read_status (writeJSONWithDuration 200 payload d)" "read_status (writeJSONWithMeta 200 payload us)"
  "read_status (writeJSONWithMetaCap 200 payload mx us)" "read_status (responseTooLarge w c us)"
  using duration_status [of 200] meta_status [of 200] cap_status [of 200]
  by (fastforce simp: read_status_def responder_status)+

lemma page_status [simp]:
  "read_status (writeItemsHit api us its tr extra)" "read_status (writeItemsMiss api us extra)"
  "read_status (writeGetMiss us)" "read_status (writeGetHit it us)"
  by (simp_all add: writeItemsHit_def writeItemsMiss_def writeGetMiss_def writeGetHit_def read_statuses)

lemma harmlessI: "rs_status r \<in> {200, 400, 404, 405, 409, 500, 507} \<Longrightarrow> view s' = view s \<Longrightarrow> harmless s (Reply r, s')"
  by (simp add: harmless_def)

lemma harmless_read:
  "view s' = view s \<Longrightarrow> read_status r \<Longrightarrow> harmless s (Reply r, s')"
  by (rule harmlessI) (auto simp: read_status_def)

lemma pageReply_harmless: "view (snd out) = view s \<Longrightarrow> harmless s (pageReply api us extra out)"
  by (cases out) (auto simp: pageReply_def intro!: harmless_read)

lemma flat_ack [simp]: "flat 5 (writeAck k i sq ts)"
  by (simp add: writeAck_def omit_str_def omit_u64_def numeral_eq_Suc)

lemma flat_deleted [simp]: "flat_fields (deleted_fields n)"
  by (simp add: deleted_fields_def)

lemma handler_harmless:
  assumes live: "live cfg s" and bulk: "batch_range rt" "bulk_fits api rq" and h: "map_of RegisterRoutes path = Some h"
  shows "harmless s (h rt api rq s)"
proof -
  obtain m where inv: "store_inv s" using live_good [OF live] goodD(1) by blast
  note V = read_views [OF inv] and C = live_clean [OF live] and E = error_statuses [simplified]
  show ?thesis
  proof (rule routes_cases [OF h])
    assume "h \<in> {handleAppend, handleUpdate, handleUpsert, handleCounterAdd, handleDelete, handleDeleteUpTo,
        handleDeleteScope, handleWarm, handleRebuild}"
    then consider "h = handleAppend" | "h = handleUpdate" | "h = handleUpsert" | "h = handleCounterAdd" | "h = handleDelete"
      | "h = handleDeleteUpTo" | "h = handleDeleteScope" | "h = handleWarm" | "h = handleRebuild" by auto
    then show ?thesis
    proof cases
      case 1
      show ?thesis unfolding 1 handleAppend_def
        by (intro posting_harmless after_harmless C(1) decoded_item) (simp_all add: E flat_status)
    next
      case 2
      show ?thesis unfolding 2 handleUpdate_def
        by (intro posting_harmless after_harmless C(3) decoded_item) (simp_all add: E flat_status)
    next
      case 3
      show ?thesis unfolding 3 handleUpsert_def
        by (intro posting_harmless after_harmless C(2) decoded_item) (simp_all add: E flat_status split: prod.splits)
    next
      case 4
      have "harmless s (after (counterAddOne (rt_clock rt) k i n s) (\<lambda>e. writeCounterError (rt_quote rt) e k us)
          (\<lambda>(v, created). writeJSONWithDuration 200 [ok_field True, (''created'', JBool created), (''value'', JInt v)] d))"
        for k i n us d
        by (intro after_harmless C(4)) (simp_all add: E flat_status split: prod.splits)
      then show ?thesis unfolding 4 handleCounterAdd_def
        by (intro posting_harmless) (auto simp: harmless_def responder_status split: option.splits)
    next
      case 5
      show ?thesis unfolding 5 handleDelete_def
        by (intro posting_harmless after_harmless C(5)) (simp_all add: E flat_status)
    next
      case 6
      show ?thesis unfolding 6 handleDeleteUpTo_def
        by (intro posting_harmless after_harmless C(6)) (simp_all add: E flat_status)
    next
      case 7
      show ?thesis unfolding 7 handleDeleteScope_def
        by (intro posting_harmless after_harmless C(7)) (simp_all add: E flat_status split: prod.splits)
    next
      case 8
      show ?thesis unfolding 8 handleWarm_def
        by (intro posting_harmless after_harmless bulk_clean(1) [OF live decoded_batch [OF bulk]])
          (simp_all add: E flat_status)
    next
      case 9
      have "harmless s (after (rebuildAll (rt_clock rt) (rt_range rt (groupItemsByScope (ireq_Items req))) s)
          (\<lambda>e. writeMutationError (rt_quote rt) e k us)
          (\<lambda>(a, b). writeJSONWithDuration 200 [ok_field True, (''count'', JInt c), (''rebuilt_scopes'', JInt a),
             (''rebuilt_items'', JInt b)] d))"
        if "decodeBody (maxBulkBytes api) decode_items (rq_body rq) = Inr req" for req k us c d
        by (intro after_harmless bulk_clean(2) [OF live decoded_batch [OF bulk that]])
          (simp_all add: E flat_status split: prod.splits)
      then show ?thesis unfolding 9 handleRebuild_def
        by (intro posting_harmless) (auto simp: harmless_def responder_status)
    qed
  next
    assume "h \<in> {handleHead, handleTail, handleGet, handleRender, handleWipe, handleStats, handleScopeList, handleHelp}"
    then consider "h = handleHead" | "h = handleTail" | "h = handleGet" | "h = handleRender" | "h = handleWipe"
      | "h = handleStats" | "h = handleScopeList" | "h = handleHelp" by auto
    then show ?thesis
    proof cases
      case 1
      then show ?thesis using V(1) by (auto simp: handleHead_def intro!: getting_harmless pageReply_harmless split: prod.splits)
    next
      case 2
      then show ?thesis using V(2) by (auto simp: handleTail_def intro!: getting_harmless pageReply_harmless split: prod.splits)
    next
      case 3
      have "view s' = view s" if "store_get (rt_clock rt 0) k i sq s = (x, s')" for k i sq x s'
        using V(3) [of "rt_clock rt 0" k i sq] that by simp
      then show ?thesis using 3
        by (auto simp: handleGet_def intro!: getting_harmless harmless_read split: prod.splits option.splits)
    next
      case 4
      have "view s' = view s" if "render (rt_clock rt 0) k i sq s = (x, s')" for k i sq x s'
        using V(4) [of "rt_clock rt 0" k i sq] that by simp
      then show ?thesis using 4
        by (auto simp: handleRender_def intro!: getting_harmless harmlessI split: prod.splits option.splits)
    next
      case 5
      then show ?thesis by (auto simp: handleWipe_def harmless_def responder_status flat_status split: prod.splits)
    next
      case 6
      then show ?thesis using duration_status [of 200]
        by (auto simp: handleStats_def Let_def responder_status intro!: harmlessI)
    next
      case 7
      then show ?thesis
        by (auto simp: handleScopeList_def intro!: getting_harmless harmless_read read_statuses split: prod.splits)
    next
      case 8
      then show ?thesis by (auto simp: handleHelp_def intro!: harmlessI)
    qed
  qed
qed

lemma answer_reply:
  assumes "live cfg s" "batch_range rt" "bulk_fits (NewAPI (score s)) rq" "answers rt rq s = Some (o1, s')"
  shows "harmless s (o1, s')"
proof -
  obtain h where h: "map_of RegisterRoutes (rq_path rq) = Some h" "h rt (NewAPI (score s)) rq s = (o1, s')"
    using assms(4) by (auto simp: answers_def)
  show ?thesis using handler_harmless [OF assms(1-3) h(1)] h(2) by simp
qed

end
