(* ===== verification/PageSpec.thy ===== *)
theory PageSpec
  imports HttpSpec
begin

text \<open>
  What a read answers. The payload of an item a client reads is JSON a scanner accepts, so the response can be
  encoded unless it nests too deep once it is wrapped; the items of a scope never weigh more than the store's
  cap, so the size check before encoding is never the one that refuses.
\<close>

section \<open>Payloads of stored items\<close>

lemma held_item:
  assumes "store_inv s" "y \<in> set (snd (contents (view s) k))"
  obtains a it where "getScope s k = Some a" "it \<in> set (items (bufs s ! a))" "y = materialiseCounter (score s) it"
    "item_ok (score s) k it"
proof (cases "getScope s k")
  case None
  then show thesis using assms(2) by (simp add: contents_none)
next
  case (Some a)
  then show thesis using assms(2) linked_bufD(5) [OF assms(1) Some] that
    by (auto simp: contents_look buf_ok_def)
qed

lemma held_payload:
  assumes "store_inv s" "y \<in> set (snd (contents (view s) k))"
  shows "\<exists>p. Payload y = Some p \<and> json_Valid p"
proof -
  obtain a it where it: "y = materialiseCounter (score s) it" "item_ok (score s) k it"
    using held_item [OF assms] by metis
  show ?thesis
  proof (cases "counter it")
    case None
    then have "payload_ok (Payload y)" using it by (simp add: item_ok_def materialiseCounter_def)
    then show ?thesis using payload_ok_Some by (fastforce simp: payload_ok_def)
  next
    case (Some c)
    then show ?thesis using it(1) by (simp add: materialiseCounter_def renderCounterPayload_def json_Valid_show_int)
  qed
qed

lemma show_nat_length: "n < 10 ^ Suc k \<Longrightarrow> length (show_nat n) \<le> Suc k"
proof (induction k arbitrary: n)
  case 0
  then show ?case by (simp add: show_nat.simps [of n])
next
  case (Suc k)
  then have "n div 10 < 10 ^ Suc k" by (simp add: less_mult_imp_div_less)
  from Suc.IH [OF this] show ?case by (simp add: show_nat.simps [of n])
qed

lemma counter_text_length:
  assumes "\<bar>v\<bar> \<le> MaxCounterValue"
  shows "int (length (show_int v)) \<le> 17"
proof -
  have "nat \<bar>v\<bar> < 10 ^ Suc 15" using assms by (simp add: MaxCounterValue_def)
  then have "length (show_nat (nat \<bar>v\<bar>)) \<le> 16" using show_nat_length [of "nat \<bar>v\<bar>" 15] by simp
  then show ?thesis by (auto simp: show_int_def)
qed

section \<open>Sizes of pages\<close>

definition wire_weight :: "Item \<Rightarrow> int" where
  \<comment> \<open>what the estimate counts for an item\<close>
  "wire_weight y = multiItemPerItemMinBytes + int (length (Scope y)) + int (length (ID y)) + rawlen (Payload y)"

lemma foldl_plus: "foldl (\<lambda>n x. n + f x + g x + h x) (a :: int) xs = a + sum_list (map (\<lambda>x. f x + g x + h x) xs)"
  by (induction xs arbitrary: a) simp_all

lemma estimate_weights:
  "estimateMultiItemResponseBytes its = multiItemEnvelopeMinBytes + sum_list (map wire_weight its)"
proof -
  have "sum_list (map wire_weight its) = int (length its) * multiItemPerItemMinBytes +
      sum_list (map (\<lambda>y. int (length (Scope y)) + int (length (ID y)) + rawlen (Payload y)) its)"
    by (induction its) (simp_all add: wire_weight_def algebra_simps)
  then show ?thesis by (simp add: estimateMultiItemResponseBytes_def foldl_plus)
qed

lemma wire_weight_nonneg: "0 \<le> wire_weight y"
  by (simp add: wire_weight_def multiItemPerItemMinBytes_def)

lemma sum_list_sub_mset:
  assumes "mset xs \<subseteq># mset ys" "\<And>y. 0 \<le> f y"
  shows "sum_list (map f xs) \<le> (sum_list (map f ys) :: int)"
proof -
  obtain zs where "mset ys = mset (xs @ zs)" using assms(1) by (metis ex_mset mset_append mset_subset_eq_exists_conv)
  then have "sum_list (map f ys) = sum_list (map f (xs @ zs))" by (metis mset_map sum_mset_sum_list)
  moreover have "0 \<le> sum_list (map f zs)" by (rule sum_list_nonneg) (use assms(2) in auto)
  ultimately show ?thesis by simp
qed

lemma materialised_weight:
  assumes "item_ok c k it" "cells_ok c"
  shows "wire_weight (materialiseCounter c it) \<le> approxItemSize it"
proof (cases "counter it")
  case None
  have "0 \<le> rawlen (renderBytes it)" by simp
  then show ?thesis using None
    by (simp add: wire_weight_def materialiseCounter_def approxItemSize_def multiItemPerItemMinBytes_def)
next
  case (Some a)
  then have "a < length (cells c)" using assms(1) by (simp add: item_ok_def)
  then have "\<bar>cell_value (cells c ! a)\<bar> \<le> MaxCounterValue" using assms(2) by (simp add: cells_ok_def)
  then have "rawlen (renderCounterPayload (cells c ! a)) \<le> 17"
    using counter_text_length by (simp add: renderCounterPayload_def rawlen_def)
  then show ?thesis using Some
    by (simp add: wire_weight_def materialiseCounter_def approxItemSize_def multiItemPerItemMinBytes_def counterCellOverhead_def)
qed

lemma page_fits:
  assumes inv: "store_inv s" and page: "mset its \<subseteq># mset (snd (contents (view s) k))" and some: "its \<noteq> []"
  shows "estimateMultiItemResponseBytes its \<le> maxStoreBytes (score s)"
proof -
  have "snd (contents (view s) k) \<noteq> []" using page some by auto
  then obtain a where a: "getScope s k = Some a" by (cases "getScope s k") (simp_all add: contents_none)
  note L = linked_bufD [OF inv a]
  have "sum_list (map wire_weight its) \<le> sum_list (map wire_weight (snd (contents (view s) k)))"
    by (rule sum_list_sub_mset [OF page wire_weight_nonneg])
  also have "\<dots> = sum_list (map (\<lambda>it. wire_weight (materialiseCounter (score s) it)) (items (bufs s ! a)))"
    by (simp add: contents_look [OF a] comp_def)
  also have "\<dots> \<le> sum_list (map approxItemSize (items (bufs s ! a)))"
    by (rule sum_list_mono) (use L(5) materialised_weight store_invD(5) [OF inv] in \<open>auto simp: buf_ok_def\<close>)
  also have "\<dots> = bytes (bufs s ! a)" using buf_invD(6) [OF L(6)] by (simp add: total_size_def)
  finally show ?thesis
    using charge_le_total [OF inv a] store_invD(4) [OF inv]
    by (simp add: estimate_weights within_cap_def scopeBufferOverhead_def multiItemEnvelopeMinBytes_def)
qed

section \<open>Depths of responses\<close>

definition item_depth :: "Item \<Rightarrow> nat" where
  "item_depth y = nesting (raw_bytes (Payload y))"

lemma Item_json_enc:
  assumes "Payload y = Some p" "json_Valid p"
  shows "enc (Item_json y) \<noteq> None" "jv_depth (Item_json y) = Suc (item_depth y)"
proof -
  have "marshal_raw (Payload y) = Some (compact False False p)" using assms by (simp add: marshal_raw_def)
  then show "enc (Item_json y) \<noteq> None" "jv_depth (Item_json y) = Suc (item_depth y)"
    using compact_nesting [OF assms(2)] assms(1)
    by (auto simp: Item_json_def omit_str_def omit_u64_def item_depth_def)
qed

definition get_fields :: "Item \<Rightarrow> orderedFields" where
  "get_fields y = [ok_field True, (''hit'', JBool True), (''count'', JInt 1), (''item'', Item_json y)]"

definition page_fields :: "Item list \<Rightarrow> bool \<Rightarrow> orderedFields \<Rightarrow> orderedFields" where
  "page_fields its tr extra =
     [ok_field True, (''hit'', JBool (its \<noteq> [])), (''count'', JInt (int (length its)))] @ extra @
     [(''truncated'', JBool tr), (''items'', JArr (map Item_json its))]"

lemma approx_some: "marshalWithApproxSize fs us \<noteq> None \<longleftrightarrow> json_Marshal (fs @ [(''duration_us'', JInt us)]) \<noteq> None"
  by (simp add: marshalWithApproxSize_def Let_def split: option.splits)

lemma duration_some:
  "rs_status (writeJSONWithDuration code fs us) = (if json_Marshal (fs @ [(''duration_us'', JInt us)]) = None then 500 else code)"
  by (simp add: writeJSONWithDuration_def split: option.splits)

lemma get_marshals:
  assumes "Payload y = Some p" "json_Valid p"
  shows "json_Marshal (get_fields y @ [(''duration_us'', JInt us)]) \<noteq> None \<longleftrightarrow> item_depth y + 2 \<le> maxNestingDepth"
  using Item_json_enc [OF assms] by (subst json_Marshal_exact) (auto simp: get_fields_def)

lemma get_hit_status:
  assumes "Payload y = Some p" "json_Valid p"
  shows "rs_status (writeGetHit y us) = (if item_depth y + 2 \<le> maxNestingDepth then 200 else 500)"
proof -
  have "writeGetHit y us = writeJSONWithMeta 200 (get_fields y) us" by (simp add: writeGetHit_def get_fields_def)
  then show ?thesis
    using approx_some [of "get_fields y" "us 0"] duration_some [of 200 "get_fields y" "us 1"] get_marshals [OF assms]
    by (auto simp: writeJSONWithMeta_def split: option.splits)
qed

lemma all_some_exists: "all_some (map f xs) \<noteq> None \<longleftrightarrow> (\<forall>x \<in> set xs. f x \<noteq> None)"
proof (induction xs)
  case (Cons a xs)
  then show ?case by (cases "f a") (auto split: option.splits)
qed simp

lemma enc_containers:
  "enc (JArr xs) \<noteq> None \<longleftrightarrow> (\<forall>x \<in> set xs. enc x \<noteq> None)"
  "enc (JObj fs) \<noteq> None \<longleftrightarrow> (\<forall>f \<in> set fs. enc (snd f) \<noteq> None)"
  using all_some_exists [of enc xs]
    all_some_exists [of "\<lambda>f. map_option (\<lambda>t. marshal_string (fst f) @ '':'' @ t) (enc (snd f))" fs] by simp_all

lemma foldr_max_bound: "foldr max xs (0 :: nat) \<le> n \<longleftrightarrow> (\<forall>x \<in> set xs. x \<le> n)"
  by (induction xs) auto

lemma depth_containers:
  "jv_depth (JArr xs) \<le> Suc n \<longleftrightarrow> (\<forall>x \<in> set xs. jv_depth x \<le> n)"
  "jv_depth (JObj fs) \<le> Suc n \<longleftrightarrow> (\<forall>f \<in> set fs. jv_depth (snd f) \<le> n)"
  by (simp_all add: foldr_max_bound)

lemma page_fields_all:
  "(\<forall>f \<in> set (page_fields its tr extra @ [(k, v)]). P (snd f)) \<longleftrightarrow>
     P (JBool True) \<and> P (JBool (its \<noteq> [])) \<and> P (JInt (int (length its))) \<and> (\<forall>f \<in> set extra. P (snd f)) \<and>
     P (JBool tr) \<and> P (JArr (map Item_json its)) \<and> P v"
  by (auto simp: page_fields_def)

lemma page_marshals:
  assumes its: "\<forall>y \<in> set its. \<exists>p. Payload y = Some p \<and> json_Valid p" and extra: "\<forall>f \<in> set extra. \<exists>n. snd f = JInt n"
  shows "json_Marshal (page_fields its tr extra @ [(''duration_us'', JInt us)]) \<noteq> None \<longleftrightarrow>
    (\<forall>y \<in> set its. item_depth y + 3 \<le> maxNestingDepth)"
proof -
  define k where "k = maxNestingDepth - 3"
  have m: "maxNestingDepth = Suc (Suc (Suc k))" by (simp add: k_def maxNestingDepth_def)
  let ?fs = "page_fields its tr extra @ [(''duration_us'', JInt us)]"
  have "enc (Item_json y) \<noteq> None" "jv_depth (Item_json y) = Suc (item_depth y)" if "y \<in> set its" for y
    using that its Item_json_enc [of y] by blast+
  note I = this
  have "enc (JObj ?fs) \<noteq> None"
    unfolding enc_containers(2) page_fields_all [where P = "\<lambda>v. enc v \<noteq> None"]
    using extra I(1) enc_containers(1) [of "map Item_json its"] by fastforce
  moreover have "jv_depth (JObj ?fs) \<le> maxNestingDepth \<longleftrightarrow> (\<forall>y \<in> set its. jv_depth (Item_json y) \<le> Suc k)"
    unfolding m depth_containers(2) page_fields_all [where P = "\<lambda>v. jv_depth v \<le> Suc (Suc k)"]
    using extra depth_containers(1) [of "map Item_json its" "Suc k"] by fastforce
  moreover have "\<dots> \<longleftrightarrow> (\<forall>y \<in> set its. item_depth y + 3 \<le> maxNestingDepth)" using I(2) by (simp add: m)
  moreover have "?fs \<noteq> []" by simp
  ultimately show ?thesis using json_Marshal_exact [of ?fs] by blast
qed

definition page_status :: "Item list \<Rightarrow> bool \<Rightarrow> orderedFields \<Rightarrow> int \<Rightarrow> durations \<Rightarrow> int" where
  \<comment> \<open>500 for a payload too deep to wrap, 507 for a body over the cap, else 200\<close>
  "page_status its tr extra cap us =
     (if \<exists>y \<in> set its. maxNestingDepth < item_depth y + 3 then 500
      else case marshalWithApproxSize (page_fields its tr extra) (us 0) of
        None \<Rightarrow> 500
      | Some out \<Rightarrow> if cap < int (length out) then 507 else 200)"

lemma cap_fields_status:
  assumes "\<forall>y \<in> set its. \<exists>p. Payload y = Some p \<and> json_Valid p" "\<forall>f \<in> set extra. \<exists>n. snd f = JInt n"
  shows "rs_status (writeJSONWithMetaCap 200 (page_fields its tr extra) cap us) = page_status its tr extra cap us"
    "\<forall>y \<in> set its. item_depth y + 3 \<le> maxNestingDepth \<Longrightarrow> marshalWithApproxSize (page_fields its tr extra) (us 0) \<noteq> None"
proof -
  note M = page_marshals [OF assms, of tr]
  show ok: "marshalWithApproxSize (page_fields its tr extra) (us 0) \<noteq> None"
    if "\<forall>y \<in> set its. item_depth y + 3 \<le> maxNestingDepth"
    using that M approx_some [of "page_fields its tr extra" "us 0"] by blast
  show "rs_status (writeJSONWithMetaCap 200 (page_fields its tr extra) cap us) = page_status its tr extra cap us"
  proof (cases "\<forall>y \<in> set its. item_depth y + 3 \<le> maxNestingDepth")
    case True
    then show ?thesis using ok
      by (auto simp: writeJSONWithMetaCap_def page_status_def responder_status not_less not_le)
  next
    case False
    then have "marshalWithApproxSize (page_fields its tr extra) (us 0) = None"
      "json_Marshal (page_fields its tr extra @ [(''duration_us'', JInt (us 1))]) = None"
      using M [of "us 0"] M [of "us 1"] approx_some [of "page_fields its tr extra" "us 0"] by blast+
    then have "marshalWithApproxSize (page_fields its tr extra) (us 0) = None"
      "rs_status (writeJSONWithDuration 200 (page_fields its tr extra) (us 1)) = 500"
      by (simp_all add: duration_some)
    then show ?thesis using False by (auto simp: writeJSONWithMetaCap_def page_status_def not_le)
  qed
qed

lemma page_hit_status:
  assumes inv: "store_inv s" and page: "mset its \<subseteq># mset (snd (contents (view s) k))"
    and extra: "\<forall>f \<in> set extra. \<exists>n. snd f = JInt n"
  shows "rs_status (writeItemsHit (NewAPI (score s)) us its tr extra) = page_status its tr extra (maxStoreBytes (score s)) us"
proof -
  have "\<forall>y \<in> set its. \<exists>p. Payload y = Some p \<and> json_Valid p"
    using held_payload [OF inv] mset_subset_eqD [OF page] by (metis set_mset_mset)
  then show ?thesis
    using cap_fields_status(1) [OF _ extra] page_fits [OF inv page]
    by (auto simp: writeItemsHit_def NewAPI_def page_fields_def)
qed

end
