(* ===== verification/HttpProps.thy ===== *)
theory HttpProps
  imports PageSpec Samples
begin

text \<open>
  The properties of the HTTP interface. A request is answered by \<open>answers\<close>: the handler its path is
  registered for, over an API made for the store. The runtime supplies clock readings, the order in which a
  range visits a map and \<open>strconv.Quote\<close>, all arbitrary; \<open>batch_range\<close> says that a range visits each key once,
  \<open>bulk_fits\<close> that a decoded batch is one a process can hold.
\<close>

section \<open>Sequences of requests\<close>

fun http_run :: "(runtime \<times> http_request) list \<Rightarrow> store \<Rightarrow> store" where
  \<comment> \<open>a path that is not registered never reaches the store\<close>
  "http_run [] s = s"
| "http_run ((rt, rq) # reqs) s =
     http_run reqs (case answers rt rq s of None \<Rightarrow> s | Some (_, s') \<Rightarrow> s')"

lemma NewAPI_cong: "core_config c = core_config c' \<Longrightarrow> NewAPI c = NewAPI c'"
  by (auto simp: NewAPI_def maxItemBytesAnyScope_def core_config_def Let_def)

text \<open>
  C15. HTTP traffic drives the store through its own transitions. After any sequence of requests, with any
  methods, paths, queries and bodies, the store is one that at most as many legal operations reach from the
  state before; so every property of the reachable stores holds behind the HTTP interface.
\<close>

theorem http_reaches:
  assumes "reaches cfg n s" and "\<forall>(rt, rq) \<in> set reqs. batch_range rt \<and> bulk_fits (NewAPI (score s)) rq"
    and "n + length reqs < 2 ^ 62"
  shows "\<exists>m \<le> n + length reqs. reaches cfg m (http_run reqs s)"
  using assms
proof (induction reqs arbitrary: n s)
  case Nil
  then show ?case by auto
next
  case (Cons r reqs)
  obtain rt rq where r: "r = (rt, rq)" by (cases r)
  define s1 where "s1 = (case answers rt rq s of None \<Rightarrow> s | Some (_, s') \<Rightarrow> s')"
  have "s1 = s \<or> http_call s s1"
    using Cons.prems(2) r by (cases "answers rt rq s") (auto simp: s1_def http_call_def)
  then have "(\<exists>m \<le> Suc n. reaches cfg m s1) \<and> core_config (score s1) = core_config (score s)"
    using http.call_reaches [OF Cons.prems(1)] http.call_config [OF Cons.prems(1)] Cons.prems(1,3) le_Suc_eq by auto
  then obtain m where m: "m \<le> Suc n" "reaches cfg m s1" "core_config (score s1) = core_config (score s)" by blast
  have "\<forall>(rt, rq) \<in> set reqs. batch_range rt \<and> bulk_fits (NewAPI (score s1)) rq"
    using Cons.prems(2) NewAPI_cong [OF m(3)] by auto
  from Cons.IH [OF m(2) this] m(1) Cons.prems(3)
  obtain m' where "m' \<le> m + length reqs" "reaches cfg m' (http_run reqs s1)" by auto
  then show ?case using m(1) r by (intro exI [of _ m']) (simp add: s1_def)
qed

text \<open>Requests at which the properties are applied.\<close>

definition rt0 :: runtime where
  "rt0 = \<lparr>rt_clock = clk0, rt_since = (\<lambda>_. 7), rt_range = (\<lambda>g. g), rt_quote = (\<lambda>s. s)\<rparr>"

definition quotes :: "string \<Rightarrow> string" where
  \<comment> \<open>a text with its tildes turned into double quotes\<close>
  "quotes = map (\<lambda>c. if c = CHR ''~'' then CHR 0x22 else c)"

definition post_append :: http_request where
  "post_append = \<lparr>rq_method = ''POST'', rq_path = ''/append'', rq_query = [],
     rq_body = quotes ''{~scope~:~s~,~id~:~a~,~payload~:[1]}''\<rparr>"

definition get_a :: http_request where
  "get_a = \<lparr>rq_method = ''GET'', rq_path = ''/get'', rq_query = ''scope=s&id=a'', rq_body = []\<rparr>"

lemma rt0_range: "batch_range rt0"
  by (simp add: batch_range_def rt0_def)

lemma no_batch: "decodeBody mx decode_items body = Inr r \<Longrightarrow> ireq_Items r = [] \<Longrightarrow>
    batch_bytes (groupItemsByScope (ireq_Items r)) + reservedScopesOverhead \<le> MaxInt64"
  by (simp add: batch_bytes_def groupItemsByScope_def reservedScopesOverhead_def reservedScopeNames_def
      scopeBufferOverhead_def MaxInt64_def)

lemma post_fits: "bulk_fits (NewAPI (score boot0)) post_append"
proof -
  have "case decodeBody (maxBulkBytes (NewAPI (score boot0))) decode_items (rq_body post_append) of
      Inl _ \<Rightarrow> True | Inr r \<Rightarrow> ireq_Items r = []"
    by code_simp
  then show ?thesis using no_batch by (auto simp: bulk_fits_def)
qed

lemma get_fits: "bulk_fits (NewAPI c) get_a"
  by (simp add: bulk_fits_def get_a_def decodeBody_def Decoder_Decode_def Let_def jeof_def begin_value_def is_space_def is_digit_def)

theorem http_reaches_witness:
  "\<exists>m \<le> 2. reaches cfg0 m (http_run [(rt0, post_append), (rt0, get_a)] boot0)"
proof -
  have "\<exists>m \<le> 0 + length [(rt0, post_append), (rt0, get_a)]. reaches cfg0 m (http_run [(rt0, post_append), (rt0, get_a)] boot0)"
    by (rule http_reaches [OF reaches0]) (simp_all add: rt0_range post_fits get_fits)
  moreover have "0 + length [(rt0, post_append), (rt0, get_a)] = 2" by simp
  ultimately show ?thesis by metis
qed

lemma routed:
  assumes "map_of RegisterRoutes (rq_path rq) \<noteq> None"
  obtains out s' where "answers rt rq s = Some (out, s')"
  using assms by (cases "the (answers rt rq s)") (auto simp: answers_def)



text \<open>
  C17. JSON responses are JSON. Whatever the request and the state of the store, a response labelled
  \<open>application/json\<close> holds one valid JSON value followed by a newline. The size field is spliced into an
  encoded body, the payloads of items are written as they are, error messages quote what the client sent.
\<close>

theorem json_responses:
  assumes "answers rt rq s = Some (Reply r, s')" and "rs_type r = json_type"
  shows "\<exists>b. rs_body r = b @ newline \<and> json_Valid b"
  using answer_json [OF assms] by (simp add: json_body_def)

theorem json_responses_witness:
  "\<exists>b r. fst (the (answers rt0 get_a boot0)) = Reply r \<and> rs_body r = b @ newline \<and> json_Valid b"
proof -
  have "case fst (the (answers rt0 get_a boot0)) of Reply r \<Rightarrow> rs_type r = json_type | Panicked _ \<Rightarrow> False" by code_simp
  then obtain r where r: "fst (the (answers rt0 get_a boot0)) = Reply r" "rs_type r = json_type"
    by (cases "fst (the (answers rt0 get_a boot0))") simp_all
  obtain out s' where a: "answers rt0 get_a boot0 = Some (out, s')"
    by (rule routed [of get_a]) (simp add: RegisterRoutes_def get_a_def)
  show ?thesis using json_responses [of rt0 get_a boot0 r s'] r a by auto
qed

section \<open>Reading what was written\<close>

text \<open>A payload of nested empty arrays.\<close>

definition nested :: "nat \<Rightarrow> string" where
  "nested n = replicate n CHR ''['' @ replicate n CHR '']''"

lemma bracket_facts: "\<not> is_space CHR ''[''" "\<not> is_space CHR '']''" "\<not> is_space CHR ''{''"
  by (simp_all add: is_space_def)

lemma scan_opens:
  assumes "length ps + n \<le> maxNestingDepth" "q = BeginValue \<or> q = BeginValueOrEmpty"
  shows "jscan_all (Some (q, ps)) (replicate n CHR ''['') =
      Some (if n = 0 then q else BeginValueOrEmpty, replicate n ArrayValue @ ps) \<and>
    nest_from (Some (q, ps)) (replicate n CHR ''['' @ s) =
      nest_from (Some (if n = 0 then q else BeginValueOrEmpty, replicate n ArrayValue @ ps)) s"
  using assms
proof (induction n arbitrary: q ps)
  case (Suc n)
  have step: "jstep q ps CHR ''['' = Some (BeginValueOrEmpty, ArrayValue # ps)"
    using Suc.prems by (auto simp: begin_value_def push_state_def bracket_facts)
  have "length (ArrayValue # ps) + n \<le> maxNestingDepth" using Suc.prems(1) by simp
  note IH = Suc.IH [OF this disjI2 [OF refl]]
  have "length ps \<le> nest_from (Some (if n = 0 then BeginValueOrEmpty else BeginValueOrEmpty, replicate n ArrayValue @ ArrayValue # ps)) s"
    using nest_from_ge [of "replicate n ArrayValue @ ArrayValue # ps"] by (rule order_trans [rotated]) simp
  then show ?case using IH by (simp add: step replicate_app_Cons_same max_def)
qed simp

lemma scan_closes:
  assumes "q = EndValue \<or> q = BeginValueOrEmpty"
  shows "jscan_all (Some (q, replicate (Suc n) ArrayValue)) (replicate (Suc n) CHR '']'') = Some (EndTop, []) \<and>
    nest_from (Some (q, replicate (Suc n) ArrayValue)) (replicate (Suc n) CHR '']'') = Suc n"
  using assms
proof (induction n arbitrary: q)
  case 0
  then show ?case by (auto simp: end_value_def pop_state_def bracket_facts)
next
  case (Suc n)
  have step: "jstep q (replicate (Suc (Suc n)) ArrayValue) CHR '']'' = Some (EndValue, replicate (Suc n) ArrayValue)"
    using Suc.prems by (auto simp: end_value_def pop_state_def bracket_facts)
  show ?case
    using Suc.IH [OF disjI1 [OF refl]] step by (simp add: replicate_Suc [of "Suc n"] del: replicate_Suc)
qed

lemma nested_facts:
  assumes "1 \<le> n" "n \<le> maxNestingDepth"
  shows "json_Valid (nested n)" "nesting (nested n) = n"
proof -
  obtain m where m: "n = Suc m" using assms(1) by (cases n) auto
  note O = scan_opens [of "[]" n BeginValue "replicate n CHR '']''"] and C = scan_closes [of BeginValueOrEmpty m]
  have "jscan_all (Some (BeginValue, [])) (nested n) = Some (EndTop, [])"
    using O C assms m by (simp add: nested_def jscan_all_append)
  then show "json_Valid (nested n)" by (rule json_ValidI) simp
  show "nesting (nested n) = n" using O C assms m by (simp add: nested_def)
qed

lemma trim_front_set: "set (trim_front k us s) \<subseteq> set s"
  by (induction k us s rule: trim_front.induct) (auto split: list.splits dest: in_set_dropD)

lemma TrimSpace_set: "set (TrimSpace s) \<subseteq> set s"
  unfolding TrimSpace_def Let_def using trim_front_set by (metis order_trans set_rev)

lemma nested_ok:
  assumes "1 \<le> n" "n \<le> maxNestingDepth"
  shows "payload_ok (Some (nested n))"
proof -
  have "set (nested n) \<subseteq> {CHR ''['', CHR '']''}" by (auto simp: nested_def)
  then have "TrimSpace (nested n) \<noteq> ''null''" using TrimSpace_set [of "nested n"] by auto
  moreover have "nested n \<noteq> []" using assms(1) by (simp add: nested_def)
  ultimately show ?thesis using nested_facts [OF assms] by (simp add: payload_ok_def)
qed

lemma meta_flat_status: "flat_fields payload \<Longrightarrow> rs_status (writeJSONWithMeta 200 payload us) = 200"
  using flat_status [of payload 200 "us 0"] duration_some [of 200 payload "us 0"] approx_some [of payload "us 0"]
  by (auto simp: writeJSONWithMeta_def split: if_splits)

lemma target_named: "parseLookupTarget Q raw ep = Inr t \<Longrightarrow> lt_ByID t \<longleftrightarrow> lt_ID t \<noteq> []"
  by (auto simp: parseLookupTarget_def checked_def Let_def split: option.splits if_splits)

definition named :: "lookupTarget \<Rightarrow> store \<Rightarrow> Item option" where
  \<comment> \<open>the item of the scope with the id, or else the seq, of the target\<close>
  "named t s = find (\<lambda>y. if lt_ByID t then ID y = lt_ID t else Seq y = lt_Seq t) (snd (contents (view s) (lt_Scope t)))"

lemma get_named:
  assumes "store_inv s" "parseLookupTarget Q raw ep = Inr t"
  obtains s' where "store_get now (lt_Scope t) (target_id t) (target_seq t) s = (named t s, s')" "view s' = view s"
proof -
  have eq: "(if target_id t \<noteq> [] then ID y = target_id t else Seq y = target_seq t) =
      (if lt_ByID t then ID y = lt_ID t else Seq y = lt_Seq t)" for y
    using target_named [OF assms(2)] by (simp add: target_id_def target_seq_def)
  obtain s' where "store_get now (lt_Scope t) (target_id t) (target_seq t) s =
      (find (\<lambda>y. if target_id t \<noteq> [] then ID y = target_id t else Seq y = target_seq t)
         (snd (contents (view s) (lt_Scope t))), s')" "view s' = view s"
    by (rule get_run [OF assms(1), of now "lt_Scope t" "target_id t" "target_seq t"])
  then show thesis using that unfolding named_def eq by blast
qed

lemma handleGet_run:
  assumes "rq_method rq = MethodGet" "parseLookupTarget (rt_quote rt) (rq_query rq) ''/get'' = Inr t"
    "store_get (rt_clock rt 0) (lt_Scope t) (target_id t) (target_seq t) s = (x, s')"
  shows "handleGet rt api rq s =
    (Reply (case x of None \<Rightarrow> writeGetMiss (rt_since rt) | Some y \<Rightarrow> writeGetHit y (rt_since rt)), s')"
  unfolding handleGet_def getting_def assms(1,2)
  by (cases x) (simp_all only: assms(3) sum.case option.case prod.case if_False simp_thms not_True_eq_False)

text \<open>
  C18. What \<open>/get\<close> answers. A well-formed request is answered 200 with the item the id or the seq names, or with a
  miss, except that an item whose payload nests within two levels of the scanner's limit is answered 500: the
  response is scanned as a whole, and it wraps the payload twice. Nothing a client can read changes.
\<close>

theorem get_answer:
  assumes "live cfg s" and "rq_path rq = ''/get''" and "rq_method rq = MethodGet"
    and "parseLookupTarget (rt_quote rt) (rq_query rq) ''/get'' = Inr t"
  shows "\<exists>r s'. answers rt rq s = Some (Reply r, s') \<and> view s' = view s \<and>
    (case named t s of
       None \<Rightarrow> r = writeGetMiss (rt_since rt) \<and> rs_status r = 200
     | Some y \<Rightarrow> r = writeGetHit y (rt_since rt) \<and> rs_status r = (if item_depth y + 2 \<le> maxNestingDepth then 200 else 500))"
proof -
  obtain m where inv: "store_inv s" using live_good [OF assms(1)] goodD(1) by metis
  obtain s' where g: "store_get (rt_clock rt 0) (lt_Scope t) (target_id t) (target_seq t) s = (named t s, s')" "view s' = view s"
    by (rule get_named [OF inv assms(4)])
  have route: "answers rt rq s = Some (Reply (case named t s of None \<Rightarrow> writeGetMiss (rt_since rt)
      | Some y \<Rightarrow> writeGetHit y (rt_since rt)), s')"
    using handleGet_run [OF assms(3,4) g(1)] assms(2) by (simp add: answers_def RegisterRoutes_def)
  show ?thesis
  proof (cases "named t s")
    case None
    have "rs_status (writeGetMiss (rt_since rt)) = 200" unfolding writeGetMiss_def by (rule meta_flat_status) simp
    then show ?thesis using route g(2) None by simp
  next
    case (Some y)
    have "y \<in> set (snd (contents (view s) (lt_Scope t)))" using find_SomeD [OF Some [unfolded named_def]] by simp
    then obtain p where "Payload y = Some p" "json_Valid p" using held_payload [OF inv] by blast
    from get_hit_status [OF this] show ?thesis using route g(2) Some by simp
  qed
qed

theorem get_answer_witness:
  "\<exists>r s'. answers rt0 get_a store2 = Some (Reply r, s') \<and> rs_status r = 200 \<and> view s' = view store2"
proof -
  let ?t = "\<lparr>lt_Scope = ''s'', lt_ByID = True, lt_ID = ''a'', lt_Seq = 0\<rparr>"
  have q: "parseLookupTarget (rt_quote rt0) (rq_query get_a) ''/get'' = Inr ?t" by code_simp
  have y: "case named ?t store2 of None \<Rightarrow> False | Some y \<Rightarrow> item_depth y + 2 \<le> 3" by code_simp
  have "rq_path get_a = ''/get''" "rq_method get_a = MethodGet" by (simp_all add: get_a_def MethodGet_def)
  from get_answer [OF live2 this q] y show ?thesis
    by (cases "named ?t store2") (auto simp: maxNestingDepth_def)
qed

text \<open>
  C20. Payloads nested one or two levels short of the limit. The cache accepts any payload nested up to the
  scanner's limit, but an item with a payload of the last two depths cannot be read back through \<open>/get\<close>: the
  response fails to encode and the answer is 500.
\<close>

theorem deep_payload_unreadable:
  assumes "1 \<le> n" and "n \<le> maxNestingDepth"
  shows "validatePayload (Some (nested n)) = None \<and>
    rs_status (writeGetHit (it\<lparr>Payload := Some (nested n)\<rparr>) us) = (if n + 2 \<le> maxNestingDepth then 200 else 500)"
  using nested_ok [OF assms] nested_facts [OF assms]
    get_hit_status [of "it\<lparr>Payload := Some (nested n)\<rparr>" "nested n" us]
  by (simp add: item_depth_def)

theorem deep_payload_unreadable_witness:
  "validatePayload (Some (nested 9999)) = None \<and> rs_status (writeGetHit (item1\<lparr>Payload := Some (nested 9999)\<rparr>) (\<lambda>_. 0)) = 500"
  using deep_payload_unreadable [of 9999 item1 "\<lambda>_. 0"] by (simp add: maxNestingDepth_def)

lemma parseHead_limit: "parseHead Q raw = Inr (q, sq) \<Longrightarrow> 0 < sl_Limit q"
  using normalizeLimit_bounds
  by (fastforce simp: parseHead_def parseScopeLimit_def checked_def normalized_def Let_def split: sum.splits option.splits if_splits)

lemma handleHead_run:
  assumes "rq_method rq = MethodGet" "parseHead (rt_quote rt) (rq_query rq) = Inr (q, sq)"
    "head (rt_clock rt 0) (sl_Scope q) sq (sl_Limit q) s = ((its, tr, there), s')"
  shows "handleHead rt api rq s =
    (Reply (if there then writeItemsHit api (rt_since rt) its tr [] else writeItemsMiss api (rt_since rt) []), s')"
  unfolding handleHead_def getting_def assms(1,2) pageReply_def
  by (simp only: assms(3) sum.case prod.case if_False simp_thms not_True_eq_False)

definition page_reply :: "response \<Rightarrow> Item list \<Rightarrow> bool \<Rightarrow> orderedFields \<Rightarrow> int \<Rightarrow> durations \<Rightarrow> bool" where
  \<comment> \<open>the status of a page, and its body within the cap when it is 200\<close>
  "page_reply r its tr extra cap us \<longleftrightarrow> rs_status r = page_status its tr extra cap us \<and>
     (rs_status r = 200 \<longrightarrow> marshalWithApproxSize (page_fields its tr extra) (us 0) = Some (rs_body r) \<and>
        int (length (rs_body r)) \<le> cap)"

lemma page_replyI:
  assumes "rs_status (writeJSONWithMetaCap 200 (page_fields its tr extra) cap us) = page_status its tr extra cap us"
  shows "page_reply (writeJSONWithMetaCap 200 (page_fields its tr extra) cap us) its tr extra cap us"
proof -
  let ?r = "writeJSONWithMetaCap 200 (page_fields its tr extra) cap us"
  have "marshalWithApproxSize (page_fields its tr extra) (us 0) = Some (rs_body ?r) \<and> int (length (rs_body ?r)) \<le> cap"
    if s: "page_status its tr extra cap us = 200"
  proof -
    obtain out where "marshalWithApproxSize (page_fields its tr extra) (us 0) = Some out" "int (length out) \<le> cap"
      using s by (auto simp: page_status_def split: if_splits option.splits)
    then show ?thesis by (simp add: writeJSONWithMetaCap_def)
  qed
  then show ?thesis using assms by (simp add: page_reply_def)
qed

lemma hit_reply:
  assumes inv: "store_inv s" and page: "mset its \<subseteq># mset (snd (contents (view s) k))" and extra: "\<forall>f \<in> set extra. \<exists>n. snd f = JInt n"
  shows "page_reply (writeItemsHit (NewAPI (score s)) us its tr extra) its tr extra (maxStoreBytes (score s)) us"
proof -
  have "writeItemsHit (NewAPI (score s)) us its tr extra =
      writeJSONWithMetaCap 200 (page_fields its tr extra) (maxStoreBytes (score s)) us"
    using page_fits [OF inv page] by (auto simp: writeItemsHit_def NewAPI_def page_fields_def)
  then show ?thesis using page_replyI page_hit_status [OF inv page extra] by metis
qed

lemma miss_reply:
  assumes "\<forall>f \<in> set extra. \<exists>n. snd f = JInt n"
  shows "page_reply (writeItemsMiss (NewAPI c) us extra) [] False extra (maxStoreBytes c) us"
proof -
  have "writeItemsMiss (NewAPI c) us extra = writeJSONWithMetaCap 200 (page_fields [] False extra) (maxStoreBytes c) us"
    by (simp add: writeItemsMiss_def NewAPI_def page_fields_def)
  then show ?thesis using page_replyI cap_fields_status(1) [OF _ assms] by simp
qed

lemma past_mset: "mset (take n (past sq k s)) \<subseteq># mset (snd (contents (view s) k))"
proof -
  have "mset (take n (past sq k s)) \<subseteq># mset (past sq k s)"
    by (metis append_take_drop_id mset_append mset_subset_eq_add_left)
  also have "\<dots> \<subseteq># mset (snd (contents (view s) k))" by (simp add: past_def multiset_filter_subset)
  finally show ?thesis .
qed

text \<open>
  C19. What \<open>/head\<close> answers. A well-formed request is answered with the items of the scope after the cursor, up to
  the limit, and whether there are more: 500 if a payload of the page nests within three levels of the scanner's
  limit, else 507 exactly when the encoded body is longer than the store's byte cap, else 200 with that body. The
  estimate made before encoding never refuses a page that would fit.
\<close>

theorem head_answer:
  assumes "live cfg s" and "rq_path rq = ''/head''" and "rq_method rq = MethodGet"
    and "parseHead (rt_quote rt) (rq_query rq) = Inr (q, sq)"
  shows "\<exists>r s'. answers rt rq s = Some (Reply r, s') \<and> view s' = view s \<and>
    page_reply r (take (nat (sl_Limit q)) (past sq (sl_Scope q) s)) (sl_Limit q < int (length (past sq (sl_Scope q) s))) []
      (maxStoreBytes (score s)) (rt_since rt)"
proof -
  obtain m where inv: "store_inv s" using live_good [OF assms(1)] goodD(1) by metis
  let ?past = "past sq (sl_Scope q) s"
  obtain s' where h: "head (rt_clock rt 0) (sl_Scope q) sq (sl_Limit q) s =
      ((take (nat (sl_Limit q)) ?past, sl_Limit q < int (length ?past), view s (sl_Scope q) \<noteq> None), s')" "view s' = view s"
    by (rule head_run [OF inv parseHead_limit [OF assms(4)]])
  have route: "answers rt rq s = Some (handleHead rt (NewAPI (score s)) rq s)"
    using assms(2) by (simp add: answers_def RegisterRoutes_def)
  show ?thesis
  proof (cases "view s (sl_Scope q)")
    case None
    then have none: "?past = []" by (simp add: past_def contents_def)
    show ?thesis
      using miss_reply [of "[]" "score s" "rt_since rt"] route handleHead_run [OF assms(3,4) h(1)] None none h(2)
        parseHead_limit [OF assms(4)] by simp
  next
    case (Some p)
    show ?thesis
      using hit_reply [OF inv past_mset [of "nat (sl_Limit q)" sq "sl_Scope q" s], of "[]"] route
        handleHead_run [OF assms(3,4) h(1)] Some h(2) by simp
  qed
qed

definition head_s :: http_request where
  "head_s = \<lparr>rq_method = ''GET'', rq_path = ''/head'', rq_query = ''scope=s&limit=1'', rq_body = []\<rparr>"

theorem head_answer_witness:
  "\<exists>r s'. answers rt0 head_s store2 = Some (Reply r, s') \<and> view s' = view store2"
proof -
  have q: "parseHead (rt_quote rt0) (rq_query head_s) = Inr (\<lparr>sl_Scope = ''s'', sl_Limit = 1\<rparr>, 0)" by code_simp
  have "rq_path head_s = ''/head''" "rq_method head_s = MethodGet" by (simp_all add: head_s_def MethodGet_def)
  from head_answer [OF live2 this q] show ?thesis by blast
qed

end
