(* ===== verification/Gateway.thy ===== *)
theory Gateway
  imports Reach
begin

text \<open>
  The Go interface (\<open>gateway.go\<close>) and the copies it makes at its boundary (\<open>gateway_clone.go\<close>). Payloads are
  slices of byte arrays the caller can write to at any time, so here items hold slices into a heap of arrays.
  A method clones what it is given, runs the store on the bytes the clone has, and hands out clones of what
  the store returns. The lemmas say that a clone reads as its original and shares no array with it, and that
  a method makes at most one legal step of the store whatever items it is given.
\<close>

section \<open>Arrays and slices\<close>

type_synonym heap = "bytestr list"

record array_slice =
  as_arr :: nat
  as_off :: nat
  as_len :: nat

type_synonym slice = "array_slice option"

definition slice_bytes :: "heap \<Rightarrow> slice \<Rightarrow> raw" where
  "slice_bytes h p = map_option (\<lambda>s. take (as_len s) (drop (as_off s) (h ! as_arr s))) p"

definition slice_in :: "heap \<Rightarrow> slice \<Rightarrow> bool" where
  "slice_in h p = (case p of None \<Rightarrow> True
     | Some s \<Rightarrow> as_arr s < length h \<and> as_off s + as_len s \<le> length (h ! as_arr s))"

definition new_array :: "bytestr \<Rightarrow> heap \<Rightarrow> array_slice \<times> heap" where
  "new_array bs h = (\<lparr>as_arr = length h, as_off = 0, as_len = length bs\<rparr>, h @ [bs])"

record ref_item =
  ri_Scope :: bytestr
  ri_ID :: bytestr
  ri_Seq :: u64
  ri_Ts :: int
  ri_Payload :: slice
  ri_renderBytes :: slice
  ri_counter :: "nat option"

definition item_at :: "heap \<Rightarrow> ref_item \<Rightarrow> Item" where
  \<comment> \<open>the item a holder of the slices reads now\<close>
  "item_at h it = \<lparr>Scope = ri_Scope it, ID = ri_ID it, Seq = ri_Seq it, Ts = ri_Ts it,
     Payload = slice_bytes h (ri_Payload it), renderBytes = slice_bytes h (ri_renderBytes it), counter = ri_counter it\<rparr>"

section \<open>Clones\<close>

definition clonePayload :: "slice \<Rightarrow> heap \<Rightarrow> slice \<times> heap" where
  "clonePayload p h =
     (case p of
        None \<Rightarrow> (None, h)
      | Some s \<Rightarrow> (case new_array (replicate (as_len s) CHR 0x00) h of (out, h1) \<Rightarrow>
          (Some out, h1[as_arr out := take (as_len s) (drop (as_off s) (h1 ! as_arr s))])))"

definition cloneItemPayload :: "ref_item \<Rightarrow> heap \<Rightarrow> ref_item \<times> heap" where
  "cloneItemPayload it h =
     (case clonePayload (ri_Payload it) h of (p, h') \<Rightarrow>
        (it\<lparr>ri_Payload := p, ri_renderBytes := None, ri_counter := None\<rparr>, h'))"

fun cloneItemsPayloads :: "ref_item list \<Rightarrow> heap \<Rightarrow> ref_item list \<times> heap" where
  "cloneItemsPayloads [] h = ([], h)"
| "cloneItemsPayloads (it # its) h =
     (case cloneItemPayload it h of (it', h1) \<Rightarrow>
      case cloneItemsPayloads its h1 of (its', h2) \<Rightarrow> (it' # its', h2))"

text \<open>A map of slices is the list of its entries, in the order the range visits them.\<close>

fun cloneGroupedItemPayloads :: "(bytestr \<times> ref_item list) list \<Rightarrow> heap \<Rightarrow> (bytestr \<times> ref_item list) list \<times> heap" where
  "cloneGroupedItemPayloads [] h = ([], h)"
| "cloneGroupedItemPayloads ((scope, its) # rest) h =
     (case cloneItemsPayloads its h of (cloned, h1) \<Rightarrow>
      case cloneGroupedItemPayloads rest h1 of (out, h2) \<Rightarrow> ((scope, cloned) # out, h2))"

section \<open>Methods\<close>

text \<open>An item the store hands out points at the store's own arrays.\<close>

definition lend_raw :: "raw \<Rightarrow> heap \<Rightarrow> slice \<times> heap" where
  "lend_raw p h = (case p of None \<Rightarrow> (None, h) | Some bs \<Rightarrow> (case new_array bs h of (s, h') \<Rightarrow> (Some s, h')))"

definition lend :: "Item \<Rightarrow> heap \<Rightarrow> ref_item \<times> heap" where
  "lend it h =
     (case lend_raw (Payload it) h of (p, h1) \<Rightarrow>
      case lend_raw (renderBytes it) h1 of (r, h2) \<Rightarrow>
        (\<lparr>ri_Scope = Scope it, ri_ID = ID it, ri_Seq = Seq it, ri_Ts = Ts it, ri_Payload = p,
          ri_renderBytes = r, ri_counter = counter it\<rparr>, h2))"

definition handed :: "Item \<Rightarrow> heap \<Rightarrow> ref_item \<times> heap" where
  \<comment> \<open>what the caller gets for an item the store returned\<close>
  "handed it h = (case lend it h of (r, h1) \<Rightarrow> cloneItemPayload r h1)"

fun lend_all :: "Item list \<Rightarrow> heap \<Rightarrow> ref_item list \<times> heap" where
  "lend_all [] h = ([], h)"
| "lend_all (it # its) h =
     (case lend it h of (r, h1) \<Rightarrow> case lend_all its h1 of (rs, h2) \<Rightarrow> (r # rs, h2))"

definition handed_all :: "Item list \<Rightarrow> heap \<Rightarrow> ref_item list \<times> heap" where
  "handed_all its h = (case lend_all its h of (rs, h1) \<Rightarrow> cloneItemsPayloads rs h1)"

definition gw_Append :: "clock \<Rightarrow> ref_item \<Rightarrow> heap \<Rightarrow> store \<Rightarrow> (ref_item \<times> gerr option) \<times> heap \<times> store" where
  "gw_Append clk item h s =
     (case cloneItemPayload item h of (item', h1) \<Rightarrow>
      case appendOne clk (item_at h1 item') s of
        (Inl e, s') \<Rightarrow> (case handed Item_zero h1 of (r, h2) \<Rightarrow> ((r, Some e), h2, s'))
      | (Inr result, s') \<Rightarrow> (case handed result h1 of (r, h2) \<Rightarrow> ((r, None), h2, s')))"

definition gw_Upsert :: "clock \<Rightarrow> ref_item \<Rightarrow> heap \<Rightarrow> store \<Rightarrow> (ref_item \<times> bool \<times> gerr option) \<times> heap \<times> store" where
  "gw_Upsert clk item h s =
     (case cloneItemPayload item h of (item', h1) \<Rightarrow>
      case upsertOne clk (item_at h1 item') s of
        (Inl e, s') \<Rightarrow> (case handed Item_zero h1 of (r, h2) \<Rightarrow> ((r, False, Some e), h2, s'))
      | (Inr (result, created), s') \<Rightarrow> (case handed result h1 of (r, h2) \<Rightarrow> ((r, created, None), h2, s')))"

definition gw_Update :: "clock \<Rightarrow> ref_item \<Rightarrow> heap \<Rightarrow> store \<Rightarrow> int res \<times> heap \<times> store" where
  "gw_Update clk item h s =
     (case cloneItemPayload item h of (item', h1) \<Rightarrow>
      case updateOne clk (item_at h1 item') s of (r, s') \<Rightarrow> (r, h1, s'))"

definition gw_CounterAdd :: "clock \<Rightarrow> bytestr \<Rightarrow> bytestr \<Rightarrow> int \<Rightarrow> store \<Rightarrow> (int \<times> bool) res \<times> store" where
  "gw_CounterAdd clk scope i n s = counterAddOne clk scope i n s"

definition gw_Delete :: "clock \<Rightarrow> bytestr \<Rightarrow> bytestr \<Rightarrow> u64 \<Rightarrow> store \<Rightarrow> int res \<times> store" where
  "gw_Delete clk scope i sq s = deleteOne clk scope i sq s"

definition gw_DeleteUpTo :: "clock \<Rightarrow> bytestr \<Rightarrow> u64 \<Rightarrow> store \<Rightarrow> int res \<times> store" where
  "gw_DeleteUpTo clk scope maxSeq s = deleteUpTo clk scope maxSeq s"

definition gw_DeleteScope :: "clock \<Rightarrow> bytestr \<Rightarrow> store \<Rightarrow> (int \<times> bool) res \<times> store" where
  "gw_DeleteScope clk scope s = deleteScope clk scope s"

definition gw_Wipe :: "clock \<Rightarrow> store \<Rightarrow> (int \<times> int \<times> int) \<times> store" where
  "gw_Wipe clk s = wipe clk s"

definition grouped_at :: "heap \<Rightarrow> (bytestr \<times> ref_item list) list \<Rightarrow> grouped" where
  "grouped_at h g = map (\<lambda>(k, its). (k, map (item_at h) its)) g"

definition gw_Warm :: "clock \<Rightarrow> (bytestr \<times> ref_item list) list \<Rightarrow> heap \<Rightarrow> store \<Rightarrow> int res \<times> heap \<times> store" where
  "gw_Warm clk g h s =
     (case cloneGroupedItemPayloads g h of (g', h1) \<Rightarrow>
      case replaceScopes clk (grouped_at h1 g') s of (r, s') \<Rightarrow> (r, h1, s'))"

definition gw_Rebuild :: "clock \<Rightarrow> (bytestr \<times> ref_item list) list \<Rightarrow> heap \<Rightarrow> store \<Rightarrow> (int \<times> int) res \<times> heap \<times> store" where
  "gw_Rebuild clk g h s =
     (case cloneGroupedItemPayloads g h of (g', h1) \<Rightarrow>
      case rebuildAll clk (grouped_at h1 g') s of (r, s') \<Rightarrow> (r, h1, s'))"

definition gw_Head :: "int \<Rightarrow> bytestr \<Rightarrow> u64 \<Rightarrow> int \<Rightarrow> heap \<Rightarrow> store \<Rightarrow> (ref_item list \<times> bool \<times> bool) \<times> heap \<times> store" where
  "gw_Head now scope afterSeq limit h s =
     (case head now scope afterSeq limit s of ((its, truncated, there), s') \<Rightarrow>
      case handed_all its h of (rs, h') \<Rightarrow> ((rs, truncated, there), h', s'))"

definition gw_Tail :: "int \<Rightarrow> bytestr \<Rightarrow> int \<Rightarrow> int \<Rightarrow> heap \<Rightarrow> store \<Rightarrow> (ref_item list \<times> bool \<times> bool) \<times> heap \<times> store" where
  "gw_Tail now scope limit offset h s =
     (case tail now scope limit offset s of ((its, hasMore, there), s') \<Rightarrow>
      case handed_all its h of (rs, h') \<Rightarrow> ((rs, hasMore, there), h', s'))"

definition gw_get :: "int \<Rightarrow> bytestr \<Rightarrow> bytestr \<Rightarrow> u64 \<Rightarrow> heap \<Rightarrow> store \<Rightarrow> (ref_item \<times> bool) \<times> heap \<times> store" where
  \<comment> \<open>what both lookups do with the store's answer; a miss is the zero item\<close>
  "gw_get now scope i sq h s =
     (case store_get now scope i sq s of
        (None, s') \<Rightarrow> (case handed Item_zero h of (r, h') \<Rightarrow> ((r, False), h', s'))
      | (Some item, s') \<Rightarrow> (case handed item h of (r, h') \<Rightarrow> ((r, True), h', s')))"

definition gw_GetByID :: "int \<Rightarrow> bytestr \<Rightarrow> bytestr \<Rightarrow> heap \<Rightarrow> store \<Rightarrow> (ref_item \<times> bool) \<times> heap \<times> store" where
  "gw_GetByID now scope i h s = gw_get now scope i 0 h s"

definition gw_GetBySeq :: "int \<Rightarrow> bytestr \<Rightarrow> u64 \<Rightarrow> heap \<Rightarrow> store \<Rightarrow> (ref_item \<times> bool) \<times> heap \<times> store" where
  "gw_GetBySeq now scope sq h s = gw_get now scope [] sq h s"

definition gw_render :: "int \<Rightarrow> bytestr \<Rightarrow> bytestr \<Rightarrow> u64 \<Rightarrow> heap \<Rightarrow> store \<Rightarrow> (slice \<times> bool) \<times> heap \<times> store" where
  "gw_render now scope i sq h s =
     (case render now scope i sq s of
        (None, s') \<Rightarrow> ((None, False), h, s')
      | (Some body, s') \<Rightarrow>
          (case lend_raw body h of (p, h1) \<Rightarrow> case clonePayload p h1 of (p', h2) \<Rightarrow> ((p', True), h2, s')))"

definition gw_RenderByID :: "int \<Rightarrow> bytestr \<Rightarrow> bytestr \<Rightarrow> heap \<Rightarrow> store \<Rightarrow> (slice \<times> bool) \<times> heap \<times> store" where
  "gw_RenderByID now scope i h s = gw_render now scope i 0 h s"

definition gw_RenderBySeq :: "int \<Rightarrow> bytestr \<Rightarrow> u64 \<Rightarrow> heap \<Rightarrow> store \<Rightarrow> (slice \<times> bool) \<times> heap \<times> store" where
  "gw_RenderBySeq now scope sq h s = gw_render now scope [] sq h s"

definition gw_Stats :: "store \<Rightarrow> storeStats" where
  "gw_Stats s = store_stats s"

definition gw_ScopeList :: "string \<Rightarrow> string \<Rightarrow> int \<Rightarrow> store \<Rightarrow> scopeListEntry list \<times> bool" where
  "gw_ScopeList pre aft limit s = scopeList pre aft limit s"

definition gw_Subscribe :: "bytestr \<Rightarrow> store \<Rightarrow> nat res \<times> store" where
  "gw_Subscribe scope s = store_Subscribe scope s"

definition NewGateway :: "(bytestr \<Rightarrow> 64 word) \<Rightarrow> clock \<Rightarrow> Config \<Rightarrow> store" where
  "NewGateway seed clk cfg = newStore seed clk cfg"

section \<open>What a clone is\<close>

definition cleared :: "Item \<Rightarrow> Item" where
  "cleared it = it\<lparr>renderBytes := None, counter := None\<rparr>"

definition arrays :: "ref_item list \<Rightarrow> nat list" where
  \<comment> \<open>the arrays the items point at\<close>
  "arrays its = concat (map (\<lambda>it. case ri_Payload it of None \<Rightarrow> [] | Some s \<Rightarrow> [as_arr s]) its)"

definition unmarked :: "ref_item \<Rightarrow> bool" where
  "unmarked it \<longleftrightarrow> ri_renderBytes it = None \<and> ri_counter it = None"

lemma arrays_simps [simp]:
  "arrays [] = []"
  "arrays (it # its) = (case ri_Payload it of None \<Rightarrow> [] | Some s \<Rightarrow> [as_arr s]) @ arrays its"
  "arrays (its @ its') = arrays its @ arrays its'"
  by (simp_all add: arrays_def)

lemma slice_grow: "slice_in h p \<Longrightarrow> slice_in (h @ e) p \<and> slice_bytes (h @ e) p = slice_bytes h p"
  by (auto simp: slice_in_def slice_bytes_def nth_append split: option.splits)

lemma clonePayload_run:
  assumes "slice_in h p"
  shows "clonePayload p h = (case p of None \<Rightarrow> (None, h)
      | Some s \<Rightarrow> (Some \<lparr>as_arr = length h, as_off = 0, as_len = as_len s\<rparr>, h @ [take (as_len s) (drop (as_off s) (h ! as_arr s))]))"
  using assms by (auto simp: clonePayload_def new_array_def slice_in_def nth_append split: option.splits)

text \<open>
  A list of clones: the caller's arrays are as they were, the clones read as the originals with the unexported
  fields cleared, and they point at new arrays, one each.
\<close>

definition cloned :: "heap \<Rightarrow> Item list \<Rightarrow> ref_item list \<Rightarrow> heap \<Rightarrow> bool" where
  "cloned h vs its' h' \<longleftrightarrow> (\<exists>e. h' = h @ e) \<and> map (item_at h') its' = map cleared vs \<and>
     (\<forall>it \<in> set its'. unmarked it \<and> slice_in h' (ri_Payload it)) \<and> arrays its' = [length h..<length h']"

lemma clone_item:
  assumes "slice_in h (ri_Payload it)" "cloneItemPayload it h = (it', h')"
  shows "cloned h [item_at h it] [it'] h'"
proof (cases "ri_Payload it")
  case None
  then have "it' = it\<lparr>ri_Payload := None, ri_renderBytes := None, ri_counter := None\<rparr>" "h' = h"
    using assms(2) by (simp_all add: cloneItemPayload_def clonePayload_def)
  then show ?thesis
    using None by (simp add: cloned_def unmarked_def item_at_def cleared_def slice_bytes_def slice_in_def)
next
  case (Some s)
  let ?bs = "take (as_len s) (drop (as_off s) (h ! as_arr s))"
  have len: "length ?bs = as_len s" using assms(1) Some by (auto simp: slice_in_def)
  have "clonePayload (ri_Payload it) h = (Some \<lparr>as_arr = length h, as_off = 0, as_len = as_len s\<rparr>, h @ [?bs])"
    using clonePayload_run [OF assms(1)] Some by simp
  then have "it' = it\<lparr>ri_Payload := Some \<lparr>as_arr = length h, as_off = 0, as_len = as_len s\<rparr>, ri_renderBytes := None,
      ri_counter := None\<rparr>" "h' = h @ [?bs]"
    using assms(2) by (simp_all add: cloneItemPayload_def)
  then show ?thesis
    using Some len by (simp add: cloned_def unmarked_def item_at_def cleared_def slice_bytes_def slice_in_def)
qed

lemma unmarked_at:
  assumes "unmarked it" "\<forall>a \<in> set (arrays [it]). h2 ! a = h1 ! a"
  shows "item_at h2 it = item_at h1 it"
  using assms by (cases "ri_Payload it") (auto simp: unmarked_def item_at_def slice_bytes_def)

lemma item_at_grow:
  assumes "unmarked it" "slice_in h (ri_Payload it)"
  shows "item_at (h @ e) it = item_at h it"
  using assms slice_grow by (simp add: item_at_def unmarked_def slice_bytes_def)

lemma cloned_append:
  assumes "cloned h vs xs h1" "cloned h1 ws ys h2"
  shows "cloned h (vs @ ws) (xs @ ys) h2"
proof -
  obtain e e' where e: "h1 = h @ e" "h2 = h1 @ e'" using assms by (auto simp: cloned_def)
  have "map (item_at h2) xs = map (item_at h1) xs"
    by (rule map_cong) (use assms(1) item_at_grow in \<open>auto simp: cloned_def e(2)\<close>)
  also have "\<dots> = map cleared vs" using assms(1) unfolding cloned_def by blast
  finally have "map (item_at h2) xs = map cleared vs" .
  moreover have "\<forall>it \<in> set xs. slice_in h2 (ri_Payload it)" using assms(1) slice_grow by (auto simp: cloned_def e(2))
  moreover have "[length h..<length h1] @ [length h1..<length h2] = [length h..<length h2]"
    using upt_add_eq_append [of "length h" "length h1" "length e'"] by (simp add: e add.assoc)
  ultimately show ?thesis using assms e unfolding cloned_def by auto
qed

lemma cloned_cong: "map cleared vs = map cleared ws \<Longrightarrow> cloned h vs its h' = cloned h ws its h'"
  by (simp add: cloned_def)

lemma cleared_grow: "slice_in h (ri_Payload it) \<Longrightarrow> cleared (item_at (h @ e) it) = cleared (item_at h it)"
  using slice_grow by (simp add: cleared_def item_at_def)

lemma cloned_items:
  assumes "\<forall>it \<in> set its. slice_in h (ri_Payload it)" "cloneItemsPayloads its h = (its', h')"
  shows "cloned h (map (item_at h) its) its' h'"
  using assms
proof (induction its arbitrary: h its' h')
  case Nil
  then show ?case by (simp add: cloned_def)
next
  case (Cons it its)
  obtain it1 h1 where c: "cloneItemPayload it h = (it1, h1)" by (cases "cloneItemPayload it h")
  obtain its2 h2 where r: "cloneItemsPayloads its h1 = (its2, h2)" by (cases "cloneItemsPayloads its h1")
  have out: "its' = it1 # its2" "h' = h2" using Cons.prems(2) c r by simp_all
  have "slice_in h (ri_Payload it)" using Cons.prems(1) by simp
  note first = clone_item [OF this c]
  obtain e where e: "h1 = h @ e" using first by (auto simp: cloned_def)
  have rest: "\<forall>x \<in> set its. slice_in h1 (ri_Payload x)" using Cons.prems(1) slice_grow by (simp add: e)
  have "map cleared (map (item_at h1) its) = map cleared (map (item_at h) its)"
    using Cons.prems(1) cleared_grow by (simp add: e)
  then have "cloned h1 (map (item_at h) its) its2 h2" using Cons.IH [OF rest r] cloned_cong by blast
  then show ?case using cloned_append [OF first] by (simp add: out)
qed

lemma cloned_groups:
  assumes "\<forall>p \<in> set g. \<forall>it \<in> set (snd p). slice_in h (ri_Payload it)" "cloneGroupedItemPayloads g h = (g', h')"
  shows "map fst g' = map fst g \<and> map (\<lambda>p. length (snd p)) g' = map (\<lambda>p. length (snd p)) g \<and>
    cloned h (concat (map (\<lambda>p. map (item_at h) (snd p)) g)) (concat (map snd g')) h'"
  using assms
proof (induction g arbitrary: h g' h')
  case Nil
  then show ?case by (simp add: cloned_def)
next
  case (Cons p g)
  obtain k its where p: "p = (k, its)" by (cases p)
  obtain its1 h1 where c: "cloneItemsPayloads its h = (its1, h1)" by (cases "cloneItemsPayloads its h")
  obtain g2 h2 where r: "cloneGroupedItemPayloads g h1 = (g2, h2)" by (cases "cloneGroupedItemPayloads g h1")
  have out: "g' = (k, its1) # g2" "h' = h2" using Cons.prems(2) p c r by simp_all
  have "\<forall>it \<in> set its. slice_in h (ri_Payload it)" using Cons.prems(1) p by simp
  note first = cloned_items [OF this c]
  obtain e where e: "h1 = h @ e" using first by (auto simp: cloned_def)
  have rest: "\<forall>p \<in> set g. \<forall>it \<in> set (snd p). slice_in h1 (ri_Payload it)" using Cons.prems(1) slice_grow by (simp add: e)
  note IH = Cons.IH [OF rest r]
  have "map cleared (map (item_at h1) (snd q)) = map cleared (map (item_at h) (snd q))" if "q \<in> set g" for q
    using Cons.prems(1) cleared_grow that by (simp add: e)
  then have "map cleared (concat (map (\<lambda>p. map (item_at h1) (snd p)) g)) = map cleared (concat (map (\<lambda>p. map (item_at h) (snd p)) g))"
    unfolding map_concat by (simp cong: map_cong)
  then have "cloned h1 (concat (map (\<lambda>p. map (item_at h) (snd p)) g)) (concat (map snd g2)) h2"
    using IH cloned_cong by blast
  moreover have "length its1 = length its" using first unfolding cloned_def by (metis length_map)
  ultimately show ?case using cloned_append [OF first] IH by (simp add: out p)
qed

text \<open>Splitting a list of lists along known lengths.\<close>

lemma concat_same_shape:
  assumes "concat xss = concat yss" "map length xss = map length yss"
  shows "xss = yss"
  using assms by (intro concat_injective) (auto simp: list_eq_iff_nth_eq in_set_zip map_eq_conv dest: map_eq_imp_length_eq)

lemma grouped_clone:
  assumes "\<forall>p \<in> set g. \<forall>it \<in> set (snd p). slice_in h (ri_Payload it)" "cloneGroupedItemPayloads g h = (g', h')"
  shows "grouped_at h' g' = map (\<lambda>(k, its). (k, map cleared its)) (grouped_at h g)"
proof -
  note C = cloned_groups [OF assms]
  have m: "map (item_at h') (concat (map snd g')) = map cleared (concat (map (\<lambda>p. map (item_at h) (snd p)) g))"
    using C unfolding cloned_def by blast
  have "map (\<lambda>p. map (item_at h') (snd p)) g' = map (\<lambda>p. map cleared (map (item_at h) (snd p))) g"
  proof (rule concat_same_shape)
    show "concat (map (\<lambda>p. map (item_at h') (snd p)) g') = concat (map (\<lambda>p. map cleared (map (item_at h) (snd p))) g)"
      using m by (simp add: map_concat comp_def)
    show "map length (map (\<lambda>p. map (item_at h') (snd p)) g') = map length (map (\<lambda>p. map cleared (map (item_at h) (snd p))) g)"
      using C by (simp add: comp_def)
  qed
  moreover have "map fst g' = map fst g" using C ..
  ultimately show ?thesis
    unfolding grouped_at_def by (auto simp: list_eq_iff_nth_eq split_def prod_eq_iff dest: map_eq_imp_length_eq)
qed

section \<open>What is handed out\<close>

lemma lend_raw_run:
  "lend_raw p h = (s, h') \<Longrightarrow> (\<exists>e. h' = h @ e) \<and> slice_in h' s \<and> slice_bytes h' s = p"
  by (auto simp: lend_raw_def new_array_def slice_in_def slice_bytes_def split: option.splits)

lemma lend_run:
  assumes "lend it h = (r, h')"
  shows "(\<exists>e. h' = h @ e) \<and> slice_in h' (ri_Payload r) \<and> cleared (item_at h' r) = cleared it"
proof -
  obtain p h1 where p: "lend_raw (Payload it) h = (p, h1)" by (cases "lend_raw (Payload it) h")
  obtain q h2 where q: "lend_raw (renderBytes it) h1 = (q, h2)" by (cases "lend_raw (renderBytes it) h1")
  obtain e e' where e: "h1 = h @ e" "h2 = h1 @ e'" using lend_raw_run [OF p] lend_raw_run [OF q] by blast
  have "slice_in h2 p \<and> slice_bytes h2 p = Payload it" using lend_raw_run [OF p] slice_grow by (auto simp: e(2))
  moreover have "h' = h2" "ri_Payload r = p" "ri_Scope r = Scope it" "ri_ID r = ID it" "ri_Seq r = Seq it" "ri_Ts r = Ts it"
    using assms p q by (auto simp: lend_def)
  ultimately show ?thesis by (simp add: cleared_def item_at_def e)
qed

lemma lend_all_run:
  assumes "lend_all its h = (rs, h')"
  shows "(\<exists>e. h' = h @ e) \<and> (\<forall>r \<in> set rs. slice_in h' (ri_Payload r)) \<and> map cleared (map (item_at h') rs) = map cleared its"
  using assms
proof (induction its arbitrary: h rs h')
  case (Cons it its)
  obtain r h1 where r: "lend it h = (r, h1)" by (cases "lend it h")
  obtain rs2 h2 where s: "lend_all its h1 = (rs2, h2)" by (cases "lend_all its h1")
  note L = lend_run [OF r] and I = Cons.IH [OF s]
  obtain e where e: "h2 = h1 @ e" using I by blast
  have "slice_in h2 (ri_Payload r)" "cleared (item_at h2 r) = cleared it"
    using L slice_grow cleared_grow by (auto simp: e)
  then show ?case using L I Cons.prems r s by auto
qed simp

lemma handed_all_run:
  assumes "handed_all its h = (rs, h')"
  obtains e h1 where "h1 = h @ e" "cloned h1 its rs h'"
proof -
  obtain ls h1 where l: "lend_all its h = (ls, h1)" by (cases "lend_all its h")
  note L = lend_all_run [OF l]
  have c: "cloneItemsPayloads ls h1 = (rs, h')" using assms l by (simp add: handed_all_def)
  have "cloned h1 (map (item_at h1) ls) rs h'" by (rule cloned_items [OF _ c]) (use L in blast)
  then have "cloned h1 its rs h'" using L cloned_cong by blast
  then show thesis using that L by blast
qed

section \<open>Calls as steps\<close>

lemma unmarked_client: "unmarked it \<Longrightarrow> client_item (item_at h it)"
  by (simp add: unmarked_def client_item_def item_at_def slice_bytes_def)

lemma clone_unmarked: "cloneItemPayload it h = (it', h') \<Longrightarrow> unmarked it'"
  by (auto simp: unmarked_def cloneItemPayload_def split: prod.splits)

lemma clones_unmarked: "cloneItemsPayloads its h = (its', h') \<Longrightarrow> \<forall>y \<in> set its'. unmarked y"
proof (induction its arbitrary: h its' h')
  case (Cons it its)
  then show ?case using clone_unmarked by (fastforce split: prod.splits)
qed simp

lemma groups_unmarked:
  "cloneGroupedItemPayloads g h = (g', h') \<Longrightarrow> map fst g' = map fst g \<and> (\<forall>p \<in> set g'. \<forall>y \<in> set (snd p). unmarked y)"
proof (induction g arbitrary: h g' h')
  case (Cons p g)
  then show ?case using clones_unmarked by (cases p) (fastforce split: prod.splits)
qed simp

lemma groups_client:
  assumes "cloneGroupedItemPayloads g h = (g', h')" "distinct (map fst g)"
  shows "client_batch (grouped_at h1 g')"
  using groups_unmarked [OF assms(1)] assms(2) unmarked_client
  by (auto simp: client_batch_def grouped_at_def split_def comp_def)

text \<open>A call of the interface, as the step it makes of the store; a map has distinct keys.\<close>

inductive gw_call :: "store \<Rightarrow> store \<Rightarrow> bool" where
  gc_append: "gw_Append clk it h s = (out, h', s') \<Longrightarrow> gw_call s s'"
| gc_upsert: "gw_Upsert clk it h s = (out2, h', s') \<Longrightarrow> gw_call s s'"
| gc_update: "gw_Update clk it h s = (out3, h', s') \<Longrightarrow> gw_call s s'"
| gc_counter: "gw_CounterAdd clk k i n s = (out4, s') \<Longrightarrow> gw_call s s'"
| gc_delete: "gw_Delete clk k i sq s = (out5, s') \<Longrightarrow> gw_call s s'"
| gc_drain: "gw_DeleteUpTo clk k sq s = (out6, s') \<Longrightarrow> gw_call s s'"
| gc_scope: "gw_DeleteScope clk k s = (out7, s') \<Longrightarrow> gw_call s s'"
| gc_wipe: "gw_Wipe clk s = (out8, s') \<Longrightarrow> gw_call s s'"
| gc_warm: "gw_Warm clk g h s = (out9, h', s') \<Longrightarrow> distinct (map fst g) \<Longrightarrow>
    batch_bytes (grouped_at (snd (cloneGroupedItemPayloads g h)) (fst (cloneGroupedItemPayloads g h))) + reservedScopesOverhead \<le> MaxInt64 \<Longrightarrow>
    gw_call s s'"
| gc_rebuild: "gw_Rebuild clk g h s = (out10, h', s') \<Longrightarrow> distinct (map fst g) \<Longrightarrow>
    batch_bytes (grouped_at (snd (cloneGroupedItemPayloads g h)) (fst (cloneGroupedItemPayloads g h))) + reservedScopesOverhead \<le> MaxInt64 \<Longrightarrow>
    gw_call s s'"
| gc_head: "gw_Head now k sq limit h s = (out11, h', s') \<Longrightarrow> gw_call s s'"
| gc_tail: "gw_Tail now k limit off h s = (out12, h', s') \<Longrightarrow> gw_call s s'"
| gc_get_id: "gw_GetByID now k i h s = (out13, h', s') \<Longrightarrow> gw_call s s'"
| gc_get_seq: "gw_GetBySeq now k sq h s = (out14, h', s') \<Longrightarrow> gw_call s s'"
| gc_render_id: "gw_RenderByID now k i h s = (out15, h', s') \<Longrightarrow> gw_call s s'"
| gc_render_seq: "gw_RenderBySeq now k sq h s = (out16, h', s') \<Longrightarrow> gw_call s s'"
| gc_subscribe: "gw_Subscribe k s = (out17, s') \<Longrightarrow> gw_call s s'"
| gc_release: "store_unsubscribe k s = (out18, s') \<Longrightarrow> gw_call s s'"

lemma gw_call_steps: "gw_call s s' \<Longrightarrow> steps_to s s'"
proof (induction rule: gw_call.induct)
  case (gc_append clk it h s out h' s')
  obtain it' h1 where c: "cloneItemPayload it h = (it', h1)" by (cases "cloneItemPayload it h")
  have "s' = snd (appendOne clk (item_at h1 it') s)"
    using gc_append by (auto simp: gw_Append_def c split: prod.splits sum.splits)
  then show ?case using steps_toI [of "Append (item_at h1 it')" s clk] unmarked_client [OF clone_unmarked [OF c]] by simp
next
  case (gc_upsert clk it h s out2 h' s')
  obtain it' h1 where c: "cloneItemPayload it h = (it', h1)" by (cases "cloneItemPayload it h")
  have "s' = snd (upsertOne clk (item_at h1 it') s)"
    using gc_upsert by (auto simp: gw_Upsert_def c split: prod.splits sum.splits)
  then show ?case using steps_toI [of "Upsert (item_at h1 it')" s clk] unmarked_client [OF clone_unmarked [OF c]] by simp
next
  case (gc_update clk it h s out3 h' s')
  obtain it' h1 where c: "cloneItemPayload it h = (it', h1)" by (cases "cloneItemPayload it h")
  have "s' = snd (updateOne clk (item_at h1 it') s)"
    using gc_update by (auto simp: gw_Update_def c split: prod.splits)
  then show ?case using steps_toI [of "Update (item_at h1 it')" s clk] unmarked_client [OF clone_unmarked [OF c]] by simp
next
  case (gc_counter clk k i n s out4 s')
  then show ?case using steps_toI [of "CounterAdd k i n" s clk] by (simp add: gw_CounterAdd_def)
next
  case (gc_delete clk k i sq s out5 s')
  then show ?case using steps_toI [of "Delete k i sq" s clk] by (simp add: gw_Delete_def)
next
  case (gc_drain clk k sq s out6 s')
  then show ?case using steps_toI [of "DeleteUpTo k sq" s clk] by (simp add: gw_DeleteUpTo_def)
next
  case (gc_scope clk k s out7 s')
  then show ?case using steps_toI [of "DeleteScope k" s clk] by (simp add: gw_DeleteScope_def)
next
  case (gc_wipe clk s out8 s')
  then show ?case using steps_toI [of Wipe s clk] by (simp add: gw_Wipe_def)
next
  case (gc_warm clk g h s out9 h' s')
  obtain g' h1 where c: "cloneGroupedItemPayloads g h = (g', h1)" by (cases "cloneGroupedItemPayloads g h")
  have "s' = snd (replaceScopes clk (grouped_at h1 g') s)" using gc_warm(1) by (auto simp: gw_Warm_def c split: prod.splits)
  then show ?case using steps_toI [of "Warm (grouped_at h1 g')" s clk] groups_client [OF c gc_warm(2)] gc_warm(3) by (simp add: c)
next
  case (gc_rebuild clk g h s out10 h' s')
  obtain g' h1 where c: "cloneGroupedItemPayloads g h = (g', h1)" by (cases "cloneGroupedItemPayloads g h")
  have "s' = snd (rebuildAll clk (grouped_at h1 g') s)" using gc_rebuild(1) by (auto simp: gw_Rebuild_def c split: prod.splits)
  then show ?case using steps_toI [of "Rebuild (grouped_at h1 g')" s clk] groups_client [OF c gc_rebuild(2)] gc_rebuild(3) by (simp add: c)
next
  case (gc_head now k sq limit h s out11 h' s')
  then have "s' = snd (head now k sq limit s)" by (auto simp: gw_Head_def split: prod.splits)
  then show ?case using steps_toI [of "Head k sq limit" s "\<lambda>_. now"] by simp
next
  case (gc_tail now k limit off h s out12 h' s')
  then have "s' = snd (tail now k limit off s)" by (auto simp: gw_Tail_def split: prod.splits)
  then show ?case using steps_toI [of "Tail k limit off" s "\<lambda>_. now"] by simp
next
  case (gc_get_id now k i h s out13 h' s')
  then have "s' = snd (store_get now k i 0 s)" by (auto simp: gw_GetByID_def gw_get_def split: prod.splits option.splits)
  then show ?case using steps_toI [of "Get k i 0" s "\<lambda>_. now"] by simp
next
  case (gc_get_seq now k sq h s out14 h' s')
  then have "s' = snd (store_get now k [] sq s)" by (auto simp: gw_GetBySeq_def gw_get_def split: prod.splits option.splits)
  then show ?case using steps_toI [of "Get k [] sq" s "\<lambda>_. now"] by simp
next
  case (gc_render_id now k i h s out15 h' s')
  then have "s' = snd (render now k i 0 s)" by (auto simp: gw_RenderByID_def gw_render_def split: prod.splits option.splits)
  then show ?case using steps_toI [of "Render k i 0" s "\<lambda>_. now"] by simp
next
  case (gc_render_seq now k sq h s out16 h' s')
  then have "s' = snd (render now k [] sq s)" by (auto simp: gw_RenderBySeq_def gw_render_def split: prod.splits option.splits)
  then show ?case using steps_toI [of "Render k [] sq" s "\<lambda>_. now"] by simp
next
  case (gc_subscribe k s out17 s')
  then show ?case using steps_toI [of "SubscribeTo k" s] by (simp add: gw_Subscribe_def)
next
  case (gc_release k s out18 s')
  then show ?case using steps_toI [of "Unsubscribe k" s] by simp
qed

interpretation gw: store_client gw_call
  by unfold_locales (rule gw_call_steps)

end
