(* ===== verification/GatewayProps.thy ===== *)
theory GatewayProps
  imports Gateway Samples
begin

text \<open>The properties of the Go interface: the copies at its boundary, and its calls as steps of the store.\<close>

text \<open>
  C21. Isolation of what a caller hands in. The map \<open>Warm\<close> and \<open>Rebuild\<close> are given is copied array by array: the
  caller's arrays are as they were, the copies read as the originals with the unexported fields cleared,
  they point at new arrays, one each, and whatever the caller then writes into the arrays it has, they still
  read the same.
\<close>

theorem clone_isolates:
  assumes "\<forall>p \<in> set g. \<forall>it \<in> set (snd p). slice_in h (ri_Payload it)" and "cloneGroupedItemPayloads g h = (g', h')"
  shows "take (length h) h' = h \<and> arrays (concat (map snd g')) = [length h..<length h'] \<and>
    (\<forall>h2. (\<forall>a \<ge> length h. h2 ! a = h' ! a) \<longrightarrow>
       grouped_at h2 g' = map (\<lambda>(k, its). (k, map cleared its)) (grouped_at h g))"
proof -
  note C = cloned_groups [OF assms]
  have arr: "arrays (concat (map snd g')) = [length h..<length h']" and un: "\<forall>it \<in> set (concat (map snd g')). unmarked it"
    using C unfolding cloned_def by blast+
  have at: "\<forall>a \<in> set (arrays [y]). length h \<le> a" if "y \<in> set its" "(k, its) \<in> set g'" for y k its
  proof -
    have "set (arrays [y]) \<subseteq> set (arrays (concat (map snd g')))" using that by (force simp: arrays_def)
    then show ?thesis unfolding arr by auto
  qed
  have same: "grouped_at h2 g' = grouped_at h' g'" if keeps: "\<forall>a \<ge> length h. h2 ! a = h' ! a" for h2
  proof -
    have "item_at h2 y = item_at h' y" if "(k, its) \<in> set g'" "y \<in> set its" for k its y
    proof (rule unmarked_at)
      show "unmarked y" using un that by force
      show "\<forall>a \<in> set (arrays [y]). h2 ! a = h' ! a" using at [OF that(2,1)] keeps by blast
    qed
    then have "map (item_at h2) its = map (item_at h') its" if "(k, its) \<in> set g'" for k its using that by (intro map_cong) auto
    then show ?thesis unfolding grouped_at_def by (intro map_cong) auto
  qed
  have "take (length h) h' = h" using C by (auto simp: cloned_def)
  then show ?thesis using arr same grouped_clone [OF assms] by metis
qed

definition heap0 :: heap where
  "heap0 = [''[1,2]'', ''x7y'']"

definition ref0 :: ref_item where
  \<comment> \<open>an item that was returned for a counter in a cache that leaked its pointers\<close>
  "ref0 = \<lparr>ri_Scope = ''s'', ri_ID = ''c'', ri_Seq = 0, ri_Ts = 0,
     ri_Payload = Some \<lparr>as_arr = 1, as_off = 1, as_len = 1\<rparr>, ri_renderBytes = None, ri_counter = Some 4\<rparr>"

theorem clone_isolates_witness:
  "grouped_at [''....'', ''????'', ''7''] (fst (cloneGroupedItemPayloads [(''s'', [ref0])] heap0)) =
     [(''s'', [Item_zero\<lparr>Scope := ''s'', ID := ''c'', Payload := Some ''7''\<rparr>])]"
proof -
  let ?g = "[(''s'', [ref0])]"
  obtain g' h' where c: "cloneGroupedItemPayloads ?g heap0 = (g', h')" by (cases "cloneGroupedItemPayloads ?g heap0")
  have h': "h' = heap0 @ [''7'']"
    using c by (simp add: cloneItemPayload_def clonePayload_def new_array_def ref0_def heap0_def)
  have "\<forall>p \<in> set ?g. \<forall>it \<in> set (snd p). slice_in heap0 (ri_Payload it)" by (simp add: ref0_def heap0_def slice_in_def)
  note C = clone_isolates [OF this c]
  have same: "\<forall>a \<ge> length heap0. [''....'', ''????'', ''7''] ! a = h' ! a"
    by (auto simp: h' heap0_def nth_Cons' split: if_splits)
  have "grouped_at [''....'', ''????'', ''7''] g' = map (\<lambda>(k, its). (k, map cleared its)) (grouped_at heap0 ?g)"
    using C same by blast
  also have "\<dots> = [(''s'', [Item_zero\<lparr>Scope := ''s'', ID := ''c'', Payload := Some ''7''\<rparr>])]"
    by (simp add: grouped_at_def item_at_def cleared_def slice_bytes_def ref0_def heap0_def Item_zero_def)
  finally show ?thesis by (simp only: c fst_conv)
qed

text \<open>
  C22. Calls of the Go interface drive the store through its own transitions, whatever items they are given:
  items whose unexported fields were set, or that alias one another, included. So every property of the
  reachable stores holds for a program that uses the interface.
\<close>

theorem gateway_reaches:
  assumes "reaches cfg n s" and "(gw_call ^^ k) s s'"
  shows "\<exists>m \<le> n + k. reaches cfg m s'"
  by (rule gw.runs_reach [OF assms])

theorem gateway_reaches_witness:
  "\<exists>m \<le> 1. reaches cfg0 m (snd (snd (gw_Append clk0 ref0 heap0 boot0)))"
proof -
  have "gw_call boot0 (snd (snd (gw_Append clk0 ref0 heap0 boot0)))"
    by (rule gc_append [where out = "fst (gw_Append clk0 ref0 heap0 boot0)" and h' = "fst (snd (gw_Append clk0 ref0 heap0 boot0))"]) simp
  then have "(gw_call ^^ 1) boot0 (snd (snd (gw_Append clk0 ref0 heap0 boot0)))" by (simp add: relcompp_apply)
  from gateway_reaches [OF reaches0 this] show ?thesis by simp
qed

end
