(* ===== verification/Bridge.thy ===== *)
theory Bridge
  imports Gateway
begin

text \<open>
  The commands an operator hooks into the cache: the subscriber bridge (\<open>subscriber_command.go\<close>), a goroutine
  per reserved scope that runs a command on every wake-up, and the init command (\<open>init_command.go\<close>), run once
  at boot. Running an executable is a parameter: for the bridge it is a state that lasts until the process
  exits, for the init command a function from the store to the store it leaves and the error of \<open>cmd.Run\<close>.
\<close>

section \<open>Subscribers\<close>

datatype phase = Waiting | Running | Exited

record subscriber =
  sb_scope :: bytestr
  sb_command :: string
  sb_chan :: nat
  sb_cancelled :: bool
  sb_phase :: phase
  sb_runs :: nat

datatype start_error = ScopeIsRequired | CommandIsRequired | SubscribeFailed bytestr gerr

definition StartSubscriber :: "bytestr \<Rightarrow> string \<Rightarrow> store \<Rightarrow> (start_error + subscriber) \<times> store" where
  \<comment> \<open>the goroutine starts at its receive; nothing is drained before the first wake-up\<close>
  "StartSubscriber scope command s =
     (if scope = [] then (Inl ScopeIsRequired, s)
      else if command = [] then (Inl CommandIsRequired, s)
      else case store_Subscribe scope s of
        (Inl e, s') \<Rightarrow> (Inl (SubscribeFailed scope e), s')
      | (Inr ch, s') \<Rightarrow>
          (Inr \<lparr>sb_scope = scope, sb_command = command, sb_chan = ch, sb_cancelled = False, sb_phase = Waiting, sb_runs = 0\<rparr>, s'))"

fun start_all :: "bytestr list \<Rightarrow> string \<Rightarrow> store \<Rightarrow> subscriber list \<times> (bytestr \<times> start_error) list \<times> store" where
  \<comment> \<open>a scope that fails is reported and skipped\<close>
  "start_all [] command s = ([], [], s)"
| "start_all (scope # scopes) command s =
     (case StartSubscriber scope command s of
        (Inl e, s1) \<Rightarrow> (case start_all scopes command s1 of (bs, failed, s2) \<Rightarrow> (bs, (scope, e) # failed, s2))
      | (Inr b, s1) \<Rightarrow> (case start_all scopes command s1 of (bs, failed, s2) \<Rightarrow> (b # bs, failed, s2)))"

definition StartReservedSubscribers :: "string \<Rightarrow> store \<Rightarrow> subscriber list \<times> (bytestr \<times> start_error) list \<times> store" where
  "StartReservedSubscribers command s =
     (if command = [] then ([], [], s) else start_all [EventsScopeName, InboxScopeName] command s)"

definition stop_begin :: "subscriber \<Rightarrow> hub \<Rightarrow> panic option \<times> subscriber \<times> hub" where
  \<comment> \<open>what \<open>stop\<close> does before it waits for the goroutine: cancel, then release the subscription\<close>
  "stop_begin b h =
     (case unsubscribe (sb_scope b) h of (p, h') \<Rightarrow> (p, b\<lparr>sb_cancelled := True\<rparr>, h'))"

fun stop_order :: "subscriber list \<Rightarrow> hub \<Rightarrow> panic option \<times> subscriber list \<times> hub" where
  \<comment> \<open>the subscriptions go in reverse order of their start; the argument is the reversed list\<close>
  "stop_order [] h = (None, [], h)"
| "stop_order (b # bs) h =
     (case stop_begin b h of
        (Some p, b', h') \<Rightarrow> (Some p, b' # bs, h')
      | (None, b', h') \<Rightarrow> (case stop_order bs h' of (p, bs', h2) \<Rightarrow> (p, b' # bs', h2)))"

text \<open>
  The goroutine and the hub. The loop receives: a wake-up starts the command, which runs until it exits, by itself
  or killed by the cancellation; a closed and empty channel ends the loop. Meanwhile the cache notifies,
  subscribes and releases as it likes: these three are all that touches the hub.
\<close>

inductive bridge_step :: "subscriber \<times> hub \<Rightarrow> subscriber \<times> hub \<Rightarrow> bool" where
  wake: "sb_phase b = Waiting \<Longrightarrow> receive (sb_chan b) h = (Wake, h') \<Longrightarrow>
    bridge_step (b, h) (b\<lparr>sb_phase := Running, sb_runs := Suc (sb_runs b)\<rparr>, h')"
| leave: "sb_phase b = Waiting \<Longrightarrow> receive (sb_chan b) h = (LoopExit, h') \<Longrightarrow>
    bridge_step (b, h) (b\<lparr>sb_phase := Exited\<rparr>, h')"
| command_exits: "sb_phase b = Running \<Longrightarrow> bridge_step (b, h) (b\<lparr>sb_phase := Waiting\<rparr>, h)"
| cache_notifies: "bridge_step (b, h) (b, snd (notifySubscriber k h))"
| cache_subscribes: "bridge_step (b, h) (b, snd (Subscribe k h))"
| cache_releases: "bridge_step (b, h) (b, snd (unsubscribe k h))"

inductive_cases bridge_stepE: "bridge_step (b, h) st"

section \<open>The init command\<close>

definition MaxUint64 :: u64 where "MaxUint64 = - 1"

definition RunInitCommand ::
  "clock \<Rightarrow> (string \<Rightarrow> store \<Rightarrow> 'e option \<times> store) \<Rightarrow> string \<Rightarrow> store \<Rightarrow> (string \<times> 'e) option \<times> store" where
  \<comment> \<open>an error of the wipe is logged and not returned\<close>
  "RunInitCommand clk run command s =
     (if command = [] then (None, s)
      else case run command s of (runErr, s1) \<Rightarrow>
        (case gw_DeleteUpTo clk EventsScopeName MaxUint64 s1 of (_, s2) \<Rightarrow>
           (map_option (\<lambda>e. (command, e)) runErr, s2)))"

section \<open>A stopped bridge ends\<close>

definition closing :: "subscriber \<Rightarrow> hub \<Rightarrow> bool" where
  \<comment> \<open>the channel is closed and nobody sends to it any more\<close>
  "closing b h \<longleftrightarrow> sb_chan b < length (chans h) \<and> ch_closed (chans h ! sb_chan b) \<and> sb_chan b \<notin> snd ` set (subscribers h)"

definition slack :: "subscriber \<times> hub \<Rightarrow> nat" where
  \<comment> \<open>how many command runs may still start\<close>
  "slack st = (case st of (b, h) \<Rightarrow> if ch_full (chans h ! sb_chan b) then 1 else 0)"

definition turns_left :: "subscriber \<times> hub \<Rightarrow> nat" where
  \<comment> \<open>how many steps of the goroutine's own are left\<close>
  "turns_left st = (case st of (b, h) \<Rightarrow>
     2 * slack st + (case sb_phase b of Waiting \<Rightarrow> 1 | Running \<Rightarrow> 2 | Exited \<Rightarrow> 0))"

lemma notify_other:
  assumes "i \<notin> snd ` set (subscribers h)"
  shows "chans (snd (notifySubscriber k h)) ! i = chans h ! i" "subscribers (snd (notifySubscriber k h)) = subscribers h"
    "length (chans (snd (notifySubscriber k h))) = length (chans h)"
proof -
  have "sub_at h k \<noteq> Some i" using assms sub_at_mem by force
  then show "chans (snd (notifySubscriber k h)) ! i = chans h ! i" "subscribers (snd (notifySubscriber k h)) = subscribers h"
    "length (chans (snd (notifySubscriber k h))) = length (chans h)"
    by (auto simp: notifySubscriber_def try_send_def split: option.splits)
qed

lemma release_other:
  assumes "i \<notin> snd ` set (subscribers h)"
  shows "chans (snd (unsubscribe k h)) ! i = chans h ! i" "set (subscribers (snd (unsubscribe k h))) \<subseteq> set (subscribers h)"
    "length (chans (snd (unsubscribe k h))) = length (chans h)"
proof -
  have "sub_at h k \<noteq> Some i" using assms sub_at_mem by force
  then show "chans (snd (unsubscribe k h)) ! i = chans h ! i" "set (subscribers (snd (unsubscribe k h))) \<subseteq> set (subscribers h)"
    "length (chans (snd (unsubscribe k h))) = length (chans h)"
    by (auto simp: unsubscribe_def close_chan_def split: option.splits)
qed

lemma subscribe_other:
  assumes "i < length (chans h)" "i \<notin> snd ` set (subscribers h)"
  shows "chans (snd (Subscribe k h)) ! i = chans h ! i" "i \<notin> snd ` set (subscribers (snd (Subscribe k h)))"
    "i < length (chans (snd (Subscribe k h)))"
  using assms by (auto simp: Subscribe_def nth_append)

lemma closing_step:
  assumes "bridge_step (b, h) (b', h')" "closing b h"
  shows "closing b' h' \<and> sb_runs b' + slack (b', h') \<le> sb_runs b + slack (b, h) \<and> turns_left (b', h') \<le> turns_left (b, h) \<and>
    (b' \<noteq> b \<longrightarrow> turns_left (b', h') < turns_left (b, h))"
  using assms(1)
proof (cases rule: bridge_step.cases)
  case wake
  then show ?thesis using assms(2)
    by (auto simp: closing_def slack_def turns_left_def receive_def split: if_splits)
next
  case leave
  then show ?thesis using assms(2) by (auto simp: closing_def slack_def turns_left_def receive_def split: if_splits)
next
  case command_exits
  then show ?thesis using assms(2) by (auto simp: closing_def slack_def turns_left_def)
next
  case (cache_notifies k)
  then show ?thesis using assms(2) notify_other [of "sb_chan b" h k] by (auto simp: closing_def slack_def turns_left_def)
next
  case (cache_subscribes k)
  then show ?thesis using assms(2) subscribe_other [of "sb_chan b" h k] by (auto simp: closing_def slack_def turns_left_def)
next
  case (cache_releases k)
  then show ?thesis using assms(2) release_other [of "sb_chan b" h k] by (auto simp: closing_def slack_def turns_left_def)
qed

lemma stop_closing:
  assumes "hub_inv h" "sub_at h (sb_scope b) = Some (sb_chan b)" "stop_begin b h = (p, b', h')"
  shows "p = None" "closing b' h'" "sb_runs b' = sb_runs b" "hub_inv h'"
proof -
  let ?k = "sb_scope b" and ?i = "sb_chan b"
  note o = sub_at_open [OF assms(1,2)]
  have mem: "(?k, ?i) \<in> set (subscribers h)" using sub_at_mem [OF assms(2)] .
  have "snd q \<noteq> ?i" if "q \<in> set (subscribers h)" "fst q \<noteq> ?k" for q
    using assms(1) mem that by (metis eq_key_imp_eq_value fst_conv hub_inv_def inj_on_contraD distinct_map snd_conv)
  then have "?i \<notin> snd ` set (filter (\<lambda>q. fst q \<noteq> ?k) (subscribers h))" by force
  moreover have "unsubscribe ?k h = (None, h\<lparr>subscribers := filter (\<lambda>q. fst q \<noteq> ?k) (subscribers h),
      chans := (chans h)[?i := (chans h ! ?i)\<lparr>ch_closed := True\<rparr>]\<rparr>)"
    using assms(2) o by (simp add: unsubscribe_def close_chan_def)
  ultimately show "p = None" "closing b' h'" "sb_runs b' = sb_runs b"
    using assms(3) o by (auto simp only: stop_begin_def prod.case prod.inject) (simp_all add: closing_def)
  show "hub_inv h'" using assms(3) unsubscribe_inv [OF assms(1), of ?k] by (auto simp: stop_begin_def split: prod.splits)
qed

inductive bridge_run :: "subscriber \<times> hub \<Rightarrow> nat \<Rightarrow> subscriber \<times> hub \<Rightarrow> bool" for st where
  \<comment> \<open>a run, with the number of the goroutine's own steps in it\<close>
  rest: "bridge_run st 0 st"
| own_step: "bridge_run st n (b, h) \<Longrightarrow> bridge_step (b, h) (b', h') \<Longrightarrow> b' \<noteq> b \<Longrightarrow> bridge_run st (Suc n) (b', h')"
| cache_step: "bridge_run st n (b, h) \<Longrightarrow> bridge_step (b, h) (b, h') \<Longrightarrow> bridge_run st n (b, h')"

lemma closing_run:
  assumes "bridge_run st n st'" "case st of (b, h) \<Rightarrow> closing b h"
  shows "case (st, st') of ((b, h), (b', h')) \<Rightarrow> closing b' h' \<and> n + turns_left st' \<le> turns_left st \<and>
    sb_runs b' + slack st' \<le> sb_runs b + slack st"
  using assms
proof (induction rule: bridge_run.induct)
  case (own_step n b h b' h')
  then show ?case using closing_step [OF own_step.hyps(2)] by (auto split: prod.splits)
next
  case (cache_step n b h h')
  then show ?case using closing_step [OF cache_step.hyps(2)] by (auto split: prod.splits)
qed (auto split: prod.splits)

lemma closing_moves:
  assumes "closing b h" "sb_phase b \<noteq> Exited"
  shows "\<exists>b' h'. bridge_step (b, h) (b', h') \<and> b' \<noteq> b"
proof (cases "sb_phase b")
  case Waiting
  obtain r h' where r: "receive (sb_chan b) h = (r, h')" by (cases "receive (sb_chan b) h")
  have "r \<noteq> Block" using r assms(1) by (auto simp: receive_def closing_def split: if_splits)
  then consider "r = Wake" | "r = LoopExit" by (cases r) auto
  then show ?thesis
  proof cases
    case 1
    have "b\<lparr>sb_phase := Running, sb_runs := Suc (sb_runs b)\<rparr> \<noteq> b" by (metis n_not_Suc_n subscriber.select_convs(6) subscriber.surjective subscriber.update_convs(6))
    then show ?thesis using wake [OF Waiting r [unfolded 1]] by blast
  next
    case 2
    have "b\<lparr>sb_phase := Exited\<rparr> \<noteq> b" using Waiting by (cases b) simp
    then show ?thesis using leave [OF Waiting r [unfolded 2]] by blast
  qed
next
  case Running
  have "b\<lparr>sb_phase := Waiting\<rparr> \<noteq> b" using Running by (cases b) simp
  then show ?thesis using command_exits [OF Running] by blast
next
  case Exited
  then show ?thesis using assms(2) by simp
qed

section \<open>Draining \<open>_events\<close>\<close>

lemma drain_events:
  assumes g: "good m s" and room: "room (m + 1)" and run: "deleteUpTo clk EventsScopeName MaxUint64 s = (r, s')"
  shows "(\<exists>n. r = Inr n) \<and> (\<exists>sq. view s' = (view s)(EventsScopeName \<mapsto> (sq, [])))"
proof -
  let ?k = EventsScopeName and ?P = "\<lambda>y. MaxUint64 < Seq y"
  have inv: "store_inv s" using goodD(1) [OF g] .
  have room': "room m" using room by (rule room_less) simp
  have "?k \<in> set reservedScopeNames" by (simp add: reservedScopeNames_def)
  then obtain a where a: "getScope s ?k = Some a" using store_invD(10) [OF inv] by blast
  have v: "validateDeleteUpToRequest \<lparr>dur_Scope = ?k, dur_MaxSeq = MaxUint64\<rparr> = Inr ()" by code_simp
  have rdy: "ready (score s) ?k (bufs s ! a)"
    using linked_ready [OF inv a goodD(2) [OF g]] room' by (simp add: room_def)
  obtain r2 s2 where ob: "on_buf a (deleteUpToSeq (clk 0) MaxUint64) s = (r2, s2)" by (metis surj_pair)
  obtain c' b' where st: "deleteUpToSeq (clk 0) MaxUint64 (score s) (bufs s ! a) =
      (Inr (int (length (items (bufs s ! a))) - int (length (items b'))), c', b')"
    "lastSeq b' = lastSeq (bufs s ! a)" "items b' = filter ?P (items (bufs s ! a))"
    using deleteUpToSeq_ready [OF rdy, of "clk 0" MaxUint64] by blast
  have cells: "cells c' = cells (score s)" by (rule deleteUpToSeq_cells [OF st(1)])
  have none: "items b' = []" using st(3) by (simp add: MaxUint64_def word_n1_ge leD)
  have s2: "s2 = s\<lparr>score := c', bufs := (bufs s)[a := b']\<rparr>" "r2 = Inr (int (length (items (bufs s ! a))))"
    using ob st(1) none by (simp_all add: on_buf_def)
  have "deleteUpTo clk ?k MaxUint64 s = (r2, s2)"
    using v a ob s2(2) by (simp add: deleteUpTo_def emit_defs emitFor_def eventsEnabled_def returning_def)
  then have "r = r2" "s' = s2" using run by simp_all
  moreover have "view s2 = (view s)(?k \<mapsto> (lastSeq (bufs s ! a), []))"
    using on_buf_view [OF inv a cells, of b'] none st(2) by (simp add: s2(1) buf_view_def)
  ultimately show ?thesis using s2(2) by blast
qed

section \<open>Starting\<close>

lemma view_shub [simp]: "view (s\<lparr>shub := h\<rparr>) = view s"
  by (simp add: view_def getScope_def fun_eq_iff)

lemma Subscribe_keeps:
  "sub_at h j = Some i \<Longrightarrow> sub_at (snd (Subscribe k h)) j = Some i"
  "fst (Subscribe k h) = Inr i \<Longrightarrow> sub_at (snd (Subscribe k h)) k = Some i"
  by (auto simp: Subscribe_def sub_at_def split: if_splits)

definition keeps_subs :: "store \<Rightarrow> store \<Rightarrow> bool" where
  "keeps_subs s s' \<longleftrightarrow> view s' = view s \<and> (\<forall>j i. sub_at (shub s) j = Some i \<longrightarrow> sub_at (shub s') j = Some i)"

lemma start_one:
  assumes "StartSubscriber k command s = (r, s')"
  shows "steps_to s s' \<and> keeps_subs s s' \<and> (\<forall>b. r = Inr b \<longrightarrow> sub_at (shub s') (sb_scope b) = Some (sb_chan b))"
proof (cases "k = [] \<or> command = []")
  case True
  then show ?thesis using assms by (auto simp: StartSubscriber_def keeps_subs_def split: if_splits)
next
  case False
  obtain q h where q: "Subscribe k (shub s) = (q, h)" by (cases "Subscribe k (shub s)")
  have s': "s' = s\<lparr>shub := h\<rparr>" "\<And>b. r = Inr b \<Longrightarrow> sb_scope b = k \<and> q = Inr (sb_chan b)"
    using assms False q by (auto simp: StartSubscriber_def store_Subscribe_def split: sum.splits)
  have "steps_to s s'"
    using steps_toI [of "SubscribeTo k" s] by (simp add: s'(1) store_Subscribe_def q)
  moreover have "keeps_subs s s'" using Subscribe_keeps(1) [of "shub s" _ _ k] q by (simp add: keeps_subs_def s'(1))
  moreover have "sub_at (shub s') (sb_scope b) = Some (sb_chan b)" if "r = Inr b" for b
    using Subscribe_keeps(2) [of k "shub s" "sb_chan b"] s'(2) [OF that] q by (simp add: s'(1))
  ultimately show ?thesis by blast
qed

definition start_call :: "store \<Rightarrow> store \<Rightarrow> bool" where
  "start_call s s' \<longleftrightarrow> (\<exists>scope command r. StartSubscriber scope command s = (r, s'))"

lemma start_callI: "StartSubscriber scope command s = (r, s') \<Longrightarrow> start_call s s'"
  by (auto simp: start_call_def)

interpretation starter: store_client start_call
  by unfold_locales (auto simp: start_call_def dest: start_one)

end
