(* ===== verification/BridgeProps.thy ===== *)
theory BridgeProps
  imports Bridge Samples
begin

text \<open>The properties of the commands hooked into the cache.\<close>





text \<open>
  C34. The init command leaves no events behind. Whatever requests the script made and however it ended, when
  \<open>RunInitCommand\<close> returns the \<open>_events\<close> scope is empty, and every other scope is as the script left it; the error
  of the script, and nothing else, is returned.
\<close>

theorem init_clears_events:
  assumes "command \<noteq> []" and "run command s = (err, s1)" and "live cfg s1"
  shows "case RunInitCommand clk run command s of (res, s2) \<Rightarrow>
    res = map_option (\<lambda>e. (command, e)) err \<and> (\<exists>sq. view s2 = (view s1)(EventsScopeName \<mapsto> (sq, [])))"
proof -
  obtain m where g: "good m s1" "room (m + 1)" using live_good [OF assms(3)] by blast
  obtain r s2 where d: "deleteUpTo clk EventsScopeName MaxUint64 s1 = (r, s2)" by (metis surj_pair)
  show ?thesis using drain_events [OF g d] d assms(1,2) by (simp add: RunInitCommand_def gw_DeleteUpTo_def)
qed

definition seed_script :: "string \<Rightarrow> store \<Rightarrow> unit option \<times> store" where
  \<comment> \<open>a script that appends an item and then fails\<close>
  "seed_script command s = (Some (), serve clk0 (Append item1) s)"

theorem init_clears_events_witness:
  "\<exists>s2 sq. RunInitCommand clk0 seed_script ''init'' boot_full = (Some (''init'', ()), s2) \<and>
    view s2 EventsScopeName = Some (sq, []) \<and>
    snd (contents (view (serve clk0 (Append item1) boot_full)) EventsScopeName) \<noteq> []"
proof -
  have "reaches cfg_full 0 boot_full" unfolding boot_full_def
    by (rule boot) (simp add: config_i64_def cfg_full_def Config_zero_def MinInt64_def MaxInt64_def)
  then have "reaches cfg_full 1 (serve clk0 (Append item1) boot_full)"
    using step [of cfg_full 0 boot_full "Append item1" clk0] items_client by simp
  then have "live cfg_full (serve clk0 (Append item1) boot_full)" by (rule live_reaches) simp
  note I = init_clears_events [OF _ _ this, of "''init''" seed_script boot_full "Some ()" clk0]
  have "snd (contents (view (serve clk0 (Append item1) boot_full)) EventsScopeName) \<noteq> []" by code_simp
  then show ?thesis using I by (cases "RunInitCommand clk0 seed_script ''init'' boot_full") (auto simp: seed_script_def)
qed

end
