(* ===== verification/Adapters.thy ===== *)
theory Adapters
  imports Bridge
begin

text \<open>
  The two ways to run the cache. The standalone binary (\<open>cmd/scopecache/main.go\<close>) reads its configuration from
  environment variables, each parser falling back to a default with a warning; the Caddy module
  (\<open>caddymodule/module.go\<close>) reads it from a Caddyfile or from JSON and rejects what does not fit. The
  environment is a function from names to values, empty when not set; the warnings are not modelled. Caddy's
  token dispenser is a parameter.
\<close>

section \<open>The standalone binary\<close>

type_synonym env = "string \<Rightarrow> string"

definition shift_left :: "int \<Rightarrow> nat \<Rightarrow> int" where
  \<comment> \<open>\<open>int64(n) << k\<close>\<close>
  "shift_left n k = wrap64 (n * 2 ^ k)"

definition maxEnvConfigMB :: int where "maxEnvConfigMB = drop_bit 20 MaxInt64"
definition maxEnvConfigKB :: int where "maxEnvConfigKB = drop_bit 10 MaxInt64"
definition maxEnvConfigSec :: int where "maxEnvConfigSec = MaxInt64 div 1000000000"

definition scopeMaxItemsFromEnv :: "env \<Rightarrow> int" where
  "scopeMaxItemsFromEnv env =
     (let raw = env ''SCOPECACHE_SCOPE_MAX_ITEMS'' in
      if raw = [] then ScopeMaxItems
      else case parse_int64 raw of
        None \<Rightarrow> ScopeMaxItems
      | Some n \<Rightarrow> if n \<le> 0 then ScopeMaxItems else n)"

definition socketPathFromEnv :: "string \<Rightarrow> env \<Rightarrow> string" where
  "socketPathFromEnv DefaultSocketPath env =
     (let p = env ''SCOPECACHE_SOCKET_PATH'' in if p \<noteq> [] then p else DefaultSocketPath)"

definition maxStoreBytesFromEnv :: "env \<Rightarrow> int" where
  "maxStoreBytesFromEnv env =
     (let raw = env ''SCOPECACHE_MAX_STORE_MB'' in
      if raw = [] then shift_left MaxStoreMiB 20
      else case parse_int64 raw of
        None \<Rightarrow> shift_left MaxStoreMiB 20
      | Some n \<Rightarrow>
          if n \<le> 0 then shift_left MaxStoreMiB 20
          else if maxEnvConfigMB < n then shift_left MaxStoreMiB 20
          else shift_left n 20)"

definition maxItemBytesFromEnv :: "env \<Rightarrow> int" where
  "maxItemBytesFromEnv env =
     (let raw = env ''SCOPECACHE_MAX_ITEM_MB'' in
      if raw = [] then MaxItemBytes
      else case parse_int64 raw of
        None \<Rightarrow> MaxItemBytes
      | Some n \<Rightarrow>
          if n \<le> 0 then MaxItemBytes
          else if maxEnvConfigMB < n then MaxItemBytes
          else shift_left n 20)"

definition inboxMaxItemsFromEnv :: "env \<Rightarrow> int" where
  "inboxMaxItemsFromEnv env =
     (let raw = env ''SCOPECACHE_INBOX_MAX_ITEMS'' in
      if raw = [] then 0
      else case parse_int64 raw of
        None \<Rightarrow> 0
      | Some n \<Rightarrow> if n \<le> 0 then 0 else n)"

definition inboxMaxItemBytesFromEnv :: "env \<Rightarrow> int" where
  "inboxMaxItemBytesFromEnv env =
     (let raw = env ''SCOPECACHE_INBOX_MAX_ITEM_KB'' in
      if raw = [] then 0
      else case parse_int64 raw of
        None \<Rightarrow> 0
      | Some n \<Rightarrow>
          if n \<le> 0 then 0
          else if maxEnvConfigKB < n then 0
          else shift_left n 10)"

definition subscriberCommandFromEnv :: "env \<Rightarrow> string" where
  "subscriberCommandFromEnv env = env ''SCOPECACHE_SUBSCRIBER_COMMAND''"

definition initCommandFromEnv :: "env \<Rightarrow> string" where
  "initCommandFromEnv env = env ''SCOPECACHE_INIT_COMMAND''"

definition initTimeoutFromEnv :: "env \<Rightarrow> int" where
  \<comment> \<open>in nanoseconds; 0 is no timeout\<close>
  "initTimeoutFromEnv env =
     (let raw = env ''SCOPECACHE_INIT_TIMEOUT_SEC'' in
      if raw = [] then 0
      else case parse_int64 raw of
        None \<Rightarrow> 0
      | Some n \<Rightarrow>
          if n < 0 then 0
          else if maxEnvConfigSec < n then 0
          else wrap64 (n * 1000000000))"

definition eventsModeFromEnv :: "env \<Rightarrow> EventsMode" where
  "eventsModeFromEnv env =
     (case ParseEventsMode (env ''SCOPECACHE_EVENTS_MODE'') of None \<Rightarrow> EventsModeOff | Some mode \<Rightarrow> mode)"

definition main_Config :: "env \<Rightarrow> Config" where
  "main_Config env =
     \<lparr>cScopeMaxItems = scopeMaxItemsFromEnv env, cMaxStoreBytes = maxStoreBytesFromEnv env,
      cMaxItemBytes = maxItemBytesFromEnv env, cEventsMode = eventsModeFromEnv env,
      cInboxMaxItems = inboxMaxItemsFromEnv env, cInboxMaxItemBytes = inboxMaxItemBytesFromEnv env\<rparr>"

text \<open>
  The boot of both: the store, the init command behind a private socket, then the subscribers. What the
  operating system says to the temporary directory and the socket is \<open>sock\<close>: an error, or the path of the
  socket; \<open>run\<close> is the execution of the command with that path in its environment.
\<close>

definition runInitWithPrivateSocket ::
  "clock \<Rightarrow> ('d + string) \<Rightarrow> (string \<Rightarrow> string \<Rightarrow> store \<Rightarrow> 'e option \<times> store) \<Rightarrow> string \<Rightarrow> store \<Rightarrow> ('d + (string \<times> 'e) option) \<times> store" where
  "runInitWithPrivateSocket clk sock run command s =
     (case sock of
        Inl e \<Rightarrow> (Inl e, s)
      | Inr path \<Rightarrow> (case RunInitCommand clk (run path) command s of (r, s') \<Rightarrow> (Inr r, s')))"

definition boot_cache ::
  "clock \<Rightarrow> ('d + string) \<Rightarrow> (string \<Rightarrow> string \<Rightarrow> store \<Rightarrow> 'e option \<times> store) \<Rightarrow> string \<Rightarrow> string \<Rightarrow> store \<Rightarrow> subscriber list \<times> store" where
  \<comment> \<open>an error of the init command is logged and the boot goes on\<close>
  "boot_cache clk sock run init sub s =
     (let s1 = (if init = [] then s else snd (runInitWithPrivateSocket clk sock run init s)) in
      case StartReservedSubscribers sub s1 of (bs, _, s2) \<Rightarrow> (bs, s2))"

definition main_boot ::
  "(bytestr \<Rightarrow> 64 word) \<Rightarrow> clock \<Rightarrow> clock \<Rightarrow> ('d + string) \<Rightarrow> (string \<Rightarrow> string \<Rightarrow> store \<Rightarrow> 'e option \<times> store) \<Rightarrow> env \<Rightarrow>
     subscriber list \<times> store" where
  "main_boot seed clk0 clk1 sock run env =
     boot_cache clk1 sock run (initCommandFromEnv env) (subscriberCommandFromEnv env)
       (NewGateway seed clk0 (WithDefaults (main_Config env)))"

section \<open>The Caddy module\<close>

record Handler =
  hd_ScopeMaxItems :: int
  hd_MaxStoreMB :: int
  hd_MaxItemMB :: int
  hd_InboxMaxItems :: int
  hd_InboxMaxItemKB :: int
  hd_EventsMode :: string
  hd_SubscriberCommand :: string
  hd_InitCommand :: string
  hd_InitTimeoutSec :: int

definition Handler_zero :: Handler where
  "Handler_zero = \<lparr>hd_ScopeMaxItems = 0, hd_MaxStoreMB = 0, hd_MaxItemMB = 0, hd_InboxMaxItems = 0, hd_InboxMaxItemKB = 0,
     hd_EventsMode = [], hd_SubscriberCommand = [], hd_InitCommand = [], hd_InitTimeoutSec = 0\<rparr>"

datatype caddy_error =
    MustNotBeNegative string int
  | ExceedsMaximum string int int string
  | BadEventsMode string
  | ArgErr
  | NotANumber string string
  | UnrecognizedOption string

definition maxConfigMB :: int where "maxConfigMB = drop_bit 20 MaxInt64"
definition maxConfigKB :: int where "maxConfigKB = drop_bit 10 MaxInt64"
definition maxConfigSec :: int where "maxConfigSec = MaxInt64 div 1000000000"

fun check_rows :: "(string \<times> int \<times> int \<times> string) list \<Rightarrow> caddy_error option" where
  \<comment> \<open>key, value, upper bound and its unit; a bound of 0 is none\<close>
  "check_rows [] = None"
| "check_rows ((key, v, upper, u) # rows) =
     (if v < 0 then Some (MustNotBeNegative key v)
      else if 0 < upper \<and> upper < v then Some (ExceedsMaximum key v upper u)
      else check_rows rows)"

definition validateConfig :: "Handler \<Rightarrow> caddy_error option" where
  "validateConfig h =
     (case check_rows
        [(''scope_max_items'', hd_ScopeMaxItems h, 0, []),
         (''max_store_mb'', hd_MaxStoreMB h, maxConfigMB, ''MiB''),
         (''max_item_mb'', hd_MaxItemMB h, maxConfigMB, ''MiB''),
         (''inbox_max_items'', hd_InboxMaxItems h, 0, []),
         (''inbox_max_item_kb'', hd_InboxMaxItemKB h, maxConfigKB, ''KiB''),
         (''init_timeout_sec'', hd_InitTimeoutSec h, maxConfigSec, ''seconds'')] of
        Some e \<Rightarrow> Some e
      | None \<Rightarrow> if ParseEventsMode (hd_EventsMode h) = None then Some (BadEventsMode (hd_EventsMode h)) else None)"

definition Provision_Config :: "Handler \<Rightarrow> caddy_error + Config" where
  "Provision_Config h =
     (case validateConfig h of
        Some e \<Rightarrow> Inl e
      | None \<Rightarrow>
          (case ParseEventsMode (hd_EventsMode h) of
             None \<Rightarrow> Inl (BadEventsMode (hd_EventsMode h))
           | Some mode \<Rightarrow>
               Inr \<lparr>cScopeMaxItems = hd_ScopeMaxItems h, cMaxStoreBytes = shift_left (hd_MaxStoreMB h) 20,
                    cMaxItemBytes = shift_left (hd_MaxItemMB h) 20, cEventsMode = mode,
                    cInboxMaxItems = hd_InboxMaxItems h, cInboxMaxItemBytes = shift_left (hd_InboxMaxItemKB h) 10\<rparr>))"

definition Provision ::
  "(bytestr \<Rightarrow> 64 word) \<Rightarrow> clock \<Rightarrow> clock \<Rightarrow> ('d + string) \<Rightarrow> (string \<Rightarrow> string \<Rightarrow> store \<Rightarrow> 'e option \<times> store) \<Rightarrow> Handler \<Rightarrow>
     caddy_error + (subscriber list \<times> store)" where
  "Provision seed clk0 clk1 sock run h =
     (case Provision_Config h of
        Inl e \<Rightarrow> Inl e
      | Inr cfg \<Rightarrow>
          Inr (boot_cache clk1 sock run (hd_InitCommand h) (hd_SubscriberCommand h) (NewGateway seed clk0 cfg)))"

definition Cleanup :: "subscriber list option \<Rightarrow> hub \<Rightarrow> subscriber list option \<times> hub" where
  \<comment> \<open>stop the subscribers, if they have not been stopped\<close>
  "Cleanup stops h =
     (case stops of None \<Rightarrow> (None, h) | Some bs \<Rightarrow> (case stop_order (rev bs) h of (_, _, h') \<Rightarrow> (None, h')))"

subsection \<open>The Caddyfile directive\<close>

definition set_option :: "string \<Rightarrow> string \<Rightarrow> Handler \<Rightarrow> caddy_error + Handler" where
  \<comment> \<open>one line of the block\<close>
  "set_option key v h =
     (if key = ''events_mode'' then
        (if ParseEventsMode v = None then Inl (BadEventsMode v) else Inr (h\<lparr>hd_EventsMode := v\<rparr>))
      else if key = ''subscriber_command'' then Inr (h\<lparr>hd_SubscriberCommand := v\<rparr>)
      else if key = ''init_command'' then Inr (h\<lparr>hd_InitCommand := v\<rparr>)
      else (case parse_int64 v of
          None \<Rightarrow> Inl (NotANumber key v)
        | Some n \<Rightarrow>
            if key = ''scope_max_items'' then Inr (h\<lparr>hd_ScopeMaxItems := n\<rparr>)
            else if key = ''max_store_mb'' then Inr (h\<lparr>hd_MaxStoreMB := n\<rparr>)
            else if key = ''max_item_mb'' then Inr (h\<lparr>hd_MaxItemMB := n\<rparr>)
            else if key = ''inbox_max_items'' then Inr (h\<lparr>hd_InboxMaxItems := n\<rparr>)
            else if key = ''inbox_max_item_kb'' then Inr (h\<lparr>hd_InboxMaxItemKB := n\<rparr>)
            else if key = ''init_timeout_sec'' then Inr (h\<lparr>hd_InitTimeoutSec := n\<rparr>)
            else Inl (UnrecognizedOption key)))"

text \<open>The token dispenser: each call moves its cursor and says whether there was something.\<close>

record 'd dispenser =
  dNext :: "'d \<Rightarrow> bool \<times> 'd"
  dNextArg :: "'d \<Rightarrow> bool \<times> 'd"
  dNextBlock :: "'d \<Rightarrow> bool \<times> 'd"
  dVal :: "'d \<Rightarrow> string"

partial_function (option) caddyfile_loop ::
  "'d dispenser \<Rightarrow> bool \<Rightarrow> 'd \<Rightarrow> Handler \<Rightarrow> (caddy_error + Handler) option" where
  \<comment> \<open>the two loops; the flag says that the cursor is in a block\<close>
  "caddyfile_loop D block d h =
     (if \<not> block then
        (case dNext D d of (more_left, d1) \<Rightarrow>
           if \<not> more_left then Some (Inr h)
           else (case dNextArg D d1 of (arg, d2) \<Rightarrow>
             if arg then Some (Inl ArgErr) else caddyfile_loop D True d2 h))
      else
        (case dNextBlock D d of (line, d1) \<Rightarrow>
           if \<not> line then caddyfile_loop D False d1 h
           else (case dNextArg D d1 of (arg, d2) \<Rightarrow>
             if \<not> arg then Some (Inl ArgErr)
             else (case set_option (dVal D d1) (dVal D d2) h of
                 Inl e \<Rightarrow> Some (Inl e)
               | Inr h' \<Rightarrow> caddyfile_loop D True d2 h'))))"

definition UnmarshalCaddyfile :: "'d dispenser \<Rightarrow> 'd \<Rightarrow> Handler \<Rightarrow> (caddy_error + Handler) option" where
  "UnmarshalCaddyfile D d h = caddyfile_loop D False d h"

text \<open>A block of lines, each a key and a value, as a dispenser: what is left, and the token at the cursor.\<close>

datatype cursor = AtStart "(string \<times> string) list" | AtDirective "(string \<times> string) list"
  | AtKey string string "(string \<times> string) list" | AtValue string "(string \<times> string) list" | AtEnd

definition lines_dispenser :: "cursor dispenser" where
  "lines_dispenser = \<lparr>
     dNext = (\<lambda>d. case d of AtStart ls \<Rightarrow> (True, AtDirective ls) | _ \<Rightarrow> (False, AtEnd)),
     dNextArg = (\<lambda>d. case d of AtKey k v ls \<Rightarrow> (True, AtValue v ls) | _ \<Rightarrow> (False, d)),
     dNextBlock = (\<lambda>d. case d of AtDirective ((k, v) # ls) \<Rightarrow> (True, AtKey k v ls) | AtValue w ((k, v) # ls) \<Rightarrow> (True, AtKey k v ls)
       | _ \<Rightarrow> (False, AtEnd)),
     dVal = (\<lambda>d. case d of AtKey k v ls \<Rightarrow> k | AtValue v ls \<Rightarrow> v | _ \<Rightarrow> [])\<rparr>"

fun set_options :: "(string \<times> string) list \<Rightarrow> Handler \<Rightarrow> caddy_error + Handler" where
  "set_options [] h = Inr h"
| "set_options ((k, v) # ls) h = (case set_option k v h of Inl e \<Rightarrow> Inl e | Inr h' \<Rightarrow> set_options ls h')"

lemma block_loop:
  assumes "d = AtDirective ls \<or> d = AtValue w ls"
  shows "caddyfile_loop lines_dispenser True d h = Some (set_options ls h)"
  using assms
proof (induction ls arbitrary: d w h)
  case Nil
  then show ?case
    by (auto simp: caddyfile_loop.simps [of _ True] caddyfile_loop.simps [of _ False] lines_dispenser_def)
next
  case (Cons l ls)
  obtain k v where l: "l = (k, v)" by (cases l)
  show ?case using Cons.prems Cons.IH [of "AtValue v ls" v]
    by (auto simp: l caddyfile_loop.simps [of _ True] lines_dispenser_def split: sum.splits)
qed

lemma UnmarshalCaddyfile_lines: "UnmarshalCaddyfile lines_dispenser (AtStart ls) h = Some (set_options ls h)"
  using block_loop [of "AtDirective ls" ls] by (simp add: UnmarshalCaddyfile_def caddyfile_loop.simps [of _ False] lines_dispenser_def)

section \<open>What the parsers give\<close>

lemma shift_exact:
  assumes "0 \<le> n" "n \<le> drop_bit k MaxInt64"
  shows "shift_left n k = n * 2 ^ k \<and> n * 2 ^ k \<le> MaxInt64"
proof -
  have "n * 2 ^ k \<le> (MaxInt64 div 2 ^ k) * 2 ^ k"
    by (rule mult_right_mono) (use assms(2) in \<open>simp_all add: drop_bit_eq_div\<close>)
  moreover have "(MaxInt64 div 2 ^ k) * 2 ^ k + MaxInt64 mod 2 ^ k = MaxInt64" by (rule div_mult_mod_eq)
  moreover have "0 \<le> MaxInt64 mod 2 ^ k" by simp
  ultimately have "n * 2 ^ k \<le> MaxInt64" by linarith
  then show ?thesis using assms(1) by (simp add: shift_left_def wrap64_nonneg_id)
qed

lemma shift_mb: "0 \<le> n \<Longrightarrow> n \<le> maxConfigMB \<Longrightarrow> shift_left n 20 = n * 1048576 \<and> n * 1048576 \<le> MaxInt64"
  using shift_exact [of n 20] by (simp add: maxConfigMB_def)

lemma shift_kb: "0 \<le> n \<Longrightarrow> n \<le> maxConfigKB \<Longrightarrow> shift_left n 10 = n * 1024 \<and> n * 1024 \<le> MaxInt64"
  using shift_exact [of n 10] by (simp add: maxConfigKB_def)

lemma same_limits: "maxEnvConfigMB = maxConfigMB" "maxEnvConfigKB = maxConfigKB" "maxEnvConfigSec = maxConfigSec"
  by (simp_all add: maxEnvConfigMB_def maxConfigMB_def maxEnvConfigKB_def maxConfigKB_def maxEnvConfigSec_def maxConfigSec_def)

lemma parse_int64_range: "parse_int64 s = Some n \<Longrightarrow> MinInt64 \<le> n \<and> n \<le> MaxInt64"
  by (auto simp: parse_int64_def Let_def MinInt64_def MaxInt64_def split: if_splits option.splits)

definition setting :: "string \<Rightarrow> int \<Rightarrow> int" where
  \<comment> \<open>the number an environment variable states, or 0 when it states none the parser takes\<close>
  "setting raw upper =
     (case parse_int64 raw of None \<Rightarrow> 0 | Some n \<Rightarrow> if n \<le> 0 \<or> (0 < upper \<and> upper < n) then 0 else n)"

lemma parse_empty: "parse_int64 [] = None"
  by (simp add: parse_int64_def)

lemma env_settings:
  "scopeMaxItemsFromEnv env = (let n = setting (env ''SCOPECACHE_SCOPE_MAX_ITEMS'') 0 in if n = 0 then ScopeMaxItems else n)"
  "maxStoreBytesFromEnv env = (let n = setting (env ''SCOPECACHE_MAX_STORE_MB'') maxConfigMB in if n = 0 then MaxStoreMiB * 1048576 else n * 1048576)"
  "maxItemBytesFromEnv env = (let n = setting (env ''SCOPECACHE_MAX_ITEM_MB'') maxConfigMB in if n = 0 then MaxItemBytes else n * 1048576)"
  "inboxMaxItemsFromEnv env = setting (env ''SCOPECACHE_INBOX_MAX_ITEMS'') 0"
  "inboxMaxItemBytesFromEnv env = setting (env ''SCOPECACHE_INBOX_MAX_ITEM_KB'') maxConfigKB * 1024"
proof -
  have pos: "0 < maxConfigMB" "0 < maxConfigKB" by (simp_all add: maxConfigMB_def maxConfigKB_def MaxInt64_def drop_bit_eq_div)
  have d: "shift_left MaxStoreMiB 20 = MaxStoreMiB * 1048576"
    by (rule shift_mb [THEN conjunct1]) (simp_all add: MaxStoreMiB_def maxConfigMB_def MaxInt64_def drop_bit_eq_div)
  show "scopeMaxItemsFromEnv env = (let n = setting (env ''SCOPECACHE_SCOPE_MAX_ITEMS'') 0 in if n = 0 then ScopeMaxItems else n)"
    by (auto simp: scopeMaxItemsFromEnv_def setting_def Let_def parse_empty split: option.splits)
  show "maxStoreBytesFromEnv env = (let n = setting (env ''SCOPECACHE_MAX_STORE_MB'') maxConfigMB in if n = 0 then MaxStoreMiB * 1048576 else n * 1048576)"
    using pos shift_mb by (auto simp: maxStoreBytesFromEnv_def setting_def Let_def parse_empty d same_limits split: option.splits)
  show "maxItemBytesFromEnv env = (let n = setting (env ''SCOPECACHE_MAX_ITEM_MB'') maxConfigMB in if n = 0 then MaxItemBytes else n * 1048576)"
    using pos shift_mb by (auto simp: maxItemBytesFromEnv_def setting_def Let_def parse_empty same_limits split: option.splits)
  show "inboxMaxItemsFromEnv env = setting (env ''SCOPECACHE_INBOX_MAX_ITEMS'') 0"
    by (auto simp: inboxMaxItemsFromEnv_def setting_def Let_def parse_empty split: option.splits)
  show "inboxMaxItemBytesFromEnv env = setting (env ''SCOPECACHE_INBOX_MAX_ITEM_KB'') maxConfigKB * 1024"
    using pos shift_kb by (auto simp: inboxMaxItemBytesFromEnv_def setting_def Let_def parse_empty same_limits split: option.splits)
qed

lemma setting_range: "0 \<le> setting raw upper \<and> setting raw upper \<le> MaxInt64 \<and> (0 < upper \<longrightarrow> setting raw upper \<le> upper)"
  using parse_int64_range by (fastforce simp: setting_def MaxInt64_def split: option.splits)

lemma validateConfig_None:
  "validateConfig h = None \<longleftrightarrow>
     0 \<le> hd_ScopeMaxItems h \<and> 0 \<le> hd_MaxStoreMB h \<and> hd_MaxStoreMB h \<le> maxConfigMB \<and>
     0 \<le> hd_MaxItemMB h \<and> hd_MaxItemMB h \<le> maxConfigMB \<and> 0 \<le> hd_InboxMaxItems h \<and>
     0 \<le> hd_InboxMaxItemKB h \<and> hd_InboxMaxItemKB h \<le> maxConfigKB \<and>
     0 \<le> hd_InitTimeoutSec h \<and> hd_InitTimeoutSec h \<le> maxConfigSec \<and> ParseEventsMode (hd_EventsMode h) \<noteq> None"
proof -
  have pos: "0 < maxConfigMB" "0 < maxConfigKB" "0 < maxConfigSec"
    by (simp_all add: maxConfigMB_def maxConfigKB_def maxConfigSec_def MaxInt64_def drop_bit_eq_div)
  show ?thesis using pos by (auto simp: validateConfig_def not_less split: if_splits)
qed

lemma Provision_exact:
  "Provision_Config h = Inr cfg \<longleftrightarrow> validateConfig h = None \<and>
     cfg = \<lparr>cScopeMaxItems = hd_ScopeMaxItems h, cMaxStoreBytes = hd_MaxStoreMB h * 1048576,
       cMaxItemBytes = hd_MaxItemMB h * 1048576, cEventsMode = the (ParseEventsMode (hd_EventsMode h)),
       cInboxMaxItems = hd_InboxMaxItems h, cInboxMaxItemBytes = hd_InboxMaxItemKB h * 1024\<rparr>"
proof (cases "validateConfig h")
  case None
  then have v: "0 \<le> hd_MaxStoreMB h" "hd_MaxStoreMB h \<le> maxConfigMB" "0 \<le> hd_MaxItemMB h" "hd_MaxItemMB h \<le> maxConfigMB"
    "0 \<le> hd_InboxMaxItemKB h" "hd_InboxMaxItemKB h \<le> maxConfigKB" "ParseEventsMode (hd_EventsMode h) \<noteq> None"
    by (simp_all add: validateConfig_None)
  show ?thesis using v(7) None shift_mb [OF v(1,2)] shift_mb [OF v(3,4)] shift_kb [OF v(5,6)]
    by (auto simp: Provision_Config_def)
qed (simp add: Provision_Config_def)

end
