(* ===== verification/AdapterProps.thy ===== *)
theory AdapterProps
  imports Adapters Samples ReadSpec
begin

text \<open>The properties of the two adapters: what they configure and the cache they start.\<close>

section \<open>Configuration\<close>






lemma main_Config_i64: "config_i64 (main_Config env)"
proof -
  have pos: "0 < maxConfigMB" "0 < maxConfigKB" by (simp_all add: maxConfigMB_def maxConfigKB_def MaxInt64_def drop_bit_eq_div)
  then show ?thesis
    using setting_range [of "env ''SCOPECACHE_SCOPE_MAX_ITEMS''" 0] setting_range [of "env ''SCOPECACHE_INBOX_MAX_ITEMS''" 0]
      setting_range [of "env ''SCOPECACHE_MAX_STORE_MB''" maxConfigMB] setting_range [of "env ''SCOPECACHE_MAX_ITEM_MB''" maxConfigMB]
      setting_range [of "env ''SCOPECACHE_INBOX_MAX_ITEM_KB''" maxConfigKB]
      shift_mb [of "setting (env ''SCOPECACHE_MAX_STORE_MB'') maxConfigMB"]
      shift_mb [of "setting (env ''SCOPECACHE_MAX_ITEM_MB'') maxConfigMB"]
      shift_kb [of "setting (env ''SCOPECACHE_INBOX_MAX_ITEM_KB'') maxConfigKB"]
    by (auto simp: config_i64_def main_Config_def env_settings MinInt64_def MaxInt64_def
        ScopeMaxItems_def MaxStoreMiB_def MaxItemBytes_def Let_def)
qed

lemma Provision_i64:
  assumes "Provision_Config h = Inr cfg" "hd_ScopeMaxItems h \<le> MaxInt64" "hd_InboxMaxItems h \<le> MaxInt64"
  shows "config_i64 cfg"
  using assms shift_mb [of "hd_MaxStoreMB h"] shift_mb [of "hd_MaxItemMB h"] shift_kb [of "hd_InboxMaxItemKB h"]
  by (auto simp: Provision_exact validateConfig_None config_i64_def MinInt64_def)


section \<open>Boot\<close>

lemma held_none:
  assumes inv: "store_inv s" and none: "totalItems (score s) = 0"
  shows "snd (contents (view s) k) = []"
proof (cases "getScope s k")
  case (Some a)
  have "scope_items (bufs s) (k, a) \<le> held s"
    unfolding held_def
    by (rule sdir.total_member [OF store_invD(1) [OF inv]]) (use Some in \<open>simp_all add: getScope_def scope_items_def\<close>)
  then have "items (bufs s ! a) = []" using store_invD(8) [OF inv] none by (simp add: held_def scope_items_def)
  then show ?thesis by (simp add: contents_look [OF Some])
qed (simp add: contents_none)

lemma start_all_run:
  assumes "start_all ks command s = (bs, failed, s')" "reaches cfg n s"
  shows "(\<exists>m \<le> n + length ks. reaches cfg m s') \<and> keeps_subs s s' \<and> (\<forall>b \<in> set bs. sub_at (shub s') (sb_scope b) = Some (sb_chan b))"
  using assms
proof (induction ks arbitrary: s n bs failed s')
  case Nil
  then show ?case by (auto simp: keeps_subs_def)
next
  case (Cons k ks)
  obtain r s1 where r: "StartSubscriber k command s = (r, s1)" by (cases "StartSubscriber k command s")
  obtain bs2 f2 s2 where rest: "start_all ks command s1 = (bs2, f2, s2)" by (metis surj_pair)
  note S = start_one [OF r]
  obtain m where m: "m \<le> Suc n" "reaches cfg m s1" using starter.call_reaches [OF Cons.prems(2) start_callI [OF r]] by blast
  note I = Cons.IH [OF rest m(2)]
  obtain m' where m': "m' \<le> m + length ks" "reaches cfg m' s2" using I by blast
  have "s' = s2" "set bs \<subseteq> set bs2 \<union> {b. r = Inr b}"
    using Cons.prems(1) r rest by (auto split: sum.splits)
  then show ?case using S I m' m(1) by (fastforce simp: keeps_subs_def intro: exI [of _ m'])
qed

lemma start_reserved:
  assumes "StartReservedSubscribers command s = (bs, failed, s')" "reaches cfg n s"
  shows "(\<exists>m \<le> n + 2. reaches cfg m s') \<and> view s' = view s \<and> (\<forall>b \<in> set bs. sub_at (shub s') (sb_scope b) = Some (sb_chan b))"
proof (cases "command = []")
  case True
  then show ?thesis using assms by (auto simp: StartReservedSubscribers_def intro: exI [of _ n])
next
  case False
  then have "start_all [EventsScopeName, InboxScopeName] command s = (bs, failed, s')"
    using assms(1) by (simp add: StartReservedSubscribers_def)
  from start_all_run [OF this assms(2)] show ?thesis by (simp add: keeps_subs_def)
qed

lemma boot_cache_run:
  assumes cfg: "config_i64 cfg" and small: "k + 4 < 2 ^ 62"
    and script: "\<forall>path command s n. reaches cfg n s \<longrightarrow> (\<exists>m \<le> n + k. reaches cfg m (snd (run path command s)))"
    and boot: "boot_cache clkB sock run init sub (newStore seed clkA cfg) = (bs, s)"
  shows "(\<exists>m \<le> k + 3. reaches cfg m s) \<and> snd (contents (view s) EventsScopeName) = [] \<and>
    (\<forall>b \<in> set bs. sub_at (shub s) (sb_scope b) = Some (sb_chan b))"
proof -
  let ?s0 = "newStore seed clkA cfg"
  define s1 where "s1 = (if init = [] then ?s0 else snd (runInitWithPrivateSocket clkB sock run init ?s0))"
  have r0: "reaches cfg 0 ?s0" by (rule reaches.boot [OF cfg])
  have empty0: "snd (contents (view ?s0) EventsScopeName) = []"
    using held_none [OF goodD(1) [OF newStore_good(1) [OF cfg]] newStore_good(6) [OF cfg]] .
  have s1: "(\<exists>m \<le> k + 1. reaches cfg m s1) \<and> snd (contents (view s1) EventsScopeName) = []"
  proof (cases "init = [] \<or> (\<exists>e. sock = Inl e)")
    case True
    then have "s1 = ?s0" by (auto simp: s1_def runInitWithPrivateSocket_def)
    then show ?thesis using r0 empty0 by auto
  next
    case False
    then obtain path where path: "sock = Inr path" by (cases sock) auto
    obtain err sa where a: "run path init ?s0 = (err, sa)" by (cases "run path init ?s0")
    obtain r sb where d: "deleteUpTo clkB EventsScopeName MaxUint64 sa = (r, sb)" by (metis surj_pair)
    obtain m where m: "m \<le> k" "reaches cfg m sa" using script [rule_format, OF r0, of path init] a by auto
    have "live cfg sa" by (rule live_reaches [OF m(2)]) (use m(1) small in simp)
    then obtain n where g: "good n sa" "room (n + 1)" using live_good by blast
    have s1: "s1 = sb" using False path a d by (simp add: s1_def runInitWithPrivateSocket_def RunInitCommand_def gw_DeleteUpTo_def)
    have "reaches cfg (Suc m) sb" using step [OF m(2), of "DeleteUpTo EventsScopeName MaxUint64" clkB] d by simp
    then show ?thesis using drain_events [OF g d] m(1) s1 by (auto simp: contents_def intro: exI [of _ "Suc m"])
  qed
  then obtain m where m: "m \<le> k + 1" "reaches cfg m s1" by blast
  obtain failed where "StartReservedSubscribers sub s1 = (bs, failed, s)"
    using boot by (auto simp: boot_cache_def s1_def Let_def split: prod.splits)
  note S = start_reserved [OF this m(2)]
  obtain m' where "m' \<le> m + 2" "reaches cfg m' s" using S by blast
  then have "\<exists>m \<le> k + 3. reaches cfg m s" using m(1) by (intro exI [of _ m']) simp
  then show ?thesis using S s1 by simp
qed

text \<open>
  C36. Both adapters start a cache in order. From any environment, and from any configuration Caddy's module accepts,
  the boot ends with a store its operations can reach from the configured one, with an empty event stream,
  whatever the init script wrote and whether or not its socket could be opened, and with every subscriber
  that runs holding the subscription of its scope. (A script makes at most \<open>k\<close> requests.)
\<close>

theorem boots_clean:
  assumes "k + 4 < 2 ^ 62"
    and "\<forall>path command s n. reaches cfg n s \<longrightarrow> (\<exists>m \<le> n + k. reaches cfg m (snd (run path command s)))"
    and "cfg = WithDefaults (main_Config env) \<and> main_boot seed clkA clkB sock run env = (bs, s) \<or>
      Provision_Config h = Inr cfg \<and> hd_ScopeMaxItems h \<le> MaxInt64 \<and> hd_InboxMaxItems h \<le> MaxInt64 \<and>
        Provision seed clkA clkB sock run h = Inr (bs, s)"
  shows "(\<exists>m \<le> k + 3. reaches cfg m s) \<and> snd (contents (view s) EventsScopeName) = [] \<and>
    (\<forall>b \<in> set bs. sub_at (shub s) (sb_scope b) = Some (sb_chan b))"
proof -
  have "config_i64 cfg" using assms(3) WithDefaults_i64 [OF main_Config_i64] Provision_i64 by blast
  moreover obtain init sub where "boot_cache clkB sock run init sub (newStore seed clkA cfg) = (bs, s)"
    using assms(3)
  proof
    assume "cfg = WithDefaults (main_Config env) \<and> main_boot seed clkA clkB sock run env = (bs, s)"
    then show thesis using that [of "initCommandFromEnv env" "subscriberCommandFromEnv env"]
      by (simp add: main_boot_def NewGateway_def)
  next
    assume "Provision_Config h = Inr cfg \<and> hd_ScopeMaxItems h \<le> MaxInt64 \<and> hd_InboxMaxItems h \<le> MaxInt64 \<and>
      Provision seed clkA clkB sock run h = Inr (bs, s)"
    then have c: "Provision_Config h = Inr cfg" and p: "Provision seed clkA clkB sock run h = Inr (bs, s)" by simp_all
    have "boot_cache clkB sock run (hd_InitCommand h) (hd_SubscriberCommand h) (newStore seed clkA cfg) = (bs, s)"
      using p unfolding Provision_def c NewGateway_def by simp
    then show thesis by (rule that)
  qed
  ultimately show ?thesis by (rule boot_cache_run [OF _ assms(1,2)])
qed

definition env1 :: env where
  "env1 name = (if name = ''SCOPECACHE_EVENTS_MODE'' then ''full''
     else if name = ''SCOPECACHE_MAX_STORE_MB'' then ''8''
     else if name = ''SCOPECACHE_INIT_COMMAND'' then ''init''
     else if name = ''SCOPECACHE_SUBSCRIBER_COMMAND'' then ''drain'' else [])"

definition script1 :: "string \<Rightarrow> string \<Rightarrow> store \<Rightarrow> unit option \<times> store" where
  "script1 path command s = (None, serve clk0 (Append item1) s)"

type_synonym init_sock = "string + string"

theorem boots_clean_witness:
  "\<exists>bs s. main_boot (\<lambda>_. 0) clk0 clk0 (Inr ''init.sock'' :: init_sock) script1 env1 = (bs, s) \<and> length bs = 2 \<and>
    snd (contents (view s) EventsScopeName) = [] \<and> (\<forall>b \<in> set bs. sub_at (shub s) (sb_scope b) = Some (sb_chan b))"
proof -
  let ?boot = "main_boot (\<lambda>_. 0) clk0 clk0 (Inr ''init.sock'' :: init_sock) script1 env1"
  have l: "length (fst ?boot) = 2" by code_simp
  obtain bs s where b: "?boot = (bs, s)" by (cases ?boot)
  have "\<exists>m \<le> n + 1. reaches cfg m (snd (script1 path command s))" if "reaches cfg n s" for cfg path command s n
    using step [OF that, of "Append item1" clk0] items_client by (auto simp: script1_def intro: exI [of _ "Suc n"])
  then show ?thesis
    using boots_clean [of 1 "WithDefaults (main_Config env1)" script1 env1 "\<lambda>_. 0" clk0 clk0 "Inr ''init.sock'' :: init_sock" bs s] b l
    by auto
qed

end
