(* ===== verification/Machine.thy ===== *)
theory Machine
  imports Prelude "HOL-Library.AList" "HOL-Library.Sublist"
begin

text \<open>
  What the adapters use of the operating system: a file tree with directories and sockets, the listeners that are open,
  and processes in groups. A path is the list of its components, cleaned and absolute. Any call may fail, at
  the will of a function from the number of the call, and a call that fails so does nothing; the failures that follow from the
  state are written out.
\<close>

section \<open>Files and listeners\<close>

type_synonym path = "string list"

datatype node =
    Directory
  | SocketNode nat nat  \<comment> \<open>the permission bits and the listener that made it\<close>
  | OtherNode

definition is_socket :: "node \<Rightarrow> bool" where
  "is_socket n = (case n of SocketNode _ _ \<Rightarrow> True | _ \<Rightarrow> False)"

datatype oserr = NotExist | Errno string

record machine =
  files :: "(path \<times> node) list"
  opened :: "nat list"
  made :: nat
  calls :: nat

type_synonym faults = "nat \<Rightarrow> string option"

definition node_at :: "machine \<Rightarrow> path \<Rightarrow> node option" where
  "node_at m p = (if p = [] then Some Directory else map_of (files m) p)"

definition put_node :: "path \<Rightarrow> node \<Rightarrow> machine \<Rightarrow> machine" where
  "put_node p n m = m\<lparr>files := AList.update p n (files m)\<rparr>"

definition drop_node :: "path \<Rightarrow> machine \<Rightarrow> machine" where
  "drop_node p m = m\<lparr>files := AList.delete p (files m)\<rparr>"

definition machine_ok :: "machine \<Rightarrow> bool" where
  "machine_ok m \<longleftrightarrow> (\<forall>l \<in> set (opened m). l < made m)"

definition attempt :: "faults \<Rightarrow> (machine \<Rightarrow> (oserr + 'a) \<times> machine) \<Rightarrow> machine \<Rightarrow> (oserr + 'a) \<times> machine" where
  "attempt F f m =
     (let m1 = m\<lparr>calls := Suc (calls m)\<rparr> in
      case F (calls m) of Some e \<Rightarrow> (Inl (Errno e), m1) | None \<Rightarrow> f m1)"

definition os_Mkdir :: "faults \<Rightarrow> path \<Rightarrow> machine \<Rightarrow> (oserr + unit) \<times> machine" where
  \<comment> \<open>one step of \<open>os.MkdirAll\<close>: a directory that is there is fine\<close>
  "os_Mkdir F p = attempt F (\<lambda>m. case node_at m p of
       None \<Rightarrow> (Inr (), put_node p Directory m)
     | Some Directory \<Rightarrow> (Inr (), m)
     | Some _ \<Rightarrow> (Inl (Errno ''not a directory''), m))"

fun mkdir_each :: "faults \<Rightarrow> path list \<Rightarrow> machine \<Rightarrow> (oserr + unit) \<times> machine" where
  "mkdir_each F [] m = (Inr (), m)"
| "mkdir_each F (p # ps) m = (case os_Mkdir F p m of (Inl e, m1) \<Rightarrow> (Inl e, m1) | (Inr _, m1) \<Rightarrow> mkdir_each F ps m1)"

definition os_MkdirAll :: "faults \<Rightarrow> path \<Rightarrow> machine \<Rightarrow> (oserr + unit) \<times> machine" where
  "os_MkdirAll F p = mkdir_each F (tl (prefixes p))"

definition os_Lstat :: "faults \<Rightarrow> path \<Rightarrow> machine \<Rightarrow> (oserr + node) \<times> machine" where
  "os_Lstat F p = attempt F (\<lambda>m. (case node_at m p of None \<Rightarrow> Inl NotExist | Some n \<Rightarrow> Inr n, m))"

definition os_Remove :: "faults \<Rightarrow> path \<Rightarrow> machine \<Rightarrow> (oserr + unit) \<times> machine" where
  "os_Remove F p = attempt F (\<lambda>m. case node_at m p of
       None \<Rightarrow> (Inl NotExist, m)
     | Some n \<Rightarrow>
         if n = Directory \<and> (p = [] \<or> list_ex (\<lambda>(q, _). strict_prefix p q) (files m)) then (Inl (Errno ''not empty''), m)
         else (Inr (), drop_node p m))"

definition os_Chmod :: "faults \<Rightarrow> path \<Rightarrow> nat \<Rightarrow> machine \<Rightarrow> (oserr + unit) \<times> machine" where
  "os_Chmod F p perm = attempt F (\<lambda>m. case node_at m p of
       None \<Rightarrow> (Inl NotExist, m)
     | Some (SocketNode _ l) \<Rightarrow> (Inr (), put_node p (SocketNode perm l) m)
     | Some _ \<Rightarrow> (Inr (), m))"

definition os_MkdirTemp :: "faults \<Rightarrow> path \<Rightarrow> machine \<Rightarrow> (oserr + unit) \<times> machine" where
  \<comment> \<open>with the name it settles on\<close>
  "os_MkdirTemp F p = attempt F (\<lambda>m.
     if node_at m p = None then (Inr (), put_node p Directory m) else (Inl (Errno ''file exists''), m))"

definition os_RemoveAll :: "faults \<Rightarrow> path \<Rightarrow> machine \<Rightarrow> (oserr + unit) \<times> machine" where
  "os_RemoveAll F p = attempt F (\<lambda>m. (Inr (), m\<lparr>files := filter (\<lambda>(q, _). \<not> prefix p q) (files m)\<rparr>))"

definition net_Listen :: "faults \<Rightarrow> path \<Rightarrow> machine \<Rightarrow> (oserr + nat) \<times> machine" where
  \<comment> \<open>a new listener and its socket, with the permissions the process makes files with\<close>
  "net_Listen F p = attempt F (\<lambda>m.
     if node_at m p \<noteq> None then (Inl (Errno ''address already in use''), m)
     else if node_at m (butlast p) \<noteq> Some Directory then (Inl NotExist, m)
     else (Inr (made m), put_node p (SocketNode 493 (made m)) (m\<lparr>opened := made m # opened m, made := Suc (made m)\<rparr>)))"

definition ln_Close :: "path \<Rightarrow> nat \<Rightarrow> machine \<Rightarrow> machine" where
  \<comment> \<open>a Unix listener of Go takes the file at its path away when it is closed, the first time, and does not look whose it is\<close>
  "ln_Close p l m =
     (if l \<in> set (opened m)
      then (if node_at m p = Some Directory then m else drop_node p m)\<lparr>opened := removeAll l (opened m)\<rparr>
      else m)"

section \<open>What a call leaves alone\<close>

lemma node_at_root [simp]: "node_at m [] = Some Directory"
  by (simp add: node_at_def)

lemma node_at_put [simp]: "node_at (put_node p n m) q = (if q = p \<and> p \<noteq> [] then Some n else node_at m q)"
  by (auto simp: node_at_def put_node_def update_conv')

lemma node_at_drop [simp]: "node_at (drop_node p m) q = (if q = p \<and> p \<noteq> [] then None else node_at m q)"
  by (auto simp: node_at_def drop_node_def delete_conv')

lemma node_at_calls [simp]: "node_at (m\<lparr>calls := n\<rparr>) p = node_at m p" "node_at (m\<lparr>opened := ls\<rparr>) p = node_at m p"
  "node_at (m\<lparr>made := n\<rparr>) p = node_at m p"
  by (simp_all add: node_at_def)

lemma put_fields [simp]:
  "opened (put_node p n m) = opened m" "made (put_node p n m) = made m"
  "opened (drop_node p m) = opened m" "made (drop_node p m) = made m"
  by (simp_all add: put_node_def drop_node_def)

lemma attempt_cases:
  assumes "attempt F f m = (r, m')"
  obtains e where "r = Inl (Errno e)" "m' = m\<lparr>calls := Suc (calls m)\<rparr>" | "f (m\<lparr>calls := Suc (calls m)\<rparr>) = (r, m')"
  using assms by (auto simp: attempt_def Let_def split: option.splits)

definition same_but :: "path set \<Rightarrow> machine \<Rightarrow> machine \<Rightarrow> bool" where
  "same_but P m m' \<longleftrightarrow> (\<forall>q. q \<notin> P \<longrightarrow> node_at m' q = node_at m q)"

lemma same_but_refl [simp]: "same_but P m m"
  by (simp add: same_but_def)

lemma same_but_trans: "same_but P m1 m2 \<Longrightarrow> same_but P m2 m3 \<Longrightarrow> same_but P m1 m3"
  by (simp add: same_but_def)

lemma os_Mkdir_run:
  assumes "os_Mkdir F p m = (r, m')"
  shows "opened m' = opened m" "made m' = made m"
    "node_at m' q = node_at m q \<or> q = p \<and> node_at m q = None \<and> node_at m' q = Some Directory"
    "r = Inr () \<Longrightarrow> node_at m' p = Some Directory"
  using assms unfolding os_Mkdir_def
  by (auto elim!: attempt_cases split: option.splits node.splits if_splits)

lemma mkdir_each_run:
  assumes "mkdir_each F ps m = (r, m')"
  shows "opened m' = opened m \<and> made m' = made m \<and>
    (\<forall>q. node_at m' q = node_at m q \<or> q \<in> set ps \<and> node_at m q = None \<and> node_at m' q = Some Directory)"
  using assms
proof (induction ps arbitrary: m)
  case (Cons p ps)
  obtain r1 m1 where c: "os_Mkdir F p m = (r1, m1)" by (metis surj_pair)
  note M = os_Mkdir_run [OF c]
  show ?case
  proof (cases r1)
    case (Inl e)
    then have "m' = m1" using Cons.prems c by simp
    then show ?thesis using M(1-3) by auto
  next
    case (Inr u)
    then have "mkdir_each F ps m1 = (r, m')" using Cons.prems c by simp
    from Cons.IH [OF this] show ?thesis using M(1,2) M(3) by (metis list.set_intros(1,2))
  qed
qed simp

lemma os_MkdirAll_run:
  assumes "os_MkdirAll F p m = (r, m')"
  shows "opened m' = opened m" "made m' = made m"
    "node_at m' q = node_at m q \<or> prefix q p \<and> node_at m q = None \<and> node_at m' q = Some Directory"
proof -
  have "q \<in> set (tl (prefixes p)) \<Longrightarrow> prefix q p" for q by (metis in_set_prefixes list.set_sel(2) prefixes_not_Nil)
  with mkdir_each_run [OF assms [unfolded os_MkdirAll_def]]
  show "opened m' = opened m" "made m' = made m"
    "node_at m' q = node_at m q \<or> prefix q p \<and> node_at m q = None \<and> node_at m' q = Some Directory" by blast+
qed

lemma os_Lstat_run:
  assumes "os_Lstat F p m = (r, m')"
  shows "opened m' = opened m" "made m' = made m" "node_at m' q = node_at m q"
    "r = Inr n \<Longrightarrow> node_at m p = Some n" "r = Inl NotExist \<Longrightarrow> node_at m p = None"
  using assms unfolding os_Lstat_def by (auto elim!: attempt_cases split: option.splits)

lemma os_Remove_run:
  assumes "os_Remove F p m = (r, m')"
  shows "opened m' = opened m" "made m' = made m" "q \<noteq> p \<Longrightarrow> node_at m' q = node_at m q"
    "node_at m' p = node_at m p \<or> node_at m' p = None" "r = Inr u \<Longrightarrow> node_at m' p = None"
  using assms unfolding os_Remove_def by (auto elim!: attempt_cases split: option.splits if_splits)

lemma os_Chmod_run:
  assumes "os_Chmod F p perm m = (r, m')"
  shows "opened m' = opened m" "made m' = made m" "q \<noteq> p \<Longrightarrow> node_at m' q = node_at m q"
    "\<exists>e. r = Inl e \<Longrightarrow> node_at m' p = node_at m p"
    "r = Inr u \<Longrightarrow> node_at m p = Some (SocketNode x l) \<Longrightarrow> p \<noteq> [] \<Longrightarrow> node_at m' p = Some (SocketNode perm l)"
  using assms unfolding os_Chmod_def by (auto elim!: attempt_cases split: option.splits node.splits)

lemma net_Listen_run:
  assumes "net_Listen F p m = (r, m')"
  shows "q \<noteq> p \<Longrightarrow> node_at m' q = node_at m q"
    "r = Inl e \<Longrightarrow> opened m' = opened m \<and> made m' = made m \<and> node_at m' p = node_at m p"
    "r = Inr l \<Longrightarrow> p \<noteq> [] \<and> l = made m \<and> opened m' = l # opened m \<and> made m' = Suc l \<and>
       node_at m p = None \<and> node_at m' p = Some (SocketNode 493 l) \<and> node_at m (butlast p) = Some Directory"
  using assms unfolding net_Listen_def
  by (auto elim!: attempt_cases split: if_splits)

lemma ln_Close_run:
  "opened (ln_Close p l m) = removeAll l (opened m)" "made (ln_Close p l m) = made m"
  "q \<noteq> p \<Longrightarrow> node_at (ln_Close p l m) q = node_at m q"
  "l \<in> set (opened m) \<Longrightarrow> node_at m p \<noteq> Some Directory \<Longrightarrow> node_at (ln_Close p l m) p = None"
  by (auto simp: ln_Close_def)

lemma os_RemoveAll_run:
  assumes "os_RemoveAll F p m = (r, m')"
  shows "opened m' = opened m" "made m' = made m" "\<not> prefix p q \<Longrightarrow> node_at m' q = node_at m q"
    "r = Inr u \<Longrightarrow> p \<noteq> [] \<Longrightarrow> prefix p q \<Longrightarrow> node_at m' q = None"
proof -
  have f: "map_of (filter (\<lambda>(q, _). \<not> prefix p q) xs) q = (if prefix p q then None else map_of xs q)" for xs :: "(path \<times> node) list"
    by (induction xs) auto
  show "opened m' = opened m" "made m' = made m"
    using assms unfolding os_RemoveAll_def by (auto elim!: attempt_cases)
  show "node_at m' q = node_at m q" if "\<not> prefix p q"
    using assms that unfolding os_RemoveAll_def by (auto elim!: attempt_cases simp: node_at_def f)
  show "node_at m' q = None" if "r = Inr u" "p \<noteq> []" "prefix p q"
    using assms that unfolding os_RemoveAll_def by (auto elim!: attempt_cases simp: node_at_def f)
qed

section \<open>Processes\<close>

text \<open>
  A process has a pid, belongs to a group, and descends from a command the cache has started or from none. It can fork,
  exit, and leave its group for one of its own. The kernel hands out no pid that is in use as a pid or a group, nor that of a
  command that has not been waited for.
\<close>

record proc =
  pid :: nat
  pgid :: nat
  origin :: "nat option"
  has_left :: bool

definition unused :: "nat \<Rightarrow> proc list \<Rightarrow> bool" where
  "unused n ps \<longleftrightarrow> (\<forall>p \<in> set ps. pid p \<noteq> n \<and> pgid p \<noteq> n \<and> origin p \<noteq> Some n)"

inductive proc_step :: "nat \<Rightarrow> proc list \<Rightarrow> proc list \<Rightarrow> bool" for g where
  fork: "p \<in> set ps \<Longrightarrow> unused n ps \<Longrightarrow> n \<noteq> g \<Longrightarrow> proc_step g ps (p\<lparr>pid := n\<rparr> # ps)"
| exits: "proc_step g ps (filter (\<lambda>p. pid p \<noteq> n) ps)"
| leaves: "p \<in> set ps \<Longrightarrow> pid p \<noteq> g \<Longrightarrow> proc_step g ps (map (\<lambda>q. if pid q = pid p then q\<lparr>pgid := pid q, has_left := True\<rparr> else q) ps)"

definition kill_group :: "nat \<Rightarrow> proc list \<Rightarrow> proc list" where
  \<comment> \<open>SIGKILL to the negative pid\<close>
  "kill_group g ps = filter (\<lambda>p. pgid p \<noteq> g) ps"

definition kill_one :: "nat \<Rightarrow> proc list \<Rightarrow> proc list" where
  "kill_one n ps = filter (\<lambda>p. pid p \<noteq> n) ps"

definition in_group :: "nat \<Rightarrow> proc list \<Rightarrow> bool" where
  \<comment> \<open>the group of a command: its descendants that have not left\<close>
  "in_group g ps \<longleftrightarrow> (\<forall>p \<in> set ps. (pgid p = g \<longleftrightarrow> origin p = Some g \<and> \<not> has_left p) \<and> (pid p = g \<longrightarrow> pgid p = g))"

lemma in_group_step: "proc_step g ps ps' \<Longrightarrow> in_group g ps \<Longrightarrow> in_group g ps'"
  by (induction rule: proc_step.induct) (auto simp: in_group_def)

lemma in_group_steps: "(proc_step g)\<^sup>*\<^sup>* ps ps' \<Longrightarrow> in_group g ps \<Longrightarrow> in_group g ps'"
  by (induction rule: rtranclp_induct) (auto intro: in_group_step)

lemma kill_group_exact:
  "in_group g ps \<Longrightarrow> set (kill_group g ps) = {p \<in> set ps. origin p \<noteq> Some g \<or> has_left p}"
  by (auto simp: in_group_def kill_group_def)

end
