(* ===== verification/Launch.thy ===== *)
theory Launch
  imports Machine Adapters Handlers
begin

text \<open>
  What the adapters do with the operating system: the public socket (\<open>listenUnixSocket\<close>), the private one the init command is
  served on (\<open>runInitWithPrivateSocket\<close>), the commands and their process groups (\<open>runSubscriberCommand\<close>,
  \<open>configureProcessGroup\<close>), and the end of the binary's \<open>main\<close>.
\<close>

section \<open>The public socket\<close>

datatype listen_error = OsError oserr | RefusingToRemove path

definition UnixSocketPerm :: nat where "UnixSocketPerm = 432"

definition bind_socket :: "faults \<Rightarrow> path \<Rightarrow> machine \<Rightarrow> (listen_error + nat) \<times> machine" where
  \<comment> \<open>listen, then set the permissions; both undone when the second fails\<close>
  "bind_socket F p m =
     (case net_Listen F p m of
        (Inl e, m1) \<Rightarrow> (Inl (OsError e), m1)
      | (Inr l, m1) \<Rightarrow>
          (case os_Chmod F p UnixSocketPerm m1 of
             (Inl e, m2) \<Rightarrow> (Inl (OsError e), snd (os_Remove F p (ln_Close p l m2)))
           | (Inr _, m2) \<Rightarrow> (Inr l, m2)))"

definition listenUnixSocket :: "faults \<Rightarrow> path \<Rightarrow> machine \<Rightarrow> (listen_error + nat) \<times> machine" where
  "listenUnixSocket F p m =
     (case os_MkdirAll F (butlast p) m of
        (Inl e, m1) \<Rightarrow> (Inl (OsError e), m1)
      | (Inr _, m1) \<Rightarrow>
          (case os_Lstat F p m1 of
             (Inr n, m2) \<Rightarrow>
               if \<not> is_socket n then (Inl (RefusingToRemove p), m2)
               else (case os_Remove F p m2 of
                   (Inl e, m3) \<Rightarrow> (Inl (OsError e), m3)
                 | (Inr _, m3) \<Rightarrow> bind_socket F p m3)
           | (Inl e, m2) \<Rightarrow> if e \<noteq> NotExist then (Inl (OsError e), m2) else bind_socket F p m2))"

definition main_exit :: "faults \<Rightarrow> path \<Rightarrow> nat \<Rightarrow> machine \<Rightarrow> machine" where
  \<comment> \<open>once the server has shut down, and closed the listener by that, \<open>main\<close> closes it again and removes the file\<close>
  "main_exit F p l m = snd (os_Remove F p (ln_Close p l (ln_Close p l m)))"

lemma bind_socket_run:
  assumes run: "bind_socket F p m = (r, m')" and ok: "machine_ok m"
  shows "q \<noteq> p \<Longrightarrow> node_at m' q = node_at m q"
    "r = Inr l \<Longrightarrow> p \<noteq> [] \<and> l \<notin> set (opened m) \<and> opened m' = l # opened m \<and> node_at m p = None \<and>
       node_at m' p = Some (SocketNode UnixSocketPerm l)"
    "r = Inl e \<Longrightarrow> opened m' = opened m \<and> (node_at m' p = node_at m p \<or> node_at m' p = None)"
    "machine_ok m'"
proof -
  obtain r1 m1 where L: "net_Listen F p m = (r1, m1)" by (metis surj_pair)
  note N = net_Listen_run [OF L]
  have all: "(\<forall>q. q \<noteq> p \<longrightarrow> node_at m' q = node_at m q) \<and>
    (\<forall>l. r = Inr l \<longrightarrow> p \<noteq> [] \<and> l \<notin> set (opened m) \<and> opened m' = l # opened m \<and> node_at m p = None \<and>
       node_at m' p = Some (SocketNode UnixSocketPerm l)) \<and>
    (\<forall>e. r = Inl e \<longrightarrow> opened m' = opened m \<and> (node_at m' p = node_at m p \<or> node_at m' p = None)) \<and> machine_ok m'"
  proof (cases r1)
    case (Inl e)
    then show ?thesis using run L N(1) N(2) [OF Inl] ok by (auto simp: bind_socket_def machine_ok_def)
  next
    case (Inr l)
    note l = N(3) [OF Inr]
    have new: "l \<notin> set (opened m)" using l ok by (auto simp: machine_ok_def)
    have ok1: "machine_ok m1" using l ok by (auto simp: machine_ok_def)
    obtain r2 m2 where C: "os_Chmod F p UnixSocketPerm m1 = (r2, m2)" by (metis surj_pair)
    note P = os_Chmod_run [OF C]
    show ?thesis
    proof (cases r2)
      case r2: (Inr u)
      then have "r = Inr l" "m' = m2" using run L Inr C by (simp_all add: bind_socket_def)
      then show ?thesis using l new P(1,2,3) P(5) [OF r2] N(1) ok1 by (auto simp: machine_ok_def)
    next
      case r2: (Inl e)
      obtain r3 m3 where R: "os_Remove F p (ln_Close p l m2) = (r3, m3)" by (metis surj_pair)
      note Q = os_Remove_run [OF R]
      have out: "r = Inl (OsError e)" "m' = m3" using run L Inr C r2 R by (simp_all add: bind_socket_def)
      have "node_at m2 p = Some (SocketNode 493 l)" using P(4) r2 l by auto
      then have "node_at (ln_Close p l m2) p = None" using ln_Close_run(4) [of l m2 p] P(1) l by simp
      moreover have "opened m3 = opened m" using Q(1) P(1) l new by (simp add: ln_Close_run removeAll_id)
      moreover have "machine_ok m3" using Q(1,2) P(1,2) l ok by (auto simp: machine_ok_def ln_Close_run)
      ultimately show ?thesis using out Q(3,4) P(3) N(1) by (auto simp: ln_Close_run)
    qed
  qed
  from all show "q \<noteq> p \<Longrightarrow> node_at m' q = node_at m q" by simp
  from all show "r = Inr l \<Longrightarrow> p \<noteq> [] \<and> l \<notin> set (opened m) \<and> opened m' = l # opened m \<and> node_at m p = None \<and>
       node_at m' p = Some (SocketNode UnixSocketPerm l)" by simp
  from all show "r = Inl e \<Longrightarrow> opened m' = opened m \<and> (node_at m' p = node_at m p \<or> node_at m' p = None)" by simp
  from all show "machine_ok m'" by simp
qed

lemma listen_run:
  assumes run: "listenUnixSocket F p m = (r, m')" and ok: "machine_ok m"
  shows "q \<noteq> p \<Longrightarrow> node_at m' q = node_at m q \<or> strict_prefix q p \<and> node_at m q = None \<and> node_at m' q = Some Directory"
    "r = Inr l \<Longrightarrow> l \<notin> set (opened m) \<and> opened m' = l # opened m \<and> node_at m' p = Some (SocketNode UnixSocketPerm l)"
    "r = Inl e \<Longrightarrow> opened m' = opened m"
    "node_at m p = Some n \<Longrightarrow> \<not> is_socket n \<Longrightarrow> node_at m' p = Some n \<and> (\<exists>e. r = Inl e)"
    "machine_ok m'"
proof -
  obtain r1 m1 where M: "os_MkdirAll F (butlast p) m = (r1, m1)" by (metis surj_pair)
  note D = os_MkdirAll_run [OF M]
  have below: "prefix q (butlast p) \<Longrightarrow> q = p \<longrightarrow> p = []" "prefix q (butlast p) \<Longrightarrow> q \<noteq> p \<Longrightarrow> strict_prefix q p" for q
    by (cases p rule: rev_cases; auto simp: prefix_def strict_prefix_def)+
  have p1: "node_at m1 p = node_at m p"
    using D(3) [of p] below(1) [of p] by (auto simp: node_at_def)
  have other1: "node_at m1 q = node_at m q \<or> strict_prefix q p \<and> node_at m q = None \<and> node_at m1 q = Some Directory" if "q \<noteq> p" for q
    using D(3) [of q] below(2) [of q] that by blast
  have ok1: "machine_ok m1" using ok D(1,2) by (simp add: machine_ok_def)
  let ?post = "(\<forall>q. q \<noteq> p \<longrightarrow> node_at m' q = node_at m1 q) \<and>
    (\<forall>l. r = Inr l \<longrightarrow> l \<notin> set (opened m) \<and> opened m' = l # opened m \<and> node_at m' p = Some (SocketNode UnixSocketPerm l)) \<and>
    (\<forall>e. r = Inl e \<longrightarrow> opened m' = opened m) \<and>
    (\<forall>n. node_at m p = Some n \<longrightarrow> \<not> is_socket n \<longrightarrow> node_at m' p = Some n \<and> (\<exists>e. r = Inl e)) \<and> machine_ok m'"
  have "?post"
  proof (cases r1)
    case (Inl e)
    then show ?thesis using run M D(1) p1 ok1 by (auto simp: listenUnixSocket_def)
  next
    case (Inr u)
    obtain r2 m2 where S: "os_Lstat F p m1 = (r2, m2)" by (metis surj_pair)
    note L = os_Lstat_run [OF S]
    have ok2: "machine_ok m2" using ok1 L(1,2) by (simp add: machine_ok_def)
    show ?thesis
    proof (cases r2)
      case r2: (Inl e)
      show ?thesis
      proof (cases "e = NotExist")
        case False
        then show ?thesis using run M Inr S r2 L(1,3) D(1) p1 ok2 by (auto simp: listenUnixSocket_def)
      next
        case True
        then have b: "bind_socket F p m2 = (r, m')" using run M Inr S r2 by (simp add: listenUnixSocket_def)
        have none: "node_at m p = None" using L(5) r2 True p1 by simp
        note B = bind_socket_run [OF b ok2]
        show ?thesis using B(1,4) B(2) B(3) none L(1,3) D(1) by auto
      qed
    next
      case r2: (Inr n)
      have n: "node_at m p = Some n" using L(4) r2 p1 by simp
      show ?thesis
      proof (cases "is_socket n")
        case False
        then show ?thesis using run M Inr S r2 L(1,3) D(1) p1 ok2 n by (auto simp: listenUnixSocket_def)
      next
        case True
        obtain r3 m3 where R: "os_Remove F p m2 = (r3, m3)" by (metis surj_pair)
        note Q = os_Remove_run [OF R]
        have ok3: "machine_ok m3" using ok2 Q(1,2) by (simp add: machine_ok_def)
        show ?thesis
        proof (cases r3)
          case r3: (Inl e)
          then show ?thesis using run M Inr S r2 True R Q(1,3) L(1,3) D(1) n ok3 by (auto simp: listenUnixSocket_def)
        next
          case r3: (Inr v)
          then have b: "bind_socket F p m3 = (r, m')" using run M Inr S r2 True R by (simp add: listenUnixSocket_def)
          note B = bind_socket_run [OF b ok3]
          show ?thesis using B(1,4) B(2) B(3) n True L(1,3) D(1) Q(1,3) by auto
        qed
      qed
    qed
  qed
  then show "q \<noteq> p \<Longrightarrow> node_at m' q = node_at m q \<or> strict_prefix q p \<and> node_at m q = None \<and> node_at m' q = Some Directory"
    "r = Inr l \<Longrightarrow> l \<notin> set (opened m) \<and> opened m' = l # opened m \<and> node_at m' p = Some (SocketNode UnixSocketPerm l)"
    "r = Inl e \<Longrightarrow> opened m' = opened m"
    "node_at m p = Some n \<Longrightarrow> \<not> is_socket n \<Longrightarrow> node_at m' p = Some n \<and> (\<exists>e. r = Inl e)"
    "machine_ok m'"
    using other1 by auto
qed

section \<open>The private socket of the init command\<close>

datatype init_error = CreateTempDir oserr | ListenInit oserr

definition path_text :: "path \<Rightarrow> string" where
  "path_text p = concat (map (\<lambda>c. ''/'' @ c) p)"

definition deadline :: "int \<Rightarrow> int option" where
  "deadline timeout = (if 0 < timeout then Some timeout else None)"

definition private_init ::
  "faults \<Rightarrow> path \<Rightarrow> clock \<Rightarrow> int option \<Rightarrow> (int option \<Rightarrow> string list \<Rightarrow> string \<Rightarrow> store \<Rightarrow> 'e option \<times> store) \<Rightarrow> (machine \<Rightarrow> machine) \<Rightarrow>
     string \<Rightarrow> machine \<times> store \<Rightarrow> (init_error + (string \<times> 'e) option) \<times> machine \<times> store" where
  \<comment> \<open>the temporary directory, the deadline, what the command does to the store it reaches through the socket, and what else it does\<close>
  "private_init F tmp clk dl run script command st =
     (case st of (m, s) \<Rightarrow>
        (case os_MkdirTemp F tmp m of
           (Inl e, m1) \<Rightarrow> (Inl (CreateTempDir e), m1, s)
         | (Inr _, m1) \<Rightarrow>
             (let sockPath = tmp @ [''init.sock''] in
              case net_Listen F sockPath m1 of
                (Inl e, m2) \<Rightarrow> (Inl (ListenInit e), snd (os_RemoveAll F tmp m2), s)
              | (Inr l, m2) \<Rightarrow>
                  (case RunInitCommand clk (run dl [''SCOPECACHE_SOCKET_PATH='' @ path_text sockPath]) command s of
                     (r, s') \<Rightarrow> (Inr r, snd (os_RemoveAll F tmp (ln_Close sockPath l (script m2))), s')))))"

definition main_init where
  \<comment> \<open>of the binary: a duration\<close>
  "main_init F tmp clk timeout = private_init F tmp clk (deadline timeout)"

definition caddy_init where
  \<comment> \<open>of the Caddy module: seconds\<close>
  "caddy_init F tmp clk h =
     private_init F tmp clk (if 0 < hd_InitTimeoutSec h then Some (wrap64 (hd_InitTimeoutSec h * 1000000000)) else None)"

definition private_socket :: "faults \<Rightarrow> path \<Rightarrow> machine \<Rightarrow> init_error + string" where
  \<comment> \<open>what the boot sees of the directory and the socket\<close>
  "private_socket F tmp m =
     (case os_MkdirTemp F tmp m of
        (Inl e, _) \<Rightarrow> Inl (CreateTempDir e)
      | (Inr _, m1) \<Rightarrow> (case net_Listen F (tmp @ [''init.sock'']) m1 of
            (Inl e, _) \<Rightarrow> Inl (ListenInit e)
          | (Inr _, _) \<Rightarrow> Inr (path_text (tmp @ [''init.sock'']))))"

lemma private_init_refines:
  "private_init F tmp clk dl run script command (m, s) = (r, m', s') \<Longrightarrow>
     runInitWithPrivateSocket clk (private_socket F tmp m) (\<lambda>path. run dl [''SCOPECACHE_SOCKET_PATH='' @ path]) command s = (r, s')"
  by (auto simp: private_init_def private_socket_def runInitWithPrivateSocket_def Let_def split: prod.splits sum.splits)

section \<open>The binary from start to end\<close>

definition scopecache_main ::
  "faults \<Rightarrow> path \<Rightarrow> (string \<Rightarrow> path) \<Rightarrow> string \<Rightarrow> (bytestr \<Rightarrow> 64 word) \<Rightarrow> clock \<Rightarrow> clock \<Rightarrow>
     (int option \<Rightarrow> string list \<Rightarrow> string \<Rightarrow> store \<Rightarrow> 'e option \<times> store) \<Rightarrow> (machine \<Rightarrow> machine) \<Rightarrow>
     (nat \<Rightarrow> machine \<times> store \<Rightarrow> machine \<times> store) \<Rightarrow> env \<Rightarrow> machine \<Rightarrow> (listen_error option \<times> subscriber list) \<times> machine \<times> store" where
  \<comment> \<open>\<open>serving\<close> is all that happens until the server has shut down; with the result come the subscribers nobody has stopped,
    which are left when \<open>log.Fatal\<close> skips the deferred stop\<close>
  "scopecache_main F tmp resolve DefaultSocketPath seed clk0 clk1 run script serving env m =
     (let s = NewGateway seed clk0 (WithDefaults (main_Config env));
          socketPath = resolve (socketPathFromEnv DefaultSocketPath env);
          cmd = initCommandFromEnv env in
      case (if cmd = [] then (m, s) else snd (main_init F tmp clk1 (initTimeoutFromEnv env) run script cmd (m, s))) of
        (m1, s1) \<Rightarrow>
          (case StartReservedSubscribers (subscriberCommandFromEnv env) s1 of
             (bs, _, s2) \<Rightarrow>
               (case listenUnixSocket F socketPath m1 of
                  (Inl e, m2) \<Rightarrow> ((Some e, bs), m2, s2)
                | (Inr l, m2) \<Rightarrow>
                    (case serving l (m2, s2) of
                       (m3, s3) \<Rightarrow>
                         ((None, []), main_exit F socketPath l m3,
                          s3\<lparr>shub := snd (snd (stop_order (rev bs) (shub s3)))\<rparr>)))))"

lemma main_serves_the_boot:
  \<comment> \<open>what the server starts with is what the boot leaves, and a failure to listen leaves its subscribers running\<close>
  assumes "scopecache_main F tmp resolve dflt seed clk0 clk1 run script serving env m = ((e, bs), m', s')"
    and "main_boot seed clk0 clk1 (private_socket F tmp m) (\<lambda>path. run (deadline (initTimeoutFromEnv env)) [''SCOPECACHE_SOCKET_PATH='' @ path]) env =
      (bs2, s2)"
  shows "case e of
      Some _ \<Rightarrow> bs = bs2 \<and> s' = s2
    | None \<Rightarrow> bs = [] \<and> (\<exists>l m2 m3 s3. serving l (m2, s2) = (m3, s3) \<and> s' = s3\<lparr>shub := snd (snd (stop_order (rev bs2) (shub s3)))\<rparr>)"
proof -
  let ?s = "NewGateway seed clk0 (WithDefaults (main_Config env))" and ?c = "initCommandFromEnv env"
  let ?sock = "private_socket F tmp m"
  let ?run = "\<lambda>path. run (deadline (initTimeoutFromEnv env)) [''SCOPECACHE_SOCKET_PATH='' @ path]"
  obtain m1 s1 where i: "(if ?c = [] then (m, ?s) else snd (main_init F tmp clk1 (initTimeoutFromEnv env) run script ?c (m, ?s))) = (m1, s1)"
    by (metis surj_pair)
  have s1: "s1 = (if ?c = [] then ?s else snd (runInitWithPrivateSocket clk1 ?sock ?run ?c ?s))"
  proof (cases "?c = []")
    case False
    obtain r where "main_init F tmp clk1 (initTimeoutFromEnv env) run script ?c (m, ?s) = (r, m1, s1)"
      using i False by (metis prod.collapse)
    from private_init_refines [OF this [unfolded main_init_def]] show ?thesis using False by simp
  qed (use i in simp)
  have "main_boot seed clk0 clk1 ?sock ?run env =
      (case StartReservedSubscribers (subscriberCommandFromEnv env) s1 of (bs, _, s2) \<Rightarrow> (bs, s2))"
    by (simp only: main_boot_def boot_cache_def Let_def s1)
  then obtain f where b: "StartReservedSubscribers (subscriberCommandFromEnv env) s1 = (bs2, f, s2)"
    using assms(2) by (cases "StartReservedSubscribers (subscriberCommandFromEnv env) s1") simp
  obtain r2 m2 where L: "listenUnixSocket F (resolve (socketPathFromEnv dflt env)) m1 = (r2, m2)" by (metis surj_pair)
  show ?thesis
    using assms(1) i b L by (cases r2) (auto simp: scopecache_main_def Let_def split: prod.splits)
qed

section \<open>Commands\<close>

record cmd =
  c_Path :: string
  c_Env :: "string list"
  c_Setpgid :: bool
  c_killsGroup :: bool

definition exec_CommandContext :: "string \<Rightarrow> cmd" where
  "exec_CommandContext command = \<lparr>c_Path = command, c_Env = [], c_Setpgid = False, c_killsGroup = False\<rparr>"

definition configureProcessGroup :: "cmd \<Rightarrow> cmd" where
  "configureProcessGroup c = c\<lparr>c_Setpgid := True, c_killsGroup := True\<rparr>"

definition configureProcessGroup_other :: "cmd \<Rightarrow> cmd" where
  \<comment> \<open>where there are no process groups\<close>
  "configureProcessGroup_other c = c"

definition subscriberCmd :: "string list \<Rightarrow> string \<Rightarrow> string \<Rightarrow> cmd" where
  "subscriberCmd environ scope command =
     configureProcessGroup ((exec_CommandContext command)\<lparr>c_Env := environ @ [''SCOPECACHE_SCOPE='' @ scope]\<rparr>)"

definition initCmd :: "string list \<Rightarrow> string list \<Rightarrow> string \<Rightarrow> cmd" where
  "initCmd environ extraEnv command = configureProcessGroup ((exec_CommandContext command)\<lparr>c_Env := environ @ extraEnv\<rparr>)"

definition runSubscriberCommand ::
  "string list \<Rightarrow> (cmd \<Rightarrow> 'w \<Rightarrow> 'e option \<times> 'w) \<Rightarrow> string \<Rightarrow> string \<Rightarrow> 'w \<Rightarrow> 'w" where
  \<comment> \<open>an error of the run is logged\<close>
  "runSubscriberCommand environ run scope command w = snd (run (subscriberCmd environ scope command) w)"

definition start_cmd :: "cmd \<Rightarrow> nat \<Rightarrow> nat \<Rightarrow> proc list \<Rightarrow> proc list" where
  \<comment> \<open>\<open>cmd.Start\<close>: a new process, in a group of its own or in the cache's\<close>
  "start_cmd c parent_group n ps = \<lparr>pid = n, pgid = (if c_Setpgid c then n else parent_group), origin = Some n, has_left = False\<rparr> # ps"

definition cancel_cmd :: "cmd \<Rightarrow> nat option \<Rightarrow> proc list \<Rightarrow> proc list" where
  \<comment> \<open>\<open>cmd.Cancel\<close>; no process when it has not started\<close>
  "cancel_cmd c started ps =
     (case started of
        None \<Rightarrow> ps
      | Some n \<Rightarrow> if c_killsGroup c then kill_group n ps else kill_one n ps)"

lemma start_in_group:
  assumes "unused n ps" "c_Setpgid c"
  shows "in_group n (start_cmd c g n ps)"
  using assms by (auto simp: unused_def in_group_def start_cmd_def)

section \<open>Requests that are not the cache's\<close>

definition ServeHTTP :: "runtime \<Rightarrow> (http_request \<Rightarrow> 'w) \<Rightarrow> (outcome \<Rightarrow> 'w) \<Rightarrow> http_request \<Rightarrow> store \<Rightarrow> 'w \<times> store" where
  \<comment> \<open>what the cache's routes do not match goes to the next handler\<close>
  "ServeHTTP rt onward reply rq s =
     (case answers rt rq s of Some (r, s') \<Rightarrow> (reply r, s') | None \<Rightarrow> (onward rq, s))"

definition parseCaddyfile :: "'d dispenser \<Rightarrow> 'd \<Rightarrow> (caddy_error + Handler) option" where
  "parseCaddyfile D d = UnmarshalCaddyfile D d Handler_zero"

end
