(* ===== verification/LaunchProps.thy ===== *)
theory LaunchProps
  imports Launch Samples
begin

text \<open>
  The adapters and the operating system: the public socket, the private socket of the init command, the end of a command's process
  group, and what the end of one instance does to another on the same path.
\<close>

section \<open>The public socket\<close>

lemma mkdir_each_ok:
  assumes "\<forall>n. F n = None" "\<forall>q \<in> set ps. node_at m q \<in> {None, Some Directory}"
  shows "\<exists>m'. mkdir_each F ps m = (Inr (), m') \<and> (\<forall>q \<in> set ps. node_at m' q = Some Directory)"
  using assms(2)
proof (induction ps arbitrary: m)
  case (Cons p ps)
  obtain r1 m1 where c: "os_Mkdir F p m = (r1, m1)" by (metis surj_pair)
  note M = os_Mkdir_run [OF c]
  have r1: "r1 = Inr ()"
    using c assms(1) Cons.prems by (auto simp: os_Mkdir_def attempt_def Let_def split: option.splits node.splits)
  have "\<forall>q \<in> set ps. node_at m1 q \<in> {None, Some Directory}" using M(3) Cons.prems by (metis insertCI list.set_intros(2))
  from Cons.IH [OF this] obtain m' where m': "mkdir_each F ps m1 = (Inr (), m')" "\<forall>q \<in> set ps. node_at m' q = Some Directory" by blast
  have "node_at m' p = Some Directory"
    using mkdir_each_run [OF m'(1)] M(4) [OF r1] by (metis option.distinct(1))
  then show ?case using m' c r1 by auto
qed simp

lemma bind_ok:
  assumes "\<forall>n. F n = None" "p \<noteq> []" "node_at m p = None" "node_at m (butlast p) = Some Directory"
  shows "\<exists>l m'. bind_socket F p m = (Inr l, m')"
  using assms by (simp add: bind_socket_def net_Listen_def os_Chmod_def attempt_def Let_def)

lemma listen_ok:
  assumes F: "\<forall>n. F n = None" and p: "p \<noteq> []" and dirs: "\<forall>q. strict_prefix q p \<longrightarrow> node_at m q \<in> {None, Some Directory}"
    and sock: "\<forall>n. node_at m p = Some n \<longrightarrow> is_socket n"
  shows "\<exists>l m'. listenUnixSocket F p m = (Inr l, m')"
proof -
  let ?d = "butlast p"
  have below: "strict_prefix q p" if "prefix q ?d" for q
    using that p by (metis append_butlast_last_id prefix_order.le_less_trans prefix_snoc strict_prefix_def append_Nil2 butlast_snoc
        not_Cons_self2 prefixI same_prefix_nil prefix_order.dual_order.strict_iff_order)
  have "\<forall>q \<in> set (tl (prefixes ?d)). node_at m q \<in> {None, Some Directory}"
    using dirs below by (metis in_set_prefixes list.set_sel(2) prefixes_not_Nil)
  from mkdir_each_ok [OF F this] obtain m1 where m1: "os_MkdirAll F ?d m = (Inr (), m1)"
    "\<forall>q \<in> set (tl (prefixes ?d)). node_at m1 q = Some Directory" by (auto simp: os_MkdirAll_def)
  have "?d \<in> set (tl (prefixes ?d))" if "?d \<noteq> []"
    using that by (cases ?d) (auto simp: in_set_prefixes image_iff)
  then have d: "node_at m1 ?d = Some Directory" using m1(2) by (cases "?d = []") auto
  have same: "node_at m1 p = node_at m p" using os_MkdirAll_run(3) [OF m1(1), of p] below [of p] by auto
  obtain r2 m2 where L: "os_Lstat F p m1 = (r2, m2)" by (metis surj_pair)
  note S = os_Lstat_run [OF L]
  show ?thesis
  proof (cases "node_at m p")
    case None
    then have "r2 = Inl NotExist" using L F same by (auto simp: os_Lstat_def attempt_def Let_def)
    then show ?thesis using m1(1) L bind_ok [OF F p, of m2] S(3) d same None by (simp add: listenUnixSocket_def)
  next
    case (Some n)
    then have r2: "r2 = Inr n" using L F same by (auto simp: os_Lstat_def attempt_def Let_def)
    have n: "is_socket n" "n \<noteq> Directory" using sock Some by (auto simp: is_socket_def)
    obtain r3 m3 where R: "os_Remove F p m2 = (r3, m3)" by (metis surj_pair)
    have r3: "r3 = Inr ()" using R F S(3) same Some n(2) by (auto simp: os_Remove_def attempt_def Let_def)
    note Q = os_Remove_run [OF R]
    have "?d \<noteq> p" using p by (metis append_butlast_last_id not_Cons_self2 self_append_conv)
    then have "\<exists>l m'. bind_socket F p m3 = (Inr l, m')" using bind_ok [OF F p, of m3] Q(5) [OF r3] Q(3) [of ?d] S(3) d by simp
    then show ?thesis using m1(1) L r2 n(1) R r3 by (simp add: listenUnixSocket_def)
  qed
qed

text \<open>
  C37. Binding the public socket is safe. Whatever calls fail, nothing but the path itself changes, except that directories above
  it may be made; what is there and is not a socket stays, and the call fails; a failure leaves no
  listener open, and a success leaves one new listener, reachable at the path, with the permissions for the group only.
  When no call fails, nothing but a socket is at the path and only directories are above it, it succeeds.
\<close>

theorem public_socket:
  assumes "machine_ok m" "listenUnixSocket F p m = (r, m')"
  shows "(\<forall>q. q \<noteq> p \<longrightarrow> node_at m' q = node_at m q \<or> strict_prefix q p \<and> node_at m q = None \<and> node_at m' q = Some Directory) \<and>
    (\<forall>n. node_at m p = Some n \<longrightarrow> \<not> is_socket n \<longrightarrow> node_at m' p = Some n \<and> (\<exists>e. r = Inl e)) \<and>
    (case r of
       Inl _ \<Rightarrow> opened m' = opened m
     | Inr l \<Rightarrow> l \<notin> set (opened m) \<and> opened m' = l # opened m \<and> node_at m' p = Some (SocketNode UnixSocketPerm l)) \<and>
    ((\<forall>n. F n = None) \<and> p \<noteq> [] \<and> (\<forall>q. strict_prefix q p \<longrightarrow> node_at m q \<in> {None, Some Directory}) \<and>
       (\<forall>n. node_at m p = Some n \<longrightarrow> is_socket n) \<longrightarrow> (\<exists>l. r = Inr l))"
proof (intro conjI allI impI)
  note L = listen_run [OF assms(2,1)]
  show "node_at m' q = node_at m q \<or> strict_prefix q p \<and> node_at m q = None \<and> node_at m' q = Some Directory" if "q \<noteq> p" for q
    by (rule L(1) [OF that])
  show "node_at m' p = Some n" "\<exists>e. r = Inl e" if "node_at m p = Some n" "\<not> is_socket n" for n using L(4) [OF that] by blast+
  show "case r of Inl _ \<Rightarrow> opened m' = opened m
     | Inr l \<Rightarrow> l \<notin> set (opened m) \<and> opened m' = l # opened m \<and> node_at m' p = Some (SocketNode UnixSocketPerm l)"
    using L(2,3) by (cases r) auto
  show "\<exists>l. r = Inr l" if "(\<forall>n. F n = None) \<and> p \<noteq> [] \<and> (\<forall>q. strict_prefix q p \<longrightarrow> node_at m q \<in> {None, Some Directory}) \<and>
       (\<forall>n. node_at m p = Some n \<longrightarrow> is_socket n)"
    using listen_ok [of F p m] that assms(2) by auto
qed

definition run_dir :: machine where
  \<comment> \<open>a socket left behind in \<open>/run\<close>, and a file beside it\<close>
  "run_dir = \<lparr>files = [([''run''], Directory), ([''run'', ''sock''], SocketNode 432 0), ([''run'', ''data''], OtherNode)],
     opened = [], made = 1, calls = 0\<rparr>"

lemma run_dir_ok: "machine_ok run_dir"
  by (simp add: machine_ok_def run_dir_def)

theorem public_socket_witness:
  "fst (listenUnixSocket (\<lambda>_. None) [''run'', ''sock''] run_dir) = Inr 1 \<and>
   node_at (snd (listenUnixSocket (\<lambda>_. None) [''run'', ''sock''] run_dir)) [''run'', ''data''] = Some OtherNode"
proof -
  obtain r m' where run: "listenUnixSocket (\<lambda>_. None) [''run'', ''sock''] run_dir = (r, m')" by (metis surj_pair)
  have d: "node_at run_dir [''run'', ''data''] = Some OtherNode" "[''run'', ''data''] \<noteq> [''run'', ''sock'']" by code_simp+
  have "node_at m' [''run'', ''data''] = Some OtherNode"
    using mp [OF spec [OF conjunct1 [OF public_socket [OF run_dir_ok run]], of "[''run'', ''data'']"] d(2)] d(1) by simp
  moreover have "fst (listenUnixSocket (\<lambda>_. None) [''run'', ''sock''] run_dir) = Inr 1" by code_simp
  ultimately show ?thesis using run by simp
qed

text \<open>
  C40. An instance that ends takes its successor's socket away. The check before binding asks whether the path is a socket, not whether
  anybody listens there: a second instance binds the path of a running one, and when the first ends it unlinks
  the path. The second goes on listening and nobody can reach it.
\<close>

theorem successor_stranded:
  assumes "machine_ok m" "listenUnixSocket F p m = (Inr a, m1)" "listenUnixSocket G p m1 = (Inr b, m2)"
  shows "a \<in> set (opened m2) \<and> node_at m2 p = Some (SocketNode UnixSocketPerm b) \<and>
    b \<in> set (opened (main_exit H p a m2)) \<and> node_at (main_exit H p a m2) p = None"
proof -
  note A = listen_run [OF assms(2,1)] and B = listen_run [OF assms(3) listen_run(5) [OF assms(2,1)]]
  have a: "a \<in> set (opened m2)" and b: "b \<noteq> a" "b \<in> set (opened m2)" "node_at m2 p = Some (SocketNode UnixSocketPerm b)"
    using A(2) [OF refl] B(2) [OF refl] by auto
  let ?m3 = "ln_Close p a (ln_Close p a m2)"
  obtain r m4 where R: "os_Remove H p ?m3 = (r, m4)" by (metis surj_pair)
  note Q = os_Remove_run [OF R]
  have gone: "node_at (ln_Close p a m2) p = None" using ln_Close_run(4) [OF a, of p] b(3) by simp
  then have "node_at ?m3 p = None" by (simp add: ln_Close_def)
  then have "node_at m4 p = None" using Q(4) by simp
  moreover have "b \<in> set (opened m4)" using Q(1) b(1,2) by (simp add: ln_Close_run)
  ultimately show ?thesis using a b(3) R by (simp add: main_exit_def)
qed

theorem successor_stranded_witness:
  "\<exists>m1 m2. listenUnixSocket (\<lambda>_. None) [''run'', ''sock''] run_dir = (Inr 1, m1) \<and>
     listenUnixSocket (\<lambda>_. None) [''run'', ''sock''] m1 = (Inr 2, m2) \<and> node_at (main_exit (\<lambda>_. None) [''run'', ''sock''] 1 m2) [''run'', ''sock''] = None"
proof -
  let ?p = "[''run'', ''sock'']" and ?F = "\<lambda>_. None"
  let ?m1 = "snd (listenUnixSocket ?F ?p run_dir)"
  have "fst (listenUnixSocket ?F ?p run_dir) = Inr 1" "fst (listenUnixSocket ?F ?p ?m1) = Inr 2" by code_simp+
  then have a: "listenUnixSocket ?F ?p run_dir = (Inr 1, ?m1)" and b: "listenUnixSocket ?F ?p ?m1 = (Inr 2, snd (listenUnixSocket ?F ?p ?m1))"
    by (metis prod.collapse)+
  show ?thesis using successor_stranded [OF run_dir_ok a b, of ?F] a b by blast
qed

section \<open>The private socket\<close>

text \<open>
  C38. The init command's socket is private and goes away. To the store, serving the command on a socket in a temporary directory is the boot's
  init step; when it fails before the command no listener is left, when the command has run the listener is closed, and
  when no call fails nothing is left of the directory.
\<close>

theorem init_socket_removed:
  assumes "machine_ok m" "tmp \<noteq> []" "private_init F tmp clk dl run script command (m, s) = (r, m', s')"
  shows "runInitWithPrivateSocket clk (private_socket F tmp m) (\<lambda>path. run dl [''SCOPECACHE_SOCKET_PATH='' @ path]) command s = (r, s') \<and>
    (case r of
       Inl _ \<Rightarrow> opened m' = opened m
     | Inr _ \<Rightarrow> \<exists>l m2. l \<notin> set (opened m) \<and> opened m2 = l # opened m \<and> opened m' = removeAll l (opened (script m2))) \<and>
    ((\<forall>n. F n = None) \<and> (\<forall>e. r \<noteq> Inl (CreateTempDir e)) \<longrightarrow> (\<forall>q. prefix tmp q \<longrightarrow> node_at m' q = None))"
proof -
  let ?sock = "tmp @ [''init.sock'']"
  have wiped: "node_at (snd (os_RemoveAll F tmp u)) q = None" if "\<forall>n. F n = None" "prefix tmp q" for u q
    using os_RemoveAll_run(4) [of F tmp u "Inr ()" _ "()" q] assms(2) that by (simp add: os_RemoveAll_def attempt_def Let_def)
  have kept: "opened (snd (os_RemoveAll F tmp u)) = opened u" for u
    using os_RemoveAll_run(1) [of F tmp u] by (metis prod.collapse)
  obtain r1 m1 where T: "os_MkdirTemp F tmp m = (r1, m1)" by (metis surj_pair)
  have t: "opened m1 = opened m" "made m1 = made m"
    using T unfolding os_MkdirTemp_def by (auto elim!: attempt_cases split: if_splits)
  obtain r2 m2 where L: "net_Listen F ?sock m1 = (r2, m2)" by (metis surj_pair)
  note N = net_Listen_run [OF L]
  have "(case r of Inl _ \<Rightarrow> opened m' = opened m
     | Inr _ \<Rightarrow> \<exists>l m2. l \<notin> set (opened m) \<and> opened m2 = l # opened m \<and> opened m' = removeAll l (opened (script m2))) \<and>
    ((\<forall>n. F n = None) \<and> (\<forall>e. r \<noteq> Inl (CreateTempDir e)) \<longrightarrow> (\<forall>q. prefix tmp q \<longrightarrow> node_at m' q = None))"
  proof (cases r1)
    case (Inl e)
    then show ?thesis using assms(3) T t by (auto simp: private_init_def)
  next
    case (Inr u)
    show ?thesis
    proof (cases r2)
      case r2: (Inl e)
      then have "r = Inl (ListenInit e)" "m' = snd (os_RemoveAll F tmp m2)" using assms(3) T Inr L by (simp_all add: private_init_def Let_def)
      then show ?thesis using kept wiped N(2) [OF r2] t by simp
    next
      case r2: (Inr l)
      note l = N(3) [OF r2]
      obtain x where x: "r = Inr x" "m' = snd (os_RemoveAll F tmp (ln_Close ?sock l (script m2)))"
        using assms(3) T Inr L r2 by (auto simp: private_init_def Let_def split: prod.splits)
      have "l \<notin> set (opened m)" using l t assms(1) by (auto simp: machine_ok_def)
      then show ?thesis using x kept wiped l t by (auto simp: ln_Close_run intro!: exI [of _ l] exI [of _ m2])
    qed
  qed
  with private_init_refines [OF assms(3)] show ?thesis by blast
qed

theorem init_socket_removed_witness:
  "\<exists>r m' s'. private_init (\<lambda>_. None) [''tmp''] clk0 None (\<lambda>_ _ _ s. (None :: string option, serve clk0 (Append item1) s)) (\<lambda>m. m) ''init'' (run_dir, boot0) = (r, m', s') \<and>
     node_at m' [''tmp'', ''init.sock''] = None"
proof -
  let ?i = "private_init (\<lambda>_. None) [''tmp''] clk0 None (\<lambda>_ _ _ s. (None :: string option, serve clk0 (Append item1) s)) (\<lambda>m. m) ''init'' (run_dir, boot0)"
  obtain r m' s' where run: "?i = (r, m', s')" by (metis prod_cases3)
  have ne: "[''tmp''] \<noteq> []" by simp
  have "case fst ?i of Inl (CreateTempDir _) \<Rightarrow> False | _ \<Rightarrow> True" by code_simp
  then have "\<forall>e. r \<noteq> Inl (CreateTempDir e)" using run by auto
  then have "\<forall>q. prefix [''tmp''] q \<longrightarrow> node_at m' q = None"
    using init_socket_removed [OF run_dir_ok ne run] by simp
  then have "node_at m' [''tmp'', ''init.sock''] = None" by simp
  with run show ?thesis by blast
qed

section \<open>The process group of a command\<close>

text \<open>
  C39. Cancelling a command kills its descendants and nobody else. From the start of a subscriber's command or the init command, whatever
  processes fork, exit or leave their groups meanwhile, the cancellation kills the command and every descendant that has not left the group for
  one of its own, and no process that does not descend from it.
\<close>

theorem cancel_kills_group:
  assumes "c = subscriberCmd environ scope command \<or> c = initCmd environ extraEnv command"
    and "unused n ps0" "(proc_step n)\<^sup>*\<^sup>* (start_cmd c g n ps0) ps"
  shows "set (cancel_cmd c (Some n) ps) = {p \<in> set ps. origin p \<noteq> Some n \<or> has_left p}"
proof -
  have c: "c_Setpgid c" "c_killsGroup c" using assms(1) by (auto simp: subscriberCmd_def initCmd_def configureProcessGroup_def)
  from kill_group_exact [OF in_group_steps [OF assms(3) start_in_group [OF assms(2) c(1)]]]
  show ?thesis using c(2) by (simp add: cancel_cmd_def)
qed

definition cache_proc :: proc where
  "cache_proc = \<lparr>pid = 1, pgid = 1, origin = None, has_left = False\<rparr>"

definition script_proc :: proc where
  "script_proc = \<lparr>pid = 7, pgid = 7, origin = Some 7, has_left = False\<rparr>"

theorem cancel_kills_group_witness:
  "(proc_step 7)\<^sup>*\<^sup>* (start_cmd (subscriberCmd [] ''_events'' ''drain'') 1 7 [cache_proc]) [script_proc\<lparr>pid := 8\<rparr>, script_proc, cache_proc] \<and>
   set (cancel_cmd (subscriberCmd [] ''_events'' ''drain'') (Some 7) [script_proc\<lparr>pid := 8\<rparr>, script_proc, cache_proc]) = {cache_proc}"
proof -
  have s: "start_cmd (subscriberCmd [] ''_events'' ''drain'') 1 7 [cache_proc] = [script_proc, cache_proc]" by code_simp
  have "proc_step 7 [script_proc, cache_proc] ([script_proc\<lparr>pid := 8\<rparr>, script_proc, cache_proc])"
    by (rule proc_step.fork) (simp_all add: unused_def script_proc_def cache_proc_def)
  then have r: "(proc_step 7)\<^sup>*\<^sup>* (start_cmd (subscriberCmd [] ''_events'' ''drain'') 1 7 [cache_proc]) [script_proc\<lparr>pid := 8\<rparr>, script_proc, cache_proc]"
    unfolding s by (rule r_into_rtranclp)
  have "unused 7 [cache_proc]" by (simp add: unused_def cache_proc_def)
  note cancel_kills_group [OF disjI1 [OF refl] this r]
  also have "{p \<in> set [script_proc\<lparr>pid := 8\<rparr>, script_proc, cache_proc]. origin p \<noteq> Some 7 \<or> has_left p} = {cache_proc}"
    by (rule set_eqI) (auto simp: script_proc_def cache_proc_def)
  finally have "set (cancel_cmd (subscriberCmd [] ''_events'' ''drain'') (Some 7) [script_proc\<lparr>pid := 8\<rparr>, script_proc, cache_proc]) = {cache_proc}" .
  with r show ?thesis by blast
qed

lemma orphan_without_group:
  \<comment> \<open>where there are no process groups, a child of the script outlives it\<close>
  "\<exists>ps p. (proc_step 7)\<^sup>*\<^sup>* (start_cmd (configureProcessGroup_other (exec_CommandContext ''drain'')) 1 7 [cache_proc]) ps \<and>
     p \<in> set (cancel_cmd (configureProcessGroup_other (exec_CommandContext ''drain'')) (Some 7) ps) \<and> origin p = Some 7 \<and> \<not> has_left p"
proof -
  let ?c = "configureProcessGroup_other (exec_CommandContext ''drain'')" and ?q = "script_proc\<lparr>pgid := 1\<rparr>"
  have s: "start_cmd ?c 1 7 [cache_proc] = [?q, cache_proc]" by code_simp
  have "proc_step 7 [?q, cache_proc] [?q\<lparr>pid := 8\<rparr>, ?q, cache_proc]"
    by (rule proc_step.fork) (simp_all add: unused_def script_proc_def cache_proc_def)
  then have "(proc_step 7)\<^sup>*\<^sup>* (start_cmd ?c 1 7 [cache_proc]) [?q\<lparr>pid := 8\<rparr>, ?q, cache_proc]" unfolding s by (rule r_into_rtranclp)
  moreover have "?q\<lparr>pid := 8\<rparr> \<in> set (cancel_cmd ?c (Some 7) [?q\<lparr>pid := 8\<rparr>, ?q, cache_proc])"
    by (simp add: cancel_cmd_def configureProcessGroup_other_def exec_CommandContext_def kill_one_def)
  ultimately show ?thesis by (intro exI [of _ "[?q\<lparr>pid := 8\<rparr>, ?q, cache_proc]"] exI [of _ "?q\<lparr>pid := 8\<rparr>"]) (simp add: script_proc_def)
qed

end
