(* ===== verification/Spec2Isabelle.thy ===== *)
theory Spec2Isabelle
  imports StoreProps InterleaveProps ClientProps LocalProps RaceProps HttpProps GatewayProps BridgeProps AdapterProps LaunchProps
begin

text \<open>
  A verification development for \<open>scopecache\<close>, an in-memory cache of scoped, append-ordered items
  behind an HTTP and a Go interface (\<open>src/\<close>).

  The program. A store (\<open>store.go\<close>) holds scopes; a scope is a buffer (\<open>buffer*.go\<close>) of items in the
  order they were appended, each with a seq, an optional id and a JSON payload, indexed by id and by
  seq. Writes reserve bytes against a store-wide cap before they change a buffer. Two scopes are
  reserved: \<open>_events\<close>, to which each write appends an envelope describing it (\<open>events.go\<close>), and
  \<open>_inbox\<close>; a subscriber is woken when one of them grows (\<open>subscribe.go\<close>). Bulk operations replace
  some scopes or the whole store (\<open>bulk.go\<close>). Input is checked before anything else (\<open>validation.go\<close>).
  Clients reach the store over HTTP (\<open>handlers*.go\<close>) or, in the same process, through the gateway
  (\<open>gateway*.go\<close>), which copies every payload it takes or hands out. Two adapters run it, a binary
  (\<open>cmd/scopecache/main.go\<close>) and a Caddy module (\<open>caddymodule/module.go\<close>); both run the init command
  (\<open>init_command.go\<close>) and then start the subscribers (\<open>subscriber_command.go\<close>) an operator configured.

  Theories and what they model: the standard library and the store.
  \<^item> \<open>Prelude\<close>: 64-bit integers and wrap-around, byte strings, Go maps and slices.
  \<^item> \<open>GoText\<close>, \<open>GoJson\<close>, \<open>JsonDecode\<close>: what the cache uses of Go's \<open>strconv\<close>, \<open>strings\<close>, \<open>unicode/utf8\<close> and
    \<open>encoding/json\<close>: the scanner is a pushdown machine with one step per byte and its nesting limit;
    the decoder takes one value off a body that may be cut short.
  \<^item> \<open>Types\<close> (\<open>types.go\<close>): limits, \<open>Config\<close> and its defaults, items, counter cells, error values, the size
    formulas. \<open>Validation\<close> (\<open>validation.go\<close>): every validator and the grouping of a batch.
  \<^item> \<open>Admission\<close> (\<open>store.go\<close>): the store's atomics, caps and \<open>reserveBytes\<close>; the locale \<open>byte_budget\<close>
    states what a reservation promises.
  \<^item> \<open>Buffer\<close>, \<open>BufferOps\<close>, \<open>BufferRead\<close>, \<open>BufferCounter\<close>, \<open>BufferReplace\<close> (\<open>buffer*.go\<close>): the buffer and its
    methods, each one atomic step under the buffer's mutex. \<open>BufferContract\<close> states as the locale
    \<open>buffer_op\<close> what every write method keeps of the buffer's invariant and what it does to the byte
    total; the methods are its interpretations.
  \<^item> \<open>Shards\<close> (\<open>store.go\<close>): the sharded directory, an instance of the locale \<open>scope_dir\<close> of a map, for any
    hash seed; \<open>Subscribe\<close> (\<open>subscribe.go\<close>); \<open>Events\<close> (\<open>events.go\<close>): the envelope and its encoding.
  \<^item> \<open>Store\<close>: the store's single-item, delete and read operations with the events they emit;
    \<open>StoreClient\<close>: scope deletion, statistics and the scope list; \<open>Bulk\<close>: wipe, warm and rebuild.
  \<^item> \<open>StoreInv\<close>, \<open>StoreOps\<close>, \<open>BulkInv\<close>, \<open>RebuildInv\<close>: the invariant of the store and that every operation
    keeps it. \<open>StoreSpec\<close>, \<open>CounterSpec\<close>, \<open>ReadSpec\<close>: the abstract store (a map from scopes to a last seq and
    items) and what each operation does to it.
  \<^item> \<open>Reach\<close>: the store as a state machine with one step per request. Its locale \<open>store_client\<close> is the contract
    of whatever calls the store: a call is at most one legal step of the machine. From it follow that
    calls keep a state reachable, keep the configuration and never meet a broken store. HTTP
    requests, gateway calls and the start of a subscriber are its three interpretations.
  \<^item> \<open>CasBudget\<close>: the compare-and-swap loop of \<open>reserveBytes\<close> step by step under every interleaving.
  \<^item> \<open>Locks\<close>: the mutexes of shards, buffers and subscribers (\<open>lockShards\<close> and the others of \<open>store.go\<close>), the calls
    each operation makes of them, and any number of operations side by side; the locale \<open>lock_user\<close> is the
    contract, that mutexes are taken in ascending order and given back.
  \<^item> \<open>Sections\<close> (\<open>store.go\<close>, \<open>events.go\<close>): each operation as a program of its critical sections, what it does
    under one mutex being one of them; at most fifteen, and run without interruption they give what the
    operation in one piece gives. \<open>Interleave\<close>: any number of such programs side by side, arriving at any time, and
    what it means that one order of specified effects explains a run. \<open>InterleaveOps\<close>: every section of every
    operation keeps the invariant. \<open>Effects\<close>: each request takes effect in one of its sections, as specified.

  The interfaces of the store.
  \<^item> \<open>Responses\<close>, \<open>ErrorText\<close>, \<open>Http\<close> (\<open>handlers.go\<close>, the error types): the bodies the cache writes, the texts of
    the errors, query strings as \<open>net/url\<close> parses them, \<open>decodeBody\<close>, and the caps of \<open>NewAPI\<close> (\<open>api.go\<close>).
    \<open>Handlers\<close> (\<open>handlers_*.go\<close>): each endpoint from a request and a store to a response and a store, and the
    table of \<open>RegisterRoutes\<close>.
  \<^item> \<open>JsonValid\<close>, \<open>EncScan\<close>, \<open>BodyValid\<close>: a body the cache encodes is one JSON value its own scanner accepts, or
    encoding fails because the value nests deeper than the scanner allows. \<open>HttpSpec\<close>: a request is one
    step of the store and does not panic. \<open>PageSpec\<close>: which reads can be answered, and with which status.
  \<^item> \<open>Gateway\<close> (\<open>gateway.go\<close>, \<open>gateway_clone.go\<close>): payloads are slices into a heap of byte arrays that the
    caller may write to; each method clones, calls the store and clones what it returns.
  \<^item> \<open>Bridge\<close>: a subscriber's goroutine as a step relation beside the subscription hub, the order in which
    subscribers are started and stopped, and what the init command leaves.
  \<^item> \<open>Adapters\<close>: the environment parsers and the boot of the binary; the configuration, the checks, the
    Caddyfile directive, the boot and the cleanup of the Caddy module.
  \<^item> \<open>Machine\<close>: what the adapters use of the operating system, a file tree, Unix listeners and processes in
    groups, where any call may fail. \<open>Launch\<close> (\<open>main.go\<close>, \<open>module.go\<close>, \<open>subscriber_command*.go\<close>): the public socket,
    the private one of the init command, \<open>main\<close> from start to end, the commands and their process groups, the dispatch of \<open>ServeHTTP\<close>.

  The properties, each with a number, stand in \<open>StoreProps\<close> (the invariant, refinement of the abstract store,
  events, bulk operations), \<open>InterleaveProps\<close> (requests side by side: linearizability, accounting, termination, and what
  clients can see that no order of whole requests explains), \<open>HttpProps\<close>, \<open>GatewayProps\<close>, \<open>ClientProps\<close> (counters, paging),
  \<open>LocalProps\<close> (texts), \<open>RaceProps\<close> (reservations, mutexes, \<open>/warm\<close>), \<open>BridgeProps\<close>,
  \<open>AdapterProps\<close> and \<open>LaunchProps\<close>; lemmas beside them state what is useful and less central, as the
  windows of \<open>/head\<close> and \<open>/tail\<close> and the pages of the scope list. \<open>Samples\<close> holds the stores and requests their witnesses evaluate.

  How the state corresponds. A Go map is an optional finite mapping (nil or not); a pointer to a buffer
  is an index into the list of buffers ever made, a pointer to a counter cell an index into the list
  of cells, a slice outside the gateway its bytes. A fallible call returns a sum, \<open>Inl\<close> the error. \<open>int64\<close>
  arithmetic is written with \<open>wrap64\<close>, \<open>uint64\<close> is a 64-bit word. Operations of the store run one at a time,
  except in \<open>CasBudget\<close>, \<open>Locks\<close>, \<open>Sections\<close>, \<open>Interleave\<close> and what is built on them, and for the goroutines of \<open>Bridge\<close>. There the
  grain is the critical section: two sections that run in parallel hold different mutexes and share only atomics, whose
  updates commute with each other, so some order of whole sections has the same outcome. The increment of an existing
  counter, which holds the buffer's mutex for reading only, is one section. A path of the file tree is the list of its components.

  Parameters. Clock readings and the durations handlers report are sequences passed in, and no property
  assumes anything of them. The hash seed of the directory is arbitrary. The order in which a \<open>range\<close>
  over a batch visits the map is a function; \<open>batch_range\<close> says that it permutes what it is given. \<open>bulk_fits\<close> says that the
  sizes of one batch sum to less than the integers hold, which any batch that fits in memory does. \<open>strconv.Quote\<close>, the execution of commands, Caddy's token dispenser and the environment are functions.

  Bounds and fuel. A state reached by fewer than \<open>2 ^ 62\<close> requests has seqs and counters far from wrapping, so the
  invariant carries no overflow clause of its own. Loops over a list recurse on it. Where the
  recursion is on a number instead: \<open>trim_front\<close> is given the length of the string, and each round removes
  a character at least; a client that pages (\<open>page_all\<close>, \<open>read_pages\<close>) stops with None when the number is used up,
  and the property says how many pages are enough; \<open>fit_size\<close> is given 3, the bound of the code's own
  loop. The Caddyfile loop is a partial function of the dispenser's answers and gives None when it does not end.

  Not modelled.
  \<^item> What an executable does: for the bridge a run is a state that lasts until the process exits, for the init command
    a function from the store to the store it leaves and the error it gives, and one on the file tree. Of
    processes there are pids, groups and kills, not the reuse of a pid that has been waited for.
  \<^item> The HTTP server of the standard library, its timeouts and the wait for a signal: calls with no decision of the cache's own.
    In \<open>scopecache_main\<close> they are one parameter, all that happens until the server has shut down; a subscriber is stopped at
    the end of it. Symbolic links and the permissions of directories: the file tree has none, and a
    system call that fails has done nothing.
  \<^item> The mux, response headers other than the content type, and streaming: a request is its method, cleaned path, query
    and complete body, a response its status, content type and body.
  \<^item> The registration of the module with Caddy and its directive order (\<open>CaddyModule\<close>, \<open>init\<close>): calls into Caddy.
  \<^item> Log lines and warnings: written and never read. \<open>nowUnixMicro\<close>: the clock parameter. The default socket
    path of a platform (\<open>socket_linux.go\<close>, \<open>socket_other.go\<close>) and the name of a temporary directory: parameters.
  \<^item> \<open>/warm\<close> among the interleaved requests: it keeps its shards locked from one section to the next, which sections do not
    express. \<open>RaceProps\<close> has the schedule that matters, in which it takes the store over its cap.
  \<^item> Parallelism inside a section, and Go's memory model.
\<close>

end
